(* ===== verification/Prelude.thy ===== *)
theory Prelude
  imports Main "HOL-Library.Word" "HOL-Library.Sublist" "HOL-Library.Multiset"
    "HOL-Library.Char_ord" "HOL-Library.List_Lexorder"
begin

text \<open>
  Shared ground of the development: bytes and C strings, the parts of the C and C++ standard
  library the components call (\<open>strcmp\<close>, \<open>std::string::find\<close>, character classes, swapping two
  slots of a vector, little-endian dumps of integers), and the generic lemmas about them.

  A \<open>char\<close> of the program is a HOL \<open>char\<close> (eight bits). Strings compare by unsigned bytes, which
  is the order of \<open>Char_ord\<close> and \<open>List_Lexorder\<close>, so \<open>s < t\<close> is \<open>strcmp(s, t) < 0\<close>.
\<close>

named_theorems cstring_simps "C strings stored in byte buffers"
named_theorems find_simps "searching a string for a pattern"
named_theorems codec_simps "little-endian encodings and files"

type_synonym bytes = "char list"

section \<open>Characters\<close>

abbreviation NUL :: char where "NUL \<equiv> CHR 0x00"

text \<open>The value of an \<open>unsigned char\<close> and of a (signed) \<open>char\<close>.\<close>

definition uchar :: "char \<Rightarrow> nat" where
  "uchar c = of_char c"

definition schar :: "char \<Rightarrow> int" where
  "schar c = (if uchar c < 128 then int (uchar c) else int (uchar c) - 256)"

text \<open>Storing an integer into a \<open>char\<close> keeps its low eight bits.\<close>

definition to_char :: "int \<Rightarrow> char" where
  "to_char i = char_of (nat (i mod 256))"

definition is_neg :: "char \<Rightarrow> bool" where
  "is_neg c \<longleftrightarrow> schar c < 0"

definition c_isspace :: "char \<Rightarrow> bool" where
  "c_isspace c \<longleftrightarrow> uchar c = 32 \<or> (9 \<le> uchar c \<and> uchar c \<le> 13)"

definition c_isdigit :: "char \<Rightarrow> bool" where
  "c_isdigit c \<longleftrightarrow> 48 \<le> uchar c \<and> uchar c \<le> 57"

definition c_isupper :: "char \<Rightarrow> bool" where
  "c_isupper c \<longleftrightarrow> 65 \<le> uchar c \<and> uchar c \<le> 90"

definition c_islower :: "char \<Rightarrow> bool" where
  "c_islower c \<longleftrightarrow> 97 \<le> uchar c \<and> uchar c \<le> 122"

definition c_isalnum :: "char \<Rightarrow> bool" where
  "c_isalnum c \<longleftrightarrow> c_isdigit c \<or> c_isupper c \<or> c_islower c"

definition c_tolower :: "char \<Rightarrow> char" where
  "c_tolower c = (if c_isupper c then char_of (uchar c + 32) else c)"

definition c_toupper :: "char \<Rightarrow> char" where
  "c_toupper c = (if c_islower c then char_of (uchar c - 32) else c)"

lemma uchar_less: "uchar c < 256"
  using of_char_mod_256 [of c, where 'a = nat] by (simp add: uchar_def mod_eq_self_iff_div_eq_0)

lemma uchar_eq_iff: "uchar c = uchar d \<longleftrightarrow> c = d"
  by (simp add: uchar_def)

lemma uchar_char_of [simp]: "uchar (char_of n) = n mod 256"
  by (simp add: uchar_def)

lemma char_of_uchar [simp]: "char_of (uchar c) = c"
  by (simp add: uchar_def)

lemma uchar_NUL [simp]: "uchar NUL = 0"
  by (simp add: uchar_def)

lemma to_char_schar [simp]: "to_char (schar c) = c"
  using uchar_less [of c] by (simp add: to_char_def schar_def nat_mod_distrib)

lemma is_neg_iff: "is_neg c \<longleftrightarrow> 128 \<le> uchar c"
  using uchar_less [of c] by (auto simp: is_neg_def schar_def)

section \<open>C strings\<close>

text \<open>What \<open>std::string(p)\<close>, \<open>strcpy\<close> or \<open>strlen\<close> see of a byte sequence: up to the first NUL.\<close>

definition cstr :: "bytes \<Rightarrow> bytes" where
  "cstr s = takeWhile (\<lambda>c. c \<noteq> NUL) s"

text \<open>The C string that starts at offset \<open>off\<close> of a buffer.\<close>

definition cstr_at :: "bytes \<Rightarrow> nat \<Rightarrow> bytes" where
  "cstr_at buf off = cstr (drop off buf)"

definition nul_free :: "bytes \<Rightarrow> bool" where
  "nul_free s \<longleftrightarrow> NUL \<notin> set s"

text \<open>\<open>strcmp\<close>: only the sign is specified, and only the sign is used.\<close>

definition strcmp :: "bytes \<Rightarrow> bytes \<Rightarrow> int" where
  "strcmp s t = (if s < t then -1 else if s = t then 0 else 1)"

lemma strcmp_less [simp]: "strcmp s t < 0 \<longleftrightarrow> s < t"
  by (simp add: strcmp_def)

lemma strcmp_greater [simp]: "0 < strcmp s t \<longleftrightarrow> t < s"
  by (auto simp: strcmp_def)

lemma strcmp_ge [simp]: "0 \<le> strcmp s t \<longleftrightarrow> t \<le> s"
  by (auto simp: strcmp_def)

lemma strcmp_eq [simp]: "strcmp s t = 0 \<longleftrightarrow> s = t"
  by (auto simp: strcmp_def)

lemma nul_free_cstr [simp]: "nul_free (cstr s)"
  by (auto simp: nul_free_def cstr_def dest: set_takeWhileD)

lemma cstr_nul_free: "nul_free s \<Longrightarrow> cstr s = s"
  by (induction s) (auto simp: nul_free_def cstr_def)

lemma cstr_append_NUL [cstring_simps]: "cstr (cstr s @ NUL # t) = cstr s"
  by (induction s) (auto simp: cstr_def)

lemma cstr_word_NUL [cstring_simps]: "nul_free w \<Longrightarrow> cstr (w @ NUL # t) = w"
  using cstr_append_NUL [of w t] by (simp add: cstr_nul_free)

lemma cstr_at_stored [cstring_simps]:
  "nul_free w \<Longrightarrow> cstr_at (pre @ w @ NUL # post) (length pre) = w"
  by (simp add: cstr_at_def cstr_word_NUL)

text \<open>Growing a buffer at its end keeps the strings that were terminated inside it.\<close>

definition terminated_at :: "bytes \<Rightarrow> nat \<Rightarrow> bool" where
  "terminated_at buf off \<longleftrightarrow> NUL \<in> set (drop off buf)"

lemma cstr_append_keep: "NUL \<in> set s \<Longrightarrow> cstr (s @ t) = cstr s"
  unfolding cstr_def by (induction s) auto

lemma cstr_at_append [cstring_simps]:
  "terminated_at buf off \<Longrightarrow> cstr_at (buf @ more) off = cstr_at buf off"
proof -
  assume t: "terminated_at buf off"
  then have "off \<le> length buf"
    by (metis drop_all empty_iff empty_set linorder_le_cases terminated_at_def)
  with t show ?thesis
    by (simp add: cstr_at_def terminated_at_def cstr_append_keep)
qed

lemma terminated_at_append [cstring_simps]:
  "terminated_at buf off \<Longrightarrow> terminated_at (buf @ more) off"
  by (auto simp: terminated_at_def)

lemma terminated_at_stored [cstring_simps]:
  "terminated_at (pre @ w @ NUL # post) (length pre)"
  by (simp add: terminated_at_def)

section \<open>Searching a string\<close>

text \<open>\<open>s.find(pat)\<close>: the least position where \<open>pat\<close> occurs; \<open>None\<close> is \<open>npos\<close>.\<close>

fun find_sub :: "'a list \<Rightarrow> 'a list \<Rightarrow> nat option" where
  "find_sub [] pat = (if pat = [] then Some 0 else None)"
| "find_sub (c # cs) pat =
     (if prefix pat (c # cs) then Some 0 else map_option Suc (find_sub cs pat))"

text \<open>\<open>s.find(pat, pos)\<close>, with the position relative to the whole string.\<close>

definition find_from :: "'a list \<Rightarrow> 'a list \<Rightarrow> nat \<Rightarrow> nat option" where
  "find_from s pat pos =
     (if length s < pos then None else map_option (\<lambda>i. pos + i) (find_sub (drop pos s) pat))"

definition occurs_at :: "'a list \<Rightarrow> 'a list \<Rightarrow> nat \<Rightarrow> bool" where
  "occurs_at s pat i \<longleftrightarrow> i \<le> length s \<and> prefix pat (drop i s)"

lemma occurs_at_Cons_Suc: "occurs_at (c # cs) pat (Suc i) \<longleftrightarrow> occurs_at cs pat i"
  by (simp add: occurs_at_def)

lemma find_sub_Some [find_simps]:
  "find_sub s pat = Some i \<longleftrightarrow> occurs_at s pat i \<and> (\<forall>j < i. \<not> occurs_at s pat j)"
proof (induction s arbitrary: i)
  case Nil
  then show ?case by (auto simp: occurs_at_def)
next
  case (Cons c cs)
  show ?case
  proof (cases "prefix pat (c # cs)")
    case True
    then show ?thesis by (auto simp: occurs_at_def intro: ccontr)
  next
    case False
    then have "\<not> occurs_at (c # cs) pat 0" by (simp add: occurs_at_def)
    with False Cons.IH show ?thesis
      by (cases i) (auto simp: occurs_at_Cons_Suc All_less_Suc2)
  qed
qed

lemma find_sub_None [find_simps]: "find_sub s pat = None \<longleftrightarrow> (\<forall>i. \<not> occurs_at s pat i)"
proof (induction s)
  case Nil
  then show ?case by (auto simp: occurs_at_def)
next
  case (Cons c cs)
  show ?case
  proof (cases "prefix pat (c # cs)")
    case True
    then show ?thesis by (auto simp: occurs_at_def)
  next
    case False
    then have "\<not> occurs_at (c # cs) pat 0" by (simp add: occurs_at_def)
    with False Cons.IH show ?thesis
      by (simp add: occurs_at_Cons_Suc) (metis not0_implies_Suc occurs_at_Cons_Suc)
  qed
qed

lemma find_sub_bound: "find_sub s pat = Some i \<Longrightarrow> i + length pat \<le> length s"
  by (auto simp: find_sub_Some occurs_at_def dest!: prefix_length_le)

lemma find_sub_split:
  "find_sub s pat = Some i \<Longrightarrow> s = take i s @ pat @ drop (i + length pat) s"
  by (auto simp: find_sub_Some occurs_at_def prefix_def)
    (metis add.commute append_eq_conv_conj append_take_drop_id drop_drop)

lemma find_sub_Nil_pat [simp]: "find_sub s [] = Some 0"
  by (cases s) auto

section \<open>Vectors\<close>

definition list_swap :: "'a list \<Rightarrow> nat \<Rightarrow> nat \<Rightarrow> 'a list" where
  "list_swap xs i j = xs[i := xs ! j, j := xs ! i]"

lemma length_list_swap [simp]: "length (list_swap xs i j) = length xs"
  by (simp add: list_swap_def)

lemma nth_list_swap:
  "i < length xs \<Longrightarrow> j < length xs \<Longrightarrow> k < length xs \<Longrightarrow>
   list_swap xs i j ! k = (if k = i then xs ! j else if k = j then xs ! i else xs ! k)"
  by (auto simp: list_swap_def nth_list_update)

lemma mset_list_swap [simp]:
  "i < length xs \<Longrightarrow> j < length xs \<Longrightarrow> mset (list_swap xs i j) = mset xs"
  by (simp add: list_swap_def mset_swap)

lemma set_list_swap [simp]:
  "i < length xs \<Longrightarrow> j < length xs \<Longrightarrow> set (list_swap xs i j) = set xs"
  by (metis mset_list_swap set_mset_mset)

lemma sorted_wrt_map_filter:
  "sorted_wrt R (map f xs) \<Longrightarrow> sorted_wrt R (map f (filter P xs))"
  by (induction xs) auto

section \<open>Integers in files and memory\<close>

text \<open>The little-endian dump of an unsigned integer of \<open>k\<close> bytes, and reading it back.\<close>

fun le_bytes :: "nat \<Rightarrow> nat \<Rightarrow> bytes" where
  "le_bytes 0 n = []"
| "le_bytes (Suc k) n = char_of (n mod 256) # le_bytes k (n div 256)"

fun le_val :: "bytes \<Rightarrow> nat" where
  "le_val [] = 0"
| "le_val (b # bs) = uchar b + 256 * le_val bs"

lemma length_le_bytes [simp]: "length (le_bytes k n) = k"
  by (induction k arbitrary: n) auto

lemma le_val_le_bytes [codec_simps]: "le_val (le_bytes k n) = n mod 256 ^ k"
proof (induction k arbitrary: n)
  case 0
  then show ?case by simp
next
  case (Suc k)
  have "n mod 256 + 256 * (n div 256 mod 256 ^ k) = n mod (256 * 256 ^ k)"
    by (simp add: mod_mult2_eq add.commute)
  with Suc show ?case by simp
qed

lemma le_bytes_le_val [codec_simps]: "length bs = k \<Longrightarrow> le_bytes k (le_val bs) = bs"
proof (induction bs arbitrary: k)
  case Nil
  then show ?case by simp
next
  case (Cons b bs)
  then show ?case using uchar_less [of b] by auto
qed

text \<open>\<open>fread\<close> of \<open>k\<close> bytes: \<open>None\<close> when the file is shorter.\<close>

definition fread :: "nat \<Rightarrow> bytes \<Rightarrow> (bytes \<times> bytes) option" where
  "fread k f = (if k \<le> length f then Some (take k f, drop k f) else None)"

lemma fread_append [codec_simps]: "length b = k \<Longrightarrow> fread k (b @ f) = Some (b, f)"
  by (simp add: fread_def)

text \<open>\<open>while (fgets(line, n, fp))\<close>: the lines of a file, at most \<open>n - 1\<close> bytes each.\<close>

definition fgets_line :: "nat \<Rightarrow> bytes \<Rightarrow> bytes" where
  "fgets_line n f =
     (let t = take (n - 1) f; l = takeWhile (\<lambda>c. c \<noteq> CHR 0x0A) t
      in take (Suc (length l)) t)"

function fgets_lines :: "nat \<Rightarrow> bytes \<Rightarrow> bytes list" where
  "fgets_lines n f =
     (if n < 2 \<or> f = [] then []
      else fgets_line n f # fgets_lines n (drop (length (fgets_line n f)) f))"
  by pat_completeness auto
termination
  by (relation "measure (\<lambda>(n, f). length f)") (auto simp: fgets_line_def Let_def)

declare fgets_lines.simps [simp del]

text \<open>The lines are the file, cut.\<close>

lemma concat_fgets_lines: "2 \<le> n \<Longrightarrow> concat (fgets_lines n f) = f"
proof (induction n f rule: fgets_lines.induct)
  case (1 n f)
  have "fgets_line n f = take (length (fgets_line n f)) f"
    by (simp add: fgets_line_def Let_def min_def)
  then have "fgets_line n f @ drop (length (fgets_line n f)) f = f" by (metis append_take_drop_id)
  with 1 show ?case by (cases "f = []") (auto simp: fgets_lines.simps [of n f] fgets_lines.simps [of n "[]"])
qed

text \<open>\<open>while (getline(fin, line))\<close>\<close>

function stream_lines :: "bytes \<Rightarrow> bytes list" where
  "stream_lines s =
     (if s = [] then []
      else takeWhile (\<lambda>c. c \<noteq> CHR 0x0A) s # stream_lines (tl (dropWhile (\<lambda>c. c \<noteq> CHR 0x0A) s)))"
  by pat_completeness auto
termination
proof (relation "measure length")
  fix s :: bytes
  assume "s \<noteq> []"
  then have "0 < length s" by simp
  moreover have "length (dropWhile (\<lambda>c. c \<noteq> CHR 0x0A) s) \<le> length s" by (rule length_dropWhile_le)
  ultimately have "length (dropWhile (\<lambda>c. c \<noteq> CHR 0x0A) s) - 1 < length s" by linarith
  then show "(tl (dropWhile (\<lambda>c. c \<noteq> CHR 0x0A) s), s) \<in> measure length" by simp
qed simp

declare stream_lines.simps [simp del]

end
