(* ===== verification/VectorSort.thy ===== *)
theory VectorSort
  imports Prelude
begin

text \<open>
  The two quicksorts of the index code, \<open>CHashVector_Enhanced::QSort\<close>
  (\<open>src/include/HashVector_Enhanced.h\<close>) and \<open>CommonIndex::QSort\<close> (\<open>src/include/common_index.h\<close>), share
  the same scanning loops over a \<open>std::vector\<close>. They are defined here once, over the comparison
  with the pivot (\<open>goL\<close>: the element belongs left of it, \<open>goR\<close>: right of it) and the element swap
  \<open>wap\<close> of the class. Indices are C++ \<open>int\<close>s. The two locales give what the callers rely on: what a
  partition leaves behind, and that a quicksort over such a partition sorts.
\<close>

section \<open>The scanning loops\<close>

text \<open>\<open>Wap(vect[i], vect[j])\<close>: the class decides what swapping two nodes does.\<close>

definition wap_at :: "('n \<Rightarrow> 'n \<Rightarrow> 'n \<times> 'n) \<Rightarrow> 'n list \<Rightarrow> int \<Rightarrow> int \<Rightarrow> 'n list" where
  "wap_at wap v i j =
     (let (a, b) = wap (v ! nat i) (v ! nat j) in v[nat i := a, nat j := b])"

function part_up :: "('n \<Rightarrow> bool) \<Rightarrow> 'n list \<Rightarrow> int \<Rightarrow> int \<Rightarrow> int" where
  "part_up goL v left right =
     (if left < right \<and> goL (v ! nat left) then part_up goL v (left + 1) right else left)"
  by pat_completeness auto
termination by (relation "measure (\<lambda>(goL, v, left, right). nat (right - left))") auto

function part_down :: "('n \<Rightarrow> bool) \<Rightarrow> 'n list \<Rightarrow> int \<Rightarrow> int \<Rightarrow> int \<Rightarrow> int" where
  "part_down goR v key left right =
     (if left \<le> right \<and> key < right \<and> goR (v ! nat right)
      then part_down goR v key left (right - 1) else right)"
  by pat_completeness auto
termination by (relation "measure (\<lambda>(goR, v, key, left, right). nat (right - key))") auto

declare part_up.simps [simp del] part_down.simps [simp del]

lemma part_up_bounds: "left \<le> part_up goL v left right \<and> (left \<le> right \<longrightarrow> part_up goL v left right \<le> right)"
proof (induction goL v left right rule: part_up.induct)
  case (1 goL v left right)
  then show ?case by (subst (1 2) part_up.simps) auto
qed

lemma part_down_bounds:
  "part_down goR v key left right \<le> right \<and>
   (left \<le> right + 1 \<longrightarrow> left \<le> part_down goR v key left right + 1) \<and>
   (key \<le> right \<longrightarrow> key \<le> part_down goR v key left right)"
proof (induction goR v key left right rule: part_down.induct)
  case (1 goR v key left right)
  then show ?case by (subst (1 2 3) part_down.simps) auto
qed

function part_loop ::
    "('n \<Rightarrow> 'n \<Rightarrow> 'n \<times> 'n) \<Rightarrow> ('n \<Rightarrow> bool) \<Rightarrow> ('n \<Rightarrow> bool) \<Rightarrow> 'n list \<Rightarrow> int \<Rightarrow> int \<Rightarrow> int
       \<Rightarrow> 'n list \<times> int \<times> int" where
  "part_loop wap goL goR v key left right =
     (if left < right then
        let l = part_up goL v left right; r = part_down goR v key l right
        in if l < r then part_loop wap goL goR (wap_at wap v l r) key (l + 1) (r - 1)
           else (v, l, r)
      else (v, left, right))"
  by pat_completeness auto
termination
proof (relation "measure (\<lambda>(wap, goL, goR, v, key, left, right). nat (right - left))", goal_cases)
  case (2 wap goL goR v key left right x xa)
  then show ?case
    using part_up_bounds [of left goL v right] part_down_bounds [of goR v key x right] by auto
qed simp

declare part_loop.simps [simp del]

text \<open>What follows the loops: the last unexamined element, and moving the pivot to its place.\<close>

definition part_finish ::
    "('n \<Rightarrow> 'n \<Rightarrow> 'n \<times> 'n) \<Rightarrow> ('n \<Rightarrow> bool) \<Rightarrow> int \<Rightarrow> 'n list \<times> int \<times> int \<Rightarrow> 'n list \<times> int" where
  "part_finish wap goR key = (\<lambda>(v, left, right).
     let r = (if right = left \<and> goR (v ! nat right) then right - 1 else right)
     in if r = key then (v, r) else (wap_at wap v key r, r))"

section \<open>What the loops establish\<close>

lemma length_wap_at [simp]: "length (wap_at wap v i j) = length v"
  by (simp add: wap_at_def split: prod.split)

lemma length_part_loop: "length (fst (part_loop wap goL goR v key left right)) = length v"
proof (induction wap goL goR v key left right rule: part_loop.induct)
  case (1 wap goL goR v key left right)
  then show ?case by (subst part_loop.simps) (auto simp: Let_def)
qed

lemma part_loop_bounds:
  assumes "part_loop wap goL goR v key left right = (v', l, r)"
    and "key < left" and "left \<le> right + 1"
  shows "key < l \<and> key \<le> r \<and> r \<le> right \<and> r \<le> l \<and> l \<le> r + 1 \<and> left \<le> l"
  using assms
proof (induction wap goL goR v key left right rule: part_loop.induct)
  case (1 wap goL goR v key left right)
  let ?l = "part_up goL v left right"
  let ?r = "part_down goR v key ?l right"
  show ?case
  proof (cases "left < right")
    case True
    have b: "left \<le> ?l" "?l \<le> right" "?r \<le> right" "?l \<le> ?r + 1" "key \<le> ?r"
      using part_up_bounds [of left goL v right] part_down_bounds [of goR v key ?l right]
        True "1.prems"(2) by auto
    show ?thesis
    proof (cases "?l < ?r")
      case less: True
      with True "1.prems"(1) have "part_loop wap goL goR (wap_at wap v ?l ?r) key (?l + 1) (?r - 1) = (v', l, r)"
        by (simp add: part_loop.simps [of _ _ _ _ _ left] Let_def)
      with "1.IH" [OF True refl refl less] b less "1.prems" show ?thesis by auto
    next
      case False
      with True "1.prems" b show ?thesis
        by (auto simp: part_loop.simps [of _ _ _ _ _ left] Let_def)
    qed
  next
    case False
    with "1.prems" show ?thesis by (auto simp: part_loop.simps [of _ _ _ _ _ left])
  qed
qed

lemma part_finish_bounds:
  assumes "part_finish wap goR key (v, l, r) = (v', k)"
    and "key < l" and "key \<le> r"
  shows "key \<le> k \<and> k \<le> r \<and> length v' = length v"
  using assms by (auto simp: part_finish_def Let_def split: if_splits)

text \<open>
  \<open>same_outside\<close>: a step permutes the vector and leaves everything outside \<open>lo..hi\<close> in place.
\<close>

definition same_outside :: "int \<Rightarrow> int \<Rightarrow> 'n list \<Rightarrow> 'n list \<Rightarrow> bool" where
  "same_outside lo hi v v' \<longleftrightarrow> length v' = length v \<and> mset v' = mset v \<and>
     (\<forall>i < length v. int i < lo \<or> hi < int i \<longrightarrow> v' ! i = v ! i)"

lemma same_outside_refl [simp]: "same_outside lo hi v v"
  by (simp add: same_outside_def)

lemma same_outside_trans:
  "same_outside lo hi u v \<Longrightarrow> same_outside lo hi v w \<Longrightarrow> same_outside lo hi u w"
  by (auto simp: same_outside_def)

lemma same_outside_mono:
  "same_outside lo hi u v \<Longrightarrow> lo' \<le> lo \<Longrightarrow> hi \<le> hi' \<Longrightarrow> same_outside lo' hi' u v"
  by (auto simp: same_outside_def)

lemma same_outside_swap:
  "lo \<le> i \<Longrightarrow> i \<le> hi \<Longrightarrow> lo \<le> j \<Longrightarrow> j \<le> hi \<Longrightarrow> 0 \<le> lo \<Longrightarrow> hi < int (length v) \<Longrightarrow>
   same_outside lo hi v (list_swap v (nat i) (nat j))"
  by (auto simp: same_outside_def nth_list_swap)

lemma same_outside_set: "same_outside lo hi v v' \<Longrightarrow> set v' = set v"
  by (metis same_outside_def set_mset_mset)

lemma same_outside_nth:
  "same_outside lo hi v v' \<Longrightarrow> 0 \<le> i \<Longrightarrow> i < int (length v) \<Longrightarrow> i < lo \<or> hi < i \<Longrightarrow> v' ! nat i = v ! nat i"
  by (auto simp: same_outside_def)

lemma part_up_goL:
  "left \<le> i \<Longrightarrow> i < part_up goL v left right \<Longrightarrow> goL (v ! nat i)"
proof (induction goL v left right rule: part_up.induct)
  case (1 goL v left right)
  then show ?case
    by (cases "left < right \<and> goL (v ! nat left)"; cases "i = left")
      (auto simp: part_up.simps [of goL v left])
qed

lemma part_down_goR:
  "i \<le> right \<Longrightarrow> part_down goR v key left right < i \<Longrightarrow> goR (v ! nat i)"
proof (induction goR v key left right rule: part_down.induct)
  case (1 goR v key left right)
  then show ?case
    by (cases "left \<le> right \<and> key < right \<and> goR (v ! nat right)"; cases "i = right")
      (auto simp: part_down.simps [of goR v key left right])
qed

lemma part_up_stop:
  "part_up goL v left right < right \<Longrightarrow> \<not> goL (v ! nat (part_up goL v left right))"
proof (induction goL v left right rule: part_up.induct)
  case (1 goL v left right)
  then show ?case
    by (cases "left < right \<and> goL (v ! nat left)") (auto simp: part_up.simps [of goL v left])
qed

lemma part_down_stop:
  "left \<le> part_down goR v key left right \<Longrightarrow> key < part_down goR v key left right \<Longrightarrow>
   \<not> goR (v ! nat (part_down goR v key left right))"
proof (induction goR v key left right rule: part_down.induct)
  case (1 goR v key left right)
  then show ?case
    by (cases "left \<le> right \<and> key < right \<and> goR (v ! nat right)")
      (auto simp: part_down.simps [of goR v key left right])
qed

text \<open>The elements of the window are the old elements of the window.\<close>

lemma split_window:
  assumes "0 \<le> lo" and "lo \<le> hi + 1" and "hi < int (length v)"
  shows "v = take (nat lo) v @ drop (nat lo) (take (nat (hi + 1)) v) @ drop (nat (hi + 1)) v"
proof -
  have "take (nat lo) v = take (nat lo) (take (nat (hi + 1)) v)"
    using assms by (simp add: min_def)
  then show ?thesis by (metis append.assoc append_take_drop_id)
qed

lemma same_outside_window:
  assumes "same_outside lo hi v v'" and "0 \<le> lo" and "lo \<le> hi + 1" and "hi < int (length v)"
  shows "mset (drop (nat lo) (take (nat (hi + 1)) v')) = mset (drop (nat lo) (take (nat (hi + 1)) v))"
proof -
  have len: "length v' = length v" and ms: "mset v' = mset v"
    using assms(1) by (auto simp: same_outside_def)
  have a: "take (nat lo) v' = take (nat lo) v"
    using assms by (intro nth_equalityI) (auto simp: same_outside_def)
  have b: "drop (nat (hi + 1)) v' = drop (nat (hi + 1)) v"
    using assms by (intro nth_equalityI) (auto simp: same_outside_def)
  have "mset v = mset (take (nat lo) v) + mset (drop (nat lo) (take (nat (hi + 1)) v)) + mset (drop (nat (hi + 1)) v)"
    using split_window [of lo hi v] assms by (metis mset_append add.assoc)
  moreover have "mset v' = mset (take (nat lo) v') + mset (drop (nat lo) (take (nat (hi + 1)) v')) + mset (drop (nat (hi + 1)) v')"
    using split_window [of lo hi v'] assms len by (metis mset_append add.assoc)
  ultimately show ?thesis using a b ms by simp
qed

lemma same_outside_elem:
  assumes so: "same_outside lo hi v v'" and lo: "0 \<le> lo" and hi: "hi < int (length v)"
    and i: "lo \<le> i" "i \<le> hi"
  obtains j where "lo \<le> j" and "j \<le> hi" and "v' ! nat i = v ! nat j"
proof -
  have len: "length v' = length v" using so by (simp add: same_outside_def)
  have "v' ! nat i = drop (nat lo) (take (nat (hi + 1)) v') ! nat (i - lo)"
    using lo hi i len by (simp add: nat_diff_distrib)
  moreover have "nat (i - lo) < length (drop (nat lo) (take (nat (hi + 1)) v'))"
    using lo hi i len by simp
  ultimately have "v' ! nat i \<in> set (drop (nat lo) (take (nat (hi + 1)) v'))"
    by (metis nth_mem)
  also have "set (drop (nat lo) (take (nat (hi + 1)) v')) = set (drop (nat lo) (take (nat (hi + 1)) v))"
    using same_outside_window [OF so lo _ hi] i by (metis mset_eq_setD add_increasing2 dual_order.trans zero_le_one)
  finally obtain n where n: "n < length (drop (nat lo) (take (nat (hi + 1)) v))"
    and e: "v' ! nat i = drop (nat lo) (take (nat (hi + 1)) v) ! n" by (metis in_set_conv_nth)
  show ?thesis
  proof (rule that)
    show "lo \<le> lo + int n" by simp
    show "lo + int n \<le> hi" using n lo hi by simp
    show "v' ! nat i = v ! nat (lo + int n)" using e n lo hi by (simp add: nat_add_distrib)
  qed
qed

section \<open>The partition contract\<close>

text \<open>
  Both classes compare with the pivot in a way that is consistent with one order \<open>before\<close> of the
  sorted vector, and swap nodes completely. \<open>ok\<close> restricts this to the nodes that can be compared
  (a NaN weight compares with nothing).
\<close>

locale quick_order =
  fixes ok :: "'n \<Rightarrow> bool"
    and before :: "'n \<Rightarrow> 'n \<Rightarrow> bool"
    and goL :: "'n \<Rightarrow> 'n \<Rightarrow> bool"
    and goR :: "'n \<Rightarrow> 'n \<Rightarrow> bool"
    and wap :: "'n \<Rightarrow> 'n \<Rightarrow> 'n \<times> 'n"
  assumes wap_swap: "wap a b = (b, a)"
    and goR_not: "ok p \<Longrightarrow> ok x \<Longrightarrow> goR p x \<longleftrightarrow> \<not> goL p x"
    and goL_before: "ok p \<Longrightarrow> ok x \<Longrightarrow> goL p x \<Longrightarrow> before x p"
    and goR_before: "ok p \<Longrightarrow> ok x \<Longrightarrow> \<not> goL p x \<Longrightarrow> before p x"
begin

lemma wap_at_swap: "wap_at wap v i j = list_swap v (nat i) (nat j)"
  by (simp add: wap_at_def wap_swap list_swap_def)

lemma part_loop_split:
  assumes "part_loop wap (goL p) (goR p) v key left right = (v', l, r)"
    and "0 \<le> key" and "key < left" and "left \<le> right + 1" and "right \<le> hi" and "hi < int (length v)"
    and "\<forall>i. key < i \<and> i < left \<longrightarrow> goL p (v ! nat i)"
    and "\<forall>i. right < i \<and> i \<le> hi \<longrightarrow> \<not> goL p (v ! nat i)" and "ok p" and "\<forall>x \<in> set v. ok x"
  shows "same_outside (key + 1) hi v v' \<and>
    (\<forall>i. key < i \<and> i < l \<longrightarrow> goL p (v' ! nat i)) \<and> (\<forall>i. r < i \<and> i \<le> hi \<longrightarrow> \<not> goL p (v' ! nat i))"
  using assms
proof (induction "nat (right - left)" arbitrary: v left right rule: less_induct)
  case less
  let ?l = "part_up (goL p) v left right"
  let ?r = "part_down (goR p) v key ?l right"
  have okn: "goR p (v ! nat i) \<longleftrightarrow> \<not> goL p (v ! nat i)" if "0 \<le> i" "i \<le> hi" for i
    using less.prems that by (intro goR_not) (auto intro!: nth_mem)
  show ?case
  proof (cases "left < right")
    case False
    with less.prems show ?thesis by (auto simp: part_loop.simps [of _ _ _ _ _ left])
  next
    case True
    have b: "left \<le> ?l" "?l \<le> right" "?r \<le> right" "?l \<le> ?r + 1" "key \<le> ?r"
      using part_up_bounds [of left "goL p" v right] part_down_bounds [of "goR p" v key ?l right]
        True less.prems(3) by auto
    have L: "goL p (v ! nat i)" if "key < i" "i < ?l" for i
      using that less.prems(7) part_up_goL [of left i "goL p" v right] by (cases "i < left") auto
    have R: "\<not> goL p (v ! nat i)" if "?r < i" "i \<le> hi" for i
      using that less.prems(2,8) part_down_goR [of i right "goR p" v key ?l] okn [of i] b(5)
      by (cases "right < i") auto
    show ?thesis
    proof (cases "?l < ?r")
      case False
      with True less.prems(1) have "v' = v" "l = ?l" "r = ?r"
        by (auto simp: part_loop.simps [of _ _ _ _ _ left] Let_def)
      with L R show ?thesis by auto
    next
      case lr: True
      let ?v = "list_swap v (nat ?l) (nat ?r)"
      have stopL: "\<not> goL p (v ! nat ?l)" using part_up_stop lr b by (metis order_less_le_trans)
      have stopR: "goL p (v ! nat ?r)"
        using part_down_stop [of ?l "goR p" v key right] lr b less.prems(2,3,5) okn [of ?r] by auto
      have nth: "?v ! nat i = (if i = ?l then v ! nat ?r else if i = ?r then v ! nat ?l else v ! nat i)"
        if "0 \<le> i" "i \<le> hi" for i
        using that b lr less.prems by (subst nth_list_swap) (auto simp: nat_eq_iff2)
      have eq: "part_loop wap (goL p) (goR p) ?v key (?l + 1) (?r - 1) = (v', l, r)"
        using True lr less.prems(1)
        by (simp add: part_loop.simps [of _ _ _ v _ left] Let_def wap_at_swap)
      have "same_outside (key + 1) hi ?v v' \<and> (\<forall>i. key < i \<and> i < l \<longrightarrow> goL p (v' ! nat i)) \<and>
          (\<forall>i. r < i \<and> i \<le> hi \<longrightarrow> \<not> goL p (v' ! nat i))"
      proof (rule less.hyps [OF _ eq])
        show "\<forall>i. key < i \<and> i < ?l + 1 \<longrightarrow> goL p (?v ! nat i)"
          using L stopR lr b less.prems by (auto simp: nth)
        show "\<forall>i. ?r - 1 < i \<and> i \<le> hi \<longrightarrow> \<not> goL p (?v ! nat i)"
          using R stopL lr b less.prems by (auto simp: nth)
        have "set ?v = set v" using b lr less.prems by (intro set_list_swap) auto
        then show "\<forall>x \<in> set ?v. ok x" using less.prems by auto
      qed (use b lr True less.prems in auto)
      moreover have "same_outside (key + 1) hi v ?v"
        using b lr less.prems by (intro same_outside_swap) auto
      ultimately show ?thesis using same_outside_trans by blast
    qed
  qed
qed

text \<open>
  The whole partition of \<open>key..hi\<close> around the element at \<open>key\<close>: the pivot ends at the returned
  index, with the elements that go left on its left and the others on its right.
\<close>

lemma part_finish_split:
  assumes run: "part_finish wap (goR p) key (part_loop wap (goL p) (goR p) v key (key + 1) hi) = (v', k)"
    and p: "p = v ! nat key" and "0 \<le> key" and "key < hi" and "hi < int (length v)"
    and okv: "\<forall>x \<in> set v. ok x"
  shows "key \<le> k \<and> k \<le> hi \<and> same_outside key hi v v' \<and> v' ! nat k = p \<and>
    (\<forall>i. key \<le> i \<and> i < k \<longrightarrow> goL p (v' ! nat i)) \<and> (\<forall>i. k < i \<and> i \<le> hi \<longrightarrow> \<not> goL p (v' ! nat i))"
proof -
  obtain v1 l r where lp: "part_loop wap (goL p) (goR p) v key (key + 1) hi = (v1, l, r)"
    by (metis prod_cases3)
  have b: "key < l" "key \<le> r" "r \<le> hi" "r \<le> l" "l \<le> r + 1"
    using part_loop_bounds [OF lp] assms by auto
  have okp: "ok p" using p okv assms(3-5) by (auto intro!: nth_mem)
  have none: "\<forall>i. key < i \<and> i < key + 1 \<longrightarrow> goL p (v ! nat i)"
    and none': "\<forall>i. hi < i \<and> i \<le> hi \<longrightarrow> \<not> goL p (v ! nat i)" by auto
  have s: "same_outside (key + 1) hi v v1" "\<And>i. key < i \<Longrightarrow> i < l \<Longrightarrow> goL p (v1 ! nat i)"
      "\<And>i. r < i \<Longrightarrow> i \<le> hi \<Longrightarrow> \<not> goL p (v1 ! nat i)"
    using part_loop_split [OF lp _ _ _ _ _ none none' okp okv] assms(3-5) by simp_all
  have len: "length v1 = length v" using s(1) by (simp add: same_outside_def)
  have okR: "goR p (v1 ! nat r) \<longleftrightarrow> \<not> goL p (v1 ! nat r)"
    using b assms(3-5) okp okv len same_outside_set [OF s(1)]
    by (intro goR_not) (auto intro!: nth_mem)
  have piv: "v1 ! nat key = p" using same_outside_nth [OF s(1), of key] assms by simp
  have k: "k = (if r = l \<and> goR p (v1 ! nat r) then r - 1 else r)"
    and v': "v' = (if k = key then v1 else list_swap v1 (nat key) (nat k))"
    using run by (auto simp: lp part_finish_def Let_def wap_at_swap split: if_splits)
  have kb: "key \<le> k" "k \<le> hi" using k b by auto
  have L: "goL p (v1 ! nat i)" if "key < i" "i \<le> k" for i
  proof (cases "i < l")
    case False
    with that k b have "i = r" "r = l" by (auto split: if_splits)
    with that k okR show ?thesis by (auto split: if_splits)
  qed (use that s(2) in auto)
  have R: "\<not> goL p (v1 ! nat i)" if "k < i" "i \<le> hi" for i
  proof (cases "r < i")
    case False
    with that k b have "i = r" by (auto split: if_splits)
    with that k okR show ?thesis by (auto split: if_splits)
  qed (use that s(3) in auto)
  have nth: "v' ! nat i = (if i = key then v1 ! nat k else if i = k then p else v1 ! nat i)"
    if "key \<le> i" "i \<le> hi" for i
    using that kb assms len piv
    by (cases "k = key") (auto simp: v' nth_list_swap nat_eq_iff2)
  have "same_outside key hi v1 v'"
    using kb assms len by (auto simp: v' intro!: same_outside_swap)
  then have "same_outside key hi v v'"
    using s(1) by (meson same_outside_mono same_outside_trans order_refl zle_add1_eq_le less_add_one order_less_imp_le)
  with kb L R piv show ?thesis by (auto simp: nth)
qed

end

section \<open>The quicksort contract\<close>

text \<open>
  A routine that partitions and then sorts both sides sorts, whatever the partition does exactly:
  it only has to put one element between the elements that belong before and after it.
\<close>

locale quick_sort =
  fixes ok :: "'n \<Rightarrow> bool"
    and before :: "'n \<Rightarrow> 'n \<Rightarrow> bool"
    and Part :: "'n list \<Rightarrow> int \<Rightarrow> int \<Rightarrow> 'n list \<times> int"
    and QS :: "'n list \<Rightarrow> int \<Rightarrow> int \<Rightarrow> 'n list"
  assumes before_trans: "before a b \<Longrightarrow> before b c \<Longrightarrow> before a c"
    and Part_ok: "\<forall>x \<in> set v. ok x \<Longrightarrow> Part v lo hi = (v', k) \<Longrightarrow> 0 \<le> lo \<Longrightarrow> lo < hi \<Longrightarrow> hi < int (length v) \<Longrightarrow>
      lo \<le> k \<and> k \<le> hi \<and> same_outside lo hi v v' \<and>
      (\<forall>i. lo \<le> i \<and> i < k \<longrightarrow> before (v' ! nat i) (v' ! nat k)) \<and>
      (\<forall>i. k < i \<and> i \<le> hi \<longrightarrow> before (v' ! nat k) (v' ! nat i))"
    and QS_rec: "QS v lo hi =
      (if lo < hi then let (v', k) = Part v lo hi in QS (QS v' lo (k - 1)) (k + 1) hi else v)"
begin

definition sorted_window :: "'n list \<Rightarrow> int \<Rightarrow> int \<Rightarrow> bool" where
  "sorted_window v lo hi \<longleftrightarrow> (\<forall>i j. lo \<le> i \<and> i < j \<and> j \<le> hi \<longrightarrow> before (v ! nat i) (v ! nat j))"

lemma QS_sorts:
  assumes "0 \<le> lo" and "hi < int (length v)" and "\<forall>x \<in> set v. ok x"
  shows "same_outside lo hi v (QS v lo hi) \<and> sorted_window (QS v lo hi) lo hi"
  using assms
proof (induction "nat (hi - lo + 1)" arbitrary: v lo hi rule: less_induct)
  case less
  show ?case
  proof (cases "lo < hi")
    case False
    then show ?thesis by (auto simp: QS_rec [of v] sorted_window_def)
  next
    case True
    obtain v1 k where pt: "Part v lo hi = (v1, k)" by (metis surj_pair)
    note P = Part_ok [OF less.prems(3) pt less.prems(1) True less.prems(2)]
    define v2 where "v2 = QS v1 lo (k - 1)"
    define v3 where "v3 = QS v2 (k + 1) hi"
    have q: "QS v lo hi = v3" using True by (simp add: QS_rec [of v] pt v2_def v3_def)
    have len1: "length v1 = length v" using P by (simp add: same_outside_def)
    have ok1: "\<forall>x \<in> set v1. ok x" using P less.prems(3) by (metis same_outside_set)
    have s2: "same_outside lo (k - 1) v1 v2" "sorted_window v2 lo (k - 1)"
      using less.hyps [of "k - 1" lo v1] less.prems P len1 ok1 by (auto simp: v2_def)
    have len2: "length v2 = length v" using s2(1) len1 by (simp add: same_outside_def)
    have ok2: "\<forall>x \<in> set v2. ok x" using s2(1) ok1 by (metis same_outside_set)
    have s3: "same_outside (k + 1) hi v2 v3" "sorted_window v3 (k + 1) hi"
      using less.hyps [of hi "k + 1" v2] less.prems P len2 ok2 by (auto simp: v3_def)
    have low: "v3 ! nat i = v2 ! nat i" if "lo \<le> i" "i \<le> k" for i
      using that same_outside_nth [OF s3(1), of i] less.prems P len2 by auto
    have high: "v2 ! nat i = v1 ! nat i" if "k \<le> i" "i \<le> hi" for i
      using that same_outside_nth [OF s2(1), of i] less.prems P len1 by auto
    have piv: "v3 ! nat k = v1 ! nat k" using low [of k] high [of k] P by auto
    have L: "before (v3 ! nat i) (v3 ! nat k)" if i: "lo \<le> i" "i < k" for i
    proof -
      obtain j where "lo \<le> j" "j \<le> k - 1" "v2 ! nat i = v1 ! nat j"
        using same_outside_elem [OF s2(1) less.prems(1), of i] i P len1 less.prems by auto
      with P piv low i show ?thesis by auto
    qed
    have R: "before (v3 ! nat k) (v3 ! nat i)" if i: "k < i" "i \<le> hi" for i
    proof -
      obtain j where "k + 1 \<le> j" "j \<le> hi" "v3 ! nat i = v2 ! nat j"
        using same_outside_elem [OF s3(1), of i] i P len2 less.prems by auto
      with P piv high show ?thesis by auto
    qed
    have "before (v3 ! nat i) (v3 ! nat j)" if ij: "lo \<le> i" "i < j" "j \<le> hi" for i j
    proof -
      consider "j < k" | "j = k" | "i = k" | "k < i" | "i < k \<and> k < j" using ij by linarith
      then show ?thesis
        using ij s2(2) s3(2) L R low before_trans by cases (auto simp: sorted_window_def, blast)
    qed
    moreover have "same_outside lo hi v v3"
      using same_outside_trans [OF conjunct1 [OF conjunct2 [OF conjunct2 [OF P]]]
          same_outside_trans [OF same_outside_mono [OF s2(1)] same_outside_mono [OF s3(1)]]] P by auto
    ultimately show ?thesis by (auto simp: q sorted_window_def)
  qed
qed

lemma QS_whole:
  assumes "\<forall>x \<in> set v. ok x"
  shows "mset (QS v 0 (int (length v) - 1)) = mset v \<and> sorted_wrt before (QS v 0 (int (length v) - 1))"
proof -
  let ?q = "QS v 0 (int (length v) - 1)"
  have so: "same_outside 0 (int (length v) - 1) v ?q" and sw: "sorted_window ?q 0 (int (length v) - 1)"
    using QS_sorts [of 0 "int (length v) - 1" v] assms by auto
  have "before (?q ! i) (?q ! j)" if "i < j" "j < length ?q" for i j
  proof -
    have "0 \<le> int i" "int i < int j" "int j \<le> int (length v) - 1"
      using that so by (auto simp: same_outside_def)
    then have "before (?q ! nat (int i)) (?q ! nat (int j))"
      using sw unfolding sorted_window_def by blast
    then show ?thesis by simp
  qed
  then show ?thesis using so by (auto simp: sorted_wrt_iff_nth_less same_outside_def)
qed

end

end
