(* ===== verification/HashVector.thy ===== *)
theory HashVector
  imports VectorSort
begin

text \<open>
  The hash index \<open>CHashVector_Enhanced<NODETYPE, HASH_BASIC>\<close> of
  \<open>src/include/HashVector_Enhanced.h\<close>: words are collected in one character vector, nodes in
  \<open>HASH_BASIC\<close> buckets, every bucket is sorted by word, lookups are binary searches, and the whole
  index is dumped to and read back from a file.

  The template parameter \<open>NODETYPE\<close> is a record of the operations the code uses on a node
  (\<open>node_ops\<close>); \<open>HASH_BASIC\<close> is the argument \<open>B\<close>. \<open>char *m_wordsBuf\<close> is a \<open>bytes option\<close> (\<open>None\<close>
  is \<open>NULL\<close>); accesses the C++ code would make through a null pointer, with an indeterminate value
  or past the bucket array, and loops that do not end, are values of the type \<open>fault\<close>.
\<close>

section \<open>Nodes, faults, files\<close>

datatype fault = NullDeref | OutOfBounds | Indeterminate | BadAlloc | Diverges | IntOverflow

text \<open>Conversion to a 32-bit \<open>int\<close>.\<close>

definition c_int :: "int \<Rightarrow> int" where
  "c_int x = (x + 2 ^ 31) mod 2 ^ 32 - 2 ^ 31"

lemma c_int_id [simp]: "- (2 ^ 31) \<le> x \<Longrightarrow> x < 2 ^ 31 \<Longrightarrow> c_int x = x"
  by (simp add: c_int_def)

lemma c_int_le: "- (2 ^ 31) \<le> x \<Longrightarrow> c_int x \<le> x"
proof -
  assume "- (2 ^ 31) \<le> x"
  then have "(x + 2 ^ 31) mod 2 ^ 32 \<le> x + 2 ^ 31" by (intro zmod_le_nonneg_dividend) simp
  then show ?thesis by (simp add: c_int_def)
qed

record 'n node_ops =
  noff :: "'n \<Rightarrow> nat"
  nset_off :: "nat \<Rightarrow> 'n \<Rightarrow> 'n"
  nassign :: "'n \<Rightarrow> 'n \<Rightarrow> 'n"
  ndefault :: "'n"
  nsize :: nat
  nenc :: "'n \<Rightarrow> bytes"
  ndec :: "bytes \<Rightarrow> 'n"

text \<open>\<open>nassign N d s\<close> is what \<open>d = s\<close> leaves in \<open>d\<close>: the node type's own \<open>operator=\<close>.\<close>

record 'n hashvector =
  data :: "nat \<Rightarrow> 'n list"
  m_charVect :: bytes
  m_wordsBuf :: "bytes option"
  m_wordsBufSize :: nat

text \<open>
  An output file: what has been written, and how many more bytes the device takes (\<open>None\<close>: no
  limit). \<open>fwrite\<close> returns the number of bytes that got through.
\<close>

record ofile =
  fdata :: bytes
  froom :: "nat option"

definition fwrite :: "bytes \<Rightarrow> ofile \<Rightarrow> ofile \<times> nat" where
  "fwrite b f = (case froom f of
       None \<Rightarrow> (f\<lparr>fdata := fdata f @ b\<rparr>, length b)
     | Some r \<Rightarrow> let n = min r (length b)
                in (f\<lparr>fdata := fdata f @ take n b, froom := Some (r - n)\<rparr>, n))"

text \<open>Reading up to \<open>k\<close> bytes, and what a short read leaves in a variable that held \<open>old\<close>.\<close>

definition fread_upto :: "nat \<Rightarrow> bytes \<Rightarrow> bytes \<times> bytes" where
  "fread_upto k f = (take k f, drop k f)"

definition overlay :: "bytes \<Rightarrow> bytes \<Rightarrow> bytes" where
  "overlay old got = got @ drop (length got) old"

text \<open>
  A buffer of \<open>n\<close> bytes from \<open>new char[n]\<close> whose first bytes have been written: the others are
  whatever was in memory (\<open>fresh\<close>).
\<close>

definition filled :: "(nat \<Rightarrow> char) \<Rightarrow> nat \<Rightarrow> bytes \<Rightarrow> bytes" where
  "filled fresh n got = got @ map fresh [length got..<n]"

text \<open>The elements of an array read as raw bytes.\<close>

fun decode_items :: "nat \<Rightarrow> (bytes \<Rightarrow> 'a) \<Rightarrow> nat \<Rightarrow> bytes \<Rightarrow> 'a list" where
  "decode_items sz dec 0 b = []"
| "decode_items sz dec (Suc k) b = dec (take sz b) # decode_items sz dec k (drop sz b)"

lemma decode_items_enc [codec_simps]:
  assumes "\<And>x. dec (enc x) = x" and "\<And>x. length (enc x) = sz"
  shows "decode_items sz dec (length xs) (concat (map enc xs) @ post) = xs"
  by (induction xs) (auto simp: assms)

lemma length_enc_items [codec_simps]:
  assumes "\<And>x. length (enc x) = sz"
  shows "length (concat (map enc xs)) = sz * length xs"
  by (induction xs) (auto simp: assms)

lemma filled_full [simp]: "length got = n \<Longrightarrow> filled fresh n got = got"
  by (simp add: filled_def)

section \<open>The operations\<close>

text \<open>\<open>index ^= ((index<<5) + (index>>2) + *str++)\<close> on \<open>unsigned\<close>, with \<open>char\<close> signed.\<close>

unbundle bit_operations_syntax

definition hash_step :: "32 word \<Rightarrow> char \<Rightarrow> 32 word" where
  "hash_step index c = index XOR (push_bit 5 index + drop_bit 2 index + word_of_int (schar c))"

definition GetHashValue :: "nat \<Rightarrow> bytes \<Rightarrow> nat" where
  "GetHashValue B str = unat (foldl hash_step 0 (cstr str)) mod B"

text \<open>
  The word of a node. Reading it is an access outside the buffer unless it ends inside it
  (\<open>word_ok\<close>), which every operation tests before it uses the word.
\<close>

definition word_ok :: "'n node_ops \<Rightarrow> bytes \<Rightarrow> 'n \<Rightarrow> bool" where
  "word_ok N buf n \<longleftrightarrow> terminated_at buf (noff N n)"

definition word_of :: "'n node_ops \<Rightarrow> bytes \<Rightarrow> 'n \<Rightarrow> bytes" where
  "word_of N buf n = cstr_at buf (noff N n)"

definition Compare :: "'n node_ops \<Rightarrow> bytes \<Rightarrow> 'n \<Rightarrow> 'n \<Rightarrow> fault + bool" where
  "Compare N buf t1 t2 =
     (if word_ok N buf t1 \<and> word_ok N buf t2 then Inr (strcmp (word_of N buf t1) (word_of N buf t2) < 0)
      else Inl OutOfBounds)"

definition empty_hv :: "'n hashvector" where
  "empty_hv = \<lparr>data = (\<lambda>_. []), m_charVect = [], m_wordsBuf = None, m_wordsBufSize = 0\<rparr>"

definition AddItem :: "'n node_ops \<Rightarrow> nat \<Rightarrow> 'n \<Rightarrow> bytes \<Rightarrow> 'n hashvector \<Rightarrow> 'n hashvector" where
  "AddItem N B item word hv =
     (let item' = nset_off N (length (m_charVect hv)) item;
          hashValue = GetHashValue B word
      in hv\<lparr>m_charVect := m_charVect hv @ cstr word @ [NUL],
            data := (data hv)(hashValue := data hv hashValue @ [item'])\<rparr>)"

text \<open>\<open>NODETYPE tmp; tmp = node1; node1 = node2; node2 = tmp;\<close>\<close>

definition Wap :: "'n node_ops \<Rightarrow> 'n \<Rightarrow> 'n \<Rightarrow> 'n \<times> 'n" where
  "Wap N node1 node2 =
     (let tmp = nassign N (ndefault N) node1 in (nassign N node1 node2, nassign N node2 tmp))"

definition Partition :: "'n node_ops \<Rightarrow> bytes \<Rightarrow> 'n list \<Rightarrow> int \<Rightarrow> int \<Rightarrow> 'n list \<times> int" where
  "Partition N buf vect left right =
     (let key = left;
          pchKeyValue = word_of N buf (vect ! nat key)
      in if right = left + 1 then
           (if strcmp pchKeyValue (word_of N buf (vect ! nat right)) > 0
            then (wap_at (Wap N) vect key right, right) else (vect, right))
         else part_finish (Wap N) (\<lambda>x. strcmp (word_of N buf x) pchKeyValue \<ge> 0) key
                (part_loop (Wap N) (\<lambda>x. strcmp (word_of N buf x) pchKeyValue < 0)
                   (\<lambda>x. strcmp (word_of N buf x) pchKeyValue \<ge> 0) vect key (left + 1) right))"

lemma Partition_bounds:
  assumes "Partition N buf vect left right = (v', k)" and "left < right"
  shows "left \<le> k \<and> k \<le> right"
proof (cases "right = left + 1")
  case True
  with assms show ?thesis by (auto simp: Partition_def Let_def split: if_splits)
next
  case False
  let ?p = "word_of N buf (vect ! nat left)"
  obtain v l r where lp: "part_loop (Wap N) (\<lambda>x. strcmp (word_of N buf x) ?p < 0)
      (\<lambda>x. strcmp (word_of N buf x) ?p \<ge> 0) vect left (left + 1) right = (v, l, r)"
    by (metis prod_cases3)
  with False assms(1) have "part_finish (Wap N) (\<lambda>x. strcmp (word_of N buf x) ?p \<ge> 0) left (v, l, r) = (v', k)"
    by (simp add: Partition_def Let_def)
  from part_finish_bounds [OF this] part_loop_bounds [OF lp] assms(2) show ?thesis by auto
qed

function QSort :: "'n node_ops \<Rightarrow> bytes \<Rightarrow> 'n list \<Rightarrow> int \<Rightarrow> int \<Rightarrow> 'n list" where
  "QSort N buf vect left right =
     (if left < right then
        let (vect', key) = Partition N buf vect left right
        in QSort N buf (QSort N buf vect' left (key - 1)) (key + 1) right
      else vect)"
  by pat_completeness auto
termination
proof (relation "measure (\<lambda>(N, buf, vect, left, right). nat (right - left + 1))", goal_cases)
  case (2 N buf vect left right x xa y)
  with Partition_bounds [of N buf vect left right xa y] show ?case by auto
next
  case (3 N buf vect left right x xa y)
  with Partition_bounds [of N buf vect left right xa y] show ?case by auto
qed simp

declare QSort.simps [simp del]

text \<open>
  \<open>QSort\<close> on at least two nodes compares the word of each of them with the first one's, and exchanges
  bring in no other offset (an \<open>operator=\<close> of the program copies the offset or leaves it): a word
  outside the buffer is reached exactly when one of the nodes has it.
\<close>

definition bucket_last :: "'n list \<Rightarrow> int" where
  "bucket_last vect = c_int (int (length vect) - 1)"

definition sort_faults :: "'n node_ops \<Rightarrow> bytes \<Rightarrow> 'n list \<Rightarrow> bool" where
  "sort_faults N buf vect \<longleftrightarrow>
     0 < bucket_last vect \<and> list_ex (\<lambda>n. \<not> word_ok N buf n) (take (nat (bucket_last vect + 1)) vect)"

definition Sort :: "'n node_ops \<Rightarrow> nat \<Rightarrow> 'n hashvector \<Rightarrow> fault + 'n hashvector" where
  "Sort N B hv =
     (let buf = m_charVect hv
      in if list_ex (\<lambda>i. sort_faults N buf (data hv i)) [0..<B] then Inl OutOfBounds
         else Inr (hv\<lparr>m_wordsBuf := Some buf,
                data := (\<lambda>i. if i < B then QSort N buf (data hv i) 0 (bucket_last (data hv i))
                             else data hv i)\<rparr>))"

function Find_loop :: "'n node_ops \<Rightarrow> bytes option \<Rightarrow> bytes \<Rightarrow> 'n list \<Rightarrow> int \<Rightarrow> int \<Rightarrow> fault + 'n option" where
  "Find_loop N wbuf word vect left right =
     (if right \<ge> left then
        if left + right \<ge> 2 ^ 31 then Inl IntOverflow
        else let mid = (left + right) div 2 in
        case wbuf of None \<Rightarrow> Inl NullDeref
        | Some buf \<Rightarrow>
            if \<not> word_ok N buf (vect ! nat mid) then Inl OutOfBounds
            else let compareRet = strcmp word (word_of N buf (vect ! nat mid)) in
            if compareRet = 0 then Inr (Some (vect ! nat mid))
            else if compareRet > 0 then Find_loop N wbuf word vect (mid + 1) right
            else Find_loop N wbuf word vect left (mid - 1)
      else Inr None)"
  by pat_completeness auto
termination
  by (relation "measure (\<lambda>(N, wbuf, word, vect, left, right). nat (right - left + 1))") auto

declare Find_loop.simps [simp del]

definition Find :: "'n node_ops \<Rightarrow> nat \<Rightarrow> bytes \<Rightarrow> 'n hashvector \<Rightarrow> fault + 'n option" where
  "Find N B word hv =
     (let vect = data hv (GetHashValue B word)
      in Find_loop N (m_wordsBuf hv) (cstr word) vect 0 (bucket_last vect))"

text \<open>
  \<open>WriteFile\<close> first lays the words out in bucket order in a fresh buffer and redirects the nodes
  to their new offsets (\<open>unsigned int\<close>, hence the \<open>mod 2 ^ 32\<close>): \<open>pos\<close> is \<open>pWord - m_wordsBuf\<close>.
\<close>

fun rewrite_bucket :: "'n node_ops \<Rightarrow> bytes \<Rightarrow> 'n list \<Rightarrow> bytes \<Rightarrow> 'n list \<times> bytes" where
  "rewrite_bucket N cv [] out = ([], out)"
| "rewrite_bucket N cv (n # ns) out =
     (let n' = nset_off N (length out mod 2 ^ 32) n;
          out' = out @ cstr_at cv (noff N n mod 2 ^ 32) @ [NUL];
          (ns', out'') = rewrite_bucket N cv ns out'
      in (n' # ns', out''))"

fun rewrite_buckets :: "'n node_ops \<Rightarrow> bytes \<Rightarrow> (nat \<Rightarrow> 'n list) \<Rightarrow> nat list \<Rightarrow> bytes \<Rightarrow> (nat \<Rightarrow> 'n list) \<times> bytes" where
  "rewrite_buckets N cv d [] out = (d, out)"
| "rewrite_buckets N cv d (i # is) out =
     (let (ns', out') = rewrite_bucket N cv (d i) out
      in rewrite_buckets N cv (d(i := ns')) is out')"

definition bucket_record :: "'n node_ops \<Rightarrow> (nat \<Rightarrow> 'n list) \<Rightarrow> nat \<Rightarrow> bytes" where
  "bucket_record N d i = le_bytes 4 i @ le_bytes 4 (length (d i)) @ concat (map (nenc N) (d i))"

text \<open>
  The last component of the result is the return value. Writing past the fresh buffer is \<open>OutOfBounds\<close>.
\<close>

definition WriteFile :: "(nat \<Rightarrow> char) \<Rightarrow> 'n node_ops \<Rightarrow> nat \<Rightarrow> 'n hashvector \<Rightarrow> ofile option
    \<Rightarrow> fault + ('n hashvector \<times> ofile option \<times> bool)" where
  "WriteFile fresh N B hv fp = (case fp of
       None \<Rightarrow> Inr (hv, None, False)
     | Some f \<Rightarrow>
       let size = length (m_charVect hv);
           (f1, _) = fwrite (le_bytes 8 size) f;
           (d', out) = rewrite_buckets N (m_charVect hv) (data hv) [0..<B] []
       in if size < length out then Inl OutOfBounds
          else let buf = filled fresh size out;
                   hv' = hv\<lparr>m_wordsBufSize := size, m_wordsBuf := Some buf, data := d'\<rparr>;
                   (f2, writeRet) = fwrite buf f1
               in if writeRet \<noteq> size then Inr (hv', Some f2, False)
                  else let (f3, _) = fwrite (le_bytes 4 B) f2;
                           f4 = foldl (\<lambda>g i. fst (fwrite (bucket_record N d' i) g)) f3 [0..<B]
                       in Inr (hv'\<lparr>m_wordsBuf := None\<rparr>, Some f4, True))"

text \<open>
  One round of the loop of \<open>ReadInFile\<close>: \<open>index\<close> and \<open>vectSize\<close> are uninitialised locals whose
  \<open>fread\<close>s are not checked.
\<close>

definition read_bucket :: "'n node_ops \<Rightarrow> nat \<Rightarrow> (nat \<Rightarrow> 'n list) \<times> bytes \<Rightarrow> fault + ((nat \<Rightarrow> 'n list) \<times> bytes)" where
  "read_bucket N B = (\<lambda>(d, f).
     case fread 4 f of None \<Rightarrow> Inl Indeterminate
     | Some (ib, f1) \<Rightarrow>
       let index = le_val ib in
       if B \<le> index then Inl OutOfBounds
       else case fread 4 f1 of None \<Rightarrow> Inl Indeterminate
       | Some (sb, f2) \<Rightarrow>
         let vectSize = le_val sb in
         if vectSize > 0 then
           let (got, f3) = fread_upto (nsize N * vectSize) f2;
               blank = concat (replicate vectSize (nenc N (nassign N (ndefault N) (ndefault N))))
           in Inr (d(index := decode_items (nsize N) (ndec N) vectSize (overlay blank got)), f3)
         else Inr (d(index := []), f2))"

fun read_buckets :: "'n node_ops \<Rightarrow> nat \<Rightarrow> nat \<Rightarrow> (nat \<Rightarrow> 'n list) \<times> bytes \<Rightarrow> fault + ((nat \<Rightarrow> 'n list) \<times> bytes)" where
  "read_buckets N B 0 s = Inr s"
| "read_buckets N B (Suc k) s =
     (case read_bucket N B s of Inl e \<Rightarrow> Inl e | Inr s' \<Rightarrow> read_buckets N B k s')"

definition ReadInFile :: "(nat \<Rightarrow> char) \<Rightarrow> 'n node_ops \<Rightarrow> nat \<Rightarrow> 'n hashvector \<Rightarrow> bytes option
    \<Rightarrow> fault + ('n hashvector \<times> bytes option \<times> bool)" where
  "ReadInFile fresh N B hv fp = (case fp of
       None \<Rightarrow> Inr (hv, None, False)
     | Some f \<Rightarrow>
       let (sb, f1) = fread_upto 8 f;
           size = le_val (overlay (le_bytes 8 (m_wordsBufSize hv)) sb);
           (got, f2) = fread_upto size f1;
           hv1 = hv\<lparr>m_wordsBufSize := size, m_wordsBuf := Some (filled fresh size got)\<rparr>
       in if length got \<noteq> size then Inr (hv1, Some f2, False)
          else case fread 4 f2 of None \<Rightarrow> Inr (hv1, Some [], False)
          | Some (hb, f3) \<Rightarrow>
            if le_val hb \<noteq> B then Inr (hv1, Some f3, False)
            else case read_buckets N B B (data hv1, f3) of Inl e \<Rightarrow> Inl e
                 | Inr (d, f4) \<Rightarrow> Inr (hv1\<lparr>data := d\<rparr>, Some f4, True))"

definition Clear :: "nat \<Rightarrow> 'n hashvector \<Rightarrow> 'n hashvector" where
  "Clear B hv = hv\<lparr>data := (\<lambda>i. if i < B then [] else data hv i), m_charVect := [], m_wordsBuf := None\<rparr>"

section \<open>Hashing and searching\<close>

lemma GetHashValue_less: "0 < B \<Longrightarrow> GetHashValue B w < B"
  by (simp add: GetHashValue_def)

lemma GetHashValue_cstr [simp]: "GetHashValue B (cstr w) = GetHashValue B w"
  by (simp add: GetHashValue_def cstr_nul_free)

lemma Find_loop_correct:
  assumes "sorted (map (word_of N buf) vect)" and "0 \<le> left" and "right < int (length vect)"
    and "\<forall>n \<in> set vect. word_ok N buf n" and "length vect \<le> 2 ^ 30"
  shows "case Find_loop N (Some buf) w vect left right of
      Inl e \<Rightarrow> False
    | Inr (Some n) \<Rightarrow> n \<in> set vect \<and> word_of N buf n = w
    | Inr None \<Rightarrow> \<forall>i. left \<le> i \<and> i \<le> right \<longrightarrow> word_of N buf (vect ! nat i) \<noteq> w"
  using assms
proof (induction N "Some buf" w vect left right rule: Find_loop.induct)
  case (1 N w vect left right)
  let ?mid = "(left + right) div 2"
  let ?W = "\<lambda>i. word_of N buf (vect ! nat i)"
  have mono: "?W i \<le> ?W j" if "0 \<le> i" "i \<le> j" "j < int (length vect)" for i j
    using sorted_nth_mono [OF "1.prems"(1), of "nat i" "nat j"] that by (auto simp: nat_less_iff)
  show ?case
  proof (cases "left \<le> right")
    case False
    then show ?thesis by (subst Find_loop.simps) auto
  next
    case True
    then have mid: "left \<le> ?mid" "?mid \<le> right" by auto
    then have mem: "vect ! nat ?mid \<in> set vect" using "1.prems" by (intro nth_mem) auto
    then have ok: "word_ok N buf (vect ! nat ?mid)" using "1.prems"(4) by blast
    have fit: "\<not> 2 ^ 31 \<le> left + right" using True "1.prems"(3,5) by simp
    consider "w = ?W ?mid" | "?W ?mid < w" | "w < ?W ?mid" by force
    then show ?thesis
    proof cases
      case 1
      then show ?thesis using True mem ok fit by (subst Find_loop.simps) simp
    next
      case 2
      with True have eq: "Find_loop N (Some buf) w vect left right = Find_loop N (Some buf) w vect (?mid + 1) right"
        using ok fit by (subst Find_loop.simps) (auto simp: Let_def)
      have "?W i \<noteq> w" if "left \<le> i" "i \<le> ?mid" for i
        using mono [of i ?mid] that 2 "1.prems" mid by auto
      moreover have "case Find_loop N (Some buf) w vect (?mid + 1) right of Inl e \<Rightarrow> False
        | Inr (Some n) \<Rightarrow> n \<in> set vect \<and> word_of N buf n = w
        | Inr None \<Rightarrow> \<forall>i. ?mid + 1 \<le> i \<and> i \<le> right \<longrightarrow> ?W i \<noteq> w"
        by (rule "1.hyps"(1) [OF True fit refl refl _ refl]) (use 2 ok "1.prems" mid in auto)
      ultimately show ?thesis
        unfolding eq by (auto split: sum.splits option.splits) (metis add1_zle_eq linorder_not_le)
    next
      case 3
      with True have eq: "Find_loop N (Some buf) w vect left right = Find_loop N (Some buf) w vect left (?mid - 1)"
        using ok fit by (subst Find_loop.simps) (auto simp: Let_def)
      have "?W i \<noteq> w" if "?mid \<le> i" "i \<le> right" for i
        using mono [of ?mid i] that 3 "1.prems" mid by auto
      moreover have "case Find_loop N (Some buf) w vect left (?mid - 1) of Inl e \<Rightarrow> False
        | Inr (Some n) \<Rightarrow> n \<in> set vect \<and> word_of N buf n = w
        | Inr None \<Rightarrow> \<forall>i. left \<le> i \<and> i \<le> ?mid - 1 \<longrightarrow> ?W i \<noteq> w"
        by (rule "1.hyps"(2) [OF True fit refl refl _ refl]) (use 3 ok "1.prems" mid in auto)
      ultimately show ?thesis
        unfolding eq by (auto split: sum.splits option.splits) (metis linorder_not_le zle_diff1_eq)
    qed
  qed
qed

text \<open>On a sorted bucket \<open>Find\<close> never faults and finds exactly the words that are there.\<close>

lemma Find_sorted:
  assumes "m_wordsBuf hv = Some buf" and "sorted (map (word_of N buf) (data hv (GetHashValue B w)))"
    and "\<forall>n \<in> set (data hv (GetHashValue B w)). word_ok N buf n" and "length (data hv (GetHashValue B w)) \<le> 2 ^ 30"
  shows "case Find N B w hv of
      Inl e \<Rightarrow> False
    | Inr (Some n) \<Rightarrow> n \<in> set (data hv (GetHashValue B w)) \<and> word_of N buf n = cstr w
    | Inr None \<Rightarrow> \<forall>n \<in> set (data hv (GetHashValue B w)). word_of N buf n \<noteq> cstr w"
proof -
  let ?v = "data hv (GetHashValue B w)"
  have "\<forall>n \<in> set ?v. word_of N buf n \<noteq> cstr w"
    if "\<forall>i. 0 \<le> i \<and> i \<le> int (length ?v) - 1 \<longrightarrow> word_of N buf (?v ! nat i) \<noteq> cstr w"
  proof
    fix n assume "n \<in> set ?v"
    then obtain k where "k < length ?v" "n = ?v ! k" by (metis in_set_conv_nth)
    then show "word_of N buf n \<noteq> cstr w" using that [rule_format, of "int k"] by simp
  qed
  then show ?thesis
    using Find_loop_correct [OF assms(2) _ _ assms(3,4), of 0 "int (length ?v) - 1" "cstr w"] assms(4)
    by (auto simp: Find_def bucket_last_def assms(1) Let_def split: sum.splits option.splits)
qed

section \<open>Sorting\<close>

definition word_le :: "'n node_ops \<Rightarrow> bytes \<Rightarrow> 'n \<Rightarrow> 'n \<Rightarrow> bool" where
  "word_le N buf a b \<longleftrightarrow> word_of N buf a \<le> word_of N buf b"

lemma Partition_quick_order:
  assumes "nassign N = (\<lambda>d s. s)"
  shows "quick_order (\<lambda>_. True) (word_le N buf) (\<lambda>p x. strcmp (word_of N buf x) (word_of N buf p) < 0)
    (\<lambda>p x. strcmp (word_of N buf x) (word_of N buf p) \<ge> 0) (Wap N)"
  by unfold_locales (auto simp: Wap_def assms word_le_def)

lemma QSort_quick_sort:
  assumes copy: "nassign N = (\<lambda>d s. s)"
  shows "quick_sort (\<lambda>_. True) (word_le N buf) (Partition N buf) (QSort N buf)"
proof
  show "QSort N buf v lo hi = (if lo < hi then let (v', k) = Partition N buf v lo hi
      in QSort N buf (QSort N buf v' lo (k - 1)) (k + 1) hi else v)" for v lo hi
    by (simp add: QSort.simps [of N buf v])
next
  fix v v' and lo hi k :: int
  assume pt: "Partition N buf v lo hi = (v', k)" and lo: "0 \<le> lo" "lo < hi" "hi < int (length v)"
  show "lo \<le> k \<and> k \<le> hi \<and> same_outside lo hi v v' \<and>
      (\<forall>i. lo \<le> i \<and> i < k \<longrightarrow> word_le N buf (v' ! nat i) (v' ! nat k)) \<and>
      (\<forall>i. k < i \<and> i \<le> hi \<longrightarrow> word_le N buf (v' ! nat k) (v' ! nat i))"
  proof (cases "hi = lo + 1")
    case True
    have swap: "wap_at (Wap N) v lo hi = list_swap v (nat lo) (nat hi)"
      by (simp add: wap_at_def Wap_def copy list_swap_def)
    have k: "k = hi" and v': "v' = (if word_of N buf (v ! nat hi) < word_of N buf (v ! nat lo)
        then list_swap v (nat lo) (nat hi) else v)"
      using pt True by (auto simp: Partition_def Let_def swap [unfolded True] split: if_splits)
    have nth: "list_swap v (nat lo) (nat hi) ! nat i = (if i = lo then v ! nat hi else v ! nat lo)"
      if "lo \<le> i" "i \<le> hi" for i
      using that lo True by (auto simp: nth_list_swap nat_eq_iff2)
    have "same_outside lo hi v v'" using lo by (auto simp: v' intro: same_outside_swap)
    moreover have "word_le N buf (v' ! nat i) (v' ! nat hi)" if "lo \<le> i" "i < hi" for i
    proof -
      have "i = lo" using that True by simp
      then show ?thesis using lo by (auto simp: v' nth word_le_def)
    qed
    ultimately show ?thesis using lo k by auto
  next
    case False
    let ?p = "v ! nat lo"
    from False pt have "part_finish (Wap N) (\<lambda>x. strcmp (word_of N buf x) (word_of N buf ?p) \<ge> 0) lo
        (part_loop (Wap N) (\<lambda>x. strcmp (word_of N buf x) (word_of N buf ?p) < 0)
          (\<lambda>x. strcmp (word_of N buf x) (word_of N buf ?p) \<ge> 0) v lo (lo + 1) hi) = (v', k)"
      by (simp add: Partition_def Let_def)
    note P = quick_order.part_finish_split [OF Partition_quick_order [OF copy] this refl lo]
    then show ?thesis by (auto simp: word_le_def)
  qed
qed (auto simp: word_le_def)

lemma QSort_sorts:
  assumes "nassign N = (\<lambda>d s. s)"
  shows "mset (QSort N buf v 0 (int (length v) - 1)) = mset v \<and>
    sorted (map (word_of N buf) (QSort N buf v 0 (int (length v) - 1)))"
  using quick_sort.QS_whole [OF QSort_quick_sort [OF assms, of buf], of v]
  by (simp add: sorted_map word_le_def [abs_def])

text \<open>
  A bucket that is already in order is left alone, whatever \<open>operator=\<close> the nodes have: no scan
  finds a pair to exchange.
\<close>

lemma part_down_all:
  assumes "\<forall>i. left \<le> i \<and> i \<le> right \<longrightarrow> goR (v ! nat i)" and "key < left" and "left \<le> right + 1"
  shows "part_down goR v key left right = left - 1"
  using assms
proof (induction goR v key left right rule: part_down.induct)
  case (1 goR v key left right)
  then show ?case
    by (cases "left \<le> right") (auto simp: part_down.simps [of goR v key left right])
qed

lemma Partition_ordered:
  assumes ord: "sorted (map (word_of N buf) v)" and lo: "0 \<le> left" "left < right" "right < int (length v)"
  shows "Partition N buf v left right = (v, if right = left + 1 then right else left)"
proof -
  let ?p = "word_of N buf (v ! nat left)"
  have ge: "?p \<le> word_of N buf (v ! nat i)" if "left \<le> i" "i \<le> right" for i
    using sorted_nth_mono [OF ord, of "nat left" "nat i"] that lo by auto
  show ?thesis
  proof (cases "right = left + 1")
    case True
    then show ?thesis using ge [of right] lo by (auto simp: Partition_def Let_def)
  next
    case False
    have up: "part_up (\<lambda>x. word_of N buf x < ?p) v (left + 1) right = left + 1"
      using ge [of "left + 1"] lo by (subst part_up.simps) auto
    have down: "part_down (\<lambda>x. ?p \<le> word_of N buf x) v left (left + 1) right = left"
      using ge lo by (subst part_down_all) auto
    from False lo show ?thesis
      by (simp add: Partition_def Let_def part_loop.simps [of _ _ _ v] up down part_finish_def)
  qed
qed

lemma QSort_ordered:
  assumes "sorted (map (word_of N buf) v)" and "0 \<le> left" and "right < int (length v)"
  shows "QSort N buf v left right = v"
  using assms
proof (induction N buf v left right rule: QSort.induct)
  case (1 N buf v left right)
  show ?case
  proof (cases "left < right")
    case True
    note pt = Partition_ordered [OF "1.prems"(1,2) True "1.prems"(3)]
    have a: "QSort N buf v left ((if right = left + 1 then right else left) - 1) = v"
      using "1.IH"(1) [OF True pt [symmetric] refl] "1.prems" True by (auto split: if_splits)
    have b: "QSort N buf v ((if right = left + 1 then right else left) + 1) right = v"
      using "1.IH"(2) [OF True pt [symmetric] refl] "1.prems" True a by (auto split: if_splits)
    show ?thesis using True a b by (subst QSort.simps) (simp add: pt Let_def)
  qed (simp add: QSort.simps)
qed

lemma Sort_ordered:
  assumes "\<And>i. i < B \<Longrightarrow> sorted (map (word_of N (m_charVect hv)) (data hv i))"
    and "\<And>i n. i < B \<Longrightarrow> n \<in> set (data hv i) \<Longrightarrow> word_ok N (m_charVect hv) n"
  shows "Sort N B hv = Inr (hv\<lparr>m_wordsBuf := Some (m_charVect hv)\<rparr>)"
proof -
  have le: "bucket_last v < int (length v)" for v :: "'a list"
    using c_int_le [of "int (length v) - 1"] by (simp add: bucket_last_def)
  have "(\<lambda>i. if i < B then QSort N (m_charVect hv) (data hv i) 0 (bucket_last (data hv i))
      else data hv i) = data hv"
    using QSort_ordered [OF assms(1) order_refl le] by (auto simp: fun_eq_iff)
  moreover have "\<not> list_ex (\<lambda>i. sort_faults N (m_charVect hv) (data hv i)) [0..<B]"
    using assms(2) by (auto simp: list_ex_iff sort_faults_def dest!: in_set_takeD)
  ultimately show ?thesis by (simp add: Sort_def Let_def)
qed

section \<open>What the nodes stand for\<close>

text \<open>
  The entries of a list of nodes over a word buffer: each node's word with the node itself, its
  word offset erased. The operations of the class are described by what they do to the entries;
  offsets are an implementation detail.
\<close>

definition entry :: "'n node_ops \<Rightarrow> bytes \<Rightarrow> 'n \<Rightarrow> bytes \<times> 'n" where
  "entry N buf n = (word_of N buf n, nset_off N 0 n)"

definition entries :: "'n node_ops \<Rightarrow> bytes \<Rightarrow> 'n list \<Rightarrow> (bytes \<times> 'n) list" where
  "entries N buf ns = map (entry N buf) ns"

definition words_in :: "'n node_ops \<Rightarrow> bytes \<Rightarrow> 'n list \<Rightarrow> bytes" where
  "words_in N buf ns = concat (map (\<lambda>n. word_of N buf n @ [NUL]) ns)"

definition words_len :: "'n node_ops \<Rightarrow> bytes \<Rightarrow> (nat \<Rightarrow> 'n list) \<Rightarrow> nat list \<Rightarrow> nat" where
  "words_len N buf d is = sum_list (map (\<lambda>i. length (words_in N buf (d i))) is)"

text \<open>
  The class invariant while the index is being built: every node of bucket \<open>i\<close> refers to a
  terminated word of hash \<open>i\<close>, and the character vector holds the words of the nodes and nothing
  else.
\<close>

definition node_ok :: "'n node_ops \<Rightarrow> nat \<Rightarrow> bytes \<Rightarrow> nat \<Rightarrow> 'n \<Rightarrow> bool" where
  "node_ok N B buf i n \<longleftrightarrow> terminated_at buf (noff N n) \<and> GetHashValue B (word_of N buf n) = i"

definition hv_wf :: "'n node_ops \<Rightarrow> nat \<Rightarrow> 'n hashvector \<Rightarrow> bool" where
  "hv_wf N B hv \<longleftrightarrow>
     (\<forall>i. \<forall>n \<in> set (data hv i). i < B \<and> node_ok N B (m_charVect hv) i n) \<and>
     length (m_charVect hv) = words_len N (m_charVect hv) (data hv) [0..<B]"

text \<open>The contract of a node type. Offsets are stored exactly below \<open>2 ^ 31\<close>.\<close>

locale node_type =
  fixes N :: "'n node_ops"
  assumes off_set: "k < 2 ^ 31 \<Longrightarrow> noff N (nset_off N k n) = k"
    and set_set: "nset_off N j (nset_off N k n) = nset_off N j n"
    and dec_enc: "ndec N (nenc N n) = n"
    and enc_size: "length (nenc N n) = nsize N"
begin

lemma entries_append_buf:
  "\<forall>n \<in> set ns. terminated_at buf (noff N n) \<Longrightarrow> entries N (buf @ post) ns = entries N buf ns"
  by (simp add: entries_def entry_def word_of_def cstr_at_append)

lemma words_in_append_buf:
  "\<forall>n \<in> set ns. terminated_at buf (noff N n) \<Longrightarrow> words_in N (buf @ post) ns = words_in N buf ns"
  by (simp add: words_in_def word_of_def cstr_at_append cong: map_cong)

lemma terminated_bound: "terminated_at buf k \<Longrightarrow> k < length buf"
  by (rule ccontr) (simp add: terminated_at_def)

lemma words_in_entries: "words_in N buf ns = concat (map (\<lambda>e. fst e @ [NUL]) (entries N buf ns))"
  by (simp add: words_in_def entries_def entry_def comp_def)

lemma entry_new:
  "length cv < 2 ^ 31 \<Longrightarrow> entry N (cv @ cstr w @ [NUL]) (nset_off N (length cv) n) = (cstr w, nset_off N 0 n)"
  using cstr_at_stored [of "cstr w" cv "[]"] by (simp add: entry_def word_of_def off_set set_set)

lemma AddItem_entries:
  assumes wf: "hv_wf N B hv" and small: "length (m_charVect hv) < 2 ^ 31"
  shows "entries N (m_charVect (AddItem N B item w hv)) (data (AddItem N B item w hv) i) =
    entries N (m_charVect hv) (data hv i) @ (if i = GetHashValue B w then [(cstr w, nset_off N 0 item)] else [])"
proof -
  let ?cv = "m_charVect hv"
  have old: "entries N (?cv @ cstr w @ [NUL]) (data hv i) = entries N ?cv (data hv i)"
    using wf by (intro entries_append_buf) (auto simp: hv_wf_def node_ok_def)
  have new: "entries N (?cv @ cstr w @ [NUL]) [nset_off N (length ?cv) item] = [(cstr w, nset_off N 0 item)]"
    using entry_new [OF small] by (simp add: entries_def)
  show ?thesis using old new by (simp add: AddItem_def Let_def entries_def)
qed

lemma sum_list_update:
  "j < B \<Longrightarrow> sum_list (map (\<lambda>i. f i + (if i = j then k else 0)) [0..<B]) = sum_list (map f [0..<B]) + (k::nat)"
  by (induction B) (auto simp: less_Suc_eq sum_list_addf cong: map_cong)

lemma AddItem_wf:
  assumes wf: "hv_wf N B hv" and small: "length (m_charVect hv) < 2 ^ 31" and B: "0 < B"
  shows "hv_wf N B (AddItem N B item w hv)"
proof -
  let ?cv = "m_charVect hv" let ?cv' = "?cv @ cstr w @ [NUL]" let ?h = "GetHashValue B w"
  let ?hv = "AddItem N B item w hv"
  have h: "?h < B" by (rule GetHashValue_less [OF B])
  have keep: "node_ok N B ?cv' i n" if "node_ok N B ?cv i n" for i n
    using that by (simp add: node_ok_def word_of_def cstr_at_append terminated_at_append)
  have new: "node_ok N B ?cv' ?h (nset_off N (length ?cv) item)"
    using cstr_at_stored [of "cstr w" ?cv "[]"] small
    by (simp add: node_ok_def word_of_def off_set terminated_at_stored)
  have "length (words_in N ?cv' (data ?hv i)) =
      length (words_in N ?cv (data hv i)) + (if i = ?h then Suc (length (cstr w)) else 0)" for i
    using AddItem_entries [OF wf small, of item w i]
    by (auto simp: words_in_entries AddItem_def Let_def)
  then have "words_len N ?cv' (data ?hv) [0..<B] = words_len N ?cv (data hv) [0..<B] + Suc (length (cstr w))"
    by (simp add: words_len_def sum_list_update [OF h])
  with wf h keep new show ?thesis
    by (auto simp: hv_wf_def AddItem_def Let_def)
qed

lemma empty_wf: "hv_wf N B empty_hv"
  by (simp add: hv_wf_def empty_hv_def words_len_def words_in_def sum_list_eq_0_iff)

lemma length_words_in: "length ns \<le> length (words_in N buf ns)"
  by (induction ns) (auto simp: words_in_def)

lemma bucket_small:
  assumes "hv_wf N B hv"
  shows "length (data hv i) \<le> length (m_charVect hv)"
proof (cases "data hv i = []")
  case False
  then have i: "i \<in> set [0..<B]" using assms by (fastforce simp: hv_wf_def neq_Nil_conv)
  have "length (data hv i) \<le> length (words_in N (m_charVect hv) (data hv i))"
    by (rule length_words_in)
  also have "\<dots> \<le> words_len N (m_charVect hv) (data hv) [0..<B]"
    unfolding words_len_def by (intro member_le_sum_list) (use i in auto)
  finally show ?thesis using assms by (simp add: hv_wf_def)
qed simp

text \<open>\<open>WriteFile\<close>: laying the words out again changes no entry.\<close>

lemma rewrite_bucket_entries:
  assumes "rewrite_bucket N cv ns out = (ns', out')" and "\<forall>n \<in> set ns. noff N n < 2 ^ 31"
    and "length out' \<le> 2 ^ 31"
  shows "out' = out @ words_in N cv ns \<and> entries N out' ns' = entries N cv ns \<and>
    (\<forall>n \<in> set ns'. terminated_at out' (noff N n)) \<and> length ns' = length ns"
  using assms
proof (induction ns arbitrary: out ns' out')
  case Nil
  then show ?case by (simp add: words_in_def entries_def)
next
  case (Cons n ns)
  let ?w = "cstr_at cv (noff N n)"
  let ?n = "nset_off N (length out) n"
  obtain ms where rec: "rewrite_bucket N cv ns (out @ ?w @ [NUL]) = (ms, out')"
    and ns': "ns' = nset_off N (length out mod 2 ^ 32) n # ms"
    using Cons.prems by (auto simp: Let_def split: prod.splits)
  note IH = Cons.IH [OF rec] 
  have out': "out' = out @ ?w @ NUL # words_in N cv ns" using IH Cons.prems by simp
  then have small: "length out < 2 ^ 31" using Cons.prems(3) by simp
  then have eq: "length out mod 2 ^ 32 = length out" by simp
  have o: "noff N ?n = length out" using small by (rule off_set)
  have nf: "nul_free ?w" by (simp add: cstr_at_def)
  have w: "word_of N out' ?n = ?w"
    using cstr_at_stored [OF nf, of out "words_in N cv ns"] by (simp add: word_of_def o out')
  have t: "terminated_at out' (noff N ?n)"
    unfolding o out' by (rule terminated_at_stored)
  show ?case
    using IH Cons.prems out' w t
    by (simp add: ns' eq entries_def entry_def words_in_def set_set word_of_def)
qed

lemma rewrite_bucket_out:
  "\<forall>n \<in> set ns. noff N n < 2 ^ 31 \<Longrightarrow> snd (rewrite_bucket N cv ns out) = out @ words_in N cv ns"
  by (induction ns arbitrary: out) (simp_all add: Let_def words_in_def word_of_def case_prod_beta)

lemma rewrite_buckets_len:
  "distinct is \<Longrightarrow> \<forall>i \<in> set is. \<forall>n \<in> set (d i). noff N n < 2 ^ 31 \<Longrightarrow>
   length (snd (rewrite_buckets N cv d is out)) = length out + words_len N cv d is"
proof (induction "is" arbitrary: d out)
  case Nil
  then show ?case by (simp add: words_len_def)
next
  case (Cons i "is")
  obtain ns1 out1 where one: "rewrite_bucket N cv (d i) out = (ns1, out1)" by fastforce
  have out1: "out1 = out @ words_in N cv (d i)"
    using rewrite_bucket_out [of "d i" cv out] Cons.prems one by simp
  have other: "(d(i := ns1)) j = d j" if "j \<in> set is" for j using that Cons.prems by auto
  have "length (snd (rewrite_buckets N cv (d(i := ns1)) is out1)) = length out1 + words_len N cv (d(i := ns1)) is"
    using Cons.prems by (intro Cons.IH) (auto simp: other simp del: fun_upd_apply)
  also have "words_len N cv (d(i := ns1)) is = words_len N cv d is"
    by (simp add: words_len_def other cong: map_cong del: fun_upd_apply)
  finally show ?case by (simp add: one out1 words_len_def del: fun_upd_apply)
qed

lemma rewrite_buckets_other:
  "rewrite_buckets N cv d is out = (d', out') \<Longrightarrow> i \<notin> set is \<Longrightarrow> d' i = d i"
  by (induction "is" arbitrary: d out) (auto simp: Let_def split: prod.splits)

lemma rewrite_buckets_entries:
  assumes "rewrite_buckets N cv d is out = (d', out')" and "distinct is"
    and "\<forall>i \<in> set is. \<forall>n \<in> set (d i). noff N n < 2 ^ 31" and "length out' \<le> 2 ^ 31"
  shows "(\<exists>w. out' = out @ w \<and> length w = words_len N cv d is) \<and>
    (\<forall>i \<in> set is. entries N out' (d' i) = entries N cv (d i) \<and>
       (\<forall>n \<in> set (d' i). terminated_at out' (noff N n)) \<and> length (d' i) = length (d i))"
  using assms
proof (induction "is" arbitrary: d out)
  case Nil
  then show ?case by (simp add: words_len_def)
next
  case (Cons i "is")
  obtain ns1 out1 where one: "rewrite_bucket N cv (d i) out = (ns1, out1)" by fastforce
  let ?d = "d(i := ns1)"
  from Cons.prems one have rest: "rewrite_buckets N cv ?d is out1 = (d', out')" by simp
  have notin: "i \<notin> set is" using Cons.prems by simp
  have same: "words_len N cv ?d is = words_len N cv d is"
    using notin by (auto simp: words_len_def intro!: arg_cong [where f = sum_list] map_cong)
  note IH = Cons.IH [OF rest]
  have IH': "(\<exists>w. out' = out1 @ w \<and> length w = words_len N cv d is) \<and>
    (\<forall>j \<in> set is. entries N out' (d' j) = entries N cv (d j) \<and>
       (\<forall>n \<in> set (d' j). terminated_at out' (noff N n)) \<and> length (d' j) = length (d j))"
  proof -
    have other: "(d(i := ns1)) j = d j" if "j \<in> set is" for j using that notin by auto
    show ?thesis using IH Cons.prems(2-4) same by (simp add: other del: fun_upd_apply)
  qed
  then obtain w where w: "out' = out1 @ w" "length w = words_len N cv d is" by blast
  have len1: "length out1 \<le> 2 ^ 31" using w Cons.prems by simp
  note R = rewrite_bucket_entries [OF one _ len1]
  have d'i: "d' i = ns1" using rewrite_buckets_other [OF rest notin] by simp
  have R': "out1 = out @ words_in N cv (d i)" "entries N out1 ns1 = entries N cv (d i)"
      "\<forall>n \<in> set ns1. terminated_at out1 (noff N n)" "length ns1 = length (d i)"
    using R Cons.prems by auto
  have "entries N out' ns1 = entries N cv (d i)"
    using R'(2) entries_append_buf [OF R'(3)] w by simp
  moreover have "\<forall>n \<in> set ns1. terminated_at out' (noff N n)"
    using R'(3) w by (auto intro: terminated_at_append)
  moreover have "out' = out @ (words_in N cv (d i) @ w)"
    and "length (words_in N cv (d i) @ w) = words_len N cv d (i # is)"
    using w R' by (auto simp: words_len_def)
  ultimately show ?case using IH' d'i R'(4) by auto
qed

text \<open>\<open>ReadInFile\<close> reads every bucket back.\<close>

lemmas decode_nodes_enc = decode_items_enc [of "ndec N" "nenc N", OF dec_enc enc_size]
lemmas length_enc_nodes = length_enc_items [of "nenc N", OF enc_size]

lemma read_bucket_record:
  assumes "i < B" and "B < 2 ^ 32" and "length (d i) < 2 ^ 32"
  shows "read_bucket N B (d0, bucket_record N d i @ post) = Inr (d0(i := d i), post)"
proof -
  have f1: "fread 4 (bucket_record N d i @ post) =
      Some (le_bytes 4 i, le_bytes 4 (length (d i)) @ concat (map (nenc N) (d i)) @ post)"
    by (simp add: bucket_record_def fread_append)
  have f2: "fread 4 (le_bytes 4 (length (d i)) @ concat (map (nenc N) (d i)) @ post) =
      Some (le_bytes 4 (length (d i)), concat (map (nenc N) (d i)) @ post)"
    by (simp add: fread_append)
  have v: "le_val (le_bytes 4 i) = i" "le_val (le_bytes 4 (length (d i))) = length (d i)"
    using assms by (auto simp: le_val_le_bytes)
  have up: "fread_upto (nsize N * length (d i)) (concat (map (nenc N) (d i)) @ post) =
      (concat (map (nenc N) (d i)), post)"
    by (simp add: fread_upto_def length_enc_nodes)
  show ?thesis
    using assms by (auto simp: read_bucket_def f1 f2 v up overlay_def decode_nodes_enc Let_def)
qed

lemma read_buckets_records:
  assumes "\<forall>i < B. length (d i) < 2 ^ 32" and "B < 2 ^ 32" and "j + k \<le> B"
  shows "read_buckets N B k (d0, concat (map (bucket_record N d) [j..<j + k]) @ post) =
    Inr (\<lambda>i. if j \<le> i \<and> i < j + k then d i else d0 i, post)"
  using assms(3)
proof (induction k arbitrary: j d0)
  case 0
  then show ?case by (auto simp: fun_eq_iff)
next
  case (Suc k)
  have l: "[j..<j + Suc k] = j # [Suc j..<Suc j + k]" using upt_conv_Cons [of j "j + Suc k"] by simp
  have one: "read_bucket N B (d0, bucket_record N d j @ concat (map (bucket_record N d) [Suc j..<Suc j + k]) @ post) =
      Inr (d0(j := d j), concat (map (bucket_record N d) [Suc j..<Suc j + k]) @ post)"
    using Suc.prems assms by (intro read_bucket_record) auto
  have rest: "read_buckets N B k (d0(j := d j), concat (map (bucket_record N d) [Suc j..<Suc j + k]) @ post) =
      Inr (\<lambda>i. if Suc j \<le> i \<and> i < Suc j + k then d i else (d0(j := d j)) i, post)"
    using Suc.prems by (intro Suc.IH) simp
  show ?case
    by (simp only: l read_buckets.simps list.map concat.simps append.assoc one sum.case rest)
      (auto simp: fun_eq_iff)
qed

definition file_image :: "nat \<Rightarrow> bytes \<Rightarrow> (nat \<Rightarrow> 'n list) \<Rightarrow> bytes" where
  "file_image B out d =
     le_bytes 8 (length out) @ out @ le_bytes 4 B @ concat (map (bucket_record N d) [0..<B])"

lemma fwrite_unlimited:
  "froom f = None \<Longrightarrow> fwrite b f = (f\<lparr>fdata := fdata f @ b\<rparr>, length b)"
  by (simp add: fwrite_def)

lemma foldl_fwrite:
  "froom f = None \<Longrightarrow> foldl (\<lambda>g i. fst (fwrite (h i) g)) f is = f\<lparr>fdata := fdata f @ concat (map h is)\<rparr>"
  by (induction "is" arbitrary: f) (auto simp: fwrite_def)

lemma WriteFile_image:
  assumes wf: "hv_wf N B hv" and small: "length (m_charVect hv) < 2 ^ 31" and room: "froom f = None"
  obtains d' out where
    "WriteFile fresh N B hv (Some f) =
       Inr (hv\<lparr>m_wordsBufSize := length (m_charVect hv), m_wordsBuf := None, data := d'\<rparr>,
         Some (f\<lparr>fdata := fdata f @ file_image B out d'\<rparr>), True)"
    and "length out = length (m_charVect hv)"
    and "\<And>i. i < B \<Longrightarrow> entries N out (d' i) = entries N (m_charVect hv) (data hv i) \<and>
      length (d' i) = length (data hv i) \<and> (\<forall>n \<in> set (d' i). word_ok N out n)"
proof -
  let ?cv = "m_charVect hv"
  obtain d' out where rw: "rewrite_buckets N ?cv (data hv) [0..<B] [] = (d', out)" by fastforce
  have "length out = words_len N ?cv (data hv) [0..<B] \<and>
      (\<forall>i \<in> set [0..<B]. entries N out (d' i) = entries N ?cv (data hv i) \<and> length (d' i) = length (data hv i) \<and>
        (\<forall>n \<in> set (d' i). word_ok N out n))"
  proof -
    have off: "\<forall>i \<in> set [0..<B]. \<forall>n \<in> set (data hv i). noff N n < 2 ^ 31"
      using wf small by (force simp: hv_wf_def node_ok_def dest!: terminated_bound)
    have "length out = words_len N ?cv (data hv) [0..<B]"
      using rewrite_buckets_len [OF distinct_upt off, of ?cv "[]"] by (simp add: rw)
    then show ?thesis
      using rewrite_buckets_entries [OF rw distinct_upt off] wf small by (auto simp: hv_wf_def word_ok_def)
  qed
  with wf have len: "length out = length ?cv"
    and ent: "\<And>i. i < B \<Longrightarrow> entries N out (d' i) = entries N ?cv (data hv i) \<and> length (d' i) = length (data hv i) \<and>
      (\<forall>n \<in> set (d' i). word_ok N out n)"
    by (auto simp: hv_wf_def)
  show ?thesis
  proof (rule that [of d' out])
    show "WriteFile fresh N B hv (Some f) =
       Inr (hv\<lparr>m_wordsBufSize := length ?cv, m_wordsBuf := None, data := d'\<rparr>,
         Some (f\<lparr>fdata := fdata f @ file_image B out d'\<rparr>), True)"
      using room by (simp add: WriteFile_def rw Let_def len fwrite_unlimited foldl_fwrite file_image_def)
  qed (use len ent in auto)
qed

lemma ReadInFile_image:
  assumes "length out < 2 ^ 31" and "B < 2 ^ 32" and "\<forall>i < B. length (d i) < 2 ^ 32"
  shows "ReadInFile fresh N B hv (Some (file_image B out d @ post)) =
    Inr (hv\<lparr>m_wordsBufSize := length out, m_wordsBuf := Some out,
            data := (\<lambda>i. if i < B then d i else data hv i)\<rparr>, Some post, True)"
proof -
  have up8: "fread_upto 8 (file_image B out d @ post) =
      (le_bytes 8 (length out), out @ le_bytes 4 B @ concat (map (bucket_record N d) [0..<B]) @ post)"
    by (simp add: fread_upto_def file_image_def)
  have size: "le_val (overlay old (le_bytes 8 (length out))) = length out" if "length old = 8" for old
    using assms(1) that by (simp add: overlay_def le_val_le_bytes)
  have B4: "le_val (le_bytes 4 B) = B" using assms(2) by (simp add: le_val_le_bytes)
  have up: "fread_upto (length out) (out @ post') = (out, post')" for post'
    by (simp add: fread_upto_def)
  have f4: "fread 4 (le_bytes 4 B @ post') = Some (le_bytes 4 B, post')" for post'
    by (simp add: fread_append)
  show ?thesis
    using read_buckets_records [OF assms(3,2), of 0 B "data hv" post]
    by (simp add: ReadInFile_def up8 size up B4 f4 Let_def)
qed

lemma Find_entries:
  assumes "m_wordsBuf hv = Some buf"
    and "sorted (map fst (entries N buf (data hv (GetHashValue B w))))"
    and "\<forall>n \<in> set (data hv (GetHashValue B w)). word_ok N buf n" and "length (data hv (GetHashValue B w)) \<le> 2 ^ 30"
  shows "case Find N B w hv of
      Inl e \<Rightarrow> False
    | Inr (Some n) \<Rightarrow> (cstr w, nset_off N 0 n) \<in> set (entries N buf (data hv (GetHashValue B w)))
    | Inr None \<Rightarrow> cstr w \<notin> fst ` set (entries N buf (data hv (GetHashValue B w)))"
  using Find_sorted [of hv buf N B w] assms
  by (auto simp: entries_def entry_def comp_def image_iff split: sum.splits option.splits) metis

text \<open>
  Saving an index and reading it back, into any object, gives the same entries in every bucket;
  what follows in the file is left to the caller.
\<close>

lemma Read_after_Write:
  assumes wf: "hv_wf N B hv" and small: "length (m_charVect hv) < 2 ^ 31" and room: "froom f = None"
    and B: "B < 2 ^ 32"
  obtains hv1 f1 hv2 buf where
    "WriteFile fresh N B hv (Some f) = Inr (hv1, Some f1, True)" and "froom f1 = None"
    and "\<And>post. ReadInFile fresh' N B hv0 (Some (drop (length (fdata f)) (fdata f1) @ post)) =
      Inr (hv2, Some post, True)"
    and "take (length (fdata f)) (fdata f1) = fdata f"
    and "m_wordsBuf hv2 = Some buf"
    and "\<And>i. i < B \<Longrightarrow> entries N buf (data hv2 i) = entries N (m_charVect hv) (data hv i) \<and>
      (\<forall>n \<in> set (data hv2 i). word_ok N buf n)"
proof -
  obtain d' out where w: "WriteFile fresh N B hv (Some f) =
       Inr (hv\<lparr>m_wordsBufSize := length (m_charVect hv), m_wordsBuf := None, data := d'\<rparr>,
         Some (f\<lparr>fdata := fdata f @ file_image B out d'\<rparr>), True)"
    and len: "length out = length (m_charVect hv)"
    and ent: "\<And>i. i < B \<Longrightarrow> entries N out (d' i) = entries N (m_charVect hv) (data hv i) \<and>
      length (d' i) = length (data hv i) \<and> (\<forall>n \<in> set (d' i). word_ok N out n)"
    using WriteFile_image [OF wf small room, of fresh] by blast
  have sz: "length (d' i) < 2 ^ 32" if "i < B" for i
    using ent [OF that] bucket_small [OF wf, of i] small by simp
  show ?thesis
  proof (rule that)
    show "WriteFile fresh N B hv (Some f) =
       Inr (hv\<lparr>m_wordsBufSize := length (m_charVect hv), m_wordsBuf := None, data := d'\<rparr>,
         Some (f\<lparr>fdata := fdata f @ file_image B out d'\<rparr>), True)" by (rule w)
    show "ReadInFile fresh' N B hv0 (Some (drop (length (fdata f))
          (fdata (f\<lparr>fdata := fdata f @ file_image B out d'\<rparr>)) @ post)) =
        Inr (hv0\<lparr>m_wordsBufSize := length out, m_wordsBuf := Some out,
            data := (\<lambda>i. if i < B then d' i else data hv0 i)\<rparr>, Some post, True)" for post
      using ReadInFile_image [of out B d' fresh' hv0 post] len small B sz by simp
  qed (use room ent in auto)
qed

end

text \<open>
  After \<open>WriteFile\<close> the object has no word buffer: a \<open>Find\<close> on it that reaches a non-empty bucket
  goes through a null pointer until the index is loaded again.
\<close>

lemma Find_without_buffer:
  "m_wordsBuf hv = None \<Longrightarrow> data hv (GetHashValue B w) \<noteq> [] \<Longrightarrow> length (data hv (GetHashValue B w)) < 2 ^ 31 \<Longrightarrow>
   Find N B w hv = Inl NullDeref"
  by (cases "data hv (GetHashValue B w)") (simp_all add: Find_def Find_loop.simps bucket_last_def Let_def)

end
