(* ===== verification/CommonIndex.thy ===== *)
theory CommonIndex
  imports HashVector
begin

text \<open>
  The inverted index template \<open>CommonIndex<DOC_TYPE, INV_TYPE, KEY_TYPE>\<close> of
  \<open>src/include/common_index.h\<close>: documents and posting lists are collected by \<open>Add\<close>, turned into
  a hash index and written by \<open>Save\<close>, and read back by \<open>Load\<close> for \<open>GetInv\<close>, \<open>GetDoc\<close> and
  \<open>GetDocText\<close>.

  The three template parameters are a record of the operations the code uses on them. Its instances
  are the default types of the header and the types of \<open>src/index/inv_index/doc_index.h\<close>. A
  \<open>float\<close> is its IEEE bit pattern, with the comparisons of the language (a NaN compares with
  nothing).
\<close>

section \<open>Numbers\<close>

type_synonym cfloat = "32 word"

definition float_mag :: "cfloat \<Rightarrow> nat" where
  "float_mag w = unat (take_bit 31 w)"

definition float_nan :: "cfloat \<Rightarrow> bool" where
  "float_nan w \<longleftrightarrow> 0x7f800000 < float_mag w"

definition float_key :: "cfloat \<Rightarrow> int" where
  "float_key w = (if bit w 31 then - int (float_mag w) else int (float_mag w))"

definition float_lt :: "cfloat \<Rightarrow> cfloat \<Rightarrow> bool" where
  "float_lt a b \<longleftrightarrow> \<not> float_nan a \<and> \<not> float_nan b \<and> float_key a < float_key b"

definition float_ge :: "cfloat \<Rightarrow> cfloat \<Rightarrow> bool" where
  "float_ge a b \<longleftrightarrow> \<not> float_nan a \<and> \<not> float_nan b \<and> float_key b \<le> float_key a"

section \<open>The template parameters\<close>

record ('d, 'i, 'k) index_types =
  KN :: "'k node_ops"
  kbegin :: "'k \<Rightarrow> int"
  kend :: "'k \<Rightarrow> int"
  kset_range :: "int \<Rightarrow> int \<Rightarrow> 'k \<Rightarrow> 'k"
  doff :: "'d \<Rightarrow> nat"
  dset_off :: "nat \<Rightarrow> 'd \<Rightarrow> 'd"
  dweight :: "'d \<Rightarrow> cfloat"
  dsize :: nat
  denc :: "'d \<Rightarrow> bytes"
  ddec :: "bytes \<Rightarrow> 'd"
  iid :: "'i \<Rightarrow> nat"
  iset_id :: "nat \<Rightarrow> 'i \<Rightarrow> 'i"
  iassign :: "'i \<Rightarrow> 'i \<Rightarrow> 'i"
  isize :: nat
  ienc :: "'i \<Rightarrow> bytes"
  idec :: "bytes \<Rightarrow> 'i"

section \<open>State\<close>

text \<open>
  \<open>std::map<std::string, INV_VECT>\<close> is an association list kept in key order; the buffers are
  \<open>None\<close> for \<open>NULL\<close>.
\<close>

record ('d, 'i, 'k) common_index =
  m_char_buf :: "bytes option"
  m_num_char :: int
  m_doc_buf :: "'d list option"
  m_num_doc :: int
  m_inv_buf :: "'i list option"
  m_num_inv :: int
  m_index :: "'k hashvector"
  m_char_vect :: bytes
  m_doc_vect :: "'d list"
  m_inv_vect :: "'i list"
  m_index_map :: "(bytes \<times> 'i list) list"

abbreviation HASH_BASIC :: nat where "HASH_BASIC \<equiv> 11111"

definition new_index :: "('d, 'i, 'k) common_index" where
  "new_index = \<lparr>m_char_buf = None, m_num_char = 0, m_doc_buf = None, m_num_doc = 0,
     m_inv_buf = None, m_num_inv = 0, m_index = empty_hv, m_char_vect = [], m_doc_vect = [],
     m_inv_vect = [], m_index_map = []\<rparr>"

section \<open>Lookups\<close>

text \<open>A pointer into \<open>m_inv_buf\<close> is its index there; \<open>Inr None\<close> is the null result.\<close>

definition GetInv :: "('d, 'i, 'k) index_types \<Rightarrow> bytes \<Rightarrow> ('d, 'i, 'k) common_index
    \<Rightarrow> fault + (int \<times> int) option" where
  "GetInv T key_word ci = (case Find (KN T) HASH_BASIC key_word (m_index ci) of
       Inl e \<Rightarrow> Inl e
     | Inr None \<Rightarrow> Inr None
     | Inr (Some key_node) \<Rightarrow>
         Inr (Some (kbegin T key_node, c_int (kend T key_node - kbegin T key_node))))"

definition GetDoc :: "('d, 'i, 'k) index_types \<Rightarrow> 'i \<Rightarrow> ('d, 'i, 'k) common_index \<Rightarrow> fault + 'd" where
  "GetDoc T inv_node ci = (case m_doc_buf ci of
       None \<Rightarrow> Inl NullDeref
     | Some docs \<Rightarrow> if iid T inv_node < length docs then Inr (docs ! iid T inv_node) else Inl OutOfBounds)"

definition GetDocText :: "('d, 'i, 'k) index_types \<Rightarrow> 'd \<Rightarrow> ('d, 'i, 'k) common_index \<Rightarrow> fault + bytes" where
  "GetDocText T doc_node ci = (case m_char_buf ci of
       None \<Rightarrow> Inl NullDeref
     | Some buf \<Rightarrow> if terminated_at buf (doff T doc_node) then Inr (cstr_at buf (doff T doc_node))
                  else Inl OutOfBounds)"

text \<open>What a caller reads through the pointer and the count that \<open>GetInv\<close> returns.\<close>

definition read_inv :: "('d, 'i, 'k) common_index \<Rightarrow> int \<times> int \<Rightarrow> 'i list" where
  "read_inv ci = (\<lambda>(b, n). take (nat n) (drop (nat b) (case m_inv_buf ci of None \<Rightarrow> [] | Some invs \<Rightarrow> invs)))"

section \<open>Adding documents\<close>

text \<open>\<open>m_index_map[key].push_back(nd)\<close>\<close>

fun map_push :: "bytes \<Rightarrow> 'i \<Rightarrow> (bytes \<times> 'i list) list \<Rightarrow> (bytes \<times> 'i list) list" where
  "map_push key nd [] = [(key, [nd])]"
| "map_push key nd ((k, l) # m) =
     (if key < k then (key, [nd]) # (k, l) # m
      else if key = k then (k, l @ [nd]) # m
      else (k, l) # map_push key nd m)"

definition push_doc :: "('d, 'i, 'k) index_types \<Rightarrow> 'd \<Rightarrow> bytes \<Rightarrow> ('d, 'i, 'k) common_index
    \<Rightarrow> ('d, 'i, 'k) common_index" where
  "push_doc T doc_node doc_text ci =
     ci\<lparr>m_doc_vect := m_doc_vect ci @ [dset_off T (length (m_char_vect ci)) doc_node],
        m_char_vect := m_char_vect ci @ cstr doc_text @ [NUL]\<rparr>"

definition Add :: "('d, 'i, 'k) index_types \<Rightarrow> bytes \<Rightarrow> 'i \<Rightarrow> 'd \<Rightarrow> bytes \<Rightarrow> ('d, 'i, 'k) common_index
    \<Rightarrow> ('d, 'i, 'k) common_index" where
  "Add T key_word inv_node doc_node doc_text ci =
     (let inv_node' = iset_id T (length (m_doc_vect ci)) inv_node;
          ci' = push_doc T doc_node doc_text ci
      in ci'\<lparr>m_index_map := map_push (cstr key_word) inv_node' (m_index_map ci')\<rparr>)"

definition Add_keys :: "('d, 'i, 'k) index_types \<Rightarrow> bytes list \<Rightarrow> 'i \<Rightarrow> 'd \<Rightarrow> bytes
    \<Rightarrow> ('d, 'i, 'k) common_index \<Rightarrow> ('d, 'i, 'k) common_index" where
  "Add_keys T key_vect inv_node doc_node doc_text ci =
     (let inv_node' = iset_id T (length (m_doc_vect ci)) inv_node;
          ci' = push_doc T doc_node doc_text ci
      in ci'\<lparr>m_index_map := foldl (\<lambda>m k. map_push (cstr k) inv_node' m) (m_index_map ci') key_vect\<rparr>)"

text \<open>Running past the end of \<open>inv_vect\<close> is \<open>OutOfBounds\<close>.\<close>

fun push_each :: "('d, 'i, 'k) index_types \<Rightarrow> nat \<Rightarrow> bytes list \<Rightarrow> 'i list \<Rightarrow> (bytes \<times> 'i list) list
    \<Rightarrow> fault + (bytes \<times> 'i list) list" where
  "push_each T doc_id [] invs m = Inr m"
| "push_each T doc_id (k # ks) [] m = Inl OutOfBounds"
| "push_each T doc_id (k # ks) (nd # invs) m =
     push_each T doc_id ks invs (map_push (cstr k) (iset_id T doc_id nd) m)"

definition Add_each :: "('d, 'i, 'k) index_types \<Rightarrow> bytes list \<Rightarrow> 'i list \<Rightarrow> 'd \<Rightarrow> bytes
    \<Rightarrow> ('d, 'i, 'k) common_index \<Rightarrow> fault + ('d, 'i, 'k) common_index" where
  "Add_each T key_vect inv_vect doc_node doc_text ci =
     (let doc_id = length (m_doc_vect ci);
          ci' = push_doc T doc_node doc_text ci
      in case push_each T doc_id key_vect inv_vect (m_index_map ci') of
           Inl e \<Rightarrow> Inl e
         | Inr m \<Rightarrow> Inr (ci'\<lparr>m_index_map := m\<rparr>))"

section \<open>Sorting a posting list by document weight\<close>

definition ci_Wap :: "('d, 'i, 'k) index_types \<Rightarrow> 'i \<Rightarrow> 'i \<Rightarrow> 'i \<times> 'i" where
  "ci_Wap T node1 node2 = (let node = node1 in (iassign T node1 node2, iassign T node2 node))"

definition inv_weight :: "('d, 'i, 'k) index_types \<Rightarrow> 'd list \<Rightarrow> 'i \<Rightarrow> cfloat" where
  "inv_weight T docs nd = dweight T (docs ! iid T nd)"

definition ci_Partition :: "('d, 'i, 'k) index_types \<Rightarrow> 'd list \<Rightarrow> 'i list \<Rightarrow> int \<Rightarrow> int \<Rightarrow> 'i list \<times> int" where
  "ci_Partition T docs vect left right =
     (if right = left + 1 \<and> float_lt (inv_weight T docs (vect ! nat left)) (inv_weight T docs (vect ! nat right))
      then (wap_at (ci_Wap T) vect left right, right)
      else let key = left; key_value = inv_weight T docs (vect ! nat key) in
           part_finish (ci_Wap T) (\<lambda>x. float_lt (inv_weight T docs x) key_value) key
             (part_loop (ci_Wap T) (\<lambda>x. float_ge (inv_weight T docs x) key_value)
                (\<lambda>x. float_lt (inv_weight T docs x) key_value) vect key (left + 1) right))"

lemma ci_Partition_bounds:
  assumes "ci_Partition T docs vect left right = (v', k)" and "left < right"
  shows "left \<le> k \<and> k \<le> right"
proof (cases "right = left + 1 \<and> float_lt (inv_weight T docs (vect ! nat left)) (inv_weight T docs (vect ! nat right))")
  case True
  with assms show ?thesis by (auto simp: ci_Partition_def split: if_splits)
next
  case False
  let ?p = "inv_weight T docs (vect ! nat left)"
  obtain v l r where lp: "part_loop (ci_Wap T) (\<lambda>x. float_ge (inv_weight T docs x) ?p)
      (\<lambda>x. float_lt (inv_weight T docs x) ?p) vect left (left + 1) right = (v, l, r)"
    by (metis prod_cases3)
  with False assms(1) have "part_finish (ci_Wap T) (\<lambda>x. float_lt (inv_weight T docs x) ?p) left (v, l, r) = (v', k)"
    unfolding ci_Partition_def Let_def by (simp only: if_False)
  from part_finish_bounds [OF this] part_loop_bounds [OF lp] assms(2) show ?thesis by auto
qed

function ci_QSort :: "('d, 'i, 'k) index_types \<Rightarrow> 'd list \<Rightarrow> 'i list \<Rightarrow> int \<Rightarrow> int \<Rightarrow> 'i list" where
  "ci_QSort T docs vect left right =
     (if left < right then
        let (vect', key) = ci_Partition T docs vect left right
        in ci_QSort T docs (ci_QSort T docs vect' left (key - 1)) (key + 1) right
      else vect)"
  by pat_completeness auto
termination
proof (relation "measure (\<lambda>(T, docs, vect, left, right). nat (right - left + 1))", goal_cases)
  case (2 T docs vect left right x xa y)
  with ci_Partition_bounds [of T docs vect left right xa y] show ?case by auto
next
  case (3 T docs vect left right x xa y)
  with ci_Partition_bounds [of T docs vect left right xa y] show ?case by auto
qed simp

declare ci_QSort.simps [simp del]

section \<open>Building and saving\<close>

text \<open>One round of \<open>ChangeToHVIndex\<close>: \<open>indexNode\<close> is a fresh \<open>KEY_TYPE\<close>.\<close>

definition change_entry :: "('d, 'i, 'k) index_types \<Rightarrow> bool \<Rightarrow> bytes \<times> 'i list \<Rightarrow> ('d, 'i, 'k) common_index
    \<Rightarrow> (bytes \<times> 'i list) \<times> ('d, 'i, 'k) common_index" where
  "change_entry T is_need_sort = (\<lambda>(key, inv_vect) ci.
     let inv_vect' = (if is_need_sort then ci_QSort T (m_doc_vect ci) inv_vect 0 (int (length inv_vect) - 1)
                      else inv_vect);
         beg = c_int (int (length (m_inv_vect ci)));
         invs = m_inv_vect ci @ inv_vect';
         fin = c_int (int (length invs));
         indexNode = kset_range T beg fin (ndefault (KN T))
     in ((key, inv_vect'),
         ci\<lparr>m_inv_vect := invs, m_index := AddItem (KN T) HASH_BASIC indexNode key (m_index ci)\<rparr>))"

fun change_entries :: "('d, 'i, 'k) index_types \<Rightarrow> bool \<Rightarrow> (bytes \<times> 'i list) list \<Rightarrow> ('d, 'i, 'k) common_index
    \<Rightarrow> (bytes \<times> 'i list) list \<times> ('d, 'i, 'k) common_index" where
  "change_entries T srt [] ci = ([], ci)"
| "change_entries T srt (e # es) ci =
     (let (e', ci') = change_entry T srt e ci; (es', ci'') = change_entries T srt es ci'
      in (e' # es', ci''))"

definition ChangeToHVIndex :: "('d, 'i, 'k) index_types \<Rightarrow> bool \<Rightarrow> ('d, 'i, 'k) common_index
    \<Rightarrow> fault + ('d, 'i, 'k) common_index" where
  "ChangeToHVIndex T is_need_sort ci =
     (let (m, ci') = change_entries T is_need_sort (m_index_map ci) ci
      in case Sort (KN T) HASH_BASIC (m_index ci') of
           Inl e \<Rightarrow> Inl e
         | Inr hv \<Rightarrow> Inr (ci'\<lparr>m_index_map := m, m_index := hv\<rparr>))"

text \<open>An \<open>int\<close> count and the raw elements; \<open>False\<close> is a short write, \<open>return -1\<close>.\<close>

definition save_block :: "('a \<Rightarrow> bytes) \<Rightarrow> 'a list \<Rightarrow> ofile \<Rightarrow> fault + (ofile \<times> bool)" where
  "save_block enc items f =
     (let num = c_int (int (length items));
          (f1, n1) = fwrite (le_bytes 4 (nat (num mod 2 ^ 32))) f
      in if n1 \<noteq> 4 then Inr (f1, False)
         else if num < 0 then Inl OutOfBounds
         else let payload = concat (map enc (take (nat num) items));
                  (f2, n2) = fwrite payload f1
              in Inr (f2, n2 = length payload))"

definition Save :: "(nat \<Rightarrow> char) \<Rightarrow> ('d, 'i, 'k) index_types \<Rightarrow> ofile \<Rightarrow> bool \<Rightarrow> ('d, 'i, 'k) common_index
    \<Rightarrow> fault + (('d, 'i, 'k) common_index \<times> ofile \<times> int)" where
  "Save fresh T fp is_need_sort ci0 =
     (case ChangeToHVIndex T is_need_sort ci0 of Inl e \<Rightarrow> Inl e | Inr ci1 \<Rightarrow>
      let ci2 = ci1\<lparr>m_num_char := c_int (int (length (m_char_vect ci1)))\<rparr>
      in case save_block (\<lambda>c. [c]) (m_char_vect ci2) fp of Inl e \<Rightarrow> Inl e
      | Inr (f1, ok1) \<Rightarrow>
        if \<not> ok1 then Inr (ci2, f1, -1)
        else let ci3 = ci2\<lparr>m_num_doc := c_int (int (length (m_doc_vect ci2)))\<rparr> in
          case save_block (denc T) (m_doc_vect ci3) f1 of Inl e \<Rightarrow> Inl e
          | Inr (f2, ok2) \<Rightarrow>
            if \<not> ok2 then Inr (ci3, f2, -1)
            else let ci4 = ci3\<lparr>m_num_inv := c_int (int (length (m_inv_vect ci3)))\<rparr> in
              case save_block (ienc T) (m_inv_vect ci4) f2 of Inl e \<Rightarrow> Inl e
              | Inr (f3, ok3) \<Rightarrow>
                if \<not> ok3 then Inr (ci4, f3, -1)
                else case WriteFile fresh (KN T) HASH_BASIC (m_index ci4) (Some f3) of
                       Inl e \<Rightarrow> Inl e
                     | Inr (hv, f4, _) \<Rightarrow> Inr (ci4\<lparr>m_index := hv\<rparr>, the f4, 0))"

section \<open>Loading\<close>

definition ci_Clear :: "('d, 'i, 'k) common_index \<Rightarrow> ('d, 'i, 'k) common_index" where
  "ci_Clear ci = ci\<lparr>m_char_buf := None, m_num_char := 0, m_doc_buf := None, m_num_doc := 0,
     m_inv_buf := None, m_num_inv := 0, m_index := Clear HASH_BASIC (m_index ci),
     m_char_vect := [], m_doc_vect := [], m_inv_vect := [], m_index_map := []\<rparr>"

definition load_block :: "(nat \<Rightarrow> char) \<Rightarrow> nat \<Rightarrow> (bytes \<Rightarrow> 'a) \<Rightarrow> bytes
    \<Rightarrow> fault + (int \<times> 'a list option \<times> bytes \<times> bool)" where
  "load_block fresh sz dec f =
     (let (nb, f1) = fread_upto 4 f;
          num = c_int (int (le_val (overlay (le_bytes 4 0) nb)))
      in if length nb \<noteq> 4 then Inr (num, None, f1, False)
         else if num < 0 then Inl BadAlloc
         else let (got, f2) = fread_upto (sz * nat num) f1
              in Inr (num, Some (decode_items sz dec (nat num) (filled fresh (sz * nat num) got)), f2,
                      length got = sz * nat num))"

definition Load :: "(nat \<Rightarrow> char) \<Rightarrow> ('d, 'i, 'k) index_types \<Rightarrow> bytes \<Rightarrow> ('d, 'i, 'k) common_index
    \<Rightarrow> fault + (('d, 'i, 'k) common_index \<times> bytes \<times> int)" where
  "Load fresh T fp_index ci =
     (let ci0 = ci_Clear ci in
      case load_block fresh 1 hd fp_index of Inl e \<Rightarrow> Inl e
      | Inr (n1, b1, f1, ok1) \<Rightarrow>
        let ci1 = ci0\<lparr>m_num_char := n1, m_char_buf := b1\<rparr> in
        if \<not> ok1 then Inr (ci1, f1, -1)
        else case load_block fresh (dsize T) (ddec T) f1 of Inl e \<Rightarrow> Inl e
        | Inr (n2, b2, f2, ok2) \<Rightarrow>
          let ci2 = ci1\<lparr>m_num_doc := n2, m_doc_buf := b2\<rparr> in
          if \<not> ok2 then Inr (ci2, f2, -1)
          else case load_block fresh (isize T) (idec T) f2 of Inl e \<Rightarrow> Inl e
          | Inr (n3, b3, f3, ok3) \<Rightarrow>
            let ci3 = ci2\<lparr>m_num_inv := n3, m_inv_buf := b3\<rparr> in
            if \<not> ok3 then Inr (ci3, f3, -1)
            else case ReadInFile fresh (KN T) HASH_BASIC (m_index ci3) (Some f3) of
                   Inl e \<Rightarrow> Inl e
                 | Inr (hv, f4, ok4) \<Rightarrow>
                     Inr (ci3\<lparr>m_index := hv\<rparr>, the f4, if ok4 then 0 else -1))"

section \<open>What an index stands for\<close>

text \<open>
  The posting list of a key and the texts of the documents, in the order they were added: this is
  what a search engine built on the class relies on.
\<close>

definition postings :: "('d, 'i, 'k) common_index \<Rightarrow> bytes \<Rightarrow> 'i list" where
  "postings ci key = (case map_of (m_index_map ci) (cstr key) of None \<Rightarrow> [] | Some l \<Rightarrow> l)"

definition doc_texts :: "('d, 'i, 'k) index_types \<Rightarrow> ('d, 'i, 'k) common_index \<Rightarrow> bytes list" where
  "doc_texts T ci = map (\<lambda>d. cstr_at (m_char_vect ci) (doff T d)) (m_doc_vect ci)"

definition map_ok :: "(bytes \<times> 'i list) list \<Rightarrow> bool" where
  "map_ok m \<longleftrightarrow> sorted_wrt (<) (map fst m) \<and> (\<forall>k \<in> fst ` set m. nul_free k)"

definition ci_wf :: "('d, 'i, 'k) index_types \<Rightarrow> ('d, 'i, 'k) common_index \<Rightarrow> bool" where
  "ci_wf T ci \<longleftrightarrow> map_ok (m_index_map ci) \<and>
     (\<forall>d \<in> set (m_doc_vect ci). terminated_at (m_char_vect ci) (doff T d)) \<and>
     (\<forall>(k, l) \<in> set (m_index_map ci). \<forall>i \<in> set l. iid T i < length (m_doc_vect ci))"

lemma ball_map_push:
  "(\<forall>e \<in> set (map_push k nd m). P (fst e)) \<longleftrightarrow> P k \<and> (\<forall>e \<in> set m. P (fst e))"
proof (induction m)
  case (Cons e m)
  then show ?case by (cases e; cases "k < fst e"; cases "k = fst e") auto
qed simp

lemma map_push_ok: "map_ok m \<Longrightarrow> nul_free k \<Longrightarrow> map_ok (map_push k nd m)"
proof (induction m)
  case (Cons e m)
  obtain k' l where e: "e = (k', l)" by fastforce
  have "map_ok m" using Cons.prems by (simp add: map_ok_def)
  with Cons have "map_ok (map_push k nd m)" by simp
  with Cons.prems show ?case
    by (auto simp: e map_ok_def ball_map_push intro: less_trans)
qed (simp add: map_ok_def)

lemma map_push_lookup:
  "map_ok m \<Longrightarrow> map_of (map_push k nd m) =
     (map_of m)(k \<mapsto> (case map_of m k of None \<Rightarrow> [] | Some l \<Rightarrow> l) @ [nd])"
proof (induction m)
  case (Cons e m)
  obtain k' l where e: "e = (k', l)" by fastforce
  have ok: "map_ok m" using Cons.prems by (simp add: map_ok_def)
  have "map_of m k = None" if "k < k'"
    using that Cons.prems by (auto simp: map_ok_def e map_of_eq_None_iff)
  with Cons.IH [OF ok] show ?case by (auto simp: e fun_upd_twist)
qed simp

lemma length_ci_Partition:
  "ci_Partition T docs v left right = (v', k) \<Longrightarrow> length v' = length v"
  using length_part_loop [of "ci_Wap T"]
  by (auto simp: ci_Partition_def Let_def part_finish_def split: if_splits prod.splits) (metis fst_conv)+

lemma length_ci_QSort [simp]: "length (ci_QSort T docs v left right) = length v"
proof (induction T docs v left right rule: ci_QSort.induct)
  case (1 T docs v left right)
  then show ?case
    using length_ci_Partition [of T docs v left right]
    by (subst ci_QSort.simps) (auto simp: Let_def split: prod.split)
qed

text \<open>The posting list that ends up in the index, and the room the keys take.\<close>

definition final_list :: "('d, 'i, 'k) index_types \<Rightarrow> bool \<Rightarrow> 'd list \<Rightarrow> 'i list \<Rightarrow> 'i list" where
  "final_list T srt docs l = (if srt then ci_QSort T docs l 0 (int (length l) - 1) else l)"

definition final_map :: "('d, 'i, 'k) index_types \<Rightarrow> bool \<Rightarrow> ('d, 'i, 'k) common_index \<Rightarrow> (bytes \<times> 'i list) list" where
  "final_map T srt ci = map (\<lambda>(k, l). (k, final_list T srt (m_doc_vect ci) l)) (m_index_map ci)"

definition keys_len :: "(bytes \<times> 'i list) list \<Rightarrow> nat" where
  "keys_len m = length (concat (map (\<lambda>e. fst e @ [NUL]) m))"

definition lists_len :: "(bytes \<times> 'i list) list \<Rightarrow> nat" where
  "lists_len m = length (concat (map snd m))"

lemma length_final_list [simp]: "length (final_list T srt docs l) = length l"
  by (simp add: final_list_def)

lemma lists_len_push [simp]: "lists_len (map_push k nd m) = Suc (lists_len m)"
proof (induction m)
  case (Cons e m)
  then show ?case by (cases e) (auto simp: lists_len_def)
qed (simp add: lists_len_def)

lemma keys_len_push: "keys_len (map_push k nd m) \<le> keys_len m + Suc (length k)"
proof (induction m)
  case (Cons e m)
  then show ?case by (cases e) (auto simp: keys_len_def)
qed (simp add: keys_len_def)

section \<open>The contract of the template parameters\<close>

locale index_contract =
  fixes T :: "('d, 'i, 'k) index_types"
  assumes key_node: "node_type (KN T)"
    and kbegin_set: "0 \<le> b \<Longrightarrow> b < 2 ^ 31 \<Longrightarrow> kbegin T (kset_range T b e k) = b"
    and kend_set: "0 \<le> e \<Longrightarrow> e < 2 ^ 31 \<Longrightarrow> kend T (kset_range T b e k) = e"
    and krange_off: "kbegin T (nset_off (KN T) j k) = kbegin T k \<and> kend T (nset_off (KN T) j k) = kend T k"
    and doff_set: "j < 2 ^ 31 \<Longrightarrow> doff T (dset_off T j d) = j"
    and doc_dec_enc: "ddec T (denc T d) = d"
    and doc_enc_size: "length (denc T d) = dsize T"
    and iid_set: "j < 2 ^ 31 \<Longrightarrow> iid T (iset_id T j i) = j"
    and inv_dec_enc: "idec T (ienc T i) = i"
    and inv_enc_size: "length (ienc T i) = isize T"
    and inv_copy: "iassign T i i' = i'"
begin

text \<open>Adding: every document gets the next id, every key's list grows at its end.\<close>

lemma postings_Add:
  assumes "ci_wf T ci"
  shows "postings (Add T key nd d tx ci) k =
    postings ci k @ (if cstr k = cstr key then [iset_id T (length (m_doc_vect ci)) nd] else [])"
  using assms by (simp add: Add_def push_doc_def Let_def postings_def ci_wf_def map_push_lookup)

lemma doc_texts_push:
  assumes "ci_wf T ci" and "length (m_char_vect ci) < 2 ^ 31"
  shows "doc_texts T (push_doc T d tx ci) = doc_texts T ci @ [cstr tx]"
proof -
  have "cstr_at (m_char_vect ci @ cstr tx @ [NUL]) (doff T x) = cstr_at (m_char_vect ci) (doff T x)"
    if "x \<in> set (m_doc_vect ci)" for x
    using assms(1) that by (simp add: ci_wf_def cstr_at_append)
  moreover have "cstr_at (m_char_vect ci @ cstr tx @ [NUL]) (length (m_char_vect ci)) = cstr tx"
    by (rule cstr_at_stored) simp
  ultimately show ?thesis
    using assms(2) by (simp add: doc_texts_def push_doc_def doff_set)
qed

lemma push_doc_wf:
  assumes "ci_wf T ci" and "length (m_char_vect ci) < 2 ^ 31"
  shows "ci_wf T (push_doc T d tx ci)"
  using assms terminated_at_stored [of "m_char_vect ci" "cstr tx" "[]"]
  by (auto simp: ci_wf_def push_doc_def doff_set terminated_at_append intro!: less_SucI)

lemma set_map_push:
  "(k', l') \<in> set (map_push k nd m) \<Longrightarrow> i \<in> set l' \<Longrightarrow> i = nd \<or> (\<exists>l. (k', l) \<in> set m \<and> i \<in> set l)"
proof (induction m)
  case (Cons e m)
  then show ?case by (cases e) (auto split: if_splits)
qed auto

lemma push_key_wf:
  assumes "ci_wf T ci" and "iid T nd < length (m_doc_vect ci)"
  shows "ci_wf T (ci\<lparr>m_index_map := map_push (cstr key) nd (m_index_map ci)\<rparr>)"
  using assms map_push_ok [of "m_index_map ci" "cstr key" nd]
  by (fastforce simp: ci_wf_def dest: set_map_push)

lemma Add_wf:
  assumes "ci_wf T ci" and "length (m_char_vect ci) < 2 ^ 31" and "length (m_doc_vect ci) < 2 ^ 31"
  shows "ci_wf T (Add T key nd d tx ci)"
  using push_key_wf [OF push_doc_wf [OF assms(1,2), of d tx],
      of "iset_id T (length (m_doc_vect ci)) nd" key] assms(3)
  by (simp add: Add_def Let_def iid_set push_doc_def)

text \<open>Adding a document under several keys, each with its own node.\<close>

lemma push_each_spec:
  assumes "length ks = length invs" and "map_ok m" and "d < 2 ^ 31" and "d < n"
    and "\<forall>(k, l) \<in> set m. \<forall>i \<in> set l. iid T i < n"
  shows "\<exists>m'. push_each T d ks invs m = Inr m' \<and> map_ok m' \<and>
    (\<forall>(k, l) \<in> set m'. \<forall>i \<in> set l. iid T i < n) \<and>
    lists_len m' = lists_len m + length ks \<and>
    keys_len m' \<le> keys_len m + (\<Sum>k \<leftarrow> ks. Suc (length (cstr k))) \<and>
    (\<forall>k. (case map_of m' k of None \<Rightarrow> [] | Some l \<Rightarrow> l) =
         (case map_of m k of None \<Rightarrow> [] | Some l \<Rightarrow> l) @
         map (iset_id T d) (map snd (filter (\<lambda>(k', _). cstr k' = k) (zip ks invs))))"
  using assms
proof (induction ks invs arbitrary: m rule: list_induct2)
  case Nil
  then show ?case by auto
next
  case (Cons k ks nd invs)
  let ?m = "map_push (cstr k) (iset_id T d nd) m"
  have ids: "\<forall>(k, l) \<in> set ?m. \<forall>i \<in> set l. iid T i < n"
    using Cons.prems by (fastforce simp: iid_set dest: set_map_push)
  from Cons.IH [OF map_push_ok [OF Cons.prems(1)] Cons.prems(2,3) ids]
  obtain m' where m': "push_each T d ks invs ?m = Inr m'" "map_ok m'"
      "\<forall>(k, l) \<in> set m'. \<forall>i \<in> set l. iid T i < n"
      "lists_len m' = lists_len ?m + length ks"
      "keys_len m' \<le> keys_len ?m + (\<Sum>k \<leftarrow> ks. Suc (length (cstr k)))"
      "\<And>k'. (case map_of m' k' of None \<Rightarrow> [] | Some l \<Rightarrow> l) =
         (case map_of ?m k' of None \<Rightarrow> [] | Some l \<Rightarrow> l) @
         map (iset_id T d) (map snd (filter (\<lambda>(x, _). cstr x = k') (zip ks invs)))"
    by auto
  have "(case map_of m' k' of None \<Rightarrow> [] | Some l \<Rightarrow> l) =
      (case map_of m k' of None \<Rightarrow> [] | Some l \<Rightarrow> l) @
      map (iset_id T d) (map snd (filter (\<lambda>(x, _). cstr x = k') (zip (k # ks) (nd # invs))))" for k'
    unfolding m'(6) by (simp add: map_push_lookup [OF Cons.prems(1)])
  moreover have "keys_len m' \<le> keys_len m + (\<Sum>x \<leftarrow> k # ks. Suc (length (cstr x)))"
    using m'(5) keys_len_push [of "cstr k" "iset_id T d nd" m] by simp
  ultimately show ?case using m'(1-4) by (intro exI [of _ m']) simp
qed

lemma Add_each_spec:
  assumes wf: "ci_wf T ci" and len: "length ks = length invs"
    and small: "length (m_char_vect ci) < 2 ^ 31" "length (m_doc_vect ci) < 2 ^ 31"
  shows "\<exists>ci'. Add_each T ks invs d tx ci = Inr ci' \<and> ci_wf T ci' \<and>
    m_index ci' = m_index ci \<and> m_inv_vect ci' = m_inv_vect ci \<and>
    length (m_char_vect ci') = length (m_char_vect ci) + Suc (length (cstr tx)) \<and>
    length (m_doc_vect ci') = Suc (length (m_doc_vect ci)) \<and>
    lists_len (m_index_map ci') = lists_len (m_index_map ci) + length ks \<and>
    keys_len (m_index_map ci') \<le> keys_len (m_index_map ci) + (\<Sum>k \<leftarrow> ks. Suc (length (cstr k))) \<and>
    doc_texts T ci' = doc_texts T ci @ [cstr tx] \<and>
    (\<forall>k. postings ci' k = postings ci k @
       map (iset_id T (length (m_doc_vect ci))) (map snd (filter (\<lambda>(k', _). cstr k' = cstr k) (zip ks invs))))"
proof -
  let ?n = "length (m_doc_vect ci)" and ?p = "push_doc T d tx ci"
  have pwf: "ci_wf T ?p" by (rule push_doc_wf [OF wf small(1)])
  have "map_ok (m_index_map ci)" "\<forall>(k, l) \<in> set (m_index_map ci). \<forall>i \<in> set l. iid T i < Suc ?n"
    using wf by (auto simp: ci_wf_def intro!: less_SucI)
  from push_each_spec [OF len this(1) small(2) lessI this(2)]
  obtain m' where m': "push_each T ?n ks invs (m_index_map ci) = Inr m'" "map_ok m'"
    "\<forall>(k, l) \<in> set m'. \<forall>i \<in> set l. iid T i < Suc ?n"
    "lists_len m' = lists_len (m_index_map ci) + length ks"
    "keys_len m' \<le> keys_len (m_index_map ci) + (\<Sum>k \<leftarrow> ks. Suc (length (cstr k)))"
    "\<forall>k. (case map_of m' k of None \<Rightarrow> [] | Some l \<Rightarrow> l) =
         (case map_of (m_index_map ci) k of None \<Rightarrow> [] | Some l \<Rightarrow> l) @
         map (iset_id T ?n) (map snd (filter (\<lambda>(k', _). cstr k' = k) (zip ks invs)))"
    by blast
  have "Add_each T ks invs d tx ci = Inr (?p\<lparr>m_index_map := m'\<rparr>)"
    using m'(1) by (simp add: Add_each_def Let_def push_doc_def)
  moreover have "ci_wf T (?p\<lparr>m_index_map := m'\<rparr>)"
    using pwf m'(2,3) by (simp add: ci_wf_def push_doc_def)
  moreover have "doc_texts T (?p\<lparr>m_index_map := m'\<rparr>) = doc_texts T ci @ [cstr tx]"
    using doc_texts_push [OF wf small(1), of d tx] by (simp add: doc_texts_def)
  ultimately show ?thesis
    using m'(4,5,6) by (intro exI [of _ "?p\<lparr>m_index_map := m'\<rparr>"]) (simp add: postings_def push_doc_def)
qed

text \<open>The key nodes that \<open>ChangeToHVIndex\<close> creates for the lists \<open>es\<close>, starting at posting \<open>b\<close>.\<close>

fun key_entries :: "int \<Rightarrow> (bytes \<times> 'i list) list \<Rightarrow> (bytes \<times> 'k) list" where
  "key_entries b [] = []"
| "key_entries b ((k, l) # es) =
     (k, nset_off (KN T) 0 (kset_range T b (b + int (length l)) (ndefault (KN T)))) #
     key_entries (b + int (length l)) es"

lemma fst_key_entries [simp]: "map fst (key_entries b es) = map fst es"
  by (induction b es rule: key_entries.induct) auto

lemma key_entries_mem:
  assumes "(k, n) \<in> set (key_entries b es)" and "0 \<le> b"
    and "b + int (length (concat (map snd es))) < 2 ^ 31"
  shows "\<exists>l. (k, l) \<in> set es \<and> b \<le> kbegin T n \<and> kend T n = kbegin T n + int (length l) \<and>
    kend T n < 2 ^ 31 \<and>
    (\<forall>pre. int (length pre) = b \<longrightarrow>
       take (length l) (drop (nat (kbegin T n)) (pre @ concat (map snd es))) = l)"
  using assms
proof (induction b es rule: key_entries.induct)
  case (2 b k' l es)
  show ?case
  proof (cases "(k, n) \<in> set (key_entries (b + int (length l)) es)")
    case True
    with 2 obtain l' where l': "(k, l') \<in> set es" "b + int (length l) \<le> kbegin T n"
        "kend T n = kbegin T n + int (length l')" "kend T n < 2 ^ 31"
        "\<And>pre. int (length pre) = b + int (length l) \<Longrightarrow>
           take (length l') (drop (nat (kbegin T n)) (pre @ concat (map snd es))) = l'"
      by auto
    have "take (length l') (drop (nat (kbegin T n)) (pre @ concat (map snd ((k', l) # es)))) = l'"
      if "int (length pre) = b" for pre
      using l'(5) [of "pre @ l"] that by simp
    with l' show ?thesis by (intro exI [of _ l']) auto
  next
    case False
    with 2 have n: "k = k'" "n = nset_off (KN T) 0 (kset_range T b (b + int (length l)) (ndefault (KN T)))"
      by auto
    with 2 have kb: "kbegin T n = b" "kend T n = b + int (length l)"
      by (auto simp: krange_off kbegin_set kend_set)
    show ?thesis using n kb 2 by (intro exI [of _ l]) (auto simp: nat_eq_iff2)
  qed
qed simp

sublocale key: node_type "KN T"
  by (rule key_node)

lemma change_entries_spec:
  assumes "change_entries T srt es ci = (es', ci')"
    and "hv_wf (KN T) HASH_BASIC (m_index ci)" and "\<forall>e \<in> set es. nul_free (fst e)"
    and "length (m_charVect (m_index ci)) + keys_len es < 2 ^ 31"
    and "length (m_inv_vect ci) + lists_len es < 2 ^ 31"
  shows "es' = map (\<lambda>(k, l). (k, final_list T srt (m_doc_vect ci) l)) es \<and>
    (\<exists>hv. ci' = ci\<lparr>m_inv_vect := m_inv_vect ci @ concat (map snd es'), m_index := hv\<rparr> \<and>
      hv_wf (KN T) HASH_BASIC hv \<and>
      length (m_charVect hv) = length (m_charVect (m_index ci)) + keys_len es \<and>
      (\<forall>i. entries (KN T) (m_charVect hv) (data hv i) =
        entries (KN T) (m_charVect (m_index ci)) (data (m_index ci) i) @
        filter (\<lambda>e. GetHashValue HASH_BASIC (fst e) = i) (key_entries (int (length (m_inv_vect ci))) es')))"
  using assms
proof (induction es arbitrary: ci es' ci')
  case Nil
  then show ?case by (intro conjI exI [of _ "m_index ci"]) (auto simp: keys_len_def)
next
  case (Cons e es)
  obtain k l where e: "e = (k, l)" by fastforce
  let ?l = "final_list T srt (m_doc_vect ci) l" and ?b = "int (length (m_inv_vect ci))"
  let ?node = "kset_range T ?b (?b + int (length l)) (ndefault (KN T))"
  let ?hv = "AddItem (KN T) HASH_BASIC ?node k (m_index ci)"
  let ?ci = "ci\<lparr>m_inv_vect := m_inv_vect ci @ ?l, m_index := ?hv\<rparr>"
  have fits: "?b < 2 ^ 31" "?b + int (length l) < 2 ^ 31"
    using Cons.prems(5) by (auto simp: e lists_len_def)
  then have ce: "change_entry T srt e ci = ((k, ?l), ?ci)"
    by (simp add: change_entry_def e final_list_def Let_def)
  obtain es1 where rest: "change_entries T srt es ?ci = (es1, ci')" and es': "es' = (k, ?l) # es1"
    using Cons.prems(1) by (auto simp: ce split: prod.splits)
  have nk: "cstr k = k" using Cons.prems(3) by (simp add: e cstr_nul_free)
  have small: "length (m_charVect (m_index ci)) < 2 ^ 31" using Cons.prems(4) by simp
  have wf: "hv_wf (KN T) HASH_BASIC ?hv"
    using Cons.prems(2) small by (intro key.AddItem_wf) auto
  have len: "length (m_charVect ?hv) = length (m_charVect (m_index ci)) + Suc (length k)"
    by (simp add: AddItem_def Let_def nk)
  have ent: "entries (KN T) (m_charVect ?hv) (data ?hv i) =
      entries (KN T) (m_charVect (m_index ci)) (data (m_index ci) i) @
      (if i = GetHashValue HASH_BASIC k then [(k, nset_off (KN T) 0 ?node)] else [])" for i
    using key.AddItem_entries [OF Cons.prems(2) small, of ?node k i] by (simp add: nk)
  have p: "hv_wf (KN T) HASH_BASIC (m_index ?ci)" "\<forall>e \<in> set es. nul_free (fst e)"
      "length (m_charVect (m_index ?ci)) + keys_len es < 2 ^ 31"
      "length (m_inv_vect ?ci) + lists_len es < 2 ^ 31"
    using wf Cons.prems(3-5) len by (auto simp: e keys_len_def lists_len_def)
  note IH = Cons.IH [OF rest p]
  then obtain hv where hv: "ci' = ?ci\<lparr>m_inv_vect := m_inv_vect ?ci @ concat (map snd es1), m_index := hv\<rparr>"
      "hv_wf (KN T) HASH_BASIC hv"
      "length (m_charVect hv) = length (m_charVect ?hv) + keys_len es"
      "\<And>i. entries (KN T) (m_charVect hv) (data hv i) = entries (KN T) (m_charVect ?hv) (data ?hv i) @
        filter (\<lambda>e. GetHashValue HASH_BASIC (fst e) = i) (key_entries (int (length (m_inv_vect ci @ ?l))) es1)"
    by auto
  show ?case
  proof (intro conjI exI [of _ hv] allI)
    show "es' = map (\<lambda>(k, l). (k, final_list T srt (m_doc_vect ci) l)) (e # es)"
      using IH by (simp add: es' e)
    show "ci' = ci\<lparr>m_inv_vect := m_inv_vect ci @ concat (map snd es'), m_index := hv\<rparr>"
      using hv(1) by (simp add: es')
    show "length (m_charVect hv) = length (m_charVect (m_index ci)) + keys_len (e # es)"
      using hv(3) len by (simp add: keys_len_def e)
    show "entries (KN T) (m_charVect hv) (data hv i) =
        entries (KN T) (m_charVect (m_index ci)) (data (m_index ci) i) @
        filter (\<lambda>e. GetHashValue HASH_BASIC (fst e) = i) (key_entries ?b es')" for i
      unfolding hv(4) ent by (simp add: es')
  qed (rule hv(2))
qed

text \<open>\<open>ChangeToHVIndex\<close> on an index that is being built: no bucket needs sorting.\<close>

lemma ChangeToHVIndex_spec:
  assumes wf: "ci_wf T ci" and bld: "m_index ci = empty_hv" "m_inv_vect ci = []"
    and small: "keys_len (m_index_map ci) < 2 ^ 31" "lists_len (m_index_map ci) < 2 ^ 31"
  obtains hv where
    "ChangeToHVIndex T srt ci = Inr (ci\<lparr>m_inv_vect := concat (map snd (final_map T srt ci)),
       m_index_map := final_map T srt ci, m_index := hv\<rparr>)"
    and "hv_wf (KN T) HASH_BASIC hv" and "length (m_charVect hv) < 2 ^ 31"
    and "\<And>i. entries (KN T) (m_charVect hv) (data hv i) =
      filter (\<lambda>e. GetHashValue HASH_BASIC (fst e) = i) (key_entries 0 (final_map T srt ci))"
proof -
  have ok: "map_ok (m_index_map ci)" using wf by (simp add: ci_wf_def)
  obtain es' ci' where run: "change_entries T srt (m_index_map ci) ci = (es', ci')" by fastforce
  have *: "es' = final_map T srt ci \<and>
    (\<exists>hv. ci' = ci\<lparr>m_inv_vect := concat (map snd es'), m_index := hv\<rparr> \<and>
      hv_wf (KN T) HASH_BASIC hv \<and> length (m_charVect hv) = keys_len (m_index_map ci) \<and>
      (\<forall>i. entries (KN T) (m_charVect hv) (data hv i) =
        filter (\<lambda>e. GetHashValue HASH_BASIC (fst e) = i) (key_entries 0 es')))"
  proof -
    have p: "hv_wf (KN T) HASH_BASIC (m_index ci)" "\<forall>e \<in> set (m_index_map ci). nul_free (fst e)"
        "length (m_charVect (m_index ci)) + keys_len (m_index_map ci) < 2 ^ 31"
        "length (m_inv_vect ci) + lists_len (m_index_map ci) < 2 ^ 31"
      using key.empty_wf small ok by (auto simp: bld empty_hv_def map_ok_def)
    have z: "entries (KN T) (m_charVect (m_index ci)) (data (m_index ci) i) = []"
        "length (m_charVect (m_index ci)) = 0" for i
      by (simp_all add: bld empty_hv_def entries_def)
    have "int (length (m_inv_vect ci)) = 0" by (simp add: bld)
    from change_entries_spec [OF run p, unfolded z this] show ?thesis
      unfolding final_map_def bld(2) append_Nil add_0 .
  qed
  then obtain hv where hv: "ci' = ci\<lparr>m_inv_vect := concat (map snd es'), m_index := hv\<rparr>"
      "hv_wf (KN T) HASH_BASIC hv" "length (m_charVect hv) = keys_len (m_index_map ci)"
      "\<And>i. entries (KN T) (m_charVect hv) (data hv i) =
        filter (\<lambda>e. GetHashValue HASH_BASIC (fst e) = i) (key_entries 0 es')"
    and es': "es' = final_map T srt ci" by blast
  have kf: "map fst (m_index_map ci) = map fst (key_entries 0 (final_map T srt ci))"
    by (simp add: final_map_def comp_def case_prod_beta)
  have "map (word_of (KN T) (m_charVect hv)) (data hv i) = map fst (entries (KN T) (m_charVect hv) (data hv i))" for i
    by (simp add: entries_def entry_def)
  also have "map fst (entries (KN T) (m_charVect hv) (data hv i)) =
      filter (\<lambda>k. GetHashValue HASH_BASIC k = i) (map fst (m_index_map ci))" for i
    unfolding hv(4) es' kf filter_map comp_def ..
  finally have "sorted (map (word_of (KN T) (m_charVect hv)) (data hv i))" for i
    using ok by (simp add: map_ok_def strict_sorted_iff sorted_wrt_filter)
  then have "Sort (KN T) HASH_BASIC hv = Inr (hv\<lparr>m_wordsBuf := Some (m_charVect hv)\<rparr>)"
    using hv(2) by (intro Sort_ordered) (auto simp: hv_wf_def node_ok_def word_ok_def)
  with hv(1) es' run have "ChangeToHVIndex T srt ci = Inr (ci\<lparr>m_inv_vect := concat (map snd (final_map T srt ci)),
       m_index_map := final_map T srt ci, m_index := hv\<lparr>m_wordsBuf := Some (m_charVect hv)\<rparr>\<rparr>)"
    by (simp add: ChangeToHVIndex_def)
  with hv es' small show ?thesis by (intro that) (auto simp: hv_wf_def)
qed

text \<open>Blocks of the file.\<close>

definition block_image :: "('a \<Rightarrow> bytes) \<Rightarrow> 'a list \<Rightarrow> bytes" where
  "block_image enc items = le_bytes 4 (length items) @ concat (map enc items)"

lemma save_block_image:
  assumes "length items < 2 ^ 31" and "froom f = None"
  shows "save_block enc items f = Inr (f\<lparr>fdata := fdata f @ block_image enc items\<rparr>, True)"
  using assms by (simp add: save_block_def key.fwrite_unlimited block_image_def Let_def nat_mod_distrib)

lemma load_block_image:
  assumes "length items < 2 ^ 31" and "\<And>x. dec (enc x) = x" and "\<And>x. length (enc x) = sz"
  shows "load_block fresh sz dec (block_image enc items @ post) =
    Inr (int (length items), Some items, post, True)"
proof -
  have up: "fread_upto 4 (block_image enc items @ post) =
      (le_bytes 4 (length items), concat (map enc items) @ post)"
    by (simp add: fread_upto_def block_image_def)
  have num: "le_val (overlay (le_bytes 4 0) (le_bytes 4 (length items))) = length items"
    using assms(1) by (simp add: overlay_def le_val_le_bytes)
  have got: "fread_upto (sz * length items) (concat (map enc items) @ post) = (concat (map enc items), post)"
    using length_enc_items [of enc sz items] assms(3) by (simp add: fread_upto_def)
  have dec: "decode_items sz dec (length items) (concat (map enc items)) = items"
    using decode_items_enc [of dec enc sz items "[]"] assms(2,3) by simp
  show ?thesis
    using assms(1) length_enc_items [of enc sz items] assms(3)
    by (simp add: load_block_def up num got dec Let_def)
qed

lemma char_block_load:
  "length cs < 2 ^ 31 \<Longrightarrow> load_block fresh 1 hd (block_image (\<lambda>c. [c]) cs @ post) =
     Inr (int (length cs), Some cs, post, True)"
  by (rule load_block_image) auto

text \<open>
  Different keys take room: all but 257 of them have two bytes and a terminator at least, so that the
  sum of two positions in a bucket fits an \<open>int\<close> when the characters do.
\<close>

lemma few_keys:
  assumes "distinct (map fst fm)"
  shows "3 * length fm \<le> keys_len fm + 514"
proof -
  let ?short = "{k :: bytes. set k \<subseteq> UNIV \<and> length k \<le> 1}"
  have "card ?short = 257" using card_lists_length_le [of "UNIV :: char set" 1] by (simp add: card_UNIV_char)
  moreover have "finite ?short" using finite_lists_length_le [of "UNIV :: char set" 1] by simp
  ultimately have "card (set (filter (\<lambda>k. length k \<le> 1) (map fst fm))) \<le> 257"
    using card_mono [of ?short "set (filter (\<lambda>k. length k \<le> 1) (map fst fm))"] by auto
  then have short: "length (filter (\<lambda>k. length k \<le> 1) (map fst fm)) \<le> 257"
    using distinct_card [of "filter (\<lambda>k. length k \<le> 1) (map fst fm)"] assms by simp
  have "3 * length fs \<le> keys_len fs + 2 * length (filter (\<lambda>k. length k \<le> 1) (map fst fs))" for fs :: "(bytes \<times> 'b list) list"
    by (induction fs) (auto simp: keys_len_def)
  from this [of fm] show ?thesis using short by linarith
qed

text \<open>\<open>GetInv\<close> on an index whose buckets hold the key nodes of \<open>fm\<close>.\<close>

lemma GetInv_loaded:
  assumes buf: "m_wordsBuf (m_index ci) = Some buf"
    and ent: "\<And>i. i < HASH_BASIC \<Longrightarrow> entries (KN T) buf (data (m_index ci) i) =
      filter (\<lambda>e. GetHashValue HASH_BASIC (fst e) = i) (key_entries 0 fm)"
    and words: "\<And>i. i < HASH_BASIC \<Longrightarrow> \<forall>n \<in> set (data (m_index ci) i). word_ok (KN T) buf n"
    and inv_buf: "m_inv_buf ci = Some (concat (map snd fm))"
    and ok: "map_ok fm" and small: "length (concat (map snd fm)) < 2 ^ 31" and keys_small: "keys_len fm < 2 ^ 31"
  shows "case map_of fm (cstr key) of None \<Rightarrow> GetInv T key ci = Inr None
    | Some l \<Rightarrow> \<exists>b. GetInv T key ci = Inr (Some (b, int (length l))) \<and> read_inv ci (b, int (length l)) = l"
proof -
  let ?h = "GetHashValue HASH_BASIC key"
  let ?es = "filter (\<lambda>e. GetHashValue HASH_BASIC (fst e) = ?h) (key_entries 0 fm)"
  have h: "entries (KN T) buf (data (m_index ci) ?h) = ?es"
    by (rule ent) (simp add: GetHashValue_less)
  have keys: "sorted_wrt (<) (map fst (key_entries 0 fm))" using ok by (simp add: map_ok_def)
  have "length (data (m_index ci) ?h) = length ?es" using arg_cong [OF h, of length] by (simp add: entries_def)
  also have "\<dots> \<le> length (key_entries 0 fm)" by (rule length_filter_le)
  also have "\<dots> = length fm" by (metis fst_key_entries length_map)
  also have "\<dots> \<le> 2 ^ 30" using few_keys [of fm] ok keys_small by (simp add: map_ok_def strict_sorted_iff)
  finally have len: "length (data (m_index ci) ?h) \<le> 2 ^ 30" .
  have "sorted (map fst ?es)"
    using sorted_wrt_map_filter [OF keys] by (auto simp: strict_sorted_iff)
  then have F: "case Find (KN T) HASH_BASIC key (m_index ci) of Inl e \<Rightarrow> False
    | Inr (Some n) \<Rightarrow> (cstr key, nset_off (KN T) 0 n) \<in> set ?es
    | Inr None \<Rightarrow> cstr key \<notin> fst ` set ?es"
    using key.Find_entries [OF buf, of HASH_BASIC key] words [of ?h] len by (simp only: h) (simp add: GetHashValue_less)
  have dst: "distinct (map fst fm)" using ok by (simp add: map_ok_def strict_sorted_iff)
  show ?thesis
  proof (cases "Find (KN T) HASH_BASIC key (m_index ci)")
    case (Inl e)
    with F show ?thesis by simp
  next
    case (Inr r)
    show ?thesis
    proof (cases r)
      case None
      with F Inr have "cstr key \<notin> fst ` set ?es" by simp
      then have "cstr key \<notin> fst ` set (key_entries 0 fm)"
        by (auto simp: image_iff)
      then have "cstr key \<notin> set (map fst (key_entries 0 fm))" unfolding set_map .
      then have "map_of fm (cstr key) = None" by (simp add: map_of_eq_None_iff)
      then show ?thesis using Inr None by (simp add: GetInv_def)
    next
      case (Some n)
      with F Inr have mem: "(cstr key, nset_off (KN T) 0 n) \<in> set (key_entries 0 fm)" by simp
      from key_entries_mem [OF this] small obtain l where l: "(cstr key, l) \<in> set fm"
          "0 \<le> kbegin T n" "kend T n = kbegin T n + int (length l)" "kend T n < 2 ^ 31"
          "take (length l) (drop (nat (kbegin T n)) (concat (map snd fm))) = l"
        by (auto simp: krange_off)
      then have "map_of fm (cstr key) = Some l" using dst by simp
      with l show ?thesis
        using Inr Some inv_buf by (auto simp: GetInv_def read_inv_def)
    qed
  qed
qed

text \<open>
  The whole path of the data: an index that was built by adding documents, saved, and loaded into
  any object answers every query with the posting list of the key.
\<close>

lemma Save_Load:
  assumes wf: "ci_wf T ci" and bld: "m_index ci = empty_hv" "m_inv_vect ci = []"
    and small: "keys_len (m_index_map ci) < 2 ^ 31" "lists_len (m_index_map ci) < 2 ^ 31"
      "length (m_char_vect ci) < 2 ^ 31" "length (m_doc_vect ci) < 2 ^ 31"
    and room: "froom f = None"
  obtains ci1 f1 ci2 where
    "Save fresh T f srt ci = Inr (ci1, f1, 0)"
    and "\<And>post. Load fresh' T (drop (length (fdata f)) (fdata f1) @ post) ci0 = Inr (ci2, post, 0)"
    and "m_doc_buf ci2 = Some (m_doc_vect ci)" and "m_char_buf ci2 = Some (m_char_vect ci)"
    and "\<And>key. case map_of (final_map T srt ci) (cstr key) of
        None \<Rightarrow> GetInv T key ci2 = Inr None
      | Some l \<Rightarrow> \<exists>b. GetInv T key ci2 = Inr (Some (b, int (length l))) \<and> read_inv ci2 (b, int (length l)) = l"
proof -
  let ?fm = "final_map T srt ci"
  obtain hv where ch: "ChangeToHVIndex T srt ci = Inr (ci\<lparr>m_inv_vect := concat (map snd ?fm),
       m_index_map := ?fm, m_index := hv\<rparr>)"
    and hwf: "hv_wf (KN T) HASH_BASIC hv" and hsmall: "length (m_charVect hv) < 2 ^ 31"
    and ent: "\<And>i. entries (KN T) (m_charVect hv) (data hv i) =
      filter (\<lambda>e. GetHashValue HASH_BASIC (fst e) = i) (key_entries 0 ?fm)"
    using ChangeToHVIndex_spec [OF wf bld small(1,2)] by blast
  have ll: "length (concat (map snd ?fm)) = lists_len (m_index_map ci)"
    by (simp add: lists_len_def final_map_def length_concat comp_def case_prod_beta)
  have kl: "keys_len ?fm = keys_len (m_index_map ci)"
    by (simp add: keys_len_def final_map_def comp_def case_prod_beta)
  have fok: "map_ok ?fm"
    using wf by (auto simp: ci_wf_def map_ok_def final_map_def comp_def case_prod_beta)
  let ?img = "block_image (\<lambda>c. [c]) (m_char_vect ci) @ block_image (denc T) (m_doc_vect ci) @
    block_image (ienc T) (concat (map snd ?fm))"
  let ?f3 = "f\<lparr>fdata := fdata f @ ?img\<rparr>"
  obtain hv1 f1 hv2 buf where
    W: "WriteFile fresh (KN T) HASH_BASIC hv (Some ?f3) = Inr (hv1, Some f1, True)" "froom f1 = None"
    and R: "\<And>post. ReadInFile fresh' (KN T) HASH_BASIC (Clear HASH_BASIC (m_index ci0))
        (Some (drop (length (fdata ?f3)) (fdata f1) @ post)) = Inr (hv2, Some post, True)"
      "take (length (fdata ?f3)) (fdata f1) = fdata ?f3"
      "m_wordsBuf hv2 = Some buf"
    and E: "\<And>i. i < HASH_BASIC \<Longrightarrow> entries (KN T) buf (data hv2 i) = entries (KN T) (m_charVect hv) (data hv i) \<and>
      (\<forall>n \<in> set (data hv2 i). word_ok (KN T) buf n)"
    by (rule key.Read_after_Write [OF hwf hsmall, of ?f3 fresh fresh' "Clear HASH_BASIC (m_index ci0)"])
      (use room in auto)
  let ?ci1 = "ci\<lparr>m_inv_vect := concat (map snd ?fm), m_index_map := ?fm, m_index := hv1,
    m_num_char := int (length (m_char_vect ci)), m_num_doc := int (length (m_doc_vect ci)),
    m_num_inv := int (lists_len (m_index_map ci))\<rparr>"
  let ?ci2 = "(ci_Clear ci0)\<lparr>m_num_char := int (length (m_char_vect ci)), m_char_buf := Some (m_char_vect ci),
    m_num_doc := int (length (m_doc_vect ci)), m_doc_buf := Some (m_doc_vect ci),
    m_num_inv := int (lists_len (m_index_map ci)), m_inv_buf := Some (concat (map snd ?fm)), m_index := hv2\<rparr>"
  have "fdata f1 = fdata ?f3 @ drop (length (fdata ?f3)) (fdata f1)" by (metis R(2) append_take_drop_id)
  then have "drop (length (fdata f)) (fdata f1) = drop (length (fdata f)) (fdata ?f3 @ drop (length (fdata ?f3)) (fdata f1))"
    by (rule arg_cong)
  then have f1: "drop (length (fdata f)) (fdata f1) = ?img @ drop (length (fdata ?f3)) (fdata f1)"
    by simp
  show ?thesis
  proof (rule that [of ?ci1 f1 ?ci2])
    show "Save fresh T f srt ci = Inr (?ci1, f1, 0)"
      using small room W(1) ll
      by (simp add: Save_def ch save_block_image Let_def)
    show "Load fresh' T (drop (length (fdata f)) (fdata f1) @ post) ci0 = Inr (?ci2, post, 0)" for post
      unfolding f1 using small ll R(1)
      by (simp add: Load_def char_block_load load_block_image doc_dec_enc doc_enc_size inv_dec_enc inv_enc_size
          Let_def ci_Clear_def)
    show "case map_of ?fm (cstr key) of None \<Rightarrow> GetInv T key ?ci2 = Inr None
      | Some l \<Rightarrow> \<exists>b. GetInv T key ?ci2 = Inr (Some (b, int (length l))) \<and> read_inv ?ci2 (b, int (length l)) = l"
      for key
      using fok ll small(1,2) R(3) kl by (intro GetInv_loaded [where buf = buf]) (auto simp: E ent)
  qed simp_all
qed

text \<open>
  Sorting a posting list: descending weights, for documents whose weights can be compared. The
  quicksort contract is discharged by the class's own \<open>Partition\<close>.
\<close>

lemma ci_quick_order:
  "quick_order (\<lambda>i. \<not> float_nan (inv_weight T docs i))
     (\<lambda>a b. float_ge (inv_weight T docs a) (inv_weight T docs b))
     (\<lambda>p x. float_ge (inv_weight T docs x) (inv_weight T docs p))
     (\<lambda>p x. float_lt (inv_weight T docs x) (inv_weight T docs p)) (ci_Wap T)"
  by unfold_locales (auto simp: ci_Wap_def inv_copy float_ge_def float_lt_def Let_def)

sublocale inv_order: quick_order "\<lambda>i. \<not> float_nan (inv_weight T docs i)"
  "\<lambda>a b. float_ge (inv_weight T docs a) (inv_weight T docs b)"
  "\<lambda>p x. float_ge (inv_weight T docs x) (inv_weight T docs p)"
  "\<lambda>p x. float_lt (inv_weight T docs x) (inv_weight T docs p)" "ci_Wap T" for docs
  by (rule ci_quick_order)

lemma ci_Partition_pair:
  assumes "hi = lo + 1" and "0 \<le> lo" and "hi < int (length v)"
    and "float_lt (inv_weight T docs (v ! nat lo)) (inv_weight T docs (v ! nat hi))"
    and "ci_Partition T docs v lo hi = (v', k)"
  shows "k = hi \<and> same_outside lo hi v v' \<and> v' ! nat lo = v ! nat hi \<and> v' ! nat hi = v ! nat lo"
  using assms by (auto simp: ci_Partition_def inv_order.wap_at_swap same_outside_swap nth_list_swap nat_eq_iff2)

sublocale inv_sort: quick_sort "\<lambda>i. \<not> float_nan (inv_weight T docs i)"
  "\<lambda>a b. float_ge (inv_weight T docs a) (inv_weight T docs b)"
  "ci_Partition T docs" "ci_QSort T docs" for docs
proof
  show "ci_QSort T docs v lo hi = (if lo < hi then let (v', k) = ci_Partition T docs v lo hi
      in ci_QSort T docs (ci_QSort T docs v' lo (k - 1)) (k + 1) hi else v)" for v lo hi
    by (simp add: ci_QSort.simps [of T docs v])
next
  fix v v' and lo hi k :: int
  let ?w = "inv_weight T docs"
  assume ok: "\<forall>x \<in> set v. \<not> float_nan (?w x)" and pt: "ci_Partition T docs v lo hi = (v', k)"
    and lo: "0 \<le> lo" "lo < hi" "hi < int (length v)"
  show "lo \<le> k \<and> k \<le> hi \<and> same_outside lo hi v v' \<and>
      (\<forall>i. lo \<le> i \<and> i < k \<longrightarrow> float_ge (?w (v' ! nat i)) (?w (v' ! nat k))) \<and>
      (\<forall>i. k < i \<and> i \<le> hi \<longrightarrow> float_ge (?w (v' ! nat k)) (?w (v' ! nat i)))"
  proof (cases "hi = lo + 1 \<and> float_lt (?w (v ! nat lo)) (?w (v ! nat hi))")
    case True
    then have sw: "k = hi" "same_outside lo hi v v'" "v' ! nat lo = v ! nat hi" "v' ! nat hi = v ! nat lo"
      using ci_Partition_pair [OF _ lo(1,3) _ pt] by auto
    have "i = lo" if "lo \<le> i" "i < hi" for i using that True by simp
    with sw lo True show ?thesis by (auto simp: float_ge_def float_lt_def)
  next
    case False
    then have "part_finish (ci_Wap T) (\<lambda>x. float_lt (?w x) (?w (v ! nat lo))) lo
        (part_loop (ci_Wap T) (\<lambda>x. float_ge (?w x) (?w (v ! nat lo)))
          (\<lambda>x. float_lt (?w x) (?w (v ! nat lo))) v lo (lo + 1) hi) = (v', k)"
      using pt unfolding ci_Partition_def Let_def by (simp only: if_False)
    note P = inv_order.part_finish_split [OF this refl lo ok]
    then have ok': "\<not> float_nan (?w (v' ! nat i))" if "lo \<le> i" "i \<le> hi" for i
      using that ok lo same_outside_set [of lo hi v v'] by (auto simp: same_outside_def intro!: nth_mem)
    have "\<not> float_nan (?w (v ! nat lo))" using ok lo by (auto intro!: nth_mem)
    then have "float_ge (?w (v ! nat lo)) (?w (v' ! nat i))" if "k < i" "i \<le> hi" for i
      using that P ok' [of i] by (auto simp: float_ge_def not_le dest!: spec [of _ i])
    then show ?thesis using P by auto
  qed
qed (auto simp: float_ge_def)

lemma final_list_sorted:
  "\<forall>i \<in> set l. \<not> float_nan (inv_weight T docs i) \<Longrightarrow>
   mset (final_list T True docs l) = mset l \<and>
   sorted_wrt (\<lambda>a b. float_ge (inv_weight T docs a) (inv_weight T docs b)) (final_list T True docs l)"
  using inv_sort.QS_whole by (simp add: final_list_def)

end

section \<open>The default types of the header\<close>

record DEFAULT_DOC_TYPE =
  dd_word_offset :: "32 word"
  dd_weight :: cfloat

record DEFAULT_INV_TYPE =
  di_doc_id :: "32 word"

record DEFAULT_KEY_TYPE =
  dk_word_offset :: "32 word"
  dk_begin :: "32 word"
  dk_end :: "32 word"

text \<open>
  Fields are dumped in declaration order. \<open>operator=\<close> of the key type assigns
  \<open>word_offset = word_offset\<close>, so the target keeps its own offset.
\<close>

definition w32_enc :: "32 word \<Rightarrow> bytes" where "w32_enc w = le_bytes 4 (unat w)"
definition w32_dec :: "bytes \<Rightarrow> 32 word" where "w32_dec b = word_of_nat (le_val (take 4 b))"
definition w64_enc :: "64 word \<Rightarrow> bytes" where "w64_enc w = le_bytes 8 (unat w)"
definition w64_dec :: "bytes \<Rightarrow> 64 word" where "w64_dec b = word_of_nat (le_val (take 8 b))"

definition default_key_ops :: "DEFAULT_KEY_TYPE node_ops" where
  "default_key_ops = \<lparr>
     noff = (\<lambda>k. nat (sint (dk_word_offset k))),
     nset_off = (\<lambda>j k. k\<lparr>dk_word_offset := word_of_nat j\<rparr>),
     nassign = (\<lambda>d s. d\<lparr>dk_begin := dk_begin s, dk_end := dk_end s\<rparr>),
     ndefault = \<lparr>dk_word_offset = 0, dk_begin = 0, dk_end = 0\<rparr>,
     nsize = 12,
     nenc = (\<lambda>k. w32_enc (dk_word_offset k) @ w32_enc (dk_begin k) @ w32_enc (dk_end k)),
     ndec = (\<lambda>b. \<lparr>dk_word_offset = w32_dec b, dk_begin = w32_dec (drop 4 b), dk_end = w32_dec (drop 8 b)\<rparr>)\<rparr>"

definition default_types :: "(DEFAULT_DOC_TYPE, DEFAULT_INV_TYPE, DEFAULT_KEY_TYPE) index_types" where
  "default_types = \<lparr>
     KN = default_key_ops,
     kbegin = (\<lambda>k. sint (dk_begin k)), kend = (\<lambda>k. sint (dk_end k)),
     kset_range = (\<lambda>b e k. k\<lparr>dk_begin := word_of_int b, dk_end := word_of_int e\<rparr>),
     doff = (\<lambda>d. nat (sint (dd_word_offset d))),
     dset_off = (\<lambda>j d. d\<lparr>dd_word_offset := word_of_nat j\<rparr>),
     dweight = dd_weight, dsize = 8,
     denc = (\<lambda>d. w32_enc (dd_word_offset d) @ w32_enc (dd_weight d)),
     ddec = (\<lambda>b. \<lparr>dd_word_offset = w32_dec b, dd_weight = w32_dec (drop 4 b)\<rparr>),
     iid = (\<lambda>i. nat (sint (di_doc_id i))),
     iset_id = (\<lambda>j i. i\<lparr>di_doc_id := word_of_nat j\<rparr>),
     iassign = (\<lambda>d s. d\<lparr>di_doc_id := di_doc_id s\<rparr>), isize = 4,
     ienc = (\<lambda>i. w32_enc (di_doc_id i)),
     idec = (\<lambda>b. \<lparr>di_doc_id = w32_dec b\<rparr>)\<rparr>"

lemma w32_codec [codec_simps]: "w32_dec (w32_enc w @ post) = w" "length (w32_enc w) = 4" "w32_dec (w32_enc w) = w"
proof -
  have "unat w mod 256 ^ 4 = unat w" using unsigned_less [of w, where 'a = nat] by simp
  then show "w32_dec (w32_enc w @ post) = w" "length (w32_enc w) = 4" "w32_dec (w32_enc w) = w"
    by (simp_all add: w32_dec_def w32_enc_def le_val_le_bytes)
qed

lemma w64_codec [codec_simps]: "w64_dec (w64_enc w @ post) = w" "length (w64_enc w) = 8" "w64_dec (w64_enc w) = w"
proof -
  have "unat w mod 256 ^ 8 = unat w" using unsigned_less [of w, where 'a = nat] by simp
  then show "w64_dec (w64_enc w @ post) = w" "length (w64_enc w) = 8" "w64_dec (w64_enc w) = w"
    by (simp_all add: w64_dec_def w64_enc_def le_val_le_bytes)
qed

lemma sint_small [codec_simps]:
  "0 \<le> k \<Longrightarrow> k < 2 ^ 31 \<Longrightarrow> sint (word_of_int k :: 32 word) = k"
  "0 \<le> k \<Longrightarrow> k < 2 ^ 31 \<Longrightarrow> sint (word_of_int k :: 64 word) = k"
  by (simp_all add: sint_uint signed_take_bit_int_eq_self take_bit_int_eq_self uint_word_of_int_eq)

lemma sint_small_nat [codec_simps]:
  "j < 2 ^ 31 \<Longrightarrow> sint (word_of_nat j :: 32 word) = int j"
  "j < 2 ^ 31 \<Longrightarrow> sint (word_of_nat j :: 64 word) = int j"
  using sint_small [of "int j"] by simp_all

interpretation default_key: node_type default_key_ops
  by unfold_locales (simp_all add: default_key_ops_def codec_simps)

interpretation default_index: index_contract default_types
  by unfold_locales (simp_all add: default_types_def default_key_ops_def codec_simps)

section \<open>Properties\<close>

text \<open>
  C4. For node types whose assignment copies the whole node, sorting the buckets makes lookups
  correct: when every node's word ends inside the character vector and the word's bucket has at most
  2 to the 30 nodes, so that the sum of two positions fits an \<open>int\<close>, \<open>Sort\<close> does not fault, and
  \<open>Find\<close> afterwards does not either: it returns a node of the word if the word's bucket has one, and
  null only if there is none.
\<close>

theorem Sort_Find_correct:
  assumes "nassign N = (\<lambda>d s. s)" and "0 < B"
    and "\<forall>i < B. \<forall>n \<in> set (data hv i). word_ok N (m_charVect hv) n" and "length (data hv (GetHashValue B w)) \<le> 2 ^ 30"
  shows "\<exists>hv'. Sort N B hv = Inr hv' \<and>
    (case Find N B w hv' of
      Inl e \<Rightarrow> False
    | Inr (Some n) \<Rightarrow> n \<in> set (data hv (GetHashValue B w)) \<and> word_of N (m_charVect hv) n = cstr w
    | Inr None \<Rightarrow> \<forall>n \<in> set (data hv (GetHashValue B w)). word_of N (m_charVect hv) n \<noteq> cstr w)"
proof -
  let ?h = "GetHashValue B w" and ?buf = "m_charVect hv"
  have h: "?h < B" by (rule GetHashValue_less [OF assms(2)])
  have "\<not> list_ex (\<lambda>i. sort_faults N ?buf (data hv i)) [0..<B]"
    using assms(3) by (auto simp: list_ex_iff sort_faults_def dest!: in_set_takeD)
  then obtain hv' where hv': "Sort N B hv = Inr hv'" "m_wordsBuf hv' = Some ?buf"
      "data hv' ?h = QSort N ?buf (data hv ?h) 0 (bucket_last (data hv ?h))"
    using h by (auto simp: Sort_def Let_def)
  have last: "bucket_last (data hv ?h) = int (length (data hv ?h)) - 1" using assms(4) by (simp add: bucket_last_def)
  note q = QSort_sorts [OF assms(1), of ?buf "data hv ?h", folded last]
  have same: "set (data hv' ?h) = set (data hv ?h)" "length (data hv' ?h) = length (data hv ?h)"
    using q unfolding hv'(3) by (auto dest: mset_eq_setD mset_eq_length)
  have "sorted (map (word_of N ?buf) (data hv' ?h))" using q by (simp add: hv'(3))
  then have "case Find N B w hv' of
      Inl e \<Rightarrow> False
    | Inr (Some n) \<Rightarrow> n \<in> set (data hv ?h) \<and> word_of N ?buf n = cstr w
    | Inr None \<Rightarrow> \<forall>n \<in> set (data hv ?h). word_of N ?buf n \<noteq> cstr w"
    using Find_sorted [OF hv'(2), of N B w] assms(3,4) h unfolding same by blast
  then show ?thesis using hv'(1) by blast
qed

abbreviation copy_key_ops :: "DEFAULT_KEY_TYPE node_ops" where
  "copy_key_ops \<equiv> default_key_ops\<lparr>nassign := (\<lambda>d s. s)\<rparr>"

theorem Sort_Find_correct_witness:
  "case Sort copy_key_ops 1 (AddItem copy_key_ops 1 (ndefault default_key_ops) ''a''
      (AddItem copy_key_ops 1 (ndefault default_key_ops) ''b'' empty_hv)) of
    Inl e \<Rightarrow> False
  | Inr hv \<Rightarrow> (case Find copy_key_ops 1 ''a'' hv of Inr (Some n) \<Rightarrow> dk_word_offset n = 2 | _ \<Rightarrow> False)"
proof -
  let ?hv = "AddItem copy_key_ops 1 (ndefault default_key_ops) ''a''
      (AddItem copy_key_ops 1 (ndefault default_key_ops) ''b'' empty_hv)"
  have h: "GetHashValue 1 x = 0" for x by (simp add: GetHashValue_def)
  have d: "data ?hv 0 = [\<lparr>dk_word_offset = 0, dk_begin = 0, dk_end = 0\<rparr>,
      \<lparr>dk_word_offset = 2, dk_begin = 0, dk_end = 0\<rparr>]" "m_charVect ?hv = [CHR ''b'', NUL, CHR ''a'', NUL]"
    by (simp_all add: AddItem_def h [unfolded One_nat_def] empty_hv_def default_key_ops_def Let_def cstr_def)
  have w: "word_of copy_key_ops (m_charVect ?hv) \<lparr>dk_word_offset = 0, dk_begin = 0, dk_end = 0\<rparr> = ''b''"
      "word_of copy_key_ops (m_charVect ?hv) \<lparr>dk_word_offset = 2, dk_begin = 0, dk_end = 0\<rparr> = ''a''"
      "cstr ''a'' = ''a''"
    unfolding d by (simp_all add: word_of_def cstr_at_def default_key_ops_def cstr_def)
  have ok: "\<forall>i < 1. \<forall>n \<in> set (data ?hv i). word_ok copy_key_ops (m_charVect ?hv) n"
    using d by (simp add: word_ok_def terminated_at_def default_key_ops_def)
  have len: "length (data ?hv (GetHashValue 1 ''a'')) \<le> 2 ^ 30" unfolding h d by simp
  have a: "nassign copy_key_ops = (\<lambda>d s. s)" by simp
  obtain hv' where "Sort copy_key_ops 1 ?hv = Inr hv'" "case Find copy_key_ops 1 ''a'' hv' of Inl e \<Rightarrow> False
    | Inr (Some n) \<Rightarrow> n \<in> set (data ?hv 0) \<and> word_of copy_key_ops (m_charVect ?hv) n = cstr ''a''
    | Inr None \<Rightarrow> \<forall>n \<in> set (data ?hv 0). word_of copy_key_ops (m_charVect ?hv) n \<noteq> cstr ''a''"
    using Sort_Find_correct [OF a zero_less_one ok len] unfolding h by blast
  then show ?thesis unfolding d(1)
    by (auto simp: w simp del: One_nat_def split: sum.splits option.splits)
qed

text \<open>
  C24. With the key type of the header, whose \<open>operator=\<close> leaves \<open>word_offset\<close> alone, sorting
  exchanges the payloads of two nodes but not their words: after adding \<open>b\<close> with payload 1..1 and
  \<open>a\<close> with payload 2..2 to one bucket and sorting, the payload of \<open>a\<close> belongs to \<open>b\<close> and \<open>a\<close> is not
  found.
\<close>

theorem Sort_loses_words:
  "(let hv = AddItem default_key_ops 1 \<lparr>dk_word_offset = 0, dk_begin = 2, dk_end = 2\<rparr> ''a''
         (AddItem default_key_ops 1 \<lparr>dk_word_offset = 0, dk_begin = 1, dk_end = 1\<rparr> ''b'' empty_hv)
   in \<exists>sorted_hv. Sort default_key_ops 1 hv = Inr sorted_hv \<and>
      Find default_key_ops 1 ''a'' sorted_hv = Inr None \<and> Find default_key_ops 1 ''b'' sorted_hv =
        Inr (Some \<lparr>dk_word_offset = 0, dk_begin = 2, dk_end = 2\<rparr>))"
proof -
  let ?b = "\<lparr>dk_word_offset = 0, dk_begin = 1, dk_end = 1\<rparr>" and ?a = "\<lparr>dk_word_offset = 2, dk_begin = 2, dk_end = 2\<rparr>"
  let ?hv = "AddItem default_key_ops 1 \<lparr>dk_word_offset = 0, dk_begin = 2, dk_end = 2\<rparr> ''a''
      (AddItem default_key_ops 1 ?b ''b'' empty_hv)"
  let ?buf = "[CHR ''b'', NUL, CHR ''a'', NUL]"
  have h: "GetHashValue 1 x = 0" for x by (simp add: GetHashValue_def)
  have hv: "data ?hv 0 = [?b, ?a]" "m_charVect ?hv = ?buf"
    by (simp_all add: AddItem_def h [unfolded One_nat_def] empty_hv_def default_key_ops_def Let_def cstr_def)
  have w: "word_of default_key_ops ?buf \<lparr>dk_word_offset = 0, dk_begin = x, dk_end = y\<rparr> = ''b''"
      "word_of default_key_ops ?buf \<lparr>dk_word_offset = 2, dk_begin = x, dk_end = y\<rparr> = ''a''" for x y
    by (simp_all add: word_of_def cstr_at_def default_key_ops_def cstr_def)
  have lt: "''a'' < (''b'' :: bytes)" by (simp add: less_char_def)
  let ?v = "[\<lparr>dk_word_offset = 0, dk_begin = 2, dk_end = 2\<rparr>, \<lparr>dk_word_offset = 2, dk_begin = 1, dk_end = 1\<rparr>]"
  have "Partition default_key_ops ?buf [?b, ?a] 0 1 = (?v, 1)"
    using lt by (simp add: Partition_def w Let_def wap_at_def Wap_def) (simp add: default_key_ops_def)
  then have q: "QSort default_key_ops ?buf [?b, ?a] 0 1 = ?v" by (simp add: QSort.simps)
  have ok: "word_ok default_key_ops ?buf \<lparr>dk_word_offset = 0, dk_begin = x, dk_end = y\<rparr>"
      "word_ok default_key_ops ?buf \<lparr>dk_word_offset = 2, dk_begin = x, dk_end = y\<rparr>" for x y
    by (simp_all add: word_ok_def terminated_at_def default_key_ops_def)
  have last: "bucket_last [n, m] = 1" for n m :: DEFAULT_KEY_TYPE by (simp add: bucket_last_def)
  obtain hv' where srt: "Sort default_key_ops 1 ?hv = Inr hv'" "data hv' 0 = ?v" "m_wordsBuf hv' = Some ?buf"
    using q hv ok last by (simp add: Sort_def sort_faults_def Let_def)
  have "Find default_key_ops 1 ''a'' hv' = Inr None"
    "Find default_key_ops 1 ''b'' hv' = Inr (Some \<lparr>dk_word_offset = 0, dk_begin = 2, dk_end = 2\<rparr>)"
    unfolding Find_def h Let_def srt last using lt
    by (simp_all add: Find_loop.simps w ok cstr_def)
  then show ?thesis using srt(1) unfolding Let_def by blast
qed

text \<open>
  C3. \<open>Save\<close> then \<open>Load\<close> loses nothing: for an index of the default types that was built by adding
  documents, both return 0 and the loaded object, whatever it held before, has the same documents
  and characters and, for every key, the posting list that was collected, sorted by weight if
  \<open>Save\<close> was asked to. Every size has to fit an \<open>int\<close>.
\<close>

theorem Save_Load_roundtrip:
  assumes "ci_wf default_types ci" and "m_index ci = empty_hv" and "m_inv_vect ci = []"
    and "keys_len (m_index_map ci) < 2 ^ 31" and "lists_len (m_index_map ci) < 2 ^ 31"
    and "length (m_char_vect ci) < 2 ^ 31" and "length (m_doc_vect ci) < 2 ^ 31"
  shows "\<exists>ci1 g ci2.
    Save fresh default_types \<lparr>fdata = [], froom = None\<rparr> srt ci = Inr (ci1, g, 0) \<and>
    Load fresh' default_types (fdata g @ post) ci0 = Inr (ci2, post, 0) \<and>
    m_doc_buf ci2 = Some (m_doc_vect ci) \<and> m_char_buf ci2 = Some (m_char_vect ci) \<and>
    (\<forall>key. case map_of (final_map default_types srt ci) (cstr key) of
        None \<Rightarrow> GetInv default_types key ci2 = Inr None
      | Some l \<Rightarrow> \<exists>b. GetInv default_types key ci2 = Inr (Some (b, int (length l))) \<and>
                  read_inv ci2 (b, int (length l)) = l)"
proof -
  obtain ci1 g ci2 where
    "Save fresh default_types \<lparr>fdata = [], froom = None\<rparr> srt ci = Inr (ci1, g, 0)"
    "\<And>post. Load fresh' default_types (drop (length (fdata \<lparr>fdata = [], froom = None\<rparr>)) (fdata g) @ post) ci0 =
      Inr (ci2, post, 0)"
    "m_doc_buf ci2 = Some (m_doc_vect ci)" "m_char_buf ci2 = Some (m_char_vect ci)"
    "\<And>key. case map_of (final_map default_types srt ci) (cstr key) of
        None \<Rightarrow> GetInv default_types key ci2 = Inr None
      | Some l \<Rightarrow> \<exists>b. GetInv default_types key ci2 = Inr (Some (b, int (length l))) \<and>
                  read_inv ci2 (b, int (length l)) = l"
    by (rule default_index.Save_Load [OF assms, of "\<lparr>fdata = [], froom = None\<rparr>" fresh srt fresh' ci0]) auto
  then show ?thesis by (intro exI [of _ ci1] exI [of _ g] exI [of _ ci2]) simp
qed

definition example_index :: "(DEFAULT_DOC_TYPE, DEFAULT_INV_TYPE, DEFAULT_KEY_TYPE) common_index" where
  "example_index = Add default_types ''key'' \<lparr>di_doc_id = 0\<rparr> \<lparr>dd_word_offset = 0, dd_weight = 0\<rparr> ''text'' new_index"

lemma example_index_map: "m_index_map example_index = [(''key'', [\<lparr>di_doc_id = 0\<rparr>])]"
  by (simp add: example_index_def Add_def push_doc_def new_index_def cstr_def default_types_def Let_def)

theorem Save_Load_roundtrip_witness:
  "\<exists>ci1 g ci2 b.
    Save (\<lambda>_. NUL) default_types \<lparr>fdata = [], froom = None\<rparr> False example_index = Inr (ci1, g, 0) \<and>
    Load (\<lambda>_. NUL) default_types (fdata g) new_index = Inr (ci2, [], 0) \<and>
    GetInv default_types ''key'' ci2 = Inr (Some (b, 1)) \<and> read_inv ci2 (b, 1) = [\<lparr>di_doc_id = 0\<rparr>]"
proof -
  have wf: "ci_wf default_types example_index"
    unfolding example_index_def
    by (rule default_index.Add_wf) (auto simp: new_index_def ci_wf_def map_ok_def)
  have "cstr ''key'' = ''key''" "final_map default_types False example_index = [(''key'', [\<lparr>di_doc_id = 0\<rparr>])]"
    by (simp_all add: cstr_def final_map_def example_index_map final_list_def)
  then show ?thesis
    using Save_Load_roundtrip [OF wf, of "\<lambda>_. NUL" False "\<lambda>_. NUL" "[]" new_index]
    by (auto simp: example_index_def Add_def push_doc_def new_index_def cstr_def Let_def keys_len_def lists_len_def
        dest!: spec [of _ "''key''"])
qed

text \<open>
  C11. A posting list that is sorted on saving holds the same nodes in descending order of
  document weight, as long as no weight is a NaN.
\<close>

theorem sorted_postings:
  assumes "\<forall>i \<in> set l. \<not> float_nan (inv_weight default_types docs i)"
  shows "mset (ci_QSort default_types docs l 0 (int (length l) - 1)) = mset l \<and>
    sorted_wrt (\<lambda>a b. float_ge (inv_weight default_types docs a) (inv_weight default_types docs b))
      (ci_QSort default_types docs l 0 (int (length l) - 1))"
  using default_index.final_list_sorted [OF assms] by (simp add: final_list_def)

theorem sorted_postings_witness:
  "mset (ci_QSort default_types [\<lparr>dd_word_offset = 0, dd_weight = 0\<rparr>, \<lparr>dd_word_offset = 0, dd_weight = 1\<rparr>]
     [\<lparr>di_doc_id = 0\<rparr>, \<lparr>di_doc_id = 1\<rparr>] 0 1) = {#\<lparr>di_doc_id = 0\<rparr>, \<lparr>di_doc_id = 1\<rparr>#}"
proof -
  have "\<forall>i \<in> set [\<lparr>di_doc_id = 0\<rparr>, \<lparr>di_doc_id = 1\<rparr>]. \<not> float_nan (inv_weight default_types
      [\<lparr>dd_word_offset = 0, dd_weight = 0\<rparr>, \<lparr>dd_word_offset = 0, dd_weight = 1\<rparr>] i)"
    by (simp add: inv_weight_def default_types_def float_nan_def float_mag_def)
  from sorted_postings [OF this] show ?thesis by simp
qed

text \<open>\<open>Save\<close> does not look at the result of \<open>WriteFile\<close>.\<close>

lemma rewrite_buckets_empty: "rewrite_buckets N cv (\<lambda>_. []) is out = (\<lambda>_. [], out)"
proof (induction "is" arbitrary: out)
  case (Cons i "is")
  have "(\<lambda>_. [] :: 'a list)(i := []) = (\<lambda>_. [])" by auto
  with Cons show ?case by (simp del: fun_upd_apply)
qed simp

lemma fwrite_full: "froom f = Some 0 \<Longrightarrow> fwrite b f = (f, 0)"
  by (simp add: fwrite_def)

lemma foldl_fwrite_full: "froom f = Some 0 \<Longrightarrow> foldl (\<lambda>g i. fst (fwrite (h i) g)) f is = f"
  by (induction "is") (simp_all add: fwrite_full)

lemma le_bytes_zero: "le_bytes k 0 = replicate k NUL"
  by (induction k) (simp_all add: char_of_def)

lemma le_val_zero: "le_val (replicate k NUL) = 0"
  by (induction k) simp_all

lemma save_block_room:
  "save_block enc [] \<lparr>fdata = l, froom = Some (4 + n)\<rparr> =
     Inr (\<lparr>fdata = l @ replicate 4 NUL, froom = Some n\<rparr>, True)"
  by (simp add: save_block_def fwrite_def le_bytes_zero)

lemma load_block_zero:
  "load_block fresh sz dec (replicate 4 NUL @ f) = Inr (0, Some [], f, True)"
  by (simp add: load_block_def fread_upto_def overlay_def filled_def le_val_zero)

lemma WriteFile_full_device:
  "WriteFile fresh N B (empty_hv\<lparr>m_wordsBuf := Some []\<rparr>) (Some \<lparr>fdata = l, froom = Some 0\<rparr>) =
     Inr (empty_hv, Some \<lparr>fdata = l, froom = Some 0\<rparr>, True)"
  by (simp add: WriteFile_def empty_hv_def rewrite_buckets_empty fwrite_full foldl_fwrite_full Let_def)

lemma Change_empty:
  "ChangeToHVIndex T False new_index = Inr (new_index\<lparr>m_index := empty_hv\<lparr>m_wordsBuf := Some []\<rparr>\<rparr>)"
proof -
  have "Sort (KN T) HASH_BASIC empty_hv = Inr (empty_hv\<lparr>m_wordsBuf := Some []\<rparr>)"
    using Sort_ordered [of HASH_BASIC "KN T" empty_hv] by (simp add: empty_hv_def)
  then show ?thesis by (simp add: ChangeToHVIndex_def new_index_def)
qed

lemma Clear_empty: "Clear B empty_hv = empty_hv"
  by (simp add: Clear_def empty_hv_def fun_eq_iff)

text \<open>
  \<open>Save\<close> reports success although the device is full: with room for the three counts only,
  the hash index of an empty \<open>CommonIndex\<close> is not written at all, \<open>Save\<close> returns 0, and loading the
  file fails with -1.
\<close>

theorem Save_ignores_full_device:
  "\<exists>ci1 ci2 g r. Save fresh default_types \<lparr>fdata = [], froom = Some 12\<rparr> False new_index = Inr (ci1, g, 0) \<and>
    length (fdata g) = 12 \<and> Load fresh default_types (fdata g) new_index = Inr (ci2, r, -1)"
proof -
  let ?z = "replicate 4 NUL"
  let ?g = "\<lparr>fdata = ?z @ ?z @ ?z, froom = Some 0\<rparr>"
  have sb: "save_block (\<lambda>c. [c]) [] \<lparr>fdata = [], froom = Some 12\<rparr> = Inr (\<lparr>fdata = ?z, froom = Some 8\<rparr>, True)"
      "save_block (denc default_types) [] \<lparr>fdata = ?z, froom = Some 8\<rparr> = Inr (\<lparr>fdata = ?z @ ?z, froom = Some 4\<rparr>, True)"
      "save_block (ienc default_types) [] \<lparr>fdata = ?z @ ?z, froom = Some 4\<rparr> = Inr (?g, True)"
    using save_block_room [of "\<lambda>c. [c]" "[]" 8] save_block_room [of "denc default_types" ?z 4]
      save_block_room [of "ienc default_types" "?z @ ?z" 0] by simp_all
  have sv: "Save fresh default_types \<lparr>fdata = [], froom = Some 12\<rparr> False new_index = Inr (new_index, ?g, 0)"
    unfolding Save_def Change_empty Let_def by (simp add: new_index_def sb WriteFile_full_device)
  have rd: "ReadInFile fresh (KN default_types) HASH_BASIC empty_hv (Some []) =
      Inr (empty_hv\<lparr>m_wordsBuf := Some []\<rparr>, Some [], False)"
    by (simp add: ReadInFile_def fread_def fread_upto_def overlay_def le_val_le_bytes empty_hv_def)
  have "Load fresh default_types (?z @ ?z @ ?z @ []) new_index = Inr (new_index\<lparr>m_char_buf := Some [],
      m_doc_buf := Some [], m_inv_buf := Some [], m_index := empty_hv\<lparr>m_wordsBuf := Some []\<rparr>\<rparr>, [], -1)"
    unfolding Load_def load_block_zero by (simp add: ci_Clear_def new_index_def Clear_empty rd load_block_zero
        del: append_Nil2)
  with sv show ?thesis by (intro exI conjI) auto
qed

end
