(* ===== verification/GaryString.thy ===== *)
theory GaryString
  imports Prelude
begin

text \<open>
  The string helpers of \<open>src/include/gary_common/gary_string.h\<close>: splitting, trimming, word
  counting over GBK text, deletion of a pattern and the substrings and suffixes of a segmented
  sentence. Loops whose end depends on the arguments are \<open>partial_function (option)\<close>: \<open>None\<close> is a
  loop that never ends. A read outside the string is the value \<open>None\<close> of \<open>GetTheWord\<close>.
\<close>

section \<open>Splitting\<close>

text \<open>
  The body of the \<open>while\<close> loop of \<open>StringSplit\<close>: \<open>one\<close> is \<open>posOnePart\<close> (\<open>None\<close> for \<open>npos\<close>), \<open>beg\<close>
  is \<open>posFindBegin\<close>; after the loop the rest of the string is one more part.
\<close>

partial_function (option) StringSplit_loop ::
    "bytes \<Rightarrow> bytes \<Rightarrow> nat \<Rightarrow> nat option \<Rightarrow> bytes list \<Rightarrow> bytes list option" where
  "StringSplit_loop strItem sep beg one res =
     (case one of
        None \<Rightarrow> Some (if beg < length strItem then res @ [drop beg strItem] else res)
      | Some p \<Rightarrow>
          StringSplit_loop strItem sep (p + length sep) (find_from strItem sep (p + length sep))
            (if p \<noteq> beg then res @ [take (p - beg) (drop beg strItem)] else res))"

definition StringSplit :: "bytes \<Rightarrow> bytes \<Rightarrow> bytes list option" where
  "StringSplit strItem splitWord =
     (let sep = cstr splitWord in StringSplit_loop strItem sep 0 (find_from strItem sep 0) [])"

text \<open>\<open>SegSplit\<close> keeps the separator itself as a part when two of them follow each other.\<close>

partial_function (option) SegSplit_loop ::
    "bytes \<Rightarrow> bytes \<Rightarrow> nat \<Rightarrow> nat option \<Rightarrow> bool \<Rightarrow> bytes list \<Rightarrow> bytes list option" where
  "SegSplit_loop strItem sep beg one is_pre_seg res =
     (case one of
        None \<Rightarrow> Some (if beg < length strItem then res @ [drop beg strItem] else res)
      | Some p \<Rightarrow>
          SegSplit_loop strItem sep (p + length sep) (find_from strItem sep (p + length sep))
            (p = beg)
            (if p = beg then (if is_pre_seg then res @ [sep] else res)
             else res @ [take (p - beg) (drop beg strItem)]))"

definition SegSplit :: "bytes \<Rightarrow> bytes \<Rightarrow> bytes list option" where
  "SegSplit strItem splitWord =
     (let sep = cstr splitWord in SegSplit_loop strItem sep 0 (find_from strItem sep 0) False [])"

section \<open>Trimming\<close>

definition trim_blank :: "char \<Rightarrow> bool" where
  "trim_blank c \<longleftrightarrow> c = CHR '' '' \<or> c = CHR 0x09 \<or> c = CHR 0x0D \<or> c = CHR 0x0A"

text \<open>Reading \<open>pItem[left]\<close> at the end of the string gives the terminating NUL, which stops the loop.\<close>

function trim_left_pos :: "bytes \<Rightarrow> nat \<Rightarrow> nat" where
  "trim_left_pos s left =
     (if left < length s \<and> trim_blank (s ! left) then trim_left_pos s (Suc left) else left)"
  by pat_completeness auto
termination by (relation "measure (\<lambda>(s, left). length s - left)") auto

function trim_right_pos :: "bytes \<Rightarrow> int \<Rightarrow> int" where
  "trim_right_pos s right =
     (if 0 \<le> right \<and> trim_blank (s ! nat right) then trim_right_pos s (right - 1) else right)"
  by pat_completeness auto
termination by (relation "measure (\<lambda>(s, right). nat (right + 1))") auto

definition StringTrim :: "bytes \<Rightarrow> bytes" where
  "StringTrim strItem =
     (if length strItem = 0 then strItem
      else let left = int (trim_left_pos strItem 0);
               right = trim_right_pos strItem (int (length strItem) - 1)
           in if left > right then []
              else take (nat (right - left + 1)) (drop (nat left) strItem))"

section \<open>Words of GBK text\<close>

text \<open>
  \<open>GetWordNum\<close>: the outer loop skips one blank, the inner one runs over a word, two bytes at a
  time for a double-byte character. The argument is the C string that is left.
\<close>

function (sequential) GetWordNum_outer :: "int \<Rightarrow> bytes \<Rightarrow> int"
  and GetWordNum_inner :: "int \<Rightarrow> bytes \<Rightarrow> int" where
  "GetWordNum_outer num [] = num + 1"
| "GetWordNum_outer num (c # cs) =
     (if c = CHR '' '' then GetWordNum_inner num cs else GetWordNum_inner num (c # cs))"
| "GetWordNum_inner num [] = num + 1"
| "GetWordNum_inner num (c # cs) =
     (if is_neg c then (case cs of [] \<Rightarrow> num + 1 | d # ds \<Rightarrow> GetWordNum_inner num ds)
      else if c = CHR '' '' then GetWordNum_outer (num + 1) cs
      else GetWordNum_inner num cs)"
  by pat_completeness auto
termination
  by (relation "measure (\<lambda>x. case x of Inl (n, cs) \<Rightarrow> 2 * length cs + 1
                                     | Inr (n, cs) \<Rightarrow> 2 * length cs)") auto

definition GetWordNum :: "bytes \<Rightarrow> int" where
  "GetWordNum src = GetWordNum_outer 0 (cstr src)"

text \<open>
  \<open>GetTheWord\<close> cuts the buffer after its first word. The argument of the scan is what follows
  \<open>p\<close> in the C string; a double-byte character whose second byte is the terminator makes \<open>p\<close> leave
  the string, which is \<open>None\<close>.
\<close>

fun GetTheWord_scan :: "bytes \<Rightarrow> nat option" where
  "GetTheWord_scan [] = Some 0"
| "GetTheWord_scan (c # cs) =
     (if c = CHR '' '' then Some 0
      else if is_neg c then
        (case cs of [] \<Rightarrow> None | d # ds \<Rightarrow> map_option (\<lambda>n. n + 2) (GetTheWord_scan ds))
      else map_option Suc (GetTheWord_scan cs))"

definition GetTheWord :: "bytes \<Rightarrow> bytes option" where
  "GetTheWord src =
     (let s = cstr src;
          skip = (if s \<noteq> [] \<and> hd s = CHR '' '' then 1 else 0)
      in map_option (\<lambda>n. take (skip + n) s) (GetTheWord_scan (drop skip s)))"

text \<open>\<open>GetEngWord\<close>: the result is NULL or the query, with \<open>len_eng\<close> and \<open>num_eng_word\<close>.\<close>

fun GetEngWord_loop :: "bytes \<Rightarrow> int \<Rightarrow> int \<Rightarrow> int \<Rightarrow> int \<Rightarrow> int \<times> int" where
  "GetEngWord_loop [] num_eng_word cur_num cur_len len_eng = (len_eng, cur_num)"
| "GetEngWord_loop (c # cs) num_eng_word cur_num cur_len len_eng =
     (if c = CHR '' '' then
        (if num_eng_word \<le> cur_num + 1 then (cur_len, cur_num + 1)
         else GetEngWord_loop cs num_eng_word (cur_num + 1) (cur_len + 1) cur_len)
      else if c_islower c then GetEngWord_loop cs num_eng_word cur_num (cur_len + 1) len_eng
      else (len_eng, cur_num))"

definition GetEngWord :: "bytes \<Rightarrow> int \<Rightarrow> bytes option \<times> int \<times> int" where
  "GetEngWord query num_eng_word =
     (let (len_eng, cur_num) = GetEngWord_loop (cstr query) num_eng_word 0 0 0
      in (if len_eng = 0 then None else Some query, len_eng, cur_num))"

section \<open>Deleting a pattern\<close>

text \<open>
  The position is narrowed to an \<open>int\<close>: one of \<open>2 ^ 31\<close> and more becomes negative, or another
  position. \<open>replace\<close> throws for a position outside the string. An empty pattern never ends (\<open>None\<close>).
\<close>

datatype delete_result = Deleted bytes | OutOfRange

partial_function (option) delete_loop :: "bytes \<Rightarrow> bytes \<Rightarrow> delete_result option" where
  "delete_loop line pat =
     (case find_sub line pat of
        None \<Rightarrow> Some (Deleted line)
      | Some p \<Rightarrow>
          (let loc = signed_take_bit 31 (int p)
           in if loc = -1 then Some (Deleted line)
              else if loc < 0 \<or> int (length line) < loc then Some OutOfRange
              else delete_loop (take (nat loc) line @ drop (nat loc + length pat) line) pat))"

definition deleteSpace :: "bytes \<Rightarrow> delete_result option" where
  "deleteSpace line = (if length line < 1 then Some (Deleted line) else delete_loop line '' '')"

definition deleteStr :: "bytes \<Rightarrow> bytes \<Rightarrow> delete_result option" where
  "deleteStr line str = (if length line < 1 then Some (Deleted line) else delete_loop line (cstr str))"

section \<open>Substrings and suffixes of a segmented sentence\<close>

text \<open>The strings \<open>sub\<close> takes while the inner loop appends the segments one after the other.\<close>

fun sub_prefixes :: "bytes \<Rightarrow> bytes list \<Rightarrow> bytes list" where
  "sub_prefixes sub [] = []"
| "sub_prefixes sub (w # ws) = (sub @ w) # sub_prefixes (sub @ w) ws"

definition all_substr :: "bytes list \<Rightarrow> bytes list \<Rightarrow> bytes list" where
  "all_substr segment all_sub =
     (let size = length segment
      in all_sub @ concat (map (\<lambda>i. let K = (if size \<le> i + 5 then size else i + 5)
                                    in sub_prefixes [] (take (K - i) (drop i segment)))
                               [0..<size]))"

text \<open>The overload that counts the substrings of at most ten bytes in a map.\<close>

definition count_up :: "(bytes \<rightharpoonup> int) \<Rightarrow> bytes \<Rightarrow> (bytes \<rightharpoonup> int)" where
  "count_up m k = m(k \<mapsto> (case m k of None \<Rightarrow> 0 | Some c \<Rightarrow> c) + 1)"

fun all_substr_map_inner :: "bytes \<Rightarrow> bytes list \<Rightarrow> (bytes \<rightharpoonup> int) \<Rightarrow> (bytes \<rightharpoonup> int)" where
  "all_substr_map_inner sub [] m = m"
| "all_substr_map_inner sub (w # ws) m =
     (if w = [] then all_substr_map_inner sub ws m
      else if 10 < length (sub @ w) then m
      else all_substr_map_inner (sub @ w) ws (count_up m (sub @ w)))"

definition all_substr_map :: "bytes list \<Rightarrow> (bytes \<rightharpoonup> int) \<Rightarrow> (bytes \<rightharpoonup> int)" where
  "all_substr_map segment all_sub =
     (let size = length segment
      in fold (\<lambda>i m. if length (segment ! i) = 0 then m
                     else let K = (if size \<le> i + 5 then size else i + 5)
                          in all_substr_map_inner [] (take (K - i) (drop i segment)) m)
              [0..<size] all_sub)"

definition all_suffix :: "bytes list \<Rightarrow> bytes list" where
  "all_suffix segment =
     (let size = length segment; beg = (if size > 10 then size - 10 else 0)
      in map (\<lambda>i. foldl (@) (segment ! i) (drop (i + 1) segment)) [beg..<size])"

section \<open>The fields of a string\<close>

text \<open>
  The specification of splitting: the fields between the non-overlapping occurrences of the
  separator, read from the left, empty ones included.
\<close>

function split_fields :: "'a list \<Rightarrow> 'a list \<Rightarrow> 'a list list" where
  "split_fields s sep =
     (case find_sub s sep of
        None \<Rightarrow> [s]
      | Some i \<Rightarrow> if sep = [] then [s] else take i s # split_fields (drop (i + length sep) s) sep)"
  by pat_completeness auto
termination
  by (relation "measure (\<lambda>(s, sep). length s)")
    (auto dest!: find_sub_bound simp flip: length_greater_0_conv)

declare split_fields.simps [simp del] trim_left_pos.simps [simp del] trim_right_pos.simps [simp del]

fun join :: "'a list \<Rightarrow> 'a list list \<Rightarrow> 'a list" where
  "join sep [] = []"
| "join sep [x] = x"
| "join sep (x # y # zs) = x @ sep @ join sep (y # zs)"

text \<open>What \<open>SegSplit\<close> keeps of the fields; the flag says whether the previous field was empty.\<close>

fun seg_fields :: "'a list \<Rightarrow> bool \<Rightarrow> 'a list list \<Rightarrow> 'a list list" where
  "seg_fields sep pre [] = []"
| "seg_fields sep pre [x] = (if x = [] then [] else [x])"
| "seg_fields sep pre (x # y # zs) =
     (if x = [] then (if pre then [sep] else []) @ seg_fields sep True (y # zs)
      else x # seg_fields sep False (y # zs))"

lemma split_fields_None: "find_sub s sep = None \<Longrightarrow> split_fields s sep = [s]"
  by (simp add: split_fields.simps)

lemma split_fields_Some:
  "sep \<noteq> [] \<Longrightarrow> find_sub s sep = Some i \<Longrightarrow>
   split_fields s sep = take i s # split_fields (drop (i + length sep) s) sep"
  by (subst split_fields.simps) simp

lemma split_fields_not_Nil [simp]: "split_fields s sep \<noteq> []"
  by (subst split_fields.simps) (auto split: option.splits)

lemma join_Cons: "xs \<noteq> [] \<Longrightarrow> join sep (x # xs) = x @ sep @ join sep xs"
  by (cases xs) auto

lemma join_split_fields: "sep \<noteq> [] \<Longrightarrow> join sep (split_fields s sep) = s"
proof (induction s sep rule: split_fields.induct)
  case (1 s sep)
  show ?case
  proof (cases "find_sub s sep")
    case None
    then show ?thesis by (simp add: split_fields_None)
  next
    case (Some i)
    with 1 have "join sep (split_fields s sep) = take i s @ sep @ drop (i + length sep) s"
      by (simp add: split_fields_Some join_Cons)
    with Some show ?thesis by (metis find_sub_split)
  qed
qed

lemma occurs_at_take: "occurs_at (take i s) sep j \<Longrightarrow> occurs_at s sep j"
  unfolding occurs_at_def prefix_def
  by (metis append_assoc append_take_drop_id drop_append le_trans length_take min.cobounded1
      diff_is_0_eq drop_0)

lemma find_sub_take_None:
  assumes "sep \<noteq> []" and "find_sub s sep = Some i"
  shows "find_sub (take i s) sep = None"
proof -
  have False if "occurs_at (take i s) sep j" for j
  proof -
    from that have "prefix sep (drop j (take i s))" by (simp add: occurs_at_def)
    with assms(1) have "drop j (take i s) \<noteq> []" by auto
    then have "j < i" by simp
    moreover from that have "occurs_at s sep j" by (rule occurs_at_take)
    ultimately show False using assms(2) by (auto simp: find_simps)
  qed
  then show ?thesis by (auto simp: find_simps)
qed

lemma split_fields_no_sep: "sep \<noteq> [] \<Longrightarrow> f \<in> set (split_fields s sep) \<Longrightarrow> find_sub f sep = None"
proof (induction s sep rule: split_fields.induct)
  case (1 s sep)
  then show ?case
    by (cases "find_sub s sep") (auto simp: split_fields_None split_fields_Some find_sub_take_None)
qed

section \<open>Correctness of splitting\<close>

lemma find_from_drop: "beg \<le> length s \<Longrightarrow>
  find_from s sep beg = map_option (\<lambda>i. beg + i) (find_sub (drop beg s) sep)"
  by (simp add: find_from_def)

lemma StringSplit_loop_fields:
  assumes "sep \<noteq> []"
  shows "beg \<le> length s \<Longrightarrow> StringSplit_loop s sep beg (find_from s sep beg) res =
    Some (res @ filter (\<lambda>f. f \<noteq> []) (split_fields (drop beg s) sep))"
proof (induction "length s - beg" arbitrary: beg res rule: less_induct)
  case less
  show ?case
  proof (cases "find_sub (drop beg s) sep")
    case None
    with less.prems show ?thesis
      by (subst StringSplit_loop.simps) (simp add: find_from_drop split_fields_None)
  next
    case (Some i)
    from find_sub_bound [OF Some] less.prems assms
    have b: "beg + i + length sep \<le> length s" "length s - (beg + i + length sep) < length s - beg"
      by (auto simp flip: length_greater_0_conv)
    from less.prems Some have ff: "find_from s sep beg = Some (beg + i)"
      by (simp add: find_from_drop)
    from find_sub_bound [OF Some] assms have "drop beg s \<noteq> []"
      by (auto simp flip: length_greater_0_conv)
    then have tk: "take i (drop beg s) = [] \<longleftrightarrow> i = 0" by simp
    have fl: "split_fields (drop beg s) sep = take i (drop beg s) # split_fields (drop (beg + i + length sep) s) sep"
      using Some assms by (simp add: split_fields_Some add.commute add.left_commute)
    show ?thesis
      using less.hyps [OF b(2) b(1)] tk
      by (subst StringSplit_loop.simps) (simp add: ff fl)
  qed
qed

lemma SegSplit_loop_fields:
  assumes "sep \<noteq> []"
  shows "beg \<le> length s \<Longrightarrow> SegSplit_loop s sep beg (find_from s sep beg) pre res =
    Some (res @ seg_fields sep pre (split_fields (drop beg s) sep))"
proof (induction "length s - beg" arbitrary: beg pre res rule: less_induct)
  case less
  show ?case
  proof (cases "find_sub (drop beg s) sep")
    case None
    with less.prems show ?thesis
      by (subst SegSplit_loop.simps) (simp add: find_from_drop split_fields_None)
  next
    case (Some i)
    from find_sub_bound [OF Some] less.prems assms
    have b: "beg + i + length sep \<le> length s" "length s - (beg + i + length sep) < length s - beg"
      by (auto simp flip: length_greater_0_conv)
    from less.prems Some have ff: "find_from s sep beg = Some (beg + i)"
      by (simp add: find_from_drop)
    obtain y zs where yz: "split_fields (drop (beg + i + length sep) s) sep = y # zs"
      by (cases "split_fields (drop (beg + i + length sep) s) sep") auto
    from find_sub_bound [OF Some] assms have "drop beg s \<noteq> []"
      by (auto simp flip: length_greater_0_conv)
    then have tk: "take i (drop beg s) = [] \<longleftrightarrow> i = 0" by simp
    have fl: "split_fields (drop beg s) sep = take i (drop beg s) # y # zs"
      using Some assms yz by (simp add: split_fields_Some add.commute add.left_commute)
    show ?thesis
      using less.hyps [OF b(2) b(1)] tk
      by (subst SegSplit_loop.simps) (simp add: ff fl yz)
  qed
qed

lemma StringSplit_loop_empty_sep:
  assumes "StringSplit_loop s sep beg one res = Some r" and "sep = []" and "one = Some beg"
    and "beg \<le> length s"
  shows False
proof -
  have "sep = [] \<and> one = Some beg \<and> beg \<le> length s \<longrightarrow> False"
  proof (rule StringSplit_loop.raw_induct [where P = "\<lambda>s sep beg one res r.
      sep = [] \<and> one = Some beg \<and> beg \<le> length s \<longrightarrow> False", OF _ assms(1)])
    fix f :: "bytes \<Rightarrow> bytes \<Rightarrow> nat \<Rightarrow> nat option \<Rightarrow> bytes list \<Rightarrow> bytes list option"
      and s sep :: bytes and beg :: nat and one :: "nat option" and res r
    assume IH: "\<And>s sep beg one res r. f s sep beg one res = Some r \<Longrightarrow>
        sep = [] \<and> one = Some beg \<and> beg \<le> length s \<longrightarrow> False"
      and eq: "(case one of
          None \<Rightarrow> Some (if beg < length s then res @ [drop beg s] else res)
        | Some p \<Rightarrow> f s sep (p + length sep) (find_from s sep (p + length sep))
            (if p \<noteq> beg then res @ [take (p - beg) (drop beg s)] else res)) = Some r"
    show "sep = [] \<and> one = Some beg \<and> beg \<le> length s \<longrightarrow> False"
      using IH eq by (auto simp: find_from_def)
  qed
  with assms show False by simp
qed

text \<open>
  C22. \<open>StringSplit\<close> returns exactly the non-empty fields of the string, for every separator that is not
  empty; the fields, joined with the separator, give the string back and none contains it.
\<close>

theorem StringSplit_fields:
  assumes "cstr splitWord \<noteq> []"
  shows "StringSplit s splitWord = Some (filter (\<lambda>f. f \<noteq> []) (split_fields s (cstr splitWord))) \<and>
    join (cstr splitWord) (split_fields s (cstr splitWord)) = s \<and>
    (\<forall>f \<in> set (split_fields s (cstr splitWord)). find_sub f (cstr splitWord) = None)"
  using StringSplit_loop_fields [OF assms, of 0 s "[]"] assms
  by (simp add: StringSplit_def join_split_fields split_fields_no_sep)

text \<open>An empty separator makes the loop of \<open>StringSplit\<close> run forever, whatever the string.\<close>

theorem StringSplit_empty_sep_diverges:
  "cstr splitWord = [] \<Longrightarrow> StringSplit s splitWord = None"
  using StringSplit_loop_empty_sep [of s "[]" 0 "Some 0" "[]"]
  by (cases "StringSplit_loop s [] 0 (Some 0) []") (auto simp: StringSplit_def find_from_def)

theorem StringSplit_empty_sep_diverges_witness:
  "cstr [NUL] = [] \<and> StringSplit ''a b'' [NUL] = None"
  using StringSplit_empty_sep_diverges [of "[NUL]" "''a b''"] by (simp add: cstr_def)

text \<open>\<open>SegSplit\<close> keeps the fields and, of a run of separators, those after the second.\<close>

lemma SegSplit_fields:
  assumes "cstr splitWord \<noteq> []"
  shows "SegSplit s splitWord =
    Some (seg_fields (cstr splitWord) False (split_fields s (cstr splitWord)))"
  using SegSplit_loop_fields [OF assms, of 0 s False "[]"] by (simp add: SegSplit_def Let_def)

section \<open>Trimming\<close>

lemma trim_left_pos_length:
  "left \<le> length s \<Longrightarrow> trim_left_pos s left = left + length (takeWhile trim_blank (drop left s))"
proof (induction s left rule: trim_left_pos.induct)
  case (1 s left)
  show ?case
  proof (cases "left < length s")
    case True
    then have "drop left s = s ! left # drop (Suc left) s" by (simp add: Cons_nth_drop_Suc)
    with 1 True show ?thesis by (simp add: trim_left_pos.simps [of s left])
  next
    case False
    with "1.prems" have "left = length s" by simp
    then show ?thesis by (subst trim_left_pos.simps) simp
  qed
qed

lemma trim_right_pos_length:
  "n \<le> length s \<Longrightarrow>
   trim_right_pos s (int n - 1) = int n - 1 - int (length (takeWhile trim_blank (rev (take n s))))"
proof (induction n)
  case 0
  then show ?case by (subst trim_right_pos.simps) simp
next
  case (Suc n)
  then have "take (Suc n) s = take n s @ [s ! n]" by (simp add: take_Suc_conv_app_nth)
  with Suc show ?case by (subst trim_right_pos.simps) auto
qed

text \<open>The reference: drop the blanks of both ends.\<close>

definition strip_by :: "('a \<Rightarrow> bool) \<Rightarrow> 'a list \<Rightarrow> 'a list" where
  "strip_by P s = rev (dropWhile P (rev (dropWhile P s)))"


lemma strip_by_split:
  "s = takeWhile P s @ strip_by P s @ rev (takeWhile P (rev (dropWhile P s)))"
  unfolding strip_by_def by (metis rev_append rev_rev_ident takeWhile_dropWhile_id)

lemma takeWhile_rev_dropWhile:
  "dropWhile P s \<noteq> [] \<Longrightarrow> takeWhile P (rev s) = takeWhile P (rev (dropWhile P s))"
proof -
  assume ne: "dropWhile P s \<noteq> []"
  then have "\<not> P (hd (dropWhile P s))" by (rule hd_dropWhile)
  then have "\<exists>x \<in> set (rev (dropWhile P s)). \<not> P x" using hd_in_set [OF ne] by (metis set_rev)
  then have "takeWhile P (rev (dropWhile P s) @ rev (takeWhile P s)) = takeWhile P (rev (dropWhile P s))"
    by (metis takeWhile_append1)
  then show ?thesis by (metis rev_append takeWhile_dropWhile_id)
qed

lemma StringTrim_strip: "StringTrim s = strip_by trim_blank s"
proof (cases "dropWhile trim_blank s = []")
  case True
  then have all: "\<forall>x \<in> set s. trim_blank x" by simp
  then have tw: "takeWhile trim_blank s = s" "takeWhile trim_blank (rev s) = rev s"
    by (simp_all add: takeWhile_eq_all_conv)
  have "trim_left_pos s 0 = length s" "trim_right_pos s (int (length s) - 1) = -1"
    using trim_left_pos_length [of 0 s] trim_right_pos_length [of "length s" s] tw by simp_all
  moreover have "strip_by trim_blank s = []" unfolding strip_by_def True by simp
  ultimately show ?thesis by (simp add: StringTrim_def Let_def)
next
  case False
  let ?d = "dropWhile trim_blank s" and ?l = "length (takeWhile trim_blank s)"
  let ?r = "length (takeWhile trim_blank (rev ?d))"
  have len: "length s = ?l + length ?d"
    by (metis length_append takeWhile_dropWhile_id)
  have "takeWhile trim_blank (rev ?d) \<noteq> rev ?d"
    using hd_dropWhile [OF False] False
    by (metis hd_in_set set_rev takeWhile_eq_all_conv)
  then have r: "?r < length ?d"
    by (metis length_rev length_takeWhile_le linorder_neqE_nat not_less takeWhile_eq_take take_all)
  have lp: "trim_left_pos s 0 = ?l" by (simp add: trim_left_pos_length)
  have rp: "trim_right_pos s (int (length s) - 1) = int (length s) - 1 - int ?r"
    using trim_right_pos_length [of "length s" s] takeWhile_rev_dropWhile [OF False] by simp
  have n: "nat (int (length s) - 1 - int ?r - int ?l + 1) = length ?d - ?r"
    using len r by simp
  have dr: "drop ?l s = ?d" by (metis dropWhile_eq_drop)
  have "strip_by trim_blank s = take (length ?d - ?r) ?d"
    unfolding strip_by_def by (simp add: dropWhile_eq_drop [of _ "rev ?d"] rev_drop)
  moreover have "length s \<noteq> 0" using r len by linarith
  moreover have "\<not> int ?l > int (length s) - 1 - int ?r" using r len by linarith
  ultimately show ?thesis
    unfolding StringTrim_def Let_def lp rp n nat_int dr by simp
qed

lemma strip_by_ends:
  "strip_by P s \<noteq> [] \<Longrightarrow> \<not> P (hd (strip_by P s)) \<and> \<not> P (last (strip_by P s))"
proof -
  let ?d = "dropWhile P s"
  assume ne: "strip_by P s \<noteq> []"
  then have d: "dropWhile P (rev ?d) \<noteq> []" by (simp add: strip_by_def)
  then have "\<not> P (last (strip_by P s))"
    using hd_dropWhile [OF d] by (simp add: strip_by_def last_rev)
  moreover have "?d = strip_by P s @ rev (takeWhile P (rev ?d))"
    unfolding strip_by_def by (metis rev_append rev_rev_ident takeWhile_dropWhile_id)
  with ne have "hd (strip_by P s) = hd ?d" "?d \<noteq> []" by (metis hd_append2, metis append_is_Nil_conv)
  ultimately show ?thesis using hd_dropWhile [of P s] by simp
qed

text \<open>
  \<open>StringTrim\<close> removes exactly a run of blanks (space, tab, CR, LF) at each end: what it cuts is
  blank, and what it keeps neither begins nor ends with a blank.
\<close>

theorem StringTrim_correct:
  "\<exists>l r. s = l @ StringTrim s @ r \<and> list_all trim_blank l \<and> list_all trim_blank r \<and>
     (StringTrim s = [] \<or> (\<not> trim_blank (hd (StringTrim s)) \<and> \<not> trim_blank (last (StringTrim s))))"
proof (intro exI conjI)
  show "s = takeWhile trim_blank s @ StringTrim s @ rev (takeWhile trim_blank (rev (dropWhile trim_blank s)))"
    unfolding StringTrim_strip by (rule strip_by_split)
qed (use strip_by_ends [of trim_blank s] in
     \<open>auto simp: StringTrim_strip list_all_iff dest: set_takeWhileD\<close>)

section \<open>Deletion\<close>

text \<open>
  What deletion means: the first occurrence of the pattern is taken out, whole, and so on with the
  result until none is left.
\<close>

inductive deletes :: "'a list \<Rightarrow> 'a list \<Rightarrow> 'a list \<Rightarrow> bool" for pat where
  deletes_none: "find_sub s pat = None \<Longrightarrow> deletes pat s s"
| deletes_first: "\<forall>i < length a. \<not> occurs_at (a @ pat @ b) pat i \<Longrightarrow> deletes pat (a @ b) r \<Longrightarrow> deletes pat (a @ pat @ b) r"

lemma narrow_small: "p < 2 ^ 31 \<Longrightarrow> signed_take_bit 31 (int p) = int p"
  by (simp add: signed_take_bit_int_eq_self)

lemma delete_loop_step:
  assumes "find_sub line pat = Some p" and "length line < 2 ^ 31"
  shows "delete_loop line pat = delete_loop (take p line @ drop (p + length pat) line) pat"
proof -
  have "p + length pat \<le> length line" by (rule find_sub_bound [OF assms(1)])
  then show ?thesis using assms narrow_small [of p] by (subst delete_loop.simps) (simp add: Let_def)
qed

lemma delete_loop_ends:
  assumes "pat \<noteq> []" and "length line < 2 ^ 31"
  shows "\<exists>r. delete_loop line pat = Some (Deleted r) \<and> deletes pat line r \<and> find_sub r pat = None"
  using assms(2)
proof (induction line rule: length_induct)
  case (1 line)
  show ?case
  proof (cases "find_sub line pat")
    case None
    then show ?thesis by (subst delete_loop.simps) (simp add: deletes_none)
  next
    case (Some p)
    let ?a = "take p line" and ?b = "drop (p + length pat) line"
    have p: "p + length pat \<le> length line" by (rule find_sub_bound [OF Some])
    then have "length (?a @ ?b) < length line" using assms(1) by (simp flip: length_greater_0_conv)
    with 1 obtain r where r: "delete_loop (?a @ ?b) pat = Some (Deleted r)" "deletes pat (?a @ ?b) r" "find_sub r pat = None"
      by (meson order.strict_trans)
    have occ: "occurs_at line pat p" "\<forall>i < p. \<not> occurs_at line pat i" using Some by (simp_all add: find_sub_Some)
    then have "drop p line = pat @ ?b" by (auto simp: occurs_at_def prefix_def) (metis add.commute append_eq_conv_conj drop_drop)
    then have l: "line = ?a @ pat @ ?b" by (metis append_take_drop_id)
    have "\<forall>i < length ?a. \<not> occurs_at (?a @ pat @ ?b) pat i" using occ(2) p by (simp flip: l)
    from deletes_first [OF this r(2)] have "deletes pat line r" by (simp flip: l)
    then show ?thesis using delete_loop_step [OF Some 1(2)] r by auto
  qed
qed

lemma find_sub_singleton:
  "find_sub s [c] = (if c \<in> set s then Some (length (takeWhile (\<lambda>d. d \<noteq> c) s)) else None)"
  by (induction s) (auto simp: prefix_def)

lemma deletes_char: "deletes [c] line r \<Longrightarrow> r = filter (\<lambda>d. d \<noteq> c) line"
proof (induction line r rule: deletes.induct)
  case (deletes_none s)
  then have "c \<notin> set s" by (simp add: find_sub_singleton split: if_splits)
  then show ?case by (auto intro!: filter_True [symmetric])
qed simp

text \<open>
  C23. On a string of fewer than 2^31 bytes and with a pattern that is not empty \<open>deleteStr\<close> ends, with
  exactly what is left when the first occurrence of the whole pattern is taken out again and again, so
  that no occurrence is left; \<open>deleteSpace\<close> keeps exactly the bytes that are not blanks.
\<close>

theorem deleteStr_no_pattern:
  assumes "cstr str \<noteq> []" and "length line < 2 ^ 31"
  shows "(\<exists>r. deleteStr line str = Some (Deleted r) \<and> deletes (cstr str) line r \<and> find_sub r (cstr str) = None) \<and>
    deleteSpace line = Some (Deleted (filter (\<lambda>c. c \<noteq> CHR '' '') line))"
proof (cases "line = []")
  case True
  have "find_sub [] (cstr str) = None" using assms(1) by (cases "cstr str") auto
  then show ?thesis using True by (simp add: deleteStr_def deleteSpace_def deletes_none)
next
  case False
  have "'' '' \<noteq> []" by simp
  from delete_loop_ends [OF this assms(2)] obtain r where
    "delete_loop line '' '' = Some (Deleted r)" "deletes '' '' line r" by blast
  then have "deleteSpace line = Some (Deleted (filter (\<lambda>c. c \<noteq> CHR '' '') line))"
    using False deletes_char [of "CHR '' ''" line r] by (cases line) (simp_all add: deleteSpace_def)
  then show ?thesis using delete_loop_ends [OF assms] False by (cases line) (simp_all add: deleteStr_def)
qed

theorem deleteStr_no_pattern_witness:
  "(\<exists>r. deleteStr ''xabyab'' ''ab'' = Some (Deleted r) \<and> deletes (cstr ''ab'') ''xabyab'' r \<and> find_sub r (cstr ''ab'') = None) \<and>
   deleteSpace ''xabyab'' = Some (Deleted (filter (\<lambda>c. c \<noteq> CHR '' '') ''xabyab''))"
  by (rule deleteStr_no_pattern) (simp_all add: cstr_def)

theorem StringSplit_fields_witness:
  "StringSplit ''a##b####c'' ''##'' = Some [''a'', ''b'', ''c'']"
  using StringSplit_fields [of "''##''" "''a##b####c''"]
  by (simp add: cstr_def split_fields.simps)

section \<open>Counting words\<close>

text \<open>A word of GBK text: single bytes other than blanks, and double-byte characters.\<close>

fun gbk_word :: "bytes \<Rightarrow> bool" where
  "gbk_word [] = True"
| "gbk_word (c # cs) =
     (if is_neg c then (case cs of [] \<Rightarrow> False | d # ds \<Rightarrow> gbk_word ds)
      else c \<noteq> CHR '' '' \<and> gbk_word cs)"

lemma is_neg_space: "\<not> is_neg (CHR '' '')"
  by (simp add: is_neg_iff uchar_def)

lemma GetWordNum_inner_word: "gbk_word w \<Longrightarrow> GetWordNum_inner n (w @ rest) = GetWordNum_inner n rest"
proof (induction w rule: gbk_word.induct)
  case (2 c cs)
  then show ?case by (cases cs) (auto split: if_splits)
qed simp

lemma GetWordNum_outer_word:
  "gbk_word w \<Longrightarrow> w \<noteq> [] \<Longrightarrow> GetWordNum_outer n (w @ rest) = GetWordNum_inner n rest"
  using GetWordNum_inner_word [of w n rest]
  by (cases w) (auto simp: is_neg_space split: if_splits)

lemma GetWordNum_outer_join:
  "ws \<noteq> [] \<Longrightarrow> (\<forall>w \<in> set ws. gbk_word w \<and> w \<noteq> []) \<Longrightarrow>
   GetWordNum_outer n (join '' '' ws) = n + int (length ws)"
proof (induction "'' ''" ws arbitrary: n rule: join.induct)
  case 1
  then show ?case by simp
next
  case (2 x)
  then show ?case using GetWordNum_outer_word [of x n "[]"] by simp
next
  case (3 x y zs)
  then show ?case
    using GetWordNum_outer_word [of x n "'' '' @ join '' '' (y # zs)"] by (simp add: is_neg_space)
qed

text \<open>
  On GBK text whose words are separated by single blanks, \<open>GetWordNum\<close> returns the number of
  words, the double-byte characters never being taken for a separator.
\<close>

theorem GetWordNum_counts_words:
  assumes "ws \<noteq> []" and "\<forall>w \<in> set ws. gbk_word w \<and> w \<noteq> []" and "nul_free (join '' '' ws)"
  shows "GetWordNum (join '' '' ws) = int (length ws)"
  using GetWordNum_outer_join [OF assms(1,2)] by (simp add: GetWordNum_def cstr_nul_free [OF assms(3)])

theorem GetWordNum_counts_words_witness:
  "GetWordNum (join '' '' [''ab'', [CHR 0xB0, CHR 0x20], ''c'']) = 3"
  using GetWordNum_counts_words [of "[''ab'', [CHR 0xB0, CHR 0x20], ''c'']"]
  by (simp add: is_neg_iff uchar_def nul_free_def)

section \<open>Substrings and suffixes\<close>

lemma sub_prefixes_map:
  "sub_prefixes sub ws = map (\<lambda>k. sub @ concat (take (Suc k) ws)) [0..<length ws]"
proof (induction ws arbitrary: sub)
  case Nil
  then show ?case by simp
next
  case (Cons w ws)
  have "[0..<Suc (length ws)] = 0 # map Suc [0..<length ws]"
    by (metis map_Suc_upt upt_conv_Cons zero_less_Suc)
  with Cons show ?case by (simp del: upt_Suc add: o_def)
qed

lemma foldl_append_concat: "foldl (@) a xs = a @ concat xs"
  by (induction xs arbitrary: a) auto

lemma in_sub_prefixes:
  "x \<in> set (sub_prefixes [] ws) \<longleftrightarrow> (\<exists>k. 1 \<le> k \<and> k \<le> length ws \<and> x = concat (take k ws))"
proof
  assume "x \<in> set (sub_prefixes [] ws)"
  then obtain k where "k < length ws" "x = concat (take (Suc k) ws)" by (auto simp: sub_prefixes_map)
  then show "\<exists>k. 1 \<le> k \<and> k \<le> length ws \<and> x = concat (take k ws)" by (intro exI [of _ "Suc k"]) simp
next
  assume "\<exists>k. 1 \<le> k \<and> k \<le> length ws \<and> x = concat (take k ws)"
  then obtain k where k: "1 \<le> k" "k \<le> length ws" "x = concat (take k ws)" by blast
  then have "k - 1 < length ws" "x = concat (take (Suc (k - 1)) ws)" by simp_all
  then show "x \<in> set (sub_prefixes [] ws)" by (auto simp: sub_prefixes_map simp del: take_Suc)
qed

lemma in_all_substr:
  "x \<in> set (all_substr segment all_sub) \<longleftrightarrow> x \<in> set all_sub \<or>
     (\<exists>i k. 1 \<le> k \<and> k \<le> 5 \<and> i + k \<le> length segment \<and> x = concat (take k (drop i segment)))"
proof -
  let ?n = "length segment" and ?K = "\<lambda>i. if length segment \<le> i + 5 then length segment else i + 5"
  have step: "x \<in> set (sub_prefixes [] (take (?K i - i) (drop i segment))) \<longleftrightarrow>
      (\<exists>k. 1 \<le> k \<and> k \<le> 5 \<and> i + k \<le> ?n \<and> x = concat (take k (drop i segment)))" if "i < ?n" for i
  proof -
    have len: "length (take (?K i - i) (drop i segment)) = ?K i - i" using that by simp
    have "k \<le> ?K i - i \<longleftrightarrow> k \<le> 5 \<and> i + k \<le> ?n" for k using that by auto
    moreover have "take k (take (?K i - i) (drop i segment)) = take k (drop i segment)"
      if "k \<le> ?K i - i" for k using that by (simp add: min_def)
    ultimately show ?thesis unfolding in_sub_prefixes len by metis
  qed
  have "x \<in> set (all_substr segment all_sub) \<longleftrightarrow> x \<in> set all_sub \<or>
      (\<exists>i < ?n. x \<in> set (sub_prefixes [] (take (?K i - i) (drop i segment))))"
    unfolding all_substr_def Let_def by auto
  also have "\<dots> \<longleftrightarrow> x \<in> set all_sub \<or>
      (\<exists>i < ?n. \<exists>k. 1 \<le> k \<and> k \<le> 5 \<and> i + k \<le> ?n \<and> x = concat (take k (drop i segment)))"
    using step by blast
  moreover have "i < ?n" if "1 \<le> k" "i + k \<le> ?n" for i k :: nat using that by simp
  ultimately show ?thesis by blast
qed

lemma all_suffix_map:
  "all_suffix segment = map (\<lambda>i. concat (drop i segment)) [length segment - 10..<length segment]"
proof -
  have "segment ! i @ concat (drop (i + 1) segment) = concat (drop i segment)" if "i < length segment" for i
    using Cons_nth_drop_Suc [OF that] by (metis Suc_eq_plus1 concat.simps(2))
  then show ?thesis
    unfolding all_suffix_def Let_def by (auto simp: foldl_append_concat)
qed

text \<open>
  \<open>all_substr\<close> appends, for every start, the concatenations of one to five consecutive segments, and
  \<open>all_suffix\<close> lists the suffixes that start at one of the last ten segments.
\<close>

theorem all_substr_all_suffix:
  "set (all_substr segment all_sub) = set all_sub \<union>
     {concat (take k (drop i segment)) | i k. 1 \<le> k \<and> k \<le> 5 \<and> i + k \<le> length segment} \<and>
   all_suffix segment = map (\<lambda>i. concat (drop i segment)) [length segment - 10..<length segment]"
  using in_all_substr all_suffix_map by blast

end
