(* ===== verification/DocIndex.thy ===== *)
theory DocIndex
  imports CommonIndex GaryString
begin

text \<open>
  The document index of the dialogue search, \<open>src/index/inv_index/doc_index.cpp\<close> and \<open>.h\<close>, with the
  query normaliser \<open>normalize.cpp\<close> and the segmenter front end \<open>src/segment/Segment.cpp\<close>: building
  the inverted index from a text file, loading it, and answering a query by the documents of its
  rarest term.

  The segmentation library (\<open>analysis::TGraph\<close> with the GBK/UTF-16 conversions around it) and the
  half-to-full-width converter (\<open>EncodingConvertor::dbc2gchar\<close>) are not part of the repository; they
  are the two functions of the record \<open>seg_lib\<close>, arbitrary in every statement.
\<close>

section \<open>Node types\<close>

record DLG_DOC_TYPE =
  doc_word_offset :: "64 word"
  doc_weight :: cfloat

record DLG_INV_TYPE =
  occ :: "32 word"
  occ_len :: "32 word"
  occ_filed :: "32 word"
  doc_id :: "32 word"

record DLG_KEY_TYPE =
  key_begin :: "32 word"
  key_end :: "32 word"
  key_word_offset :: "64 word"

definition dlg_key_ops :: "DLG_KEY_TYPE node_ops" where
  "dlg_key_ops = \<lparr>
     noff = (\<lambda>k. nat (sint (key_word_offset k))),
     nset_off = (\<lambda>j k. k\<lparr>key_word_offset := word_of_nat j\<rparr>),
     nassign = (\<lambda>d s. d\<lparr>key_begin := key_begin s, key_end := key_end s\<rparr>),
     ndefault = \<lparr>key_begin = 0, key_end = 0, key_word_offset = 0\<rparr>,
     nsize = 16,
     nenc = (\<lambda>k. w32_enc (key_begin k) @ w32_enc (key_end k) @ w64_enc (key_word_offset k)),
     ndec = (\<lambda>b. \<lparr>key_begin = w32_dec b, key_end = w32_dec (drop 4 b), key_word_offset = w64_dec (drop 8 b)\<rparr>)\<rparr>"

text \<open>The document node has four bytes of padding after \<open>weight\<close>, never read back; they are zero here.\<close>

definition dlg_types :: "(DLG_DOC_TYPE, DLG_INV_TYPE, DLG_KEY_TYPE) index_types" where
  "dlg_types = \<lparr>
     KN = dlg_key_ops,
     kbegin = (\<lambda>k. sint (key_begin k)), kend = (\<lambda>k. sint (key_end k)),
     kset_range = (\<lambda>b e k. k\<lparr>key_begin := word_of_int b, key_end := word_of_int e\<rparr>),
     doff = (\<lambda>d. nat (sint (doc_word_offset d))),
     dset_off = (\<lambda>j d. d\<lparr>doc_word_offset := word_of_nat j\<rparr>),
     dweight = doc_weight, dsize = 16,
     denc = (\<lambda>d. w64_enc (doc_word_offset d) @ w32_enc (doc_weight d) @ replicate 4 NUL),
     ddec = (\<lambda>b. \<lparr>doc_word_offset = w64_dec b, doc_weight = w32_dec (drop 8 b)\<rparr>),
     iid = (\<lambda>i. nat (sint (doc_id i))),
     iset_id = (\<lambda>j i. i\<lparr>doc_id := word_of_nat j\<rparr>),
     iassign = (\<lambda>d s. d\<lparr>occ := occ s, occ_len := occ_len s, occ_filed := occ_filed s, doc_id := doc_id s\<rparr>),
     isize = 16,
     ienc = (\<lambda>i. w32_enc (occ i) @ w32_enc (occ_len i) @ w32_enc (occ_filed i) @ w32_enc (doc_id i)),
     idec = (\<lambda>b. \<lparr>occ = w32_dec b, occ_len = w32_dec (drop 4 b), occ_filed = w32_dec (drop 8 b),
                  doc_id = w32_dec (drop 12 b)\<rparr>)\<rparr>"

type_synonym dlg_common_index = "(DLG_DOC_TYPE, DLG_INV_TYPE, DLG_KEY_TYPE) common_index"

section \<open>Segmentation and normalisation\<close>

record seg_lib =
  graphSegment :: "bytes \<Rightarrow> nat \<Rightarrow> bytes list"
  dbc2gchar :: "bytes \<Rightarrow> nat \<Rightarrow> bytes"

text \<open>\<open>SEGMENT_1::Segment_\<close>: \<open>strcpy\<close> into \<open>char buf[20480]\<close> needs room for the final NUL.\<close>

definition Segment_1 :: "seg_lib \<Rightarrow> bytes \<Rightarrow> fault + bytes list" where
  "Segment_1 L query =
     (if length query < 2 then Inr []
      else if length query > 20480 then Inr []
      else if length (cstr query) \<ge> 20480 then Inl OutOfBounds
      else Inr (graphSegment L (cstr query) 20480))"

text \<open>\<open>CDlgIndex::GraphSegment\<close>, which also drops stop words.\<close>

definition GraphSegment :: "seg_lib \<Rightarrow> bytes set \<Rightarrow> bytes \<Rightarrow> fault + bytes list" where
  "GraphSegment L stopword query =
     (if length query < 2 then Inr []
      else if length (cstr query) \<ge> 4096 then Inl OutOfBounds
      else Inr (filter (\<lambda>word. word \<notin> stopword) (graphSegment L (cstr query) 100)))"

text \<open>\<open>Normal::loadSyn\<close>: \<open>hash_syn[word].push_back(syn)\<close> for every line with four fields.\<close>

fun loadSyn :: "bytes list \<Rightarrow> (bytes \<Rightarrow> bytes list) \<Rightarrow> fault + (bytes \<Rightarrow> bytes list)" where
  "loadSyn [] hash_syn = Inr hash_syn"
| "loadSyn (line # lines) hash_syn =
     (case StringSplit line [CHR 0x09] of None \<Rightarrow> Inl Diverges
      | Some vec \<Rightarrow>
          if length vec < 4 then loadSyn lines hash_syn
          else loadSyn lines (hash_syn(vec ! 0 := hash_syn (vec ! 0) @ [vec ! 3])))"

text \<open>\<open>Normal::Normalize_\<close>: the query, and the query with every term replaced by its first synonym.\<close>

definition syn_of :: "(bytes \<Rightarrow> bytes list) \<Rightarrow> bytes \<Rightarrow> bytes" where
  "syn_of hash_syn w = (case hash_syn w of [] \<Rightarrow> w | s # _ \<Rightarrow> s)"

definition Normalize :: "seg_lib \<Rightarrow> (bytes \<Rightarrow> bytes list) \<Rightarrow> bytes \<Rightarrow> fault + (bytes \<times> bytes)" where
  "Normalize L hash_syn line =
     (let key = StringTrim (cstr line);
          dest = cstr (dbc2gchar L key 2048)
      in case Segment_1 L dest of Inl e \<Rightarrow> Inl e
         | Inr seg_parts \<Rightarrow> Inr (concat seg_parts, concat (map (syn_of hash_syn) seg_parts)))"

section \<open>Building and loading\<close>

text \<open>One line of \<open>MakeIndex\<close>.\<close>

definition make_inv :: "bytes \<Rightarrow> DLG_INV_TYPE" where
  "make_inv part = \<lparr>occ = 0, occ_len = word_of_nat (length part), occ_filed = 0, doc_id = 0\<rparr>"

definition make_line :: "seg_lib \<Rightarrow> bytes \<Rightarrow> dlg_common_index \<Rightarrow> fault + dlg_common_index" where
  "make_line L line ci =
     (let line_str = StringTrim (cstr line) in
      case StringSplit line_str ''##_##'' of None \<Rightarrow> Inl Diverges
      | Some parts \<Rightarrow>
        let destString = (if length parts > 1 then parts ! 0 else line_str) in
        if length destString < 2 then Inr ci
        else case Segment_1 L destString of Inl e \<Rightarrow> Inl e
        | Inr seg_parts \<Rightarrow>
          if length seg_parts > 0
          then Add_each dlg_types seg_parts (map make_inv seg_parts)
                 \<lparr>doc_word_offset = 0, doc_weight = 0\<rparr> (concat seg_parts) ci
          else Inr ci)"

fun make_lines :: "seg_lib \<Rightarrow> bytes list \<Rightarrow> dlg_common_index \<Rightarrow> fault + dlg_common_index" where
  "make_lines L [] ci = Inr ci"
| "make_lines L (line # lines) ci =
     (case make_line L line ci of Inl e \<Rightarrow> Inl e | Inr ci' \<Rightarrow> make_lines L lines ci')"

text \<open>Files that cannot be opened are \<open>None\<close>.\<close>

definition MakeIndex :: "(nat \<Rightarrow> char) \<Rightarrow> seg_lib \<Rightarrow> bytes option \<Rightarrow> ofile option \<Rightarrow> dlg_common_index
    \<Rightarrow> fault + (dlg_common_index \<times> ofile option \<times> int)" where
  "MakeIndex fresh L file_in file_out ci = (case file_in of
       None \<Rightarrow> Inr (ci, file_out, -1)
     | Some f \<Rightarrow>
       (case make_lines L (fgets_lines 4096 f) ci of Inl e \<Rightarrow> Inl e
        | Inr ci1 \<Rightarrow>
          (case file_out of None \<Rightarrow> Inr (ci1, None, -1)
           | Some g \<Rightarrow>
             (case Save fresh dlg_types g False ci1 of Inl e \<Rightarrow> Inl e
              | Inr (ci2, g', r) \<Rightarrow> Inr (ci2, Some g', if r < 0 then -1 else 0)))))"

definition LoadIndex :: "(nat \<Rightarrow> char) \<Rightarrow> bytes option \<Rightarrow> dlg_common_index \<Rightarrow> fault + (dlg_common_index \<times> int)" where
  "LoadIndex fresh file_index ci = (case file_index of
       None \<Rightarrow> Inr (ci, -1)
     | Some f \<Rightarrow>
       (case Load fresh dlg_types f ci of Inl e \<Rightarrow> Inl e
        | Inr (ci', _, r) \<Rightarrow> Inr (ci', if r < 0 then -1 else 0)))"

text \<open>\<open>LoadStopword\<close> and \<open>LoadBlackword\<close> insert the full-width form, \<open>LoadPostfixWord\<close> the first field.\<close>

definition load_words :: "seg_lib \<Rightarrow> bytes option \<Rightarrow> bytes set \<Rightarrow> bytes set \<times> int" where
  "load_words L file ws = (case file of
       None \<Rightarrow> (ws, -1)
     | Some f \<Rightarrow>
         (ws \<union> set (map (\<lambda>line. cstr (dbc2gchar L (StringTrim (cstr line)) 512)) (fgets_lines 1024 f)), 0))"

definition LoadStopword :: "seg_lib \<Rightarrow> bytes option \<Rightarrow> bytes set \<Rightarrow> bytes set \<times> int" where
  "LoadStopword = load_words"

definition LoadBlackword :: "seg_lib \<Rightarrow> bytes option \<Rightarrow> bytes set \<Rightarrow> bytes set \<times> int" where
  "LoadBlackword = load_words"

fun postfix_lines :: "bytes list \<Rightarrow> bytes set \<Rightarrow> fault + bytes set" where
  "postfix_lines [] ws = Inr ws"
| "postfix_lines (line # lines) ws =
     (case StringSplit (StringTrim (cstr line)) [CHR 0x09] of None \<Rightarrow> Inl Diverges
      | Some [] \<Rightarrow> Inl OutOfBounds
      | Some (p # _) \<Rightarrow> postfix_lines lines (insert p ws))"

definition LoadPostfixWord :: "bytes option \<Rightarrow> bytes set \<Rightarrow> fault + (bytes set \<times> int)" where
  "LoadPostfixWord file ws = (case file of
       None \<Rightarrow> Inr (ws, -1)
     | Some f \<Rightarrow> (case postfix_lines (fgets_lines 1024 f) ws of Inl e \<Rightarrow> Inl e | Inr ws' \<Rightarrow> Inr (ws', 0)))"

section \<open>Answering a query\<close>

text \<open>
  \<open>InvResult\<close>: the nodes the pointer refers to and their number; a missing term has no node and
  \<open>inv_num\<close> 0 from the constructor.
\<close>

record InvResult =
  inv_nodes :: "DLG_INV_TYPE list"
  inv_num :: int

record InvNumInfo =
  min_inv_size :: int
  max_inv_size :: int
  min_index :: nat
  max_index :: nat

definition new_num_info :: InvNumInfo where
  "new_num_info = \<lparr>min_inv_size = 2147483647, max_inv_size = 0, min_index = 0, max_index = 0\<rparr>"

definition get_inv_result :: "dlg_common_index \<Rightarrow> bytes \<Rightarrow> fault + InvResult" where
  "get_inv_result ci part = (case GetInv dlg_types part ci of
       Inl e \<Rightarrow> Inl e
     | Inr None \<Rightarrow> Inr \<lparr>inv_nodes = [], inv_num = 0\<rparr>
     | Inr (Some (b, n)) \<Rightarrow> Inr \<lparr>inv_nodes = read_inv ci (b, n), inv_num = n\<rparr>)"

definition note_size :: "nat \<Rightarrow> InvResult \<Rightarrow> InvNumInfo \<Rightarrow> InvNumInfo" where
  "note_size i result num_info =
     (let n1 = (if inv_num result > max_inv_size num_info
                then num_info\<lparr>max_inv_size := inv_num result, max_index := i\<rparr> else num_info)
      in if inv_num result < min_inv_size n1
         then n1\<lparr>min_inv_size := inv_num result, min_index := i\<rparr> else n1)"

fun GetInvResults :: "dlg_common_index \<Rightarrow> bytes list \<Rightarrow> InvNumInfo \<Rightarrow> InvResult list
    \<Rightarrow> fault + (InvNumInfo \<times> InvResult list)" where
  "GetInvResults ci [] num_info inv_results = Inr (num_info, inv_results)"
| "GetInvResults ci (part # parts) num_info inv_results =
     (case get_inv_result ci part of Inl e \<Rightarrow> Inl e
      | Inr result \<Rightarrow>
          GetInvResults ci parts (note_size (length inv_results) result num_info) (inv_results @ [result]))"

text \<open>\<open>BinarySearch\<close> in the nodes \<open>nds\<close>, from \<open>offset\<close>, by signed \<open>doc_id\<close>.\<close>

function bs_loop :: "int \<Rightarrow> DLG_INV_TYPE list \<Rightarrow> int \<Rightarrow> int \<Rightarrow> int" where
  "bs_loop did nds left right =
     (if left \<le> right then
        let mid = left + (right - left) div 2 in
        if sint (doc_id (nds ! nat mid)) = did then mid
        else if sint (doc_id (nds ! nat mid)) < did then bs_loop did nds (mid + 1) right
        else bs_loop did nds left (mid - 1)
      else -1)"
  by pat_completeness auto
termination
proof (relation "measure (\<lambda>(did, nds, left, right). nat (right - left + 1))", goal_cases)
  case (2 did nds left right x)
  then have "0 \<le> (right - left) div 2" by (simp add: pos_imp_zdiv_nonneg_iff)
  with 2 show ?case by auto
next
  case (3 did nds left right x)
  then have "(right - left) div 2 \<le> right - left" by (simp add: div_le_dividend int_div_less_self)
  with 3 show ?case by auto
qed simp

declare bs_loop.simps [simp del]

definition BinarySearch :: "int \<Rightarrow> DLG_INV_TYPE list \<Rightarrow> int \<Rightarrow> int \<Rightarrow> int" where
  "BinarySearch did nds offset max_pos = bs_loop did nds offset (max_pos - 1)"

text \<open>
  \<open>SearchDoc\<close> updates the search positions and the matching nodes; its \<open>return -1\<close> is commented
  out in the source, so the result is 0 in every case.
\<close>

fun search_doc_loop :: "int \<Rightarrow> InvResult list \<Rightarrow> nat \<Rightarrow> nat \<Rightarrow> int list \<Rightarrow> DLG_INV_TYPE option list
    \<Rightarrow> int list \<times> DLG_INV_TYPE option list" where
  "search_doc_loop did [] i mi begins vec = (begins, vec)"
| "search_doc_loop did (r # rs) i mi begins vec =
     (if i = mi then search_doc_loop did rs (Suc i) mi begins vec
      else let doc_index = BinarySearch did (inv_nodes r) (begins ! i) (inv_num r) in
           if doc_index \<ge> 0
           then search_doc_loop did rs (Suc i) mi (begins[i := doc_index + 1])
                  (vec[i := Some (inv_nodes r ! nat doc_index)])
           else search_doc_loop did rs (Suc i) mi begins vec)"

definition SearchDoc :: "int \<Rightarrow> InvResult list \<Rightarrow> nat \<Rightarrow> int list \<Rightarrow> DLG_INV_TYPE option list
    \<Rightarrow> int \<times> int list \<times> DLG_INV_TYPE option list" where
  "SearchDoc did inv_results mi index_begins inv_vector =
     (let (b, v) = search_doc_loop did inv_results 0 mi index_begins inv_vector in (0, b, v))"

fun union_loop :: "dlg_common_index \<Rightarrow> InvResult list \<Rightarrow> nat \<Rightarrow> DLG_INV_TYPE list \<Rightarrow> int list
    \<Rightarrow> DLG_DOC_TYPE list \<Rightarrow> DLG_INV_TYPE option list list
    \<Rightarrow> fault + (DLG_DOC_TYPE list \<times> DLG_INV_TYPE option list list)" where
  "union_loop ci rs mi [] begins docs dv = Inr (docs, dv)"
| "union_loop ci rs mi (nd # nds) begins docs dv =
     (let (ret, begins', vec) = SearchDoc (sint (doc_id nd)) rs mi begins (replicate (length rs) None) in
      if ret \<ge> 0 then
        (case GetDoc dlg_types nd ci of Inl e \<Rightarrow> Inl e
         | Inr d \<Rightarrow> union_loop ci rs mi nds begins' (docs @ [d]) (dv @ [vec[mi := Some nd]]))
      else union_loop ci rs mi nds begins' docs dv)"

definition UnionInvResult :: "dlg_common_index \<Rightarrow> InvResult list \<Rightarrow> InvNumInfo \<Rightarrow> DLG_DOC_TYPE list
    \<Rightarrow> fault + DLG_DOC_TYPE list" where
  "UnionInvResult ci inv_results num_info docs =
     (if length inv_results \<le> min_index num_info then Inl OutOfBounds
      else let r = inv_results ! min_index num_info in
        case union_loop ci inv_results (min_index num_info) (take (nat (inv_num r)) (inv_nodes r))
               (replicate (length inv_results) 0) docs [] of
          Inl e \<Rightarrow> Inl e | Inr (docs', _) \<Rightarrow> Inr docs')"

text \<open>The two \<open>GetUnionResults\<close>: the document nodes and terms of a query, then their texts.\<close>

definition GetUnionResults :: "seg_lib \<Rightarrow> bytes set \<Rightarrow> dlg_common_index \<Rightarrow> bytes
    \<Rightarrow> fault + (DLG_DOC_TYPE list \<times> bytes list)" where
  "GetUnionResults L stopword ci query = (case GraphSegment L stopword query of
       Inl e \<Rightarrow> Inl e
     | Inr parts \<Rightarrow>
       if length parts < 1 then Inr ([], parts)
       else case GetInvResults ci parts new_num_info [] of Inl e \<Rightarrow> Inl e
       | Inr (num_info, inv_results) \<Rightarrow>
         (case UnionInvResult ci inv_results num_info [] of Inl e \<Rightarrow> Inl e
          | Inr docs \<Rightarrow> Inr (docs, parts)))"

definition abs_int :: "int \<Rightarrow> int \<Rightarrow> int" where
  "abs_int a b = (if a - b > 0 then a - b else b - a)"

text \<open>The candidate of the closest length, which the loop keeps in \<open>dest_\<close> and \<open>length\<close>.\<close>

fun collect_texts :: "dlg_common_index \<Rightarrow> int \<Rightarrow> DLG_DOC_TYPE list \<Rightarrow> bytes list \<Rightarrow> bytes \<times> int
    \<Rightarrow> fault + (bytes list \<times> bytes \<times> int)" where
  "collect_texts ci qlen [] docs_text best = Inr (docs_text, best)"
| "collect_texts ci qlen (d # ds) docs_text (dest, len) =
     (case GetDocText dlg_types d ci of Inl e \<Rightarrow> Inl e
      | Inr cadidate \<Rightarrow>
        let sim = abs_int qlen (int (length cadidate))
        in collect_texts ci qlen ds (docs_text @ [cadidate])
             (if sim < len then (cadidate, sim) else (dest, len)))"

definition GetUnionTexts :: "seg_lib \<Rightarrow> bytes set \<Rightarrow> dlg_common_index \<Rightarrow> bytes
    \<Rightarrow> fault + (bytes list \<times> bytes list)" where
  "GetUnionTexts L stopword ci query = (case GetUnionResults L stopword ci query of
       Inl e \<Rightarrow> Inl e
     | Inr (docs, seg_parts) \<Rightarrow>
       (case collect_texts ci (int (length query)) docs [] ([], 10000) of Inl e \<Rightarrow> Inl e
        | Inr (docs_text, _) \<Rightarrow> Inr (docs_text, seg_parts)))"

record DlgResult =
  res_query :: bytes
  res_data :: "bytes list"

record dlg_state =
  m_doc_index :: dlg_common_index
  m_stopword :: "bytes set"
  m_postfix_word :: "bytes set"
  m_black :: "bytes set"
  hash_syn :: "bytes \<Rightarrow> bytes list"

definition GetDlgResult :: "seg_lib \<Rightarrow> dlg_state \<Rightarrow> bytes \<Rightarrow> DlgResult \<Rightarrow> fault + (int \<times> DlgResult)" where
  "GetDlgResult L st query doc_result =
     (if length query \<le> 1 \<or> length query > 100 then Inr (-1, doc_result)
      else if \<exists>w \<in> m_black st. find_sub query w \<noteq> None then Inr (-1, doc_result)
      else case Normalize L (hash_syn st) query of Inl e \<Rightarrow> Inl e
      | Inr (seg_norm, query_norm) \<Rightarrow>
        (case GetUnionTexts L (m_stopword st) (m_doc_index st) seg_norm of Inl e \<Rightarrow> Inl e
         | Inr (docs, seg_parts) \<Rightarrow>
           if length docs < 1 then Inr (-1, doc_result)
           else Inr (0, doc_result\<lparr>res_data := docs, res_query := seg_norm\<rparr>)))"

text \<open>
  \<open>GetDlgResultLongQuery\<close>: \<open>pos\<close> is a \<open>size_t\<close>, and \<open>npos + query.size()\<close> wraps around.
\<close>

definition find_pos64 :: "bytes \<Rightarrow> bytes \<Rightarrow> nat" where
  "find_pos64 s pat = (case find_sub s pat of None \<Rightarrow> 2 ^ 64 - 1 | Some i \<Rightarrow> i)"

fun long_query_loop :: "bytes \<Rightarrow> bytes list \<Rightarrow> DlgResult \<Rightarrow> bool \<Rightarrow> fault + (DlgResult \<times> bool)" where
  "long_query_loop query [] res has = Inr (res, has)"
| "long_query_loop query (doc_text # docs) res has =
     (case StringSplit doc_text [CHR 0x09] of None \<Rightarrow> Inl Diverges
      | Some doc_parts \<Rightarrow>
        if length doc_parts \<noteq> 2 then long_query_loop query docs res has
        else let pos = find_pos64 (doc_parts ! 0) query in
          if pos = 0 then long_query_loop query docs res has
          else if (pos + length query) mod 2 ^ 64 = length (doc_parts ! 0) \<and>
                  find_sub (doc_parts ! 1) (take pos (doc_parts ! 0)) \<noteq> None
          then long_query_loop query docs
                 (res\<lparr>res_query := query, res_data := res_data res @ [doc_parts ! 1]\<rparr>) True
          else long_query_loop query docs res has)"

definition GetDlgResultLongQuery :: "bytes \<Rightarrow> bytes list \<Rightarrow> DlgResult \<Rightarrow> fault + (DlgResult \<times> int)" where
  "GetDlgResultLongQuery query docs doc_result =
     (if 0 < length docs \<and> length docs < 10 then
        (case long_query_loop query docs doc_result False of Inl e \<Rightarrow> Inl e
         | Inr (res, has) \<Rightarrow> Inr (res, if has then 0 else -1))
      else Inr (doc_result, -1))"

text \<open>\<open>std::map<string,int>\<close> counters, in key order.\<close>

fun bump :: "bytes \<Rightarrow> (bytes \<times> int) list \<Rightarrow> (bytes \<times> int) list" where
  "bump k [] = [(k, 1)]"
| "bump k ((k', c) # m) =
     (if k < k' then (k, 1) # (k', c) # m
      else if k = k' then (k', c + 1) # m else (k', c) # bump k m)"

fun postfix_loop :: "bytes \<Rightarrow> bool \<Rightarrow> bytes list \<Rightarrow> (bytes \<times> int) list \<Rightarrow> fault + (bytes \<times> int) list" where
  "postfix_loop query flag [] dist = Inr dist"
| "postfix_loop query flag (doc_text # docs) dist =
     (case StringSplit doc_text [CHR 0x09] of None \<Rightarrow> Inl Diverges
      | Some doc_parts \<Rightarrow>
        if length doc_parts \<noteq> 2 then postfix_loop query flag docs dist
        else if doc_parts ! 0 = query \<and> flag then postfix_loop query flag docs (bump (doc_parts ! 1) dist)
        else postfix_loop query flag docs dist)"

definition GetDlgResultPostfix :: "bytes set \<Rightarrow> bytes \<Rightarrow> bytes list \<Rightarrow> bytes list \<Rightarrow> DlgResult
    \<Rightarrow> fault + (DlgResult \<times> int)" where
  "GetDlgResultPostfix postfix query docs seg_parts doc_result =
     (if seg_parts = [] then Inl OutOfBounds
      else let n = length seg_parts; lst = seg_parts ! (n - 1) in
        if lst \<notin> postfix \<and> n < 2 then Inl OutOfBounds
        else let flag = (lst \<in> postfix \<or> seg_parts ! (n - 2) @ lst \<in> postfix) in
          case postfix_loop query flag docs [] of Inl e \<Rightarrow> Inl e
          | Inr dist \<Rightarrow>
            if 0 < length dist \<and> length dist < 5
            then Inr (doc_result\<lparr>res_query := query, res_data := res_data doc_result @ map fst dist\<rparr>, 0)
            else Inr (doc_result, -1))"

section \<open>The types fulfil the contract of the index\<close>

interpretation dlg_key: node_type dlg_key_ops
  by unfold_locales (simp_all add: dlg_key_ops_def codec_simps)

interpretation dlg_index: index_contract dlg_types
  by unfold_locales (simp_all add: dlg_types_def dlg_key_ops_def codec_simps)

section \<open>What building an index from a file stores\<close>

text \<open>
  The terms of a line, the documents of a file (lines without terms are skipped), and the posting
  list of a key over them.
\<close>

definition line_terms :: "seg_lib \<Rightarrow> bytes \<Rightarrow> bytes list" where
  "line_terms L line =
     (let line_str = StringTrim (cstr line);
          parts = filter (\<lambda>f. f \<noteq> []) (split_fields line_str ''##_##'');
          dest = (if length parts > 1 then parts ! 0 else line_str)
      in if length dest < 2 then [] else graphSegment L (cstr dest) 20480)"

definition file_docs :: "seg_lib \<Rightarrow> bytes list \<Rightarrow> bytes list list" where
  "file_docs L lines = filter (\<lambda>ts. ts \<noteq> []) (map (line_terms L) lines)"

definition doc_postings :: "nat \<Rightarrow> bytes list \<Rightarrow> bytes \<Rightarrow> DLG_INV_TYPE list" where
  "doc_postings i ts key =
     map (\<lambda>t. (make_inv t)\<lparr>doc_id := word_of_nat i\<rparr>) (filter (\<lambda>t. cstr t = cstr key) ts)"

fun key_postings :: "nat \<Rightarrow> bytes list list \<Rightarrow> bytes \<Rightarrow> DLG_INV_TYPE list" where
  "key_postings i [] key = []"
| "key_postings i (ts # docs) key = doc_postings i ts key @ key_postings (Suc i) docs key"

definition index_size :: "bytes list list \<Rightarrow> nat" where
  "index_size docs = (\<Sum>ts \<leftarrow> docs. \<Sum>t \<leftarrow> ts. Suc (length t))"

lemma length_cstr_le: "length (cstr s) \<le> length s"
  by (simp add: cstr_def length_takeWhile_le)

lemma length_StringTrim: "length (StringTrim s) \<le> length s"
  using strip_by_split [of s trim_blank] by (metis StringTrim_strip le_add1 le_add2 le_trans length_append)

lemma field_length: "sep \<noteq> [] \<Longrightarrow> f \<in> set (split_fields s sep) \<Longrightarrow> length f \<le> length s"
proof (induction s sep rule: split_fields.induct)
  case (1 s sep)
  show ?case
  proof (cases "find_sub s sep")
    case None
    with 1 show ?thesis by (simp add: split_fields_None)
  next
    case (Some i)
    with 1 show ?thesis by (force simp: split_fields_Some)
  qed
qed

text \<open>A line of the file is shorter than the segmenter's buffer.\<close>

lemma make_line_terms:
  assumes "length line < 4096"
  shows "make_line L line ci =
    (if line_terms L line = [] then Inr ci
     else Add_each dlg_types (line_terms L line) (map make_inv (line_terms L line))
            \<lparr>doc_word_offset = 0, doc_weight = 0\<rparr> (concat (line_terms L line)) ci)"
proof -
  let ?str = "StringTrim (cstr line)"
  let ?parts = "filter (\<lambda>f. f \<noteq> []) (split_fields ?str ''##_##'')"
  let ?dest = "if length ?parts > 1 then ?parts ! 0 else ?str"
  have sep: "cstr ''##_##'' = ''##_##''" by (simp add: cstr_def)
  have split: "StringSplit ?str ''##_##'' = Some ?parts"
    using StringSplit_loop_fields [of "''##_##''" 0 ?str "[]"] by (simp add: StringSplit_def sep)
  have "length ?str < 4096"
    using assms length_StringTrim [of "cstr line"] length_cstr_le [of line] by simp
  moreover have "length (?parts ! 0) \<le> length ?str" if "length ?parts > 1"
  proof -
    have "?parts ! 0 \<in> set ?parts" using that by (intro nth_mem) auto
    then show ?thesis by (intro field_length [of "''##_##''"]) auto
  qed
  ultimately have "length ?dest < 4096" by (auto split: if_splits)
  moreover have "length (cstr ?dest) \<le> length ?dest" by (rule length_cstr_le)
  ultimately have seg: "Segment_1 L ?dest = Inr (if length ?dest < 2 then [] else graphSegment L (cstr ?dest) 20480)"
    by (simp add: Segment_1_def)
  show ?thesis
    unfolding make_line_def line_terms_def Let_def split option.case seg by simp
qed

text \<open>An index under construction that stores the documents \<open>docs\<close>.\<close>

definition stores :: "dlg_common_index \<Rightarrow> bytes list list \<Rightarrow> bool" where
  "stores ci docs \<longleftrightarrow> ci_wf dlg_types ci \<and> m_index ci = empty_hv \<and> m_inv_vect ci = [] \<and>
     length (m_doc_vect ci) = length docs \<and> doc_texts dlg_types ci = map (cstr \<circ> concat) docs \<and>
     (\<forall>k. postings ci k = key_postings 0 docs k) \<and> length docs \<le> index_size docs \<and>
     length (m_char_vect ci) \<le> index_size docs \<and> lists_len (m_index_map ci) \<le> index_size docs \<and>
     keys_len (m_index_map ci) \<le> index_size docs"

lemma key_postings_snoc:
  "key_postings i (docs @ [ts]) k = key_postings i docs k @ doc_postings (i + length docs) ts k"
  by (induction i docs k rule: key_postings.induct) auto

lemma index_size_append [simp]: "index_size (xs @ ys) = index_size xs + index_size ys"
  by (simp add: index_size_def)

lemma doc_size_bounds:
  "length ts \<le> index_size [ts]" "(\<Sum>t \<leftarrow> ts. Suc (length (cstr t))) \<le> index_size [ts]"
  "ts \<noteq> [] \<Longrightarrow> Suc (length (cstr (concat ts))) \<le> index_size [ts]"
proof -
  show "length ts \<le> index_size [ts]" unfolding index_size_def by (induction ts) auto
  show "(\<Sum>t \<leftarrow> ts. Suc (length (cstr t))) \<le> index_size [ts]"
    using sum_list_mono [of ts "\<lambda>t. Suc (length (cstr t))" "\<lambda>t. Suc (length t)"] length_cstr_le
    by (simp add: index_size_def)
  assume "ts \<noteq> []"
  then have "Suc (length (concat ts)) \<le> index_size [ts]"
    unfolding index_size_def by (induction ts rule: list_nonempty_induct) auto
  with length_cstr_le [of "concat ts"] show "Suc (length (cstr (concat ts))) \<le> index_size [ts]" by simp
qed

lemma doc_postings_zip:
  "map (iset_id dlg_types i) (map snd (filter (\<lambda>(k', _). cstr k' = cstr k) (zip ts (map make_inv ts)))) =
   doc_postings i ts k"
  by (induction ts) (auto simp: doc_postings_def dlg_types_def)

lemma Add_each_stores:
  assumes st: "stores ci docs" and ts: "ts \<noteq> []" and small: "index_size (docs @ [ts]) < 2 ^ 31"
  shows "\<exists>ci'. Add_each dlg_types ts (map make_inv ts) d (concat ts) ci = Inr ci' \<and> stores ci' (docs @ [ts])"
proof -
  note b = doc_size_bounds(1,2) [of ts] doc_size_bounds(3) [OF ts]
  have pre: "ci_wf dlg_types ci" "length ts = length (map make_inv ts)"
      "length (m_char_vect ci) < 2 ^ 31" "length (m_doc_vect ci) < 2 ^ 31"
    using st small by (auto simp: stores_def)
  have one: "1 \<le> index_size [ts]" using b(3) by simp
  from dlg_index.Add_each_spec [OF pre, of d "concat ts"] obtain ci' where
    c: "Add_each dlg_types ts (map make_inv ts) d (concat ts) ci = Inr ci'" "ci_wf dlg_types ci'"
    "m_index ci' = m_index ci" "m_inv_vect ci' = m_inv_vect ci"
    "length (m_char_vect ci') = length (m_char_vect ci) + Suc (length (cstr (concat ts)))"
    "length (m_doc_vect ci') = Suc (length (m_doc_vect ci))"
    "lists_len (m_index_map ci') = lists_len (m_index_map ci) + length ts"
    "keys_len (m_index_map ci') \<le> keys_len (m_index_map ci) + (\<Sum>k \<leftarrow> ts. Suc (length (cstr k)))"
    "doc_texts dlg_types ci' = doc_texts dlg_types ci @ [cstr (concat ts)]"
    "\<forall>k. postings ci' k = postings ci k @ doc_postings (length (m_doc_vect ci)) ts k"
    unfolding doc_postings_zip by blast
  have "stores ci' (docs @ [ts])"
    using st c(2-10) b one by (auto simp: stores_def key_postings_snoc)
  with c(1) show ?thesis by blast
qed

lemma file_docs_Cons:
  "file_docs L (line # lines) = (if line_terms L line = [] then [] else [line_terms L line]) @ file_docs L lines"
  by (simp add: file_docs_def)

lemma make_lines_stores:
  assumes "stores ci docs" and "\<forall>l \<in> set lines. length l < 4096"
    and "index_size (docs @ file_docs L lines) < 2 ^ 31"
  shows "\<exists>ci'. make_lines L lines ci = Inr ci' \<and> stores ci' (docs @ file_docs L lines)"
  using assms
proof (induction lines arbitrary: ci docs)
  case Nil
  then show ?case by (simp add: file_docs_def)
next
  case (Cons line lines)
  let ?ts = "line_terms L line"
  have ml: "make_line L line ci = (if ?ts = [] then Inr ci
     else Add_each dlg_types ?ts (map make_inv ?ts) \<lparr>doc_word_offset = 0, doc_weight = 0\<rparr> (concat ?ts) ci)"
    using Cons.prems(2) by (intro make_line_terms) simp
  show ?case
  proof (cases "?ts = []")
    case True
    with Cons show ?thesis by (simp add: ml file_docs_Cons)
  next
    case False
    have "index_size (docs @ [?ts]) < 2 ^ 31"
      using Cons.prems(3) False by (simp add: file_docs_Cons index_size_def)
    with Add_each_stores [OF Cons.prems(1) False] False obtain ci' where
      c: "make_line L line ci = Inr ci'" "stores ci' (docs @ [?ts])"
      unfolding ml by auto
    with Cons.IH [OF c(2)] Cons.prems False show ?thesis by (simp add: file_docs_Cons)
  qed
qed

lemma new_index_stores: "stores new_index []"
  by (simp add: stores_def new_index_def ci_wf_def map_ok_def doc_texts_def postings_def index_size_def
      lists_len_def keys_len_def)

lemma fgets_lines_bound: "l \<in> set (fgets_lines n f) \<Longrightarrow> length l < n"
proof (induction n f rule: fgets_lines.induct)
  case (1 n f)
  show ?case
  proof (cases "n < 2 \<or> f = []")
    case True
    with 1 show ?thesis by (simp add: fgets_lines.simps)
  next
    case False
    have "length (fgets_line n f) < n" using False by (auto simp: fgets_line_def Let_def)
    with 1 False show ?thesis by (auto simp: fgets_lines.simps [of n f])
  qed
qed

text \<open>
  A loaded index that answers for \<open>docs\<close>: every key has its posting list, and every document its
  text.
\<close>

definition answers :: "dlg_common_index \<Rightarrow> bytes list list \<Rightarrow> bool" where
  "answers ci docs \<longleftrightarrow>
     (\<forall>key. get_inv_result ci key =
        Inr \<lparr>inv_nodes = key_postings 0 docs key, inv_num = int (length (key_postings 0 docs key))\<rparr>) \<and>
     index_size docs < 2 ^ 31 \<and>
     (\<forall>i < length docs. \<forall>nd. nat (sint (doc_id nd)) = i \<longrightarrow>
        (\<exists>d. GetDoc dlg_types nd ci = Inr d \<and> GetDocText dlg_types d ci = Inr (cstr (concat (docs ! i)))))"

lemma final_map_False: "final_map T False ci = m_index_map ci"
  by (simp add: final_map_def final_list_def)

lemma stores_loaded_answers:
  assumes st: "stores ci docs" and small: "index_size docs < 2 ^ 31"
    and doc: "m_doc_buf ci2 = Some (m_doc_vect ci)" and char: "m_char_buf ci2 = Some (m_char_vect ci)"
    and look: "\<And>key. case map_of (m_index_map ci) (cstr key) of
        None \<Rightarrow> GetInv dlg_types key ci2 = Inr None
      | Some l \<Rightarrow> \<exists>b. GetInv dlg_types key ci2 = Inr (Some (b, int (length l))) \<and> read_inv ci2 (b, int (length l)) = l"
  shows "answers ci2 docs"
proof -
  have "get_inv_result ci2 key =
      Inr \<lparr>inv_nodes = key_postings 0 docs key, inv_num = int (length (key_postings 0 docs key))\<rparr>" for key
  proof -
    have p: "postings ci key = key_postings 0 docs key" using st by (simp add: stores_def)
    show ?thesis
      using look [of key] unfolding p [symmetric] postings_def get_inv_result_def
      by (cases "map_of (m_index_map ci) (cstr key)") auto
  qed
  moreover have "\<exists>d. GetDoc dlg_types nd ci2 = Inr d \<and>
      GetDocText dlg_types d ci2 = Inr (cstr (concat (docs ! nat (sint (doc_id nd)))))"
    if i: "nat (sint (doc_id nd)) < length docs" for nd
  proof -
    let ?i = "nat (sint (doc_id nd))"
    have len: "length (m_doc_vect ci) = length docs" and tx: "doc_texts dlg_types ci = map (cstr \<circ> concat) docs"
      and wf: "ci_wf dlg_types ci" using st by (auto simp: stores_def)
    let ?d = "m_doc_vect ci ! ?i"
    have "iid dlg_types nd = ?i" by (simp add: dlg_types_def)
    then have "GetDoc dlg_types nd ci2 = Inr ?d" using i len by (simp add: GetDoc_def doc)
    moreover have "terminated_at (m_char_vect ci) (doff dlg_types ?d)"
      using wf i len by (auto simp: ci_wf_def)
    moreover have "cstr_at (m_char_vect ci) (doff dlg_types ?d) = cstr (concat (docs ! ?i))"
      using arg_cong [OF tx, of "\<lambda>l. l ! ?i"] i len by (simp add: doc_texts_def)
    ultimately show ?thesis by (simp add: GetDocText_def char)
  qed
  ultimately show ?thesis using small by (auto simp: answers_def)
qed

lemma make_load_answers:
  assumes "index_size (file_docs L (fgets_lines 4096 f)) < 2 ^ 31"
  shows "\<exists>ci1 g ci2.
    MakeIndex fresh L (Some f) (Some \<lparr>fdata = [], froom = None\<rparr>) new_index = Inr (ci1, Some g, 0) \<and>
    LoadIndex fresh' (Some (fdata g)) ci0 = Inr (ci2, 0) \<and>
    answers ci2 (file_docs L (fgets_lines 4096 f))"
proof -
  let ?docs = "file_docs L (fgets_lines 4096 f)"
  have "index_size ([] @ file_docs L (fgets_lines 4096 f)) < 2 ^ 31" using assms by simp
  from make_lines_stores [OF new_index_stores _ this] obtain ci
    where ml: "make_lines L (fgets_lines 4096 f) new_index = Inr ci" and st: "stores ci ?docs"
    using fgets_lines_bound by auto
  have small: "keys_len (m_index_map ci) < 2 ^ 31" "lists_len (m_index_map ci) < 2 ^ 31"
      "length (m_char_vect ci) < 2 ^ 31" "length (m_doc_vect ci) < 2 ^ 31"
    and wf: "ci_wf dlg_types ci" "m_index ci = empty_hv" "m_inv_vect ci = []"
    using st assms by (auto simp: stores_def)
  obtain ci1 g ci2 where S: "Save fresh dlg_types \<lparr>fdata = [], froom = None\<rparr> False ci = Inr (ci1, g, 0)"
    and Ld: "\<And>post. Load fresh' dlg_types (drop (length (fdata \<lparr>fdata = [], froom = None\<rparr>)) (fdata g) @ post) ci0 =
      Inr (ci2, post, 0)"
    and B: "m_doc_buf ci2 = Some (m_doc_vect ci)" "m_char_buf ci2 = Some (m_char_vect ci)"
    and G: "\<And>key. case map_of (final_map dlg_types False ci) (cstr key) of
        None \<Rightarrow> GetInv dlg_types key ci2 = Inr None
      | Some l \<Rightarrow> \<exists>b. GetInv dlg_types key ci2 = Inr (Some (b, int (length l))) \<and> read_inv ci2 (b, int (length l)) = l"
    by (rule dlg_index.Save_Load [OF wf small, of "\<lparr>fdata = [], froom = None\<rparr>" fresh False fresh' ci0]) auto
  have "answers ci2 ?docs"
    using stores_loaded_answers [OF st assms B] G unfolding final_map_False by blast
  with ml S Ld [of "[]"] show ?thesis
    by (simp add: MakeIndex_def LoadIndex_def)
qed

section \<open>Answering a query\<close>

lemma length_key_postings: "length (key_postings i docs k) \<le> index_size docs"
proof (induction i docs k rule: key_postings.induct)
  case (2 i ts docs k)
  have "length (doc_postings i ts k) \<le> length ts" by (simp add: doc_postings_def)
  with 2 doc_size_bounds(1) [of ts] show ?case by (simp add: index_size_def)
qed simp

lemma key_postings_doc:
  "nd \<in> set (key_postings i docs k) \<Longrightarrow> i + length docs < 2 ^ 31 \<Longrightarrow>
   \<exists>j < length docs. sint (doc_id nd) = int (i + j) \<and> cstr k \<in> cstr ` set (docs ! j)"
proof (induction i docs k rule: key_postings.induct)
  case (2 i ts docs k)
  then consider "nd \<in> set (doc_postings i ts k)" | "nd \<in> set (key_postings (Suc i) docs k)" by auto
  then show ?case
  proof cases
    case 1
    then have "sint (doc_id nd) = int i \<and> cstr k \<in> cstr ` set ts"
      using 2(3) by (auto simp: doc_postings_def codec_simps image_iff) (metis+)
    then show ?thesis by (intro exI [of _ 0]) simp
  next
    case 2
    with "2.IH" "2.prems" obtain j where "j < length docs" "sint (doc_id nd) = int (Suc i + j)"
        "cstr k \<in> cstr ` set (docs ! j)" by auto
    then show ?thesis by (intro exI [of _ "Suc j"]) simp
  qed
qed simp

lemma length_docs_size: "[] \<notin> set docs \<Longrightarrow> length docs \<le> index_size docs"
proof (induction docs)
  case (Cons ts docs)
  then show ?case using doc_size_bounds(3) [of ts] by (auto simp: index_size_def)
qed simp

text \<open>The sizes noted while the lists are fetched point at a shortest list.\<close>

definition shortest :: "InvNumInfo \<Rightarrow> InvResult list \<Rightarrow> bool" where
  "shortest ni rs \<longleftrightarrow> (\<forall>r \<in> set rs. min_inv_size ni \<le> inv_num r) \<and>
     (if rs = [] then ni = new_num_info
      else min_index ni < length rs \<and> inv_num (rs ! min_index ni) = min_inv_size ni)"

lemma note_size_shortest:
  assumes "shortest ni rs" and "inv_num r < 2 ^ 31"
  shows "shortest (note_size (length rs) r ni) (rs @ [r])"
proof (cases "rs = []")
  case True
  with assms show ?thesis by (auto simp: shortest_def note_size_def new_num_info_def Let_def)
next
  case False
  with assms show ?thesis
    by (auto simp: shortest_def note_size_def Let_def nth_append dest: order_trans [OF less_imp_le])
qed

lemma GetInvResults_spec:
  assumes "answers ci docs" and "shortest ni rs"
  shows "\<exists>ni'. GetInvResults ci parts ni rs = Inr (ni', rs @ map (\<lambda>k. \<lparr>inv_nodes = key_postings 0 docs k,
      inv_num = int (length (key_postings 0 docs k))\<rparr>) parts) \<and>
    shortest ni' (rs @ map (\<lambda>k. \<lparr>inv_nodes = key_postings 0 docs k,
      inv_num = int (length (key_postings 0 docs k))\<rparr>) parts)"
  using assms(2)
proof (induction parts arbitrary: ni rs)
  case (Cons p parts)
  let ?r = "\<lparr>inv_nodes = key_postings 0 docs p, inv_num = int (length (key_postings 0 docs p))\<rparr>"
  have g: "get_inv_result ci p = Inr ?r" using assms(1) by (simp add: answers_def)
  have "inv_num ?r < 2 ^ 31"
    using assms(1) length_key_postings [of 0 docs p] by (simp add: answers_def)
  from Cons.IH [OF note_size_shortest [OF Cons.prems this]] show ?case by (simp add: g)
qed simp

lemma union_loop_spec:
  assumes "\<And>nd. nd \<in> set nds \<Longrightarrow> GetDoc dlg_types nd ci = Inr (D nd)"
  shows "\<exists>dv'. union_loop ci rs mi nds begins docs dv = Inr (docs @ map D nds, dv')"
  using assms
proof (induction nds arbitrary: begins docs dv)
  case (Cons nd nds)
  obtain b v where sd: "SearchDoc (sint (doc_id nd)) rs mi begins (replicate (length rs) None) = (0, b, v)"
    by (cases "search_doc_loop (sint (doc_id nd)) rs 0 mi begins (replicate (length rs) None)")
      (simp add: SearchDoc_def)
  have "GetDoc dlg_types nd ci = Inr (D nd)" using Cons.prems by simp
  with sd Cons.IH [of b "docs @ [D nd]" "dv @ [v[mi := Some nd]]"] Cons.prems show ?case by simp
qed simp

lemma collect_texts_spec:
  assumes "\<And>d. d \<in> set ds \<Longrightarrow> GetDocText dlg_types d ci = Inr (X d)"
  shows "\<exists>best'. collect_texts ci q ds acc best = Inr (acc @ map X ds, best')"
  using assms
proof (induction ds arbitrary: acc best)
  case (Cons d ds)
  obtain de le where b: "best = (de, le)" by fastforce
  have "GetDocText dlg_types d ci = Inr (X d)" using Cons.prems by simp
  with Cons.IH [of "acc @ [X d]"] Cons.prems show ?case by (simp add: b Let_def)
qed simp

lemma docs_of_answers:
  assumes "answers ci docs"
  shows "\<exists>D. \<forall>nd. nat (sint (doc_id nd)) < length docs \<longrightarrow> GetDoc dlg_types nd ci = Inr (D nd) \<and>
    GetDocText dlg_types (D nd) ci = Inr (cstr (concat (docs ! nat (sint (doc_id nd)))))"
  by (rule choice) (use assms in \<open>auto simp: answers_def\<close>)

lemma GetUnionTexts_answers:
  assumes ans: "answers ci docs" and docs: "length docs < 2 ^ 31"
    and seg: "GraphSegment L stopword query = Inr parts" and ne: "parts \<noteq> []"
  shows "\<exists>t \<in> set parts. (\<forall>u \<in> set parts. length (key_postings 0 docs t) \<le> length (key_postings 0 docs u)) \<and>
    GetUnionTexts L stopword ci query =
      Inr (map (\<lambda>nd. cstr (concat (docs ! nat (sint (doc_id nd))))) (key_postings 0 docs t), parts)"
proof -
  let ?R = "\<lambda>k. \<lparr>inv_nodes = key_postings 0 docs k, inv_num = int (length (key_postings 0 docs k))\<rparr>"
  obtain D where D: "\<forall>nd. nat (sint (doc_id nd)) < length docs \<longrightarrow> GetDoc dlg_types nd ci = Inr (D nd) \<and>
    GetDocText dlg_types (D nd) ci = Inr (cstr (concat (docs ! nat (sint (doc_id nd)))))"
    using docs_of_answers [OF ans] ..
  have "shortest new_num_info []" by (simp add: shortest_def)
  from GetInvResults_spec [OF ans this] obtain ni where
    G: "GetInvResults ci parts new_num_info [] = Inr (ni, map ?R parts)" and sh: "shortest ni (map ?R parts)"
    by auto
  let ?i = "min_index ni"
  have i: "?i < length parts" using sh ne by (auto simp: shortest_def)
  let ?t = "parts ! ?i"
  have short: "length (key_postings 0 docs ?t) \<le> length (key_postings 0 docs u)" if "u \<in> set parts" for u
  proof -
    have "inv_num (?R ?t) = min_inv_size ni" "\<forall>r \<in> set (map ?R parts). min_inv_size ni \<le> inv_num r"
      using sh ne i unfolding shortest_def by (auto simp: nth_map)
    then show ?thesis using that by (auto simp: Ball_def)
  qed
  have ids: "nat (sint (doc_id nd)) < length docs" if nd: "nd \<in> set (key_postings 0 docs ?t)" for nd
    using key_postings_doc [OF nd] docs by auto
  have GD: "GetDoc dlg_types nd ci = Inr (D nd)" if "nd \<in> set (key_postings 0 docs ?t)" for nd
    using D ids [OF that] by simp
  obtain dv where "union_loop ci (map ?R parts) ?i (key_postings 0 docs ?t)
      (replicate (length parts) 0) [] [] = Inr (map D (key_postings 0 docs ?t), dv)"
    using union_loop_spec [of "key_postings 0 docs ?t" ci D "map ?R parts" ?i "replicate (length parts) 0" "[]" "[]",
        OF GD] by auto
  then have U: "GetUnionResults L stopword ci query = Inr (map D (key_postings 0 docs ?t), parts)"
    using ne i by (simp add: GetUnionResults_def seg G UnionInvResult_def Let_def not_less)
  define X where "X d = (case GetDocText dlg_types d ci of Inl e \<Rightarrow> [] | Inr x \<Rightarrow> x)" for d
  have XD: "GetDocText dlg_types (D nd) ci = Inr (X (D nd)) \<and> X (D nd) = cstr (concat (docs ! nat (sint (doc_id nd))))"
    if "nd \<in> set (key_postings 0 docs ?t)" for nd
    using D ids [OF that] by (simp add: X_def)
  then obtain best where "collect_texts ci (int (length query)) (map D (key_postings 0 docs ?t)) [] ([], 10000) =
      Inr (map X (map D (key_postings 0 docs ?t)), best)"
    using collect_texts_spec [of "map D (key_postings 0 docs ?t)" ci X "int (length query)" "[]" "([], 10000)"]
    by auto
  then have "GetUnionTexts L stopword ci query =
      Inr (map (\<lambda>nd. cstr (concat (docs ! nat (sint (doc_id nd))))) (key_postings 0 docs ?t), parts)"
    using XD by (simp add: GetUnionTexts_def U comp_def cong: map_cong)
  with short i show ?thesis by (intro bexI [of _ ?t]) auto
qed

lemma file_docs_length:
  "index_size (file_docs L lines) < 2 ^ 31 \<Longrightarrow> length (file_docs L lines) < 2 ^ 31"
  using length_docs_size [of "file_docs L lines"] by (simp add: file_docs_def)

section \<open>Binary search in a posting list\<close>

lemma bs_loop_correct:
  assumes "sorted (map (\<lambda>nd. sint (doc_id nd)) nds)" and "0 \<le> left" and "right < int (length nds)"
  shows "(left \<le> bs_loop did nds left right \<and> bs_loop did nds left right \<le> right \<and>
      sint (doc_id (nds ! nat (bs_loop did nds left right))) = did) \<or>
    (bs_loop did nds left right = -1 \<and> (\<forall>i. left \<le> i \<and> i \<le> right \<longrightarrow> sint (doc_id (nds ! nat i)) \<noteq> did))"
  using assms
proof (induction did nds left right rule: bs_loop.induct)
  case (1 did nds left right)
  let ?mid = "left + (right - left) div 2"
  let ?id = "\<lambda>i. sint (doc_id (nds ! nat i))"
  have mono: "?id i \<le> ?id j" if "0 \<le> i" "i \<le> j" "j < int (length nds)" for i j
    using sorted_nth_mono [OF "1.prems"(1), of "nat i" "nat j"] that by (auto simp: nat_less_iff)
  show ?case
  proof (cases "left \<le> right")
    case False
    then show ?thesis by (subst (1 2 3 4) bs_loop.simps) auto
  next
    case True
    then have mid: "left \<le> ?mid" "?mid \<le> right" by auto
    consider "?id ?mid = did" | "?id ?mid < did" | "did < ?id ?mid" by linarith
    then show ?thesis
    proof cases
      case 1
      with True have "bs_loop did nds left right = ?mid" by (subst bs_loop.simps) (simp add: Let_def)
      with 1 mid show ?thesis by simp
    next
      case 2
      with True have eq: "bs_loop did nds left right = bs_loop did nds (?mid + 1) right"
        by (subst bs_loop.simps) (simp add: Let_def)
      have low: "?id i \<noteq> did" if "left \<le> i" "i < ?mid + 1" for i
        using mono [of i ?mid] that 2 "1.prems" mid by auto
      have "(?mid + 1 \<le> bs_loop did nds (?mid + 1) right \<and> bs_loop did nds (?mid + 1) right \<le> right \<and>
          ?id (bs_loop did nds (?mid + 1) right) = did) \<or>
        (bs_loop did nds (?mid + 1) right = -1 \<and> (\<forall>i. ?mid + 1 \<le> i \<and> i \<le> right \<longrightarrow> ?id i \<noteq> did))"
        by (rule "1.IH"(1) [OF True refl]) (use 2 "1.prems" mid in auto)
      then show ?thesis unfolding eq
        by (rule disj_forward) (use mid low in \<open>auto simp: not_less [symmetric]\<close>)
    next
      case 3
      with True have eq: "bs_loop did nds left right = bs_loop did nds left (?mid - 1)"
        by (subst bs_loop.simps) (simp add: Let_def)
      have high: "?id i \<noteq> did" if "?mid - 1 < i" "i \<le> right" for i
        using mono [of ?mid i] that 3 "1.prems" mid by auto
      have "(left \<le> bs_loop did nds left (?mid - 1) \<and> bs_loop did nds left (?mid - 1) \<le> ?mid - 1 \<and>
          ?id (bs_loop did nds left (?mid - 1)) = did) \<or>
        (bs_loop did nds left (?mid - 1) = -1 \<and> (\<forall>i. left \<le> i \<and> i \<le> ?mid - 1 \<longrightarrow> ?id i \<noteq> did))"
        by (rule "1.IH"(2) [OF True refl]) (use 3 "1.prems" mid in auto)
      then show ?thesis unfolding eq
        by (rule disj_forward) (use mid high in \<open>auto simp: not_less [symmetric]\<close>)
    qed
  qed
qed

lemma key_postings_sorted:
  "i + length docs < 2 ^ 31 \<Longrightarrow> sorted (map (\<lambda>nd. sint (doc_id nd)) (key_postings i docs k)) \<and>
   (\<forall>nd \<in> set (key_postings i docs k). int i \<le> sint (doc_id nd))"
proof (induction i docs k rule: key_postings.induct)
  case (2 i ts docs k)
  have one: "sint (doc_id nd) = int i" if "nd \<in> set (doc_postings i ts k)" for nd
    using that "2.prems" by (auto simp: doc_postings_def codec_simps)
  then have "sorted (map (\<lambda>nd. sint (doc_id nd)) (doc_postings i ts k))"
    by (simp add: sorted_wrt_map sorted_wrt_iff_nth_less)
  with 2 one show ?case by (fastforce simp: sorted_append)
qed simp

section \<open>Properties\<close>

text \<open>A library that takes the whole text for one term; it is used by the examples below.\<close>

definition whole_lib :: seg_lib where
  "whole_lib = \<lparr>graphSegment = (\<lambda>q n. [q]), dbc2gchar = (\<lambda>s n. s)\<rparr>"

lemma whole_docs: "file_docs whole_lib (fgets_lines 4096 ''ab'') = [[''ab'']]"
  by (simp add: whole_lib_def file_docs_def fgets_lines.simps fgets_line_def line_terms_def Let_def cstr_def
      StringTrim_strip strip_by_def trim_blank_def split_fields.simps)

text \<open>
  C2. Building an index from a text file and loading the result gives an index that answers for
  exactly the documents of the file: \<open>MakeIndex\<close> and \<open>LoadIndex\<close> both return 0, whatever object the
  index is loaded into, every key has the list of its occurrences in document order, and every
  document id leads to the text of its document. The terms of the file may take up to \<open>2 ^ 31\<close>
  bytes.
\<close>

theorem MakeIndex_LoadIndex:
  assumes "index_size (file_docs L (fgets_lines 4096 f)) < 2 ^ 31"
  shows "\<exists>ci1 g ci2.
    MakeIndex fresh L (Some f) (Some \<lparr>fdata = [], froom = None\<rparr>) new_index = Inr (ci1, Some g, 0) \<and>
    LoadIndex fresh' (Some (fdata g)) ci0 = Inr (ci2, 0) \<and>
    answers ci2 (file_docs L (fgets_lines 4096 f))"
  using make_load_answers [OF assms] .

theorem MakeIndex_LoadIndex_witness:
  "index_size (file_docs whole_lib (fgets_lines 4096 ''ab'')) < 2 ^ 31 \<and>
   (\<exists>ci1 g ci2.
     MakeIndex (\<lambda>_. NUL) whole_lib (Some ''ab'') (Some \<lparr>fdata = [], froom = None\<rparr>) new_index = Inr (ci1, Some g, 0) \<and>
     LoadIndex (\<lambda>_. NUL) (Some (fdata g)) new_index = Inr (ci2, 0) \<and> answers ci2 [[''ab'']])"
proof -
  have "index_size (file_docs whole_lib (fgets_lines 4096 ''ab'')) < 2 ^ 31"
    unfolding whole_docs by (simp add: index_size_def)
  from this MakeIndex_LoadIndex [OF this, of "\<lambda>_. NUL" "\<lambda>_. NUL" new_index] show ?thesis
    unfolding whole_docs by blast
qed

text \<open>
  A query to an index that was built from a file and loaded is answered with the documents that
  contain one of its terms, a term with the fewest occurrences, in document order. The comments of
  \<open>doc_index.cpp\<close> (lines 519, 547, 643 to 647 and 710) mean an intersection, but the \<open>return -1\<close> of
  \<open>SearchDoc\<close> for a document without one of the other terms is commented out.
\<close>

lemma query_rarest_term:
  assumes "index_size (file_docs L (fgets_lines 4096 f)) < 2 ^ 31"
    and "GraphSegment L stopword query = Inr parts" and "parts \<noteq> []"
  shows "\<exists>ci1 g ci2 t.
    MakeIndex fresh L (Some f) (Some \<lparr>fdata = [], froom = None\<rparr>) new_index = Inr (ci1, Some g, 0) \<and>
    LoadIndex fresh' (Some (fdata g)) ci0 = Inr (ci2, 0) \<and> t \<in> set parts \<and>
    (\<forall>u \<in> set parts. length (key_postings 0 (file_docs L (fgets_lines 4096 f)) t) \<le>
       length (key_postings 0 (file_docs L (fgets_lines 4096 f)) u)) \<and>
    GetUnionTexts L stopword ci2 query =
      Inr (map (\<lambda>nd. cstr (concat (file_docs L (fgets_lines 4096 f) ! nat (sint (doc_id nd)))))
             (key_postings 0 (file_docs L (fgets_lines 4096 f)) t), parts)"
proof -
  obtain ci1 g ci2 where
    "MakeIndex fresh L (Some f) (Some \<lparr>fdata = [], froom = None\<rparr>) new_index = Inr (ci1, Some g, 0)"
    "LoadIndex fresh' (Some (fdata g)) ci0 = Inr (ci2, 0)"
    "answers ci2 (file_docs L (fgets_lines 4096 f))"
    using make_load_answers [OF assms(1), of fresh fresh' ci0] by blast
  with GetUnionTexts_answers [OF this(3) file_docs_length [OF assms(1)] assms(2,3)] show ?thesis by blast
qed

lemma ex_nat_split: "(\<exists>j::nat. P j) \<longleftrightarrow> P 0 \<or> (\<exists>j. P (Suc j))"
  by (metis not0_implies_Suc)

text \<open>The documents in the list of a key.\<close>

lemma key_postings_ids:
  "i + length docs < 2 ^ 31 \<Longrightarrow>
   (\<lambda>nd. nat (sint (doc_id nd))) ` set (key_postings i docs k) =
   {i + j | j. j < length docs \<and> cstr k \<in> cstr ` set (docs ! j)}"
proof (induction i docs k rule: key_postings.induct)
  case (2 i ts docs k)
  have one: "(\<lambda>nd. nat (sint (doc_id nd))) ` set (doc_postings i ts k) =
      (if cstr k \<in> cstr ` set ts then {i} else {})"
    using 2(2) by (auto simp: doc_postings_def codec_simps image_iff)
  have shift: "{i + j | j. j < length (ts # docs) \<and> cstr k \<in> cstr ` set ((ts # docs) ! j)} =
      (if cstr k \<in> cstr ` set ts then {i} else {}) \<union>
      {Suc i + j | j. j < length docs \<and> cstr k \<in> cstr ` set (docs ! j)}"
  proof (rule set_eqI)
    fix x
    have "(\<exists>j. x = i + j \<and> j < length (ts # docs) \<and> cstr k \<in> cstr ` set ((ts # docs) ! j)) \<longleftrightarrow>
        (x = i \<and> cstr k \<in> cstr ` set ts) \<or>
        (\<exists>j. x = Suc i + j \<and> j < length docs \<and> cstr k \<in> cstr ` set (docs ! j))"
      by (subst ex_nat_split) simp
    then show "x \<in> {i + j | j. j < length (ts # docs) \<and> cstr k \<in> cstr ` set ((ts # docs) ! j)} \<longleftrightarrow>
      x \<in> (if cstr k \<in> cstr ` set ts then {i} else {}) \<union>
        {Suc i + j | j. j < length docs \<and> cstr k \<in> cstr ` set (docs ! j)}" by simp
  qed
  show ?case
    unfolding shift using 2 one by (simp add: image_Un)
qed simp

text \<open>
  C1. Where the documents of a rarest term of the query have all its terms, as for a query of a
  single term, an index that was built from a file and loaded answers a query with the
  intersection: the texts of the documents that contain every term of the query, in document order.
  (For other queries the code differs from its comments, which speak of an intersection: see
  \<open>query_rarest_term\<close> above for what it does.)
\<close>

theorem query_intersection:
  assumes "index_size (file_docs L (fgets_lines 4096 f)) < 2 ^ 31"
    and "GraphSegment L stopword query = Inr parts" and "parts \<noteq> []"
    and "\<forall>t \<in> set parts.
      (\<forall>u \<in> set parts. length (key_postings 0 (file_docs L (fgets_lines 4096 f)) t) \<le>
         length (key_postings 0 (file_docs L (fgets_lines 4096 f)) u)) \<longrightarrow>
      (\<forall>ts \<in> set (file_docs L (fgets_lines 4096 f)). cstr t \<in> cstr ` set ts \<longrightarrow> cstr ` set parts \<subseteq> cstr ` set ts)"
  shows "\<exists>ci1 g ci2 ids.
    MakeIndex fresh L (Some f) (Some \<lparr>fdata = [], froom = None\<rparr>) new_index = Inr (ci1, Some g, 0) \<and>
    LoadIndex fresh' (Some (fdata g)) ci0 = Inr (ci2, 0) \<and>
    GetUnionTexts L stopword ci2 query =
      Inr (map (\<lambda>i. cstr (concat (file_docs L (fgets_lines 4096 f) ! i))) ids, parts) \<and>
    sorted ids \<and>
    set ids = {i. i < length (file_docs L (fgets_lines 4096 f)) \<and>
      cstr ` set parts \<subseteq> cstr ` set (file_docs L (fgets_lines 4096 f) ! i)}"
proof -
  let ?D = "file_docs L (fgets_lines 4096 f)"
  obtain ci1 g ci2 t where
    io: "MakeIndex fresh L (Some f) (Some \<lparr>fdata = [], froom = None\<rparr>) new_index = Inr (ci1, Some g, 0)"
      "LoadIndex fresh' (Some (fdata g)) ci0 = Inr (ci2, 0)" and
    t: "t \<in> set parts" "\<forall>u \<in> set parts. length (key_postings 0 ?D t) \<le> length (key_postings 0 ?D u)" and
    ans: "GetUnionTexts L stopword ci2 query =
      Inr (map (\<lambda>nd. cstr (concat (?D ! nat (sint (doc_id nd))))) (key_postings 0 ?D t), parts)"
    using query_rarest_term [OF assms(1-3), of fresh fresh' ci0] by blast
  let ?ids = "map (\<lambda>nd. nat (sint (doc_id nd))) (key_postings 0 ?D t)"
  have len: "0 + length ?D < 2 ^ 31" using file_docs_length [OF assms(1)] by simp
  have "sorted (map nat (map (\<lambda>nd. sint (doc_id nd)) (key_postings 0 ?D t)))"
    by (rule sorted_map_mono) (use key_postings_sorted [OF len, of t] in \<open>auto intro: mono_onI\<close>)
  then have "sorted ?ids" by (simp add: comp_def)
  moreover have "set ?ids = {i. i < length ?D \<and> cstr ` set parts \<subseteq> cstr ` set (?D ! i)}"
  proof -
    have all: "cstr ` set parts \<subseteq> cstr ` set ts" if "ts \<in> set ?D" "cstr t \<in> cstr ` set ts" for ts
      using assms(4) t that by blast
    have "set ?ids = {j. j < length ?D \<and> cstr t \<in> cstr ` set (?D ! j)}"
      using key_postings_ids [OF len, of t] by simp
    also have "\<dots> = {i. i < length ?D \<and> cstr ` set parts \<subseteq> cstr ` set (?D ! i)}"
      by (rule Collect_cong) (use all t(1) nth_mem [of _ ?D] in blast)
    finally show ?thesis .
  qed
  moreover have "GetUnionTexts L stopword ci2 query = Inr (map (\<lambda>i. cstr (concat (?D ! i))) ?ids, parts)"
    using ans by (simp add: comp_def)
  ultimately show ?thesis using io by blast
qed

text \<open>A library that takes every byte for a term, and a file of two documents over it.\<close>

definition char_lib :: seg_lib where
  "char_lib = \<lparr>graphSegment = (\<lambda>q n. map (\<lambda>c. [c]) q), dbc2gchar = (\<lambda>s n. s)\<rparr>"

lemma char_docs: "file_docs char_lib (fgets_lines 4096 (''ab'' @ CHR 0x0A # ''ac'')) = [[''a'', ''b''], [''a'', ''c'']]"
  by (simp add: char_lib_def file_docs_def fgets_lines.simps fgets_line_def line_terms_def Let_def cstr_def
      StringTrim_strip strip_by_def trim_blank_def split_fields.simps)

lemma char_parts: "GraphSegment char_lib {} ''ba'' = Inr [''b'', ''a'']"
  by (simp add: GraphSegment_def char_lib_def cstr_def)

theorem query_intersection_witness:
  "\<exists>ci1 g ci2 ids.
     MakeIndex (\<lambda>_. NUL) char_lib (Some (''ab'' @ CHR 0x0A # ''ac'')) (Some \<lparr>fdata = [], froom = None\<rparr>) new_index =
       Inr (ci1, Some g, 0) \<and>
     LoadIndex (\<lambda>_. NUL) (Some (fdata g)) new_index = Inr (ci2, 0) \<and>
     GetUnionTexts char_lib {} ci2 ''ba'' =
       Inr (map (\<lambda>i. cstr (concat ([[''a'', ''b''], [''a'', ''c'']] ! i))) ids, [''b'', ''a'']) \<and> set ids = {0}"
proof -
  let ?f = "''ab'' @ CHR 0x0A # ''ac''"
  have sz: "index_size (file_docs char_lib (fgets_lines 4096 ?f)) < 2 ^ 31"
    unfolding char_docs by (simp add: index_size_def)
  have agree: "\<forall>t \<in> set [''b'', ''a''].
      (\<forall>u \<in> set [''b'', ''a'']. length (key_postings 0 (file_docs char_lib (fgets_lines 4096 ?f)) t) \<le>
         length (key_postings 0 (file_docs char_lib (fgets_lines 4096 ?f)) u)) \<longrightarrow>
      (\<forall>ts \<in> set (file_docs char_lib (fgets_lines 4096 ?f)). cstr t \<in> cstr ` set ts \<longrightarrow>
         cstr ` set [''b'', ''a''] \<subseteq> cstr ` set ts)"
    unfolding char_docs by (simp add: doc_postings_def cstr_def)
  have "{i. i < length [[''a'', ''b''], [''a'', ''c'']] \<and>
      cstr ` set [''b'', ''a''] \<subseteq> cstr ` set ([[''a'', ''b''], [''a'', ''c'']] ! i)} = {0}"
    by (auto simp: less_Suc_eq_0_disj cstr_def)
  with query_intersection [OF sz char_parts _ agree, of "\<lambda>_. NUL" "\<lambda>_. NUL" new_index] show ?thesis
    unfolding char_docs by auto
qed

text \<open>
  C12. \<open>BinarySearch\<close> on a posting list in document order, which is how lists are stored, finds
  the document exactly when the list has it between the start offset and the end.
\<close>

theorem BinarySearch_correct:
  assumes "sorted (map (\<lambda>nd. sint (doc_id nd)) nds)" and "0 \<le> offset"
  shows "let p = BinarySearch did nds offset (int (length nds)) in
    (0 \<le> p \<longrightarrow> offset \<le> p \<and> p < int (length nds) \<and> sint (doc_id (nds ! nat p)) = did) \<and>
    (p < 0 \<longrightarrow> (\<forall>nd \<in> set (drop (nat offset) nds). sint (doc_id nd) \<noteq> did))"
proof -
  let ?p = "BinarySearch did nds offset (int (length nds))"
  have d: "(offset \<le> ?p \<and> ?p \<le> int (length nds) - 1 \<and> sint (doc_id (nds ! nat ?p)) = did) \<or>
    (?p = -1 \<and> (\<forall>i. offset \<le> i \<and> i \<le> int (length nds) - 1 \<longrightarrow> sint (doc_id (nds ! nat i)) \<noteq> did))"
    unfolding BinarySearch_def by (rule bs_loop_correct) (use assms in auto)
  have "\<forall>nd \<in> set (drop (nat offset) nds). sint (doc_id nd) \<noteq> did" if "?p < 0"
  proof
    fix nd assume "nd \<in> set (drop (nat offset) nds)"
    then obtain j where "j < length nds - nat offset" "nd = nds ! (nat offset + j)"
      by (metis in_set_conv_nth length_drop nth_drop less_diff_conv add.commute less_or_eq_imp_le
          linorder_not_less nat_le_linear drop_all length_0_conv not_less_zero)
    then show "sint (doc_id nd) \<noteq> did"
      using d that assms(2) by (auto dest!: spec [of _ "offset + int j"] simp: nat_add_distrib)
  qed
  with d show ?thesis using assms(2) by (auto simp: Let_def)
qed

theorem BinarySearch_correct_witness:
  "BinarySearch 7 [(make_inv ''a'')\<lparr>doc_id := 3\<rparr>, (make_inv ''b'')\<lparr>doc_id := 7\<rparr>] 0 2 = 1"
proof -
  let ?l = "[(make_inv ''a'')\<lparr>doc_id := 3\<rparr>, (make_inv ''b'')\<lparr>doc_id := 7\<rparr>]"
  have "sorted (map (\<lambda>nd. sint (doc_id nd)) ?l)" by simp
  note c = BinarySearch_correct [OF this, of 0 7]
  then have "BinarySearch 7 ?l 0 2 = 0 \<or> BinarySearch 7 ?l 0 2 = 1"
    by (auto simp: Let_def)
  with c show ?thesis by (auto simp: Let_def)
qed

text \<open>\<open>Segment_\<close> accepts a text of exactly \<open>MAXLEN_\<close> bytes and writes one byte past its buffer.\<close>

lemma Segment_1_overflow:
  "nul_free query \<Longrightarrow> length query = 20480 \<Longrightarrow> Segment_1 L query = Inl OutOfBounds"
  by (simp add: Segment_1_def cstr_nul_free)

text \<open>
  Documents are not intersected: a document of the rarest term is an answer although it has
  none of the other terms of the query.
\<close>

lemma union_not_intersection:
  assumes "answers ci [[''ab''], [''cd''], [''cd'']]"
    and "GraphSegment L {} q = Inr [''ab'', ''cd'']"
  shows "GetUnionTexts L {} ci q = Inr ([''ab''], [''ab'', ''cd''])"
  using GetUnionTexts_answers [OF assms(1) _ assms(2)] by (simp add: doc_postings_def cstr_def)

text \<open>
  \<open>GetDlgResultLongQuery\<close> does not test \<open>npos\<close>: when the query does not occur in the document
  name and is one byte longer than it, \<open>npos + query.size()\<close> wraps to the length of the name and
  the document is accepted as if the query were its suffix.
\<close>

lemma long_query_npos:
  assumes "StringSplit doc [CHR 0x09] = Some [nm, info]" and "find_sub nm query = None"
    and "length query = Suc (length nm)" and "length nm < 2 ^ 63" and "find_sub info nm \<noteq> None"
  shows "GetDlgResultLongQuery query [doc] res =
    Inr (res\<lparr>res_query := query, res_data := res_data res @ [info]\<rparr>, 0)"
proof -
  have "(2 ^ 64 - 1 + length query) mod 2 ^ 64 = length nm" using assms(3,4) by simp
  moreover have "take (2 ^ 64 - 1) nm = nm" using assms(4) by simp
  ultimately show ?thesis
    using assms(1,2,5) by (simp add: GetDlgResultLongQuery_def find_pos64_def Let_def)
qed

end
