(* ===== verification/EditDist.thy ===== *)
theory EditDist
  imports DocIndex
begin

text \<open>
  The edit distance of \<open>src/Similarity/editDist/EditDist.cpp\<close>: the table of \<open>edit\<close>, the distance of
  two texts after segmentation, and the ranking of candidates. The table computes the number of
  insertions and deletions of segments, that is the two lengths less twice the length of a longest
  common subsequence.
\<close>

section \<open>edit\<close>

definition int_min :: "int \<Rightarrow> int \<Rightarrow> int" where
  "int_min i j = (if i > j then j else i)"

text \<open>The table \<open>ptr\<close>; a cell that is not yet written holds what \<open>new int[]\<close> left there.\<close>

type_synonym table = "nat \<Rightarrow> nat \<Rightarrow> int"

definition set_cell :: "nat \<Rightarrow> nat \<Rightarrow> int \<Rightarrow> table \<Rightarrow> table" where
  "set_cell i j v ptr = ptr(i := (ptr i)(j := v))"

definition edit_cell :: "'a list \<Rightarrow> 'a list \<Rightarrow> nat \<Rightarrow> table \<Rightarrow> nat \<Rightarrow> table" where
  "edit_cell str1 str2 i ptr j =
     (let tmp = int_min (ptr i (j - 1) + 1) (ptr (i - 1) j + 1);
          d = (if str1 ! (i - 1) = str2 ! (j - 1) then 0 else 2)
      in set_cell i j (int_min tmp (ptr (i - 1) (j - 1) + d)) ptr)"

definition edit :: "table \<Rightarrow> 'a list \<Rightarrow> 'a list \<Rightarrow> int" where
  "edit junk str1 str2 =
     (let max1 = length str1; max2 = length str2;
          ptr = foldl (\<lambda>ptr i. set_cell i 0 (int i) ptr) junk [0..<max1 + 1];
          ptr = foldl (\<lambda>ptr j. set_cell 0 j (int j) ptr) ptr [0..<max2 + 1];
          ptr = foldl (\<lambda>ptr i. foldl (edit_cell str1 str2 i) ptr [1..<max2 + 1]) ptr [1..<max1 + 1]
      in ptr max1 max2)"

section \<open>Calculate and EditSort\<close>

text \<open>The result of \<open>Segment_\<close> is not looked at: a text that cannot be segmented has no segments.\<close>

definition Calculate :: "table \<Rightarrow> seg_lib \<Rightarrow> bytes \<Rightarrow> bytes \<Rightarrow> fault + int" where
  "Calculate junk seg str1 str2 =
     (case Segment_1 seg str1 of
        Inl e \<Rightarrow> Inl e
      | Inr vec1 \<Rightarrow>
          if length vec1 < 1 then Inr 0
          else (case Segment_1 seg str2 of
                  Inl e \<Rightarrow> Inl e
                | Inr vec2 \<Rightarrow> if length vec2 < 1 then Inr 0 else Inr (edit junk vec1 vec2)))"

record edit_sort =
  cadidate_sort :: "int \<rightharpoonup> bytes"
  sortED :: "int list"
  uniq_cadidate :: "bytes set"

definition rank_one :: "int \<Rightarrow> bytes \<Rightarrow> edit_sort \<Rightarrow> edit_sort" where
  "rank_one edis c st =
     (case cadidate_sort st edis of
        Some texts \<Rightarrow>
          if c \<notin> uniq_cadidate st
          then st\<lparr>cadidate_sort := (cadidate_sort st)(edis \<mapsto> texts @ c @ ''###''), uniq_cadidate := insert c (uniq_cadidate st)\<rparr>
          else st
      | None \<Rightarrow>
          st\<lparr>cadidate_sort := (cadidate_sort st)(edis \<mapsto> c @ ''###''), sortED := sortED st @ [edis],
             uniq_cadidate := insert c (uniq_cadidate st)\<rparr>)"

fun rank_all :: "table \<Rightarrow> seg_lib \<Rightarrow> bytes \<Rightarrow> bytes list \<Rightarrow> edit_sort \<Rightarrow> fault + edit_sort" where
  "rank_all junk seg str1 [] st = Inr st"
| "rank_all junk seg str1 (c # cs) st =
     (case Calculate junk seg str1 c of
        Inl e \<Rightarrow> Inl e
      | Inr edis \<Rightarrow> rank_all junk seg str1 cs (rank_one edis c st))"

text \<open>\<open>std::sort\<close> with \<open>SortByValue\<close> is sorting by value. The map and the vector come from the caller.\<close>

definition EditSort :: "table \<Rightarrow> seg_lib \<Rightarrow> bytes \<Rightarrow> bytes list \<Rightarrow> (int \<rightharpoonup> bytes) \<Rightarrow> int list \<Rightarrow> fault + (int \<rightharpoonup> bytes) \<times> int list" where
  "EditSort junk seg str1 cadidate cs ed =
     (case rank_all junk seg str1 cadidate \<lparr>cadidate_sort = cs, sortED = ed, uniq_cadidate = {}\<rparr> of
        Inl e \<Rightarrow> Inl e
      | Inr st \<Rightarrow> Inr (cadidate_sort st, sort (sortED st)))"

section \<open>The longest common subsequence\<close>

fun lcs :: "'a list \<Rightarrow> 'a list \<Rightarrow> nat" where
  "lcs [] ys = 0"
| "lcs xs [] = 0"
| "lcs (x # xs) (y # ys) = max (max (lcs (x # xs) ys) (lcs xs (y # ys))) (lcs xs ys + (if x = y then 1 else 0))"

lemma lcs_Nil2 [simp]: "lcs xs [] = 0"
  by (cases xs) auto

lemma lcs_upper: "subseq zs xs \<Longrightarrow> subseq zs ys \<Longrightarrow> length zs \<le> lcs xs ys"
proof (induction xs ys arbitrary: zs rule: lcs.induct)
  case (3 x xs y ys)
  show ?case
  proof (cases zs)
    case (Cons z zs')
    consider "subseq zs xs" | "subseq zs ys" | "z = x" "z = y" "subseq zs' xs" "subseq zs' ys"
      using 3(4,5) Cons by (auto split: if_splits)
    then show ?thesis
    proof cases
      case 1
      then show ?thesis using 3(2) [OF 1 3(5)] by simp
    next
      case 2
      then show ?thesis using 3(1) [OF 3(4) 2] by simp
    next
      case 3
      then show ?thesis using "3.IH"(3) [OF 3(3,4)] Cons by simp
    qed
  qed simp
qed auto

lemma lcs_attained: "\<exists>zs. subseq zs xs \<and> subseq zs ys \<and> length zs = lcs xs ys"
proof (induction xs ys rule: lcs.induct)
  case (3 x xs y ys)
  from 3 obtain a b c where
    a: "subseq a (x # xs)" "subseq a ys" "length a = lcs (x # xs) ys" and
    b: "subseq b xs" "subseq b (y # ys)" "length b = lcs xs (y # ys)" and
    c: "subseq c xs" "subseq c ys" "length c = lcs xs ys" by blast
  let ?d = "if x = y then x # c else c"
  have d: "subseq ?d (x # xs) \<and> subseq ?d (y # ys) \<and> length ?d = lcs xs ys + (if x = y then 1 else 0)" using c by auto
  have a': "subseq a (x # xs) \<and> subseq a (y # ys) \<and> length a = lcs (x # xs) ys" using a by auto
  have b': "subseq b (x # xs) \<and> subseq b (y # ys) \<and> length b = lcs xs (y # ys)" using b by auto
  have m: "lcs (x # xs) (y # ys) = max (max (length a) (length b)) (length ?d)" using a' b' d by simp
  consider "lcs (x # xs) (y # ys) = length ?d" | "lcs (x # xs) (y # ys) = length a" | "lcs (x # xs) (y # ys) = length b"
    by (metis m max_def)
  then show ?case using a' b' d by cases metis+
qed auto

lemma subseq_rev: "subseq xs ys \<Longrightarrow> subseq (rev xs) (rev ys)"
  by (induction rule: list_emb.induct) (auto intro: subseq_rev_drop_many list_emb_append_mono)

section \<open>The table holds the distances of the prefixes\<close>

definition prefix_dist :: "'a list \<Rightarrow> 'a list \<Rightarrow> nat \<Rightarrow> nat \<Rightarrow> int" where
  "prefix_dist s1 s2 i j = int i + int j - 2 * int (lcs (rev (take i s1)) (rev (take j s2)))"

lemma prefix_dist_border [simp]: "prefix_dist s1 s2 i 0 = int i" "prefix_dist s1 s2 0 j = int j"
  by (simp_all add: prefix_dist_def)

lemma prefix_dist_step:
  assumes "i < length s1" and "j < length s2"
  shows "prefix_dist s1 s2 (Suc i) (Suc j) =
    int_min (int_min (prefix_dist s1 s2 (Suc i) j + 1) (prefix_dist s1 s2 i (Suc j) + 1))
      (prefix_dist s1 s2 i j + (if s1 ! i = s2 ! j then 0 else 2))"
proof -
  have "rev (take (Suc i) s1) = s1 ! i # rev (take i s1)" "rev (take (Suc j) s2) = s2 ! j # rev (take j s2)"
    using assms by (simp_all add: take_Suc_conv_app_nth)
  then show ?thesis by (simp add: prefix_dist_def int_min_def max_def)
qed

lemma edit_row:
  assumes "i < length s1" and "k \<le> length s2"
    and "\<forall>j \<le> length s2. ptr i j = prefix_dist s1 s2 i j" and "ptr (Suc i) 0 = int (Suc i)"
  defines "ptr' \<equiv> foldl (edit_cell s1 s2 (Suc i)) ptr [1..<Suc k]"
  shows "(\<forall>j \<le> k. ptr' (Suc i) j = prefix_dist s1 s2 (Suc i) j) \<and> (\<forall>i'. i' \<noteq> Suc i \<longrightarrow> ptr' i' = ptr i')"
  using assms(2) unfolding ptr'_def
proof (induction k)
  case 0
  then show ?case using assms(4) by simp
next
  case (Suc k)
  let ?p = "foldl (edit_cell s1 s2 (Suc i)) ptr [1..<Suc k]"
  have IH: "\<forall>j \<le> k. ?p (Suc i) j = prefix_dist s1 s2 (Suc i) j" "\<forall>i'. i' \<noteq> Suc i \<longrightarrow> ?p i' = ptr i'"
    using Suc.IH Suc.prems by auto
  have "?p (Suc i) k = prefix_dist s1 s2 (Suc i) k" "?p i k = prefix_dist s1 s2 i k" "?p i (Suc k) = prefix_dist s1 s2 i (Suc k)"
    using IH assms(3) Suc.prems by auto
  then have "edit_cell s1 s2 (Suc i) ?p (Suc k) = set_cell (Suc i) (Suc k) (prefix_dist s1 s2 (Suc i) (Suc k)) ?p"
    using prefix_dist_step [of i s1 k s2] assms(1) Suc.prems by (simp add: edit_cell_def Let_def)
  then show ?case using IH by (auto simp: set_cell_def le_Suc_eq)
qed

lemma edit_rows:
  assumes "k \<le> length s1" and "\<forall>j \<le> length s2. ptr 0 j = int j" and "\<forall>i \<le> length s1. ptr i 0 = int i"
  defines "ptr' \<equiv> foldl (\<lambda>ptr i. foldl (edit_cell s1 s2 i) ptr [1..<Suc (length s2)]) ptr [1..<Suc k]"
  shows "(\<forall>i \<le> k. \<forall>j \<le> length s2. ptr' i j = prefix_dist s1 s2 i j) \<and> (\<forall>i > k. ptr' i = ptr i)"
  using assms(1) unfolding ptr'_def
proof (induction k)
  case 0
  then show ?case using assms(2) by simp
next
  case (Suc k)
  let ?row = "\<lambda>ptr i. foldl (edit_cell s1 s2 i) ptr [1..<Suc (length s2)]"
  let ?p = "foldl ?row ptr [1..<Suc k]"
  have IH: "\<forall>i \<le> k. \<forall>j \<le> length s2. ?p i j = prefix_dist s1 s2 i j" "\<forall>i > k. ?p i = ptr i" using Suc by auto
  have "\<forall>j \<le> length s2. ?p k j = prefix_dist s1 s2 k j" "?p (Suc k) 0 = int (Suc k)" using IH assms(3) Suc.prems by auto
  from edit_row [OF _ order_refl this] Suc.prems
  have r: "\<forall>j \<le> length s2. ?row ?p (Suc k) (Suc k) j = prefix_dist s1 s2 (Suc k) j"
    "\<forall>i'. i' \<noteq> Suc k \<longrightarrow> ?row ?p (Suc k) i' = ?p i'" by auto
  have "foldl ?row ptr [1..<Suc (Suc k)] = ?row ?p (Suc k)" by simp
  then show ?case using r IH by (auto simp: le_Suc_eq simp del: upt_Suc)
qed

lemma init_columns: "foldl (\<lambda>ptr i. set_cell i 0 (int i) ptr) junk [0..<n] i j = (if j = 0 \<and> i < n then int i else junk i j)"
  by (induction n) (auto simp: set_cell_def less_Suc_eq)

lemma init_rows: "foldl (\<lambda>ptr j. set_cell 0 j (int j) ptr) junk [0..<n] i j = (if i = 0 \<and> j < n then int j else junk i j)"
  by (induction n) (auto simp: set_cell_def less_Suc_eq)

lemma edit_lcs: "edit junk s1 s2 = int (length s1) + int (length s2) - 2 * int (lcs (rev s1) (rev s2))"
proof -
  let ?p0 = "foldl (\<lambda>ptr i. set_cell i 0 (int i) ptr) junk [0..<length s1 + 1]"
  let ?p = "foldl (\<lambda>ptr j. set_cell 0 j (int j) ptr) ?p0 [0..<length s2 + 1]"
  have "\<forall>j \<le> length s2. ?p 0 j = int j" "\<forall>i \<le> length s1. ?p i 0 = int i"
    by (simp_all add: init_rows init_columns del: upt_Suc)
  from edit_rows [OF order_refl this] show ?thesis
    by (simp add: edit_def prefix_dist_def del: upt_Suc)
qed

section \<open>Ranking\<close>

text \<open>What holds while the candidates are ranked: \<open>seen\<close> are those done so far.\<close>

definition ranked :: "(bytes \<Rightarrow> int) \<Rightarrow> bytes list \<Rightarrow> edit_sort \<Rightarrow> bool" where
  "ranked dist seen st \<longleftrightarrow> distinct (sortED st) \<and> set (sortED st) = dist ` set seen \<and> dom (cadidate_sort st) = dist ` set seen \<and>
     uniq_cadidate st = set seen \<and>
     (\<forall>c \<in> set seen. \<exists>texts. cadidate_sort st (dist c) = Some texts \<and> sublist (c @ ''###'') texts)"

lemma rank_one_ranked:
  assumes "ranked dist seen st"
  shows "ranked dist (seen @ [c]) (rank_one (dist c) c st)"
proof (cases "cadidate_sort st (dist c)")
  case None
  then have "dist c \<notin> dist ` set seen" using assms by (auto simp: ranked_def domIff)
  then show ?thesis using assms None unfolding ranked_def rank_one_def by auto
next
  case (Some texts)
  then have d: "dist c \<in> dist ` set seen" using assms by (auto simp: ranked_def)
  show ?thesis
  proof (cases "c \<in> set seen")
    case True
    then show ?thesis using assms Some unfolding ranked_def rank_one_def by auto
  next
    case False
    have "sublist s texts \<Longrightarrow> sublist s (texts @ t)" for s t :: bytes by (auto simp: sublist_append)
    moreover have "sublist (c @ ''###'') (texts @ c @ ''###'')" by (rule sublist_append_leftI)
    ultimately show ?thesis using assms Some False d unfolding ranked_def rank_one_def by auto
  qed
qed

lemma rank_all_ranked:
  assumes "\<forall>c \<in> set cs. Calculate junk seg str1 c = Inr (dist c)" and "ranked dist seen st"
  shows "\<exists>st'. rank_all junk seg str1 cs st = Inr st' \<and> ranked dist (seen @ cs) st'"
  using assms
proof (induction cs arbitrary: seen st)
  case (Cons c cs)
  then show ?case using Cons.IH [OF _ rank_one_ranked [OF Cons.prems(2), of c]] by simp
qed simp

section \<open>Properties\<close>

text \<open>
  C25. \<open>edit\<close> is the insertion and deletion distance: the two lengths less twice the length of a
  longest common subsequence, whatever the table held before.
\<close>

theorem edit_is_lcs_distance:
  "\<exists>zs. subseq zs s1 \<and> subseq zs s2 \<and> edit junk s1 s2 = int (length s1) + int (length s2) - 2 * int (length zs) \<and>
    (\<nexists>ys. subseq ys s1 \<and> subseq ys s2 \<and> length zs < length ys)"
proof -
  obtain zs where zs: "subseq zs (rev s1)" "subseq zs (rev s2)" "length zs = lcs (rev s1) (rev s2)"
    using lcs_attained by blast
  have "subseq (rev zs) s1" "subseq (rev zs) s2" using subseq_rev [OF zs(1)] subseq_rev [OF zs(2)] by simp_all
  moreover have "length ys \<le> length zs" if "subseq ys s1" "subseq ys s2" for ys
    using lcs_upper [of "rev ys" "rev s1" "rev s2"] subseq_rev [OF that(1)] subseq_rev [OF that(2)] zs(3) by simp
  ultimately show ?thesis using zs(3) by (intro exI [of _ "rev zs"]) (auto simp: edit_lcs leD)
qed

text \<open>
  C26. \<open>EditSort\<close> ranks: when every candidate gets a distance, the result list is the strictly
  increasing list of the distances, and every candidate stands in the text of its distance.
\<close>

theorem EditSort_ranks:
  assumes "\<forall>c \<in> set cs. Calculate junk seg str1 c = Inr (dist c)"
  shows "\<exists>texts ds. EditSort junk seg str1 cs Map.empty [] = Inr (texts, ds) \<and> sorted_wrt (<) ds \<and> set ds = dist ` set cs \<and>
    dom texts = set ds \<and> (\<forall>c \<in> set cs. \<exists>t. texts (dist c) = Some t \<and> sublist (c @ ''###'') t)"
proof -
  have "ranked dist [] \<lparr>cadidate_sort = Map.empty, sortED = [], uniq_cadidate = {}\<rparr>" by (simp add: ranked_def)
  from rank_all_ranked [OF assms this] obtain st where
    st: "rank_all junk seg str1 cs \<lparr>cadidate_sort = Map.empty, sortED = [], uniq_cadidate = {}\<rparr> = Inr st" "ranked dist cs st" by auto
  then show ?thesis by (auto simp: EditSort_def ranked_def strict_sorted_iff)
qed

theorem EditSort_ranks_witness:
  "\<exists>texts ds. EditSort (\<lambda>_ _. 0) \<lparr>graphSegment = (\<lambda>s _. [s]), dbc2gchar = (\<lambda>s _. s)\<rparr> ''ab'' [''cd'', ''ab''] Map.empty [] = Inr (texts, ds) \<and>
    set ds = {0, 2}"
proof -
  let ?seg = "\<lparr>graphSegment = (\<lambda>s _. [s]), dbc2gchar = (\<lambda>s _. s)\<rparr>"
  let ?dist = "\<lambda>c. if c = ''ab'' then 0 else (2::int)"
  have e: "edit (\<lambda>_ _. 0) [x] [y] = (if x = y then 0 else 2)" for x y :: bytes by (simp add: edit_lcs)
  have "\<forall>c \<in> set [''cd'', ''ab'']. Calculate (\<lambda>_ _. 0) ?seg ''ab'' c = Inr (?dist c)"
    by (simp add: Calculate_def Segment_1_def cstr_def e)
  from EditSort_ranks [OF this] show ?thesis by auto
qed

text \<open>A candidate that cannot be segmented gets the distance 0 of an exact match.\<close>

lemma unsegmentable_candidate_wins:
  assumes "Segment_1 seg str1 = Inr (v # vs)" and "Segment_1 seg c = Inr []"
  shows "Calculate junk seg str1 c = Inr 0"
  using assms by (simp add: Calculate_def)

end
