(* ===== verification/AhoCorasick.thy ===== *)
theory AhoCorasick
  imports Prelude
begin

text \<open>
  The pattern automaton of \<open>src/index/ahoCorasick/AhoCorasick.cpp\<close>: a trie of the patterns, failure
  links set breadth first, and the search of a text. Nodes live at addresses (positions in a list,
  the root is 0). The loops that follow failure links, and the loop over the queue, are partial
  functions; they are shown to end on every automaton that \<open>initialize\<close> builds, and the search to
  report exactly the occurrences of the patterns.
\<close>

section \<open>The automaton\<close>

record trieNode =
  fail :: "nat option"
  next_node :: "nat \<rightharpoonup> nat"
  is_end :: bool
  pIndex :: nat

type_synonym trie_nodes = "trieNode list"

definition new_node :: trieNode where
  "new_node = \<lparr>fail = None, next_node = Map.empty, is_end = False, pIndex = 0\<rparr>"

fun insert_path :: "nat \<Rightarrow> bytes \<Rightarrow> trie_nodes \<Rightarrow> trie_nodes \<times> nat" where
  "insert_path p [] ns = (ns, p)"
| "insert_path p (c # cs) ns =
     (case next_node (ns ! p) (uchar c) of
        None \<Rightarrow>
          (let q = length ns
           in insert_path q cs ((ns @ [new_node])[p := (ns ! p)\<lparr>next_node := (next_node (ns ! p))(uchar c \<mapsto> q)\<rparr>]))
      | Some q \<Rightarrow> insert_path q cs ns)"

text \<open>A pattern comes with its length; an empty one is refused with -1.\<close>

definition insert_pattern :: "bytes \<Rightarrow> nat \<Rightarrow> trie_nodes \<Rightarrow> trie_nodes \<times> int" where
  "insert_pattern pattern patternIndex ns =
     (if length pattern \<le> 0 then (ns, -1)
      else (let (ns', p) = insert_path 0 pattern ns
            in (ns'[p := (ns' ! p)\<lparr>is_end := True, pIndex := patternIndex\<rparr>], 0)))"

text \<open>The loop over \<open>failp\<close>: \<open>None\<close> is the NULL that ends it.\<close>

partial_function (option) find_fail :: "trie_nodes \<Rightarrow> nat \<Rightarrow> nat option \<Rightarrow> nat option option" where
  "find_fail ns index failp =
     (case failp of
        None \<Rightarrow> Some None
      | Some f \<Rightarrow>
          (case next_node (ns ! f) index of
             Some g \<Rightarrow> Some (Some g)
           | None \<Rightarrow> find_fail ns index (fail (ns ! f))))"

definition set_fail :: "nat \<Rightarrow> nat option \<Rightarrow> trie_nodes \<Rightarrow> trie_nodes" where
  "set_fail q f ns = ns[q := (ns ! q)\<lparr>fail := f\<rparr>]"

definition fix_child :: "nat \<Rightarrow> nat \<Rightarrow> nat \<Rightarrow> trie_nodes \<Rightarrow> trie_nodes option" where
  "fix_child parent index child ns =
     (if parent = 0 then Some (set_fail child (Some 0) ns)
      else (case find_fail ns index (fail (ns ! parent)) of
              None \<Rightarrow> None
            | Some None \<Rightarrow> Some (set_fail child (Some 0) ns)
            | Some (Some g) \<Rightarrow> Some (set_fail child (Some g) ns)))"

text \<open>The entries of \<open>next\<close> in the order of \<open>std::map\<close>; the keys are bytes.\<close>

definition children :: "trieNode \<Rightarrow> (nat \<times> nat) list" where
  "children n = map (\<lambda>c. (c, the (next_node n c))) (filter (\<lambda>c. next_node n c \<noteq> None) [0..<256])"

fun fix_children :: "nat \<Rightarrow> (nat \<times> nat) list \<Rightarrow> trie_nodes \<Rightarrow> trie_nodes option" where
  "fix_children parent [] ns = Some ns"
| "fix_children parent ((index, child) # cs) ns =
     (case fix_child parent index child ns of None \<Rightarrow> None | Some ns' \<Rightarrow> fix_children parent cs ns')"

partial_function (option) fix_loop :: "nat list \<Rightarrow> trie_nodes \<Rightarrow> trie_nodes option" where
  "fix_loop queue ns =
     (case queue of
        [] \<Rightarrow> Some ns
      | parent # rest \<Rightarrow>
          Option.bind (fix_children parent (children (ns ! parent)) ns)
            (\<lambda>ns'. fix_loop (rest @ map snd (children (ns ! parent))) ns'))"

definition fixAhoCorasick :: "trie_nodes \<Rightarrow> trie_nodes option" where
  "fixAhoCorasick ns = fix_loop [0] ns"

fun insert_all :: "nat \<Rightarrow> bytes list \<Rightarrow> trie_nodes \<Rightarrow> trie_nodes" where
  "insert_all i [] ns = ns"
| "insert_all i (pattern # patterns) ns = insert_all (Suc i) patterns (fst (insert_pattern pattern i ns))"

definition initialize :: "bytes list \<Rightarrow> trie_nodes option" where
  "initialize patterns = fixAhoCorasick (insert_all 0 patterns [new_node])"

section \<open>Searching\<close>

text \<open>
  The first inner loop of \<open>search\<close>. The outer option is the loop that never ends; the inner one the
  NULL that would be dereferenced.
\<close>

partial_function (option) goto :: "trie_nodes \<Rightarrow> nat \<Rightarrow> nat \<Rightarrow> nat option option" where
  "goto ns index p =
     (if next_node (ns ! p) index = None \<and> p \<noteq> 0
      then (case fail (ns ! p) of None \<Rightarrow> Some None | Some f \<Rightarrow> goto ns index f)
      else Some (Some p))"

partial_function (option) outputs ::
    "trie_nodes \<Rightarrow> nat option \<Rightarrow> nat \<Rightarrow> (nat \<times> nat) list \<Rightarrow> (nat \<times> nat) list option" where
  "outputs ns q i res =
     (case q of
        None \<Rightarrow> Some res
      | Some q \<Rightarrow> outputs ns (fail (ns ! q)) i (if is_end (ns ! q) then res @ [(pIndex (ns ! q), i)] else res))"

fun search_loop :: "trie_nodes \<Rightarrow> bytes \<Rightarrow> nat \<Rightarrow> nat \<Rightarrow> (nat \<times> nat) list \<Rightarrow> (nat \<times> nat) list option" where
  "search_loop ns [] i p res = Some res"
| "search_loop ns (c # cs) i p res =
     (case goto ns (uchar c) p of
        Some (Some p1) \<Rightarrow>
          (let p2 = (case next_node (ns ! p1) (uchar c) of None \<Rightarrow> 0 | Some q \<Rightarrow> q)
           in case outputs ns (Some p2) (i + 1) res of
                None \<Rightarrow> None
              | Some res' \<Rightarrow> search_loop ns cs (i + 1) p2 res')
      | _ \<Rightarrow> None)"

definition search :: "trie_nodes \<Rightarrow> bytes \<Rightarrow> (nat \<times> nat) list option" where
  "search ns str = search_loop ns str 0 0 []"

section \<open>Suffixes in a prefix-closed set of words\<close>

fun tails :: "'a list \<Rightarrow> 'a list list" where
  "tails [] = [[]]"
| "tails (a # x) = (a # x) # tails x"

text \<open>The longest suffix that is in the set, and the longest proper one.\<close>

fun longest :: "'a list set \<Rightarrow> 'a list \<Rightarrow> 'a list" where
  "longest W [] = []"
| "longest W (a # x) = (if a # x \<in> W then a # x else longest W x)"

definition lps :: "'a list set \<Rightarrow> 'a list \<Rightarrow> 'a list" where
  "lps W w = longest W (tl w)"

lemma longest_suffix: "suffix (longest W x) x"
  by (induction x) (auto simp: suffix_Cons)

lemma longest_in: "[] \<in> W \<Longrightarrow> longest W x \<in> W"
  by (induction x) auto

lemma longest_max: "suffix u x \<Longrightarrow> u \<in> W \<Longrightarrow> suffix u (longest W x)"
  by (induction x) (auto simp: suffix_Cons)

lemma longest_self: "x \<in> W \<Longrightarrow> longest W x = x"
  by (cases x) auto

lemma longest_eqI:
  assumes "suffix u x" and "u \<in> W" and "\<And>v. suffix v x \<Longrightarrow> v \<in> W \<Longrightarrow> length v \<le> length u"
  shows "longest W x = u"
proof -
  have "suffix u (longest W x)" by (rule longest_max [OF assms(1,2)])
  moreover have "longest W x \<in> W" using assms(1,2) by (induction x) (auto simp: suffix_Cons)
  then have "length (longest W x) \<le> length u" using assms(3) [OF longest_suffix] by blast
  ultimately show ?thesis by (auto simp: suffix_def)
qed

lemma length_lps: "w \<noteq> [] \<Longrightarrow> length (lps W w) < length w"
  using suffix_length_le [OF longest_suffix, of W "tl w"] by (cases w) (auto simp: lps_def)

lemma lps_in: "[] \<in> W \<Longrightarrow> lps W w \<in> W"
  by (simp add: lps_def longest_in)

definition prefix_closed :: "'a list set \<Rightarrow> bool" where
  "prefix_closed W \<longleftrightarrow> [] \<in> W \<and> (\<forall>w c. w @ [c] \<in> W \<longrightarrow> w \<in> W)"

lemma prefix_closedD: "prefix_closed W \<Longrightarrow> w @ [c] \<in> W \<Longrightarrow> w \<in> W"
  by (auto simp: prefix_closed_def)

text \<open>Following the failure links until an edge is found.\<close>

function extend :: "'a list set \<Rightarrow> 'a \<Rightarrow> 'a list \<Rightarrow> 'a list" where
  "extend W c v = (if v @ [c] \<in> W then v @ [c] else if v = [] then [] else extend W c (lps W v))"
  by pat_completeness auto
termination
  by (relation "measure (\<lambda>(_, _, v). length v)") (auto simp: length_lps)

declare extend.simps [simp del]

lemma suffix_snoc: "suffix v (x @ [c]) \<longleftrightarrow> v = [] \<or> (\<exists>u. v = u @ [c] \<and> suffix u x)"
  by (cases v rule: rev_cases) (auto simp: suffix_def)

lemma longest_extend:
  assumes pc: "prefix_closed W" and v: "v \<in> W"
  shows "longest W (v @ [c]) = extend W c v"
  using v
proof (induction "length v" arbitrary: v rule: less_induct)
  case less
  show ?case
  proof (cases "v @ [c] \<in> W")
    case True
    then show ?thesis by (subst extend.simps) (simp add: longest_self)
  next
    case False
    show ?thesis
    proof (cases v)
      case Nil
      then show ?thesis using False by (subst extend.simps) auto
    next
      case (Cons a v')
      let ?l = "longest W (v' @ [c])"
      have "longest W (lps W v @ [c]) = ?l"
      proof (rule longest_eqI)
        have l: "?l \<in> W" using pc longest_in [of W "v' @ [c]"] by (simp add: prefix_closed_def)
        have "suffix ?l (v' @ [c])" by (rule longest_suffix)
        with l show "suffix ?l (lps W v @ [c])"
          using prefix_closedD [OF pc] longest_max [of _ v' W] Cons by (fastforce simp: suffix_snoc lps_def)
        show "?l \<in> W" by (rule l)
        fix u
        assume "suffix u (lps W v @ [c])" and u: "u \<in> W"
        moreover have "suffix (lps W v @ [c]) (v' @ [c])" using longest_suffix [of W v'] Cons by (auto simp: lps_def suffix_def)
        ultimately have "suffix u ?l" using longest_max [of u "v' @ [c]" W] suffix_order.trans by blast
        then show "length u \<le> length ?l" by (rule suffix_length_le)
      qed
      moreover have "longest W (lps W v @ [c]) = extend W c (lps W v)"
        using less Cons length_lps [of v W] lps_in [of W v] pc by (simp add: prefix_closed_def)
      ultimately show ?thesis using False Cons by (subst extend.simps) simp
    qed
  qed
qed

lemma longest_snoc:
  assumes "prefix_closed W"
  shows "longest W (x @ [c]) = extend W c (longest W x)"
proof -
  have "longest W (x @ [c]) = longest W (longest W x @ [c])"
  proof (rule longest_eqI)
    let ?l = "longest W (longest W x @ [c])"
    have "suffix (longest W x @ [c]) (x @ [c])" using longest_suffix [of W x] by (auto simp: suffix_def)
    then show "suffix ?l (x @ [c])" using longest_suffix suffix_order.trans by blast
    show "?l \<in> W" using assms longest_in by (auto simp: prefix_closed_def)
    fix v
    assume v: "suffix v (x @ [c])" "v \<in> W"
    then have "suffix v (longest W x @ [c])"
      using assms longest_max [of _ x W] by (auto simp: suffix_snoc prefix_closed_def)
    then have "suffix v ?l" using longest_max v(2) by blast
    then show "length v \<le> length ?l" by (rule suffix_length_le)
  qed
  also have "\<dots> = extend W c (longest W x)"
    using assms longest_in by (intro longest_extend) (auto simp: prefix_closed_def)
  finally show ?thesis .
qed

section \<open>The trie represents a set of words\<close>

text \<open>\<open>ws ! p\<close> is the word that leads from the root to node \<open>p\<close>.\<close>

definition trie :: "trie_nodes \<Rightarrow> bytes list \<Rightarrow> bool" where
  "trie ns ws \<longleftrightarrow> length ns = length ws \<and> ws \<noteq> [] \<and> ws ! 0 = [] \<and> distinct ws \<and> prefix_closed (set ws) \<and>
     (\<forall>p < length ws. \<forall>k q. next_node (ns ! p) k = Some q \<longrightarrow> q < length ws \<and> k < 256 \<and> ws ! q = ws ! p @ [char_of k]) \<and>
     (\<forall>p < length ws. \<forall>c. ws ! p @ [c] \<in> set ws \<longrightarrow> next_node (ns ! p) (uchar c) \<noteq> None)"

lemma trieD:
  assumes "trie ns ws"
  shows "length ns = length ws" and "0 < length ws" and "ws ! 0 = []" and "distinct ws" and "prefix_closed (set ws)"
    and "p < length ws \<Longrightarrow> next_node (ns ! p) k = Some q \<Longrightarrow> q < length ws \<and> k < 256 \<and> ws ! q = ws ! p @ [char_of k]"
    and "p < length ws \<Longrightarrow> ws ! p @ [c] \<in> set ws \<Longrightarrow> next_node (ns ! p) (uchar c) \<noteq> None"
  using assms unfolding trie_def by auto

lemma trie_eq: "trie ns ws \<Longrightarrow> p < length ws \<Longrightarrow> q < length ws \<Longrightarrow> ws ! p = ws ! q \<Longrightarrow> p = q"
  using trieD(4) nth_eq_iff_index_eq by blast

lemma trie_root: "trie ns ws \<Longrightarrow> p < length ws \<Longrightarrow> ws ! p = [] \<longleftrightarrow> p = 0"
  using trie_eq [of ns ws p 0] trieD(2,3) by auto

lemma trie_next:
  assumes "trie ns ws" and "p < length ws" and "q < length ws"
  shows "next_node (ns ! p) (uchar c) = Some q \<longleftrightarrow> ws ! q = ws ! p @ [c]"
proof
  show "next_node (ns ! p) (uchar c) = Some q \<Longrightarrow> ws ! q = ws ! p @ [c]"
    using trieD(6) [OF assms(1,2), of "uchar c" q] by simp
  assume w: "ws ! q = ws ! p @ [c]"
  then obtain r where r: "next_node (ns ! p) (uchar c) = Some r"
    using trieD(7) [OF assms(1,2), of c] assms(3) by (metis not_None_eq nth_mem)
  then have "r < length ws" "ws ! r = ws ! p @ [c]" using trieD(6) [OF assms(1,2) r] by auto
  then show "next_node (ns ! p) (uchar c) = Some q" using r w trie_eq [OF assms(1) assms(3)] by auto
qed

lemma trie_next_None:
  assumes "trie ns ws" and "p < length ws"
  shows "next_node (ns ! p) (uchar c) = None \<longleftrightarrow> ws ! p @ [c] \<notin> set ws"
  using trieD(6) [OF assms, of "uchar c"] trieD(7) [OF assms, of c] by (cases "next_node (ns ! p) (uchar c)") (auto simp: in_set_conv_nth)

lemma trie_new: "trie [new_node] [[]]"
  by (simp add: trie_def prefix_closed_def new_node_def)

lemma prefix_closed_insert: "prefix_closed W \<Longrightarrow> w \<in> W \<Longrightarrow> prefix_closed (insert (w @ [c]) W)"
  by (auto simp: prefix_closed_def)

text \<open>A new node behind an old one.\<close>

lemma trie_grow:
  assumes t: "trie ns ws" and p: "p < length ws" and n: "next_node (ns ! p) (uchar c) = None"
  defines "ns' \<equiv> (ns @ [new_node])[p := (ns ! p)\<lparr>next_node := (next_node (ns ! p))(uchar c \<mapsto> length ns)\<rparr>]"
  shows "trie ns' (ws @ [ws ! p @ [c]])"
proof -
  note D = trieD [OF t]
  have new: "ws ! p @ [c] \<notin> set ws" using trie_next_None [OF t p] n by simp
  have nth: "next_node (ns' ! r) = (if r = p then (next_node (ns ! p))(uchar c \<mapsto> length ws)
      else if r < length ws then next_node (ns ! r) else Map.empty)" if "r < Suc (length ws)" for r
    using that p D(1) by (auto simp: ns'_def nth_append nth_list_update new_node_def)
  have wnth: "(ws @ [ws ! p @ [c]]) ! r = (if r < length ws then ws ! r else ws ! p @ [c])" if "r < Suc (length ws)" for r
    using that by (auto simp: nth_append)
  show ?thesis unfolding trie_def
  proof (intro conjI allI impI)
    fix r k q
    assume r: "r < length (ws @ [ws ! p @ [c]])" "next_node (ns' ! r) k = Some q"
    have r': "r < Suc (length ws)" using r(1) by simp
    have o: "\<And>q. r < length ws \<Longrightarrow> next_node (ns ! r) k = Some q \<Longrightarrow> q < length ws \<and> k < 256 \<and> ws ! q = ws ! r @ [char_of k]"
      using D(6) by blast
    have "q < length ws \<and> r < length ws \<and> k < 256 \<and> ws ! q = ws ! r @ [char_of k] \<or> q = length ws \<and> r = p \<and> k = uchar c"
      using r(2) nth [OF r'] o p by (auto split: if_splits)
    then show "q < length (ws @ [ws ! p @ [c]])" "k < 256" "(ws @ [ws ! p @ [c]]) ! q = (ws @ [ws ! p @ [c]]) ! r @ [char_of k]"
      using p uchar_less [of c] by (auto simp: nth_append)
  next
    fix r d
    assume r: "r < length (ws @ [ws ! p @ [c]])" "(ws @ [ws ! p @ [c]]) ! r @ [d] \<in> set (ws @ [ws ! p @ [c]])"
    have r': "r < Suc (length ws)" using r(1) by simp
    have "r \<noteq> length ws"
    proof
      assume "r = length ws"
      then have "(ws ! p @ [c]) @ [d] \<in> set ws" using r(2) by (auto simp: nth_append)
      then show False using new D(5) unfolding prefix_closed_def by blast
    qed
    then have rl: "r < length ws" using r' by simp
    then have "ws ! r @ [d] \<in> set ws \<or> ws ! r = ws ! p \<and> d = c" using r(2) by (auto simp: nth_append)
    then show "next_node (ns' ! r) (uchar d) \<noteq> None"
      using nth [OF r'] rl D(7) [OF rl, of d] trie_eq [OF t rl p] by auto
  qed (use D new p prefix_closed_insert [OF D(5), of "ws ! p" c] in \<open>auto simp: ns'_def nth_append\<close>)
qed

section \<open>Building the trie\<close>

text \<open>What an insertion leaves alone in a node.\<close>

definition marks :: "trieNode \<Rightarrow> nat option \<times> bool \<times> nat" where
  "marks n = (fail n, is_end n, pIndex n)"

lemma insert_path_trie:
  assumes "trie ns ws" and "p < length ws" and "insert_path p cs ns = (ns', q)"
  shows "\<exists>vs. trie ns' (ws @ vs) \<and> q < length (ws @ vs) \<and> (ws @ vs) ! q = ws ! p @ cs \<and>
    map marks ns' = map marks ns @ replicate (length vs) (None, False, 0)"
  using assms
proof (induction p cs ns arbitrary: ws rule: insert_path.induct)
  case (1 p ns)
  then show ?case by (intro exI [of _ "[]"]) auto
next
  case (2 p c cs ns)
  note D = trieD [OF 2(3)]
  show ?case
  proof (cases "next_node (ns ! p) (uchar c)")
    case None
    let ?n = "(ns @ [new_node])[p := (ns ! p)\<lparr>next_node := (next_node (ns ! p))(uchar c \<mapsto> length ns)\<rparr>]"
    let ?w = "ws @ [ws ! p @ [c]]"
    have ip: "insert_path (length ns) cs ?n = (ns', q)" using 2(5) None by (simp add: Let_def)
    obtain vs where vs: "trie ns' (?w @ vs)" "q < length (?w @ vs)" "(?w @ vs) ! q = ?w ! length ns @ cs"
        "map marks ns' = map marks ?n @ replicate (length vs) (None, False, 0)"
      using 2(1) [OF None refl trie_grow [OF 2(3,4) None] _ ip] D(1) by auto
    have "map marks ?n = map marks ns @ [(None, False, 0)]"
      using 2(4) D(1) by (intro nth_equalityI) (auto simp: nth_append nth_list_update marks_def new_node_def)
    then show ?thesis using vs D(1) by (intro exI [of _ "(ws ! p @ [c]) # vs"]) (simp add: nth_append)
  next
    case (Some r)
    then have "r < length ws" "ws ! r = ws ! p @ [c]" using D(6) [OF 2(4) Some] by auto
    moreover have "insert_path r cs ns = (ns', q)" using 2(5) Some by simp
    ultimately show ?thesis using 2(2) [OF Some 2(3)] by auto
  qed
qed

text \<open>Of equal patterns the last one gives its index to the node.\<close>

definition last_index :: "bytes list \<Rightarrow> bytes \<Rightarrow> nat" where
  "last_index ps v = last (filter (\<lambda>k. ps ! k = v) [0..<length ps])"

lemma last_index_snoc [simp]: "last_index (ps @ [p]) v = (if v = p then length ps else last_index ps v)"
proof -
  have "filter (\<lambda>k. (ps @ [p]) ! k = v) [0..<length ps] = filter (\<lambda>k. ps ! k = v) [0..<length ps]"
    by (intro filter_cong) (auto simp: nth_append)
  then show ?thesis by (auto simp: last_index_def)
qed

definition pattern_word :: "bytes list \<Rightarrow> bytes \<Rightarrow> bool" where
  "pattern_word ps v \<longleftrightarrow> v \<noteq> [] \<and> v \<in> set ps"

definition dict_marks :: "bytes list \<Rightarrow> bytes \<Rightarrow> nat option \<times> bool \<times> nat" where
  "dict_marks ps v = (None, pattern_word ps v, if pattern_word ps v then last_index ps v else 0)"

definition dict_trie :: "bytes list \<Rightarrow> trie_nodes \<Rightarrow> bytes list \<Rightarrow> bool" where
  "dict_trie ps ns ws \<longleftrightarrow> trie ns ws \<and> map marks ns = map (dict_marks ps) ws \<and> set ps \<subseteq> set ws"

lemma trie_marks:
  assumes "trie ns ws" and "length ns' = length ns" and "\<And>p. p < length ns \<Longrightarrow> next_node (ns' ! p) = next_node (ns ! p)"
  shows "trie ns' ws"
  using assms unfolding trie_def by auto

lemma insert_pattern_dict:
  assumes d: "dict_trie ps ns ws"
  shows "\<exists>ws'. dict_trie (ps @ [p]) (fst (insert_pattern p (length ps) ns)) ws'"
proof (cases "p = []")
  case True
  have "[] \<in> set ws" using d trieD(5) by (auto simp: dict_trie_def prefix_closed_def)
  then show ?thesis using d True
    by (intro exI [of _ ws]) (auto simp: dict_trie_def insert_pattern_def dict_marks_def pattern_word_def)
next
  case False
  note t = d [unfolded dict_trie_def]
  obtain ns' q where ip: "insert_path 0 p ns = (ns', q)" by fastforce
  note D = trieD [OF t [THEN conjunct1]]
  obtain vs where vs: "trie ns' (ws @ vs)" "q < length (ws @ vs)" "(ws @ vs) ! q = p"
      "map marks ns' = map marks ns @ replicate (length vs) (None, False, 0)"
    using insert_path_trie [OF t [THEN conjunct1] D(2) ip] D(3) by auto
  note D' = trieD [OF vs(1)]
  let ?n = "ns'[q := (ns' ! q)\<lparr>is_end := True, pIndex := length ps\<rparr>]"
  have "map (dict_marks ps) vs = replicate (length vs) (None, False, 0)"
    using D'(4) t by (intro replicate_eqI) (auto simp: dict_marks_def pattern_word_def)
  then have m: "map marks ns' = map (dict_marks ps) (ws @ vs)" using vs(4) t by simp
  have "map marks ?n = map (dict_marks (ps @ [p])) (ws @ vs)"
  proof (rule nth_equalityI)
    show "length (map marks ?n) = length (map (dict_marks (ps @ [p])) (ws @ vs))" using D'(1) by simp
    fix i
    assume "i < length (map marks ?n)"
    then have i: "i < length (ws @ vs)" using D'(1) by simp
    have mi: "marks (ns' ! i) = dict_marks ps ((ws @ vs) ! i)"
      using arg_cong [OF m, of "\<lambda>xs. xs ! i"] i D'(1) by (simp del: map_append)
    have "(ws @ vs) ! i = p \<longleftrightarrow> i = q" using trie_eq [OF vs(1) i vs(2)] vs(3) by auto
    moreover have "marks (?n ! i) = (if i = q then (fail (ns' ! i), True, length ps) else marks (ns' ! i))"
      using i D'(1) by (simp add: nth_list_update marks_def)
    ultimately have "marks (?n ! i) = dict_marks (ps @ [p]) ((ws @ vs) ! i)"
      using mi False by (auto simp: dict_marks_def pattern_word_def marks_def)
    then show "map marks ?n ! i = map (dict_marks (ps @ [p])) (ws @ vs) ! i" using i D'(1) by (simp del: map_append)
  qed
  moreover have "trie ?n (ws @ vs)" using vs(2) D'(1) by (intro trie_marks [OF vs(1)]) (auto simp: nth_list_update)
  moreover have "p \<in> set (ws @ vs)" using vs(2,3) nth_mem by metis
  ultimately show ?thesis using False ip t
    by (intro exI [of _ "ws @ vs"]) (auto simp: dict_trie_def insert_pattern_def)
qed

lemma insert_all_snoc:
  "insert_all i (ps @ [p]) ns = fst (insert_pattern p (i + length ps) (insert_all i ps ns))"
  by (induction ps arbitrary: i ns) simp_all

lemma insert_all_dict: "\<exists>ws. dict_trie ps (insert_all 0 ps [new_node]) ws"
proof (induction ps rule: rev_induct)
  case Nil
  show ?case using trie_new
    by (intro exI [of _ "[[]]"]) (simp add: dict_trie_def marks_def new_node_def dict_marks_def pattern_word_def)
next
  case (snoc p ps)
  then show ?case using insert_pattern_dict by (auto simp: insert_all_snoc)
qed

section \<open>The failure links\<close>

definition link_ok :: "trie_nodes \<Rightarrow> bytes list \<Rightarrow> nat \<Rightarrow> bool" where
  "link_ok ns ws p \<longleftrightarrow>
     (if p = 0 then fail (ns ! p) = None
      else \<exists>f < length ws. fail (ns ! p) = Some f \<and> ws ! f = lps (set ws) (ws ! p))"

lemma link_ok_cong: "fail (ns' ! p) = fail (ns ! p) \<Longrightarrow> link_ok ns' ws p \<longleftrightarrow> link_ok ns ws p"
  by (simp only: link_ok_def)

text \<open>What the setting of failure links leaves alone.\<close>

definition core :: "trie_nodes \<Rightarrow> ((nat \<rightharpoonup> nat) \<times> bool \<times> nat) list" where
  "core ns = map (\<lambda>n. (next_node n, is_end n, pIndex n)) ns"

lemma core_nth:
  assumes "core ns' = core ns" and "p < length ns"
  shows "next_node (ns' ! p) = next_node (ns ! p)" "is_end (ns' ! p) = is_end (ns ! p)" "pIndex (ns' ! p) = pIndex (ns ! p)"
  using arg_cong [OF assms(1), of "\<lambda>xs. xs ! p"] arg_cong [OF assms(1), of length] assms(2) by (auto simp: core_def)

lemma core_length: "core ns' = core ns \<Longrightarrow> length ns' = length ns"
  by (drule arg_cong [of _ _ length]) (simp add: core_def)

lemma core_set_fail [simp]: "core (set_fail q f ns) = core ns"
  by (cases "q < length ns") (auto simp: core_def set_fail_def nth_list_update intro!: nth_equalityI)

lemma trie_core: "trie ns ws \<Longrightarrow> core ns' = core ns \<Longrightarrow> trie ns' ws"
  using trie_marks [of ns ws ns'] core_length [of ns' ns] core_nth(1) [of ns' ns] by blast

lemma fail_set_fail: "q < length ns \<Longrightarrow> fail (set_fail q f ns ! p) = (if p = q then f else fail (ns ! p))"
  by (simp add: set_fail_def nth_list_update)

text \<open>The nodes whose words have at most \<open>n\<close> bytes are finished.\<close>

definition linked_upto :: "nat \<Rightarrow> trie_nodes \<Rightarrow> bytes list \<Rightarrow> bool" where
  "linked_upto n ns ws \<longleftrightarrow> (\<forall>p < length ws. length (ws ! p) \<le> n \<longrightarrow> link_ok ns ws p)"

lemma trie_lps_in: "trie ns ws \<Longrightarrow> lps (set ws) w \<in> set ws"
  by (rule lps_in) (use trieD(5) in \<open>auto simp: prefix_closed_def\<close>)

text \<open>\<open>extend\<close> at a node: an edge, the root, or the failure link.\<close>

lemma find_fail_extend:
  assumes "trie ns ws" and "f < length ws" and "linked_upto (length (ws ! f)) ns ws"
  shows "\<exists>r. find_fail ns (uchar c) (Some f) = Some r \<and>
    (case r of None \<Rightarrow> extend (set ws) c (ws ! f) = []
     | Some g \<Rightarrow> g < length ws \<and> ws ! g = extend (set ws) c (ws ! f))"
  using assms(2,3)
proof (induction "length (ws ! f)" arbitrary: f rule: less_induct)
  case less
  note t = assms(1)
  show ?case
  proof (cases "next_node (ns ! f) (uchar c)")
    case (Some g)
    then have "g < length ws" "ws ! g = ws ! f @ [c]" using trieD(6) [OF t less(2) Some] by auto
    then have "extend (set ws) c (ws ! f) = ws ! g" by (subst extend.simps) (metis nth_mem)
    then show ?thesis using Some \<open>g < length ws\<close> by (simp add: find_fail.simps)
  next
    case None
    then have n: "ws ! f @ [c] \<notin> set ws" using trie_next_None [OF t less(2)] by simp
    have ok: "link_ok ns ws f" using less(2,3) by (simp add: linked_upto_def)
    show ?thesis
    proof (cases "f = 0")
      case True
      then show ?thesis using None n ok trieD(3) [OF t] extend.simps [of "set ws" c "ws ! f"]
        by (simp add: find_fail.simps link_ok_def)
    next
      case False
      then obtain h where h: "h < length ws" "fail (ns ! f) = Some h" "ws ! h = lps (set ws) (ws ! f)"
        using ok by (auto simp: link_ok_def)
      have "ws ! f \<noteq> []" using trie_root [OF t less(2)] False by simp
      moreover from this have l: "length (ws ! h) < length (ws ! f)" using h(3) length_lps by metis
      moreover have "linked_upto (length (ws ! h)) ns ws" using less(3) l by (auto simp: linked_upto_def)
      moreover have "extend (set ws) c (ws ! f) = extend (set ws) c (ws ! h)"
        using n \<open>ws ! f \<noteq> []\<close> h(3) by (simp add: extend.simps [of _ c "ws ! f"])
      ultimately show ?thesis using less(1) [OF l h(1)] None h(2)
        by (simp add: find_fail.simps [of _ _ "Some f"] cong: option.case_cong)
    qed
  qed
qed

lemma lps_snoc:
  assumes "prefix_closed W" and "w \<noteq> []"
  shows "lps W (w @ [c]) = extend W c (lps W w)"
  using assms longest_snoc [OF assms(1)] by (simp add: lps_def)

text \<open>One child: its link is set to the longest proper suffix of its word.\<close>

lemma fix_child_link:
  assumes t: "trie ns ws" and p: "p < length ws" and u: "linked_upto (length (ws ! p)) ns ws"
    and q: "next_node (ns ! p) k = Some q"
  shows "\<exists>f < length ws. fix_child p k q ns = Some (set_fail q (Some f) ns) \<and> ws ! f = lps (set ws) (ws ! q)"
proof -
  note D = trieD [OF t]
  have q': "q < length ws" "k < 256" "ws ! q = ws ! p @ [char_of k]" using D(6) [OF p q] by auto
  show ?thesis
  proof (cases "p = 0")
    case True
    then show ?thesis using q' D(2,3) by (intro exI [of _ 0]) (simp add: fix_child_def lps_def)
  next
    case False
    then have ne: "ws ! p \<noteq> []" using trie_root [OF t p] by simp
    obtain f where f: "f < length ws" "fail (ns ! p) = Some f" "ws ! f = lps (set ws) (ws ! p)"
      using u [unfolded linked_upto_def, rule_format, OF p] False by (auto simp: link_ok_def)
    have "linked_upto (length (ws ! f)) ns ws"
      using u length_lps [OF ne, of "set ws"] f(3) by (auto simp: linked_upto_def)
    then obtain r where r: "find_fail ns (uchar (char_of k)) (Some f) = Some r"
        "case r of None \<Rightarrow> extend (set ws) (char_of k) (ws ! f) = []
          | Some g \<Rightarrow> g < length ws \<and> ws ! g = extend (set ws) (char_of k) (ws ! f)"
      using find_fail_extend [OF t f(1)] by blast
    have e: "extend (set ws) (char_of k) (ws ! f) = lps (set ws) (ws ! q)"
      using lps_snoc [OF D(5) ne] f(3) q'(3) by simp
    have k: "uchar (char_of k) = k" using q'(2) by (simp add: uchar_char_of)
    show ?thesis
    proof (cases r)
      case None
      then show ?thesis using r e k f(2) False D(2,3) by (intro exI [of _ 0]) (simp add: fix_child_def)
    next
      case (Some g)
      then show ?thesis using r e k f(2) False by (intro exI [of _ g]) (simp add: fix_child_def)
    qed
  qed
qed

text \<open>All children of a node: their links are set, and no others.\<close>

lemma fix_children_link:
  assumes "trie ns ws" and "p < length ws" and "linked_upto (length (ws ! p)) ns ws"
    and "\<forall>(k, q) \<in> set cs. next_node (ns ! p) k = Some q"
  shows "\<exists>ns'. fix_children p cs ns = Some ns' \<and> core ns' = core ns \<and>
    (\<forall>q \<in> snd ` set cs. link_ok ns' ws q) \<and>
    (\<forall>q < length ws. q \<notin> snd ` set cs \<longrightarrow> fail (ns' ! q) = fail (ns ! q))"
  using assms
proof (induction cs arbitrary: ns)
  case Nil
  then show ?case by simp
next
  case (Cons kq cs)
  obtain k q where kq: "kq = (k, q)" by (cases kq)
  note t = Cons(2) note D = trieD [OF t]
  have n: "next_node (ns ! p) k = Some q" using Cons(5) kq by simp
  have q: "q < length ws" "ws ! q = ws ! p @ [char_of k]" using D(6) [OF Cons(3) n] by auto
  obtain f where f: "f < length ws" "fix_child p k q ns = Some (set_fail q (Some f) ns)" "ws ! f = lps (set ws) (ws ! q)"
    using fix_child_link [OF t Cons(3,4) n] by blast
  let ?n = "set_fail q (Some f) ns"
  have fl: "\<And>r. fail (?n ! r) = (if r = q then Some f else fail (ns ! r))" using fail_set_fail q(1) D(1) by simp
  have nx: "next_node (?n ! p) = next_node (ns ! p)" using core_nth(1) [of ?n ns p] Cons(3) D(1) by simp
  have "q \<noteq> 0" using trie_root [OF t q(1)] q(2) by auto
  have ok: "link_ok ?n ws q" using \<open>q \<noteq> 0\<close> f fl by (auto simp: link_ok_def)
  have keep: "link_ok ?n ws r \<longleftrightarrow> link_ok ns ws r" if "r \<noteq> q" for r using fl that by (simp add: link_ok_def)
  have up: "linked_upto (length (ws ! p)) ?n ws" unfolding linked_upto_def
  proof (intro allI impI)
    fix r
    assume r: "r < length ws" "length (ws ! r) \<le> length (ws ! p)"
    then have "r \<noteq> q" using q(2) by auto
    then show "link_ok ?n ws r" using keep r Cons(4) by (simp add: linked_upto_def)
  qed
  obtain ns' where ns': "fix_children p cs ?n = Some ns'" "core ns' = core ?n"
      "\<forall>r \<in> snd ` set cs. link_ok ns' ws r" "\<forall>r < length ws. r \<notin> snd ` set cs \<longrightarrow> fail (ns' ! r) = fail (?n ! r)"
    using Cons(1) [OF trie_core [OF t] Cons(3) up] Cons(5) nx by fastforce
  have "link_ok ns' ws q" if "q \<notin> snd ` set cs"
    using ns'(4) q(1) that ok link_ok_cong by blast
  then have "\<forall>r \<in> snd ` set (kq # cs). link_ok ns' ws r" using ns'(3) kq by auto
  moreover have "\<forall>r < length ws. r \<notin> snd ` set (kq # cs) \<longrightarrow> fail (ns' ! r) = fail (ns ! r)"
    using ns'(4) fl kq by auto
  ultimately show ?case using ns'(1,2) f(2) kq by auto
qed

lemma children_sound: "(k, q) \<in> set (children n) \<Longrightarrow> next_node n k = Some q"
  by (auto simp: children_def)

lemma children_complete:
  assumes "trie ns ws" and "p < length ws" and "q < length ws" and "ws ! q = ws ! p @ [c]"
  shows "q \<in> snd ` set (children (ns ! p))"
  using trie_next [OF assms(1-3), of c] assms(4) uchar_less [of c] by (force simp: children_def)

lemma child_word:
  assumes "trie ns ws" and "p < length ws" and "q \<in> set (map snd (children (ns ! p)))"
  shows "q < length ws \<and> length (ws ! q) = Suc (length (ws ! p))"
proof -
  obtain k where "(k, q) \<in> set (children (ns ! p))" using assms(3) by auto
  then show ?thesis using trieD(6) [OF assms(1,2) children_sound] by fastforce
qed

lemma length_children: "length (children n) \<le> 256"
  using length_filter_le [of "\<lambda>c. next_node n c \<noteq> None" "[0..<256]"] by (simp add: children_def)

section \<open>The breadth first loop\<close>

definition bfs_inv :: "nat list \<Rightarrow> trie_nodes \<Rightarrow> bytes list \<Rightarrow> bool" where
  "bfs_inv queue ns ws \<longleftrightarrow> trie ns ws \<and> set queue \<subseteq> {..<length ws} \<and>
     (\<forall>p < length ws. link_ok ns ws p \<or> (\<exists>q \<in> set queue. strict_prefix (ws ! q) (ws ! p))) \<and>
     sorted (map (\<lambda>q. length (ws ! q)) queue) \<and>
     (\<forall>q \<in> set queue. length (ws ! q) \<le> Suc (length (ws ! hd queue)))"

lemma bfs_invD:
  assumes "bfs_inv queue ns ws"
  shows "trie ns ws" and "set queue \<subseteq> {..<length ws}"
    and "p < length ws \<Longrightarrow> link_ok ns ws p \<or> (\<exists>q \<in> set queue. strict_prefix (ws ! q) (ws ! p))"
    and "sorted (map (\<lambda>q. length (ws ! q)) queue)"
    and "q \<in> set queue \<Longrightarrow> length (ws ! q) \<le> Suc (length (ws ! hd queue))"
  using assms unfolding bfs_inv_def by auto

lemma bfs_linked_upto:
  assumes "bfs_inv (p # rest) ns ws"
  shows "linked_upto (length (ws ! p)) ns ws"
  unfolding linked_upto_def
proof (intro allI impI)
  fix r
  assume r: "r < length ws" "length (ws ! r) \<le> length (ws ! p)"
  have "\<not> strict_prefix (ws ! q) (ws ! r)" if "q \<in> set (p # rest)" for q
    using bfs_invD(4) [OF assms] that r(2) prefix_length_less [of "ws ! q" "ws ! r"] by fastforce
  then show "link_ok ns ws r" using bfs_invD(3) [OF assms r(1)] by blast
qed

lemma prefix_closed_prefix: "prefix_closed W \<Longrightarrow> u @ v \<in> W \<Longrightarrow> u \<in> W"
  by (induction v rule: rev_induct) (auto simp: prefix_closed_def simp flip: append_assoc)

lemma bfs_step:
  assumes inv: "bfs_inv (p # rest) ns ws"
  shows "\<exists>ns'. fix_children p (children (ns ! p)) ns = Some ns' \<and> core ns' = core ns \<and>
    bfs_inv (rest @ map snd (children (ns ! p))) ns' ws"
proof -
  note I = bfs_invD [OF inv]
  note D = trieD [OF I(1)]
  have p: "p < length ws" using I(2) by simp
  let ?cs = "map snd (children (ns ! p))"
  obtain ns' where ns': "fix_children p (children (ns ! p)) ns = Some ns'" "core ns' = core ns"
      "\<forall>q \<in> set ?cs. link_ok ns' ws q" "\<forall>q < length ws. q \<notin> set ?cs \<longrightarrow> fail (ns' ! q) = fail (ns ! q)"
    using fix_children_link [OF I(1) p bfs_linked_upto [OF inv], of "children (ns ! p)"] children_sound by fastforce
  note cw = child_word [OF I(1) p]
  have "link_ok ns' ws r \<or> (\<exists>q \<in> set (rest @ ?cs). strict_prefix (ws ! q) (ws ! r))" if r: "r < length ws" for r
  proof (cases "r \<in> set ?cs")
    case False
    then have same: "link_ok ns' ws r \<longleftrightarrow> link_ok ns ws r" using ns'(4) r by (intro link_ok_cong) simp
    have "\<exists>q \<in> set ?cs. strict_prefix (ws ! q) (ws ! r)" if below: "strict_prefix (ws ! p) (ws ! r)"
    proof -
      obtain c u where u: "ws ! r = ws ! p @ c # u" using below by (auto elim: strict_prefixE')
      have "(ws ! p @ [c]) @ u \<in> set ws" using u nth_mem [OF r] by simp
      then have "ws ! p @ [c] \<in> set ws" using prefix_closed_prefix D(5) by blast
      then obtain q where q: "q < length ws" "ws ! q = ws ! p @ [c]" by (auto simp: in_set_conv_nth)
      then have "q \<in> set ?cs" using children_complete [OF I(1) p] by auto
      moreover have "u \<noteq> []" using False u q \<open>q \<in> set ?cs\<close> trie_eq [OF I(1) r q(1)] by auto
      ultimately show ?thesis using u q(2) by (intro bexI [of _ q]) (auto simp: strict_prefix_def)
    qed
    then show ?thesis using I(3) [OF r] same by auto
  qed (use ns'(3) in blast)
  moreover have "sorted (map (\<lambda>q. length (ws ! q)) (rest @ ?cs))"
  proof -
    have c: "map (\<lambda>q. length (ws ! q)) ?cs = replicate (length ?cs) (Suc (length (ws ! p)))"
      using cw by (intro replicate_eqI) auto
    have "sorted (map (\<lambda>q. length (ws ! q)) rest)" using I(4) by simp
    then show ?thesis unfolding map_append c sorted_append using I(5) by auto
  qed
  moreover have "length (ws ! q) \<le> Suc (length (ws ! hd (rest @ ?cs)))" if "q \<in> set (rest @ ?cs)" for q
  proof -
    have "hd (rest @ ?cs) \<in> set rest \<or> hd (rest @ ?cs) \<in> set ?cs" using that list.set_sel(1) [of "rest @ ?cs"] by fastforce
    then have "length (ws ! p) \<le> length (ws ! hd (rest @ ?cs))"
      using I(4) cw [of "hd (rest @ ?cs)"] by (elim disjE) simp_all
    moreover have "length (ws ! q) \<le> Suc (length (ws ! p))" using that I(5) [of q] cw [of q] unfolding set_append Un_iff by fastforce
    ultimately show ?thesis by simp
  qed
  ultimately have "bfs_inv (rest @ ?cs) ns' ws"
    unfolding bfs_inv_def using trie_core [OF I(1) ns'(2)] I(2) cw by (intro conjI) auto
  then show ?thesis using ns'(1,2) by blast
qed

text \<open>
  The loop ends: a node weighs 257 to the power of what its word lacks to the longest one, so a node
  weighs more than its children, of which it has 256 at most.
\<close>

definition bfs_weight :: "nat \<Rightarrow> bytes list \<Rightarrow> nat list \<Rightarrow> nat" where
  "bfs_weight m ws queue = sum_list (map (\<lambda>q. 257 ^ (m - length (ws ! q))) queue)"

lemma bfs_weight_children:
  assumes t: "trie ns ws" and p: "p < length ws" and m: "\<forall>w \<in> set ws. length w \<le> m"
  shows "bfs_weight m ws (map snd (children (ns ! p))) < 257 ^ (m - length (ws ! p))"
proof -
  let ?cs = "children (ns ! p)" and ?n = "length (ws ! p)"
  note cw = child_word [OF t p]
  have "map (\<lambda>q. 257 ^ (m - length (ws ! q))) (map snd ?cs) = replicate (length ?cs) ((257::nat) ^ (m - Suc ?n))"
    using cw by (intro replicate_eqI) auto
  then have w: "bfs_weight m ws (map snd ?cs) = length ?cs * 257 ^ (m - Suc ?n)"
    by (simp add: bfs_weight_def sum_list_replicate)
  show ?thesis
  proof (cases ?cs)
    case Nil
    then show ?thesis by (simp add: bfs_weight_def)
  next
    case (Cons kq cs)
    have "snd kq \<in> set (map snd ?cs)" using Cons by simp
    from cw [OF this] have "Suc ?n \<le> m" using m nth_mem by metis
    then have "(257::nat) ^ (m - ?n) = 257 * 257 ^ (m - Suc ?n)" by (simp add: Suc_diff_Suc flip: power_Suc)
    then show ?thesis using w length_children [of "ns ! p"] by (simp add: mult_less_mono1)
  qed
qed

lemma fix_loop_links:
  assumes "bfs_inv queue ns ws"
  shows "\<exists>ns'. fix_loop queue ns = Some ns' \<and> core ns' = core ns \<and> bfs_inv [] ns' ws"
proof -
  obtain m where m: "\<forall>w \<in> set ws. length w \<le> m"
    using finite_maxlen [of "set ws"] less_imp_le by blast
  show ?thesis using assms
  proof (induction "bfs_weight m ws queue" arbitrary: queue ns rule: less_induct)
    case less
    show ?case
    proof (cases queue)
      case Nil
      then show ?thesis using less(2) by (simp add: fix_loop.simps)
    next
      case (Cons p rest)
      let ?q = "rest @ map snd (children (ns ! p))"
      have inv: "bfs_inv (p # rest) ns ws" using less(2) Cons by simp
      obtain ns' where ns': "fix_children p (children (ns ! p)) ns = Some ns'" "core ns' = core ns" "bfs_inv ?q ns' ws"
        using bfs_step [OF inv] by blast
      have "p < length ws" using bfs_invD(2) [OF inv] by simp
      then have "bfs_weight m ws ?q < bfs_weight m ws queue"
        using bfs_weight_children [OF bfs_invD(1) [OF inv] _ m, of p] Cons by (simp add: bfs_weight_def)
      then obtain ns'' where "fix_loop ?q ns' = Some ns''" "core ns'' = core ns'" "bfs_inv [] ns'' ws"
        using less(1) ns'(3) by blast
      then show ?thesis using ns'(1,2) Cons by (simp add: fix_loop.simps [of "p # rest"])
    qed
  qed
qed

text \<open>The finished automaton of a list of patterns.\<close>

definition automaton :: "bytes list \<Rightarrow> trie_nodes \<Rightarrow> bytes list \<Rightarrow> bool" where
  "automaton ps ns ws \<longleftrightarrow> trie ns ws \<and> set ps \<subseteq> set ws \<and> (\<forall>p < length ws. link_ok ns ws p \<and>
     is_end (ns ! p) = pattern_word ps (ws ! p) \<and> (is_end (ns ! p) \<longrightarrow> pIndex (ns ! p) = last_index ps (ws ! p)))"

lemma automatonD:
  assumes "automaton ps ns ws"
  shows "trie ns ws" and "set ps \<subseteq> set ws" and "p < length ws \<Longrightarrow> link_ok ns ws p"
    and "p < length ws \<Longrightarrow> is_end (ns ! p) = pattern_word ps (ws ! p)"
    and "p < length ws \<Longrightarrow> pattern_word ps (ws ! p) \<Longrightarrow> pIndex (ns ! p) = last_index ps (ws ! p)"
  using assms unfolding automaton_def by auto

lemma dict_trieD:
  assumes "dict_trie ps ns ws" and "p < length ws"
  shows "marks (ns ! p) = dict_marks ps (ws ! p)"
proof -
  have "map marks ns = map (dict_marks ps) ws" "length ns = length ws" using assms(1) trieD(1) by (auto simp: dict_trie_def)
  then show ?thesis using assms(2) by (metis nth_map)
qed

lemma dict_bfs_inv:
  assumes d: "dict_trie ps ns ws"
  shows "bfs_inv [0] ns ws"
proof -
  have t: "trie ns ws" using d by (simp add: dict_trie_def)
  note D = trieD [OF t]
  have "link_ok ns ws p \<or> strict_prefix (ws ! 0) (ws ! p)" if p: "p < length ws" for p
    using dict_trieD [OF d p] trie_root [OF t p] D(3)
    by (cases "p = 0") (auto simp: link_ok_def marks_def dict_marks_def strict_prefix_def)
  then show ?thesis using t D(2) by (auto simp: bfs_inv_def)
qed

lemma initialize_automaton: "\<exists>ns ws. initialize ps = Some ns \<and> automaton ps ns ws"
proof -
  obtain ws where d: "dict_trie ps (insert_all 0 ps [new_node]) ws" using insert_all_dict by blast
  let ?n = "insert_all 0 ps [new_node]"
  obtain ns where ns: "fix_loop [0] ?n = Some ns" "core ns = core ?n" "bfs_inv [] ns ws"
    using fix_loop_links [OF dict_bfs_inv [OF d]] by blast
  note I = bfs_invD [OF ns(3)]
  have "is_end (ns ! p) = pattern_word ps (ws ! p) \<and> (is_end (ns ! p) \<longrightarrow> pIndex (ns ! p) = last_index ps (ws ! p))"
    if p: "p < length ws" for p
  proof -
    have "p < length ?n" using p core_length [OF ns(2)] trieD(1) [OF I(1)] by simp
    then show ?thesis using dict_trieD [OF d p] core_nth(2,3) [OF ns(2)] by (simp add: marks_def dict_marks_def)
  qed
  then have "automaton ps ns ws" using I(1,3) d by (auto simp: automaton_def dict_trie_def)
  then show ?thesis using ns(1) by (auto simp: initialize_def fixAhoCorasick_def)
qed

section \<open>The search reports every occurrence\<close>

lemma automaton_linked: "automaton ps ns ws \<Longrightarrow> linked_upto n ns ws"
  by (simp add: linked_upto_def automatonD(3))

text \<open>The first inner loop and the move after it.\<close>

lemma goto_extend:
  assumes a: "automaton ps ns ws" and "p < length ws"
  shows "\<exists>p1 < length ws. goto ns (uchar c) p = Some (Some p1) \<and>
    (case next_node (ns ! p1) (uchar c) of None \<Rightarrow> extend (set ws) c (ws ! p) = []
     | Some q \<Rightarrow> q < length ws \<and> ws ! q = extend (set ws) c (ws ! p))"
  using assms(2)
proof (induction "length (ws ! p)" arbitrary: p rule: less_induct)
  case less
  note t = automatonD(1) [OF a]
  show ?case
  proof (cases "next_node (ns ! p) (uchar c)")
    case (Some q)
    then have q: "q < length ws" "ws ! q = ws ! p @ [c]" using trieD(6) [OF t less(2) Some] by auto
    then have "extend (set ws) c (ws ! p) = ws ! q" by (subst extend.simps) (metis nth_mem)
    then show ?thesis using Some q(1) less(2) by (intro exI [of _ p]) (simp add: goto.simps)
  next
    case None
    then have n: "ws ! p @ [c] \<notin> set ws" using trie_next_None [OF t less(2)] by simp
    show ?thesis
    proof (cases "p = 0")
      case True
      then have "extend (set ws) c (ws ! p) = []" using n trieD(3) [OF t] by (subst extend.simps) simp
      then show ?thesis using None less(2) True by (intro exI [of _ p]) (simp add: goto.simps)
    next
      case False
      then obtain h where h: "h < length ws" "fail (ns ! p) = Some h" "ws ! h = lps (set ws) (ws ! p)"
        using automatonD(3) [OF a less(2)] by (auto simp: link_ok_def)
      have ne: "ws ! p \<noteq> []" using trie_root [OF t less(2)] False by simp
      then have l: "length (ws ! h) < length (ws ! p)" using h(3) length_lps by metis
      have e: "extend (set ws) c (ws ! p) = extend (set ws) c (ws ! h)"
        using n ne h(3) by (simp add: extend.simps [of _ c "ws ! p"])
      have g: "goto ns (uchar c) p = goto ns (uchar c) h" using None False h(2) by (simp add: goto.simps [of ns _ p])
      show ?thesis unfolding e g by (rule less(1) [OF l h(1)])
    qed
  qed
qed

text \<open>The words on the chain of failure links: the suffixes that are patterns, the longest first.\<close>

lemma filter_tails_longest:
  assumes "\<And>v. P v \<Longrightarrow> v \<in> W"
  shows "filter P (tails (longest W x)) = filter P (tails x)"
  using assms by (induction x) auto

definition matches_at :: "bytes list \<Rightarrow> nat \<Rightarrow> bytes \<Rightarrow> (nat \<times> nat) list" where
  "matches_at ps e x = map (\<lambda>v. (last_index ps v, e)) (filter (pattern_word ps) (tails x))"

lemma matches_at_longest:
  assumes "set ps \<subseteq> W"
  shows "matches_at ps e (longest W x) = matches_at ps e x"
proof -
  have "v \<in> W" if "pattern_word ps v" for v using that assms by (auto simp: pattern_word_def)
  then show ?thesis using filter_tails_longest [of "pattern_word ps" W x] by (simp add: matches_at_def)
qed

lemma outputs_matches:
  assumes a: "automaton ps ns ws" and "q < length ws"
  shows "outputs ns (Some q) e res = Some (res @ matches_at ps e (ws ! q))"
  using assms(2)
proof (induction "length (ws ! q)" arbitrary: q res rule: less_induct)
  case less
  note t = automatonD(1) [OF a] and ok = automatonD(3) [OF a less(2)]
  let ?r = "if is_end (ns ! q) then res @ [(pIndex (ns ! q), e)] else res"
  have o: "outputs ns (Some q) e res = outputs ns (fail (ns ! q)) e ?r"
    by (subst outputs.simps) simp
  have r: "?r = res @ (if pattern_word ps (ws ! q) then [(last_index ps (ws ! q), e)] else [])"
    using automatonD(4,5) [OF a less(2)] by simp
  show ?case
  proof (cases "q = 0")
    case True
    then have "ws ! q = []" using trieD(3) [OF t] by simp
    moreover have "fail (ns ! q) = None" using ok True by (simp add: link_ok_def)
    ultimately show ?thesis unfolding o r by (simp add: outputs.simps matches_at_def pattern_word_def)
  next
    case False
    then obtain h where h: "h < length ws" "fail (ns ! q) = Some h" "ws ! h = lps (set ws) (ws ! q)"
      using ok by (auto simp: link_ok_def)
    have ne: "ws ! q \<noteq> []" using trie_root [OF t less(2)] False by simp
    then have l: "length (ws ! h) < length (ws ! q)" using h(3) length_lps by metis
    have "matches_at ps e (ws ! h) = matches_at ps e (tl (ws ! q))"
      using matches_at_longest [OF automatonD(2) [OF a]] h(3) by (simp add: lps_def)
    moreover have "matches_at ps e (ws ! q) =
        (if pattern_word ps (ws ! q) then [(last_index ps (ws ! q), e)] else []) @ matches_at ps e (tl (ws ! q))"
      using ne by (cases "ws ! q") (auto simp: matches_at_def)
    ultimately show ?thesis unfolding o r h(2) less(1) [OF l h(1)] by simp
  qed
qed

lemma search_loop_matches:
  assumes a: "automaton ps ns ws"
  shows "p < length ws \<Longrightarrow> ws ! p = longest (set ws) rd \<Longrightarrow>
    search_loop ns str (length rd) p res =
      Some (res @ concat (map (\<lambda>e. matches_at ps (length rd + e) (rd @ take e str)) [1..<Suc (length str)]))"
proof (induction str arbitrary: rd p res)
  case Nil
  then show ?case by simp
next
  case (Cons c cs)
  note t = automatonD(1) [OF a]
  obtain p1 where p1: "p1 < length ws" "goto ns (uchar c) p = Some (Some p1)"
      "case next_node (ns ! p1) (uchar c) of None \<Rightarrow> extend (set ws) c (ws ! p) = []
       | Some q \<Rightarrow> q < length ws \<and> ws ! q = extend (set ws) c (ws ! p)"
    using goto_extend [OF a Cons(2)] by blast
  let ?p2 = "case next_node (ns ! p1) (uchar c) of None \<Rightarrow> 0 | Some q \<Rightarrow> q"
  have "?p2 < length ws \<and> ws ! ?p2 = extend (set ws) c (ws ! p)"
    using p1(3) trieD(2,3) [OF t] by (auto split: option.splits)
  then have p2: "?p2 < length ws" "ws ! ?p2 = longest (set ws) (rd @ [c])"
    using longest_snoc [OF trieD(5) [OF t]] Cons(3) by simp_all
  have m: "matches_at ps k (ws ! ?p2) = matches_at ps k (rd @ [c])" for k
    unfolding p2(2) by (rule matches_at_longest [OF automatonD(2) [OF a]])
  have s: "[1..<Suc (length (c # cs))] = 1 # map Suc [1..<Suc (length cs)]"
    unfolding map_Suc_upt by (simp add: upt_rec)
  have "search_loop ns (c # cs) (length rd) p res =
      search_loop ns cs (length (rd @ [c])) ?p2 (res @ matches_at ps (Suc (length rd)) (rd @ [c]))"
    using p1(2) outputs_matches [OF a p2(1)] m by (simp add: Let_def)
  also have "\<dots> = Some (res @ matches_at ps (Suc (length rd)) (rd @ [c]) @
      concat (map (\<lambda>e. matches_at ps (length (rd @ [c]) + e) ((rd @ [c]) @ take e cs)) [1..<Suc (length cs)]))"
    using Cons(1) [OF p2] by simp
  finally show ?case unfolding s by (simp add: comp_def)
qed

text \<open>The matcher the automaton stands for: at every end, every suffix that is a pattern.\<close>

definition naive_search :: "bytes list \<Rightarrow> bytes \<Rightarrow> (nat \<times> nat) list" where
  "naive_search ps str = concat (map (\<lambda>e. matches_at ps e (take e str)) [1..<Suc (length str)])"

lemma initialize_search:
  "\<exists>ns. initialize ps = Some ns \<and> (\<forall>str. search ns str = Some (naive_search ps str))"
proof -
  obtain ns ws where i: "initialize ps = Some ns" and a: "automaton ps ns ws" using initialize_automaton by blast
  have "search ns str = Some (naive_search ps str)" for str
    using search_loop_matches [OF a, of 0 "[]" str "[]"] trieD(2,3) [OF automatonD(1) [OF a]]
    by (simp add: search_def naive_search_def del: upt_Suc)
  then show ?thesis using i by blast
qed

text \<open>
  C14. Aho-Corasick is the naive matcher: \<open>initialize\<close> returns for every list of patterns, on what it
  builds \<open>search\<close> returns for every text, and the result is, in order, for every end position the
  patterns that end there, the longest first, each once and under the index of its last copy.
\<close>

theorem search_is_naive:
  "\<exists>ns. initialize ps = Some ns \<and> (\<forall>str. search ns str = Some (naive_search ps str))"
  by (rule initialize_search)

lemma set_tails: "set (tails x) = {v. suffix v x}"
  by (induction x) (auto simp: suffix_Cons)

lemma in_set_drop: "x \<in> set (drop n xs) \<longleftrightarrow> (\<exists>j < length xs. n \<le> j \<and> xs ! j = x)"
proof
  assume "x \<in> set (drop n xs)"
  then obtain i where "i < length xs - n" "xs ! (n + i) = x" by (auto simp: in_set_conv_nth)
  then show "\<exists>j < length xs. n \<le> j \<and> xs ! j = x" by (intro exI [of _ "n + i"]) simp
next
  assume "\<exists>j < length xs. n \<le> j \<and> xs ! j = x"
  then obtain j where "j < length xs" "n \<le> j" "xs ! j = x" by blast
  then show "x \<in> set (drop n xs)" by (auto simp: in_set_conv_nth intro!: exI [of _ "j - n"])
qed

lemma last_index_eq:
  assumes "v \<in> set ps"
  shows "last_index ps v = k \<longleftrightarrow> k < length ps \<and> ps ! k = v \<and> (\<forall>j < length ps. k < j \<longrightarrow> ps ! j \<noteq> v)"
  using assms
proof (induction ps arbitrary: k rule: rev_induct)
  case (snoc p ps)
  show ?case
  proof (cases "v = p")
    case True
    have "(\<forall>j < length (ps @ [p]). k < j \<longrightarrow> (ps @ [p]) ! j \<noteq> p) \<Longrightarrow> \<not> k < length ps"
      by (metis length_append_singleton lessI nth_append_length)
    then show ?thesis using True by auto
  next
    case False
    have n: "(ps @ [p]) ! j = v \<longleftrightarrow> j < length ps \<and> ps ! j = v" if "j < Suc (length ps)" for j
      using that False by (auto simp: nth_append)
    have "(\<forall>j < Suc (length ps). k < j \<longrightarrow> (ps @ [p]) ! j \<noteq> v) \<longleftrightarrow> (\<forall>j < length ps. k < j \<longrightarrow> ps ! j \<noteq> v)"
      using n less_SucI by blast
    then show ?thesis using snoc False n [of k] by auto
  qed
qed simp

text \<open>
  What is reported: \<open>(k, e)\<close> is in the result exactly when pattern \<open>k\<close> is not empty, ends at
  position \<open>e\<close> of the text, and no later pattern is equal to it; in particular a text without an
  occurrence gives an empty result, and of two equal patterns the first is never reported.
\<close>

theorem search_reports:
  "\<exists>ns. initialize ps = Some ns \<and> (\<forall>str. \<exists>res. search ns str = Some res \<and>
    (\<forall>k e. (k, e) \<in> set res \<longleftrightarrow> k < length ps \<and> ps ! k \<noteq> [] \<and> ps ! k \<notin> set (drop (Suc k) ps) \<and>
       1 \<le> e \<and> e \<le> length str \<and> suffix (ps ! k) (take e str)))"
proof -
  obtain ns where ns: "initialize ps = Some ns" "\<And>str. search ns str = Some (naive_search ps str)"
    using initialize_search by blast
  have "(k, e) \<in> set (naive_search ps str) \<longleftrightarrow> k < length ps \<and> ps ! k \<noteq> [] \<and> ps ! k \<notin> set (drop (Suc k) ps) \<and>
       1 \<le> e \<and> e \<le> length str \<and> suffix (ps ! k) (take e str)" for k e str
  proof -
    have d: "ps ! k \<notin> set (drop (Suc k) ps) \<longleftrightarrow> (\<forall>j < length ps. k < j \<longrightarrow> ps ! j \<noteq> ps ! k)"
      by (auto simp: in_set_drop Suc_le_eq)
    have "(k, e) \<in> set (naive_search ps str) \<longleftrightarrow> 1 \<le> e \<and> e \<le> length str \<and>
        (\<exists>v. suffix v (take e str) \<and> v \<noteq> [] \<and> v \<in> set ps \<and> last_index ps v = k)"
      by (auto simp: naive_search_def matches_at_def set_tails pattern_word_def simp del: upt_Suc)
    then show ?thesis using d last_index_eq [of _ ps k] nth_mem [of k ps] by metis
  qed
  then show ?thesis using ns by blast
qed

end
