(* ===== verification/GarySort.thy ===== *)
theory GarySort
  imports VectorSort "HOL-Library.Monad_Syntax"
begin

text \<open>
  The sort of \<open>src/include/gary_common/gary_sort.h\<close>: quicksort with an explicit stack, median of
  three, and insertion sort for short intervals. The element type of the template is a linearly
  ordered type. \<open>None\<close> is an access outside the array, an overflow of the sum of two positions, or a
  loop that does not end, so that a result \<open>Some\<close> excludes all three. The stack is the list of its pairs (right, left), the top first.
\<close>

section \<open>The array\<close>

definition rd :: "'a list \<Rightarrow> int \<Rightarrow> 'a option" where
  "rd b i = (if 0 \<le> i \<and> i < int (length b) then Some (b ! nat i) else None)"

definition wr :: "'a list \<Rightarrow> int \<Rightarrow> 'a \<Rightarrow> 'a list option" where
  "wr b i v = (if 0 \<le> i \<and> i < int (length b) then Some (b[nat i := v]) else None)"

text \<open>\<open>V = pBuf[i]; pBuf[i] = pBuf[j]; pBuf[j] = V;\<close>\<close>

definition exch :: "'a list \<Rightarrow> int \<Rightarrow> int \<Rightarrow> 'a list option" where
  "exch b i j = do { v \<leftarrow> rd b i; s \<leftarrow> rd b j; b1 \<leftarrow> wr b i s; wr b1 j v }"

section \<open>QuickSortAsc\<close>

partial_function (option) bit_count :: "int \<Rightarrow> int \<Rightarrow> int option" where
  "bit_count i j = (let j' = j div 2 in if j' \<noteq> 0 then bit_count (i + 1) j' else Some i)"

partial_function (option) bubble_min :: "('a::linorder) list \<Rightarrow> int \<Rightarrow> int \<Rightarrow> 'a list option" where
  "bubble_min b dwLeft j =
     (if j > dwLeft
      then do { x \<leftarrow> rd b j; y \<leftarrow> rd b (j - 1);
                b1 \<leftarrow> (if x < y then exch b j (j - 1) else Some b);
                bubble_min b1 dwLeft (j - 1) }
      else Some b)"

partial_function (option) insert_down :: "'a::linorder \<Rightarrow> 'a list \<Rightarrow> int \<Rightarrow> 'a list option" where
  "insert_down v b k =
     do { x \<leftarrow> rd b (k - 1);
          if v < x then do { b1 \<leftarrow> wr b k x; b2 \<leftarrow> wr b1 (k - 1) v; insert_down v b2 (k - 1) }
          else Some b }"

partial_function (option) insert_loop :: "('a::linorder) list \<Rightarrow> int \<Rightarrow> int \<Rightarrow> 'a list option" where
  "insert_loop b dwRight j =
     (if j \<le> dwRight
      then do { v \<leftarrow> rd b j; b1 \<leftarrow> insert_down v b j; insert_loop b1 dwRight (j + 1) }
      else Some b)"

definition small_sort :: "('a::linorder) list \<Rightarrow> int \<Rightarrow> int \<Rightarrow> 'a list option" where
  "small_sort b dwLeft dwRight =
     do { b1 \<leftarrow> bubble_min b dwLeft dwRight; insert_loop b1 dwRight (dwLeft + 2) }"

text \<open>\<open>if (pBuf[i] > pBuf[j])\<close> exchange them.\<close>

definition order_two :: "('a::linorder) list \<Rightarrow> int \<Rightarrow> int \<Rightarrow> 'a list option" where
  "order_two b i j = do { x \<leftarrow> rd b i; y \<leftarrow> rd b j; if x > y then exch b i j else Some b }"

text \<open>
  The sum of two 32-bit numbers; an overflow is undefined. It is the only sum of the routine that can
  leave the range of \<open>TINT32\<close> when the positions are in it and differ.
\<close>

definition add32 :: "int \<Rightarrow> int \<Rightarrow> int option" where
  "add32 x y = (if - (2 ^ 31) \<le> x + y \<and> x + y < 2 ^ 31 then Some (x + y) else None)"

definition median :: "('a::linorder) list \<Rightarrow> int \<Rightarrow> int \<Rightarrow> 'a list option" where
  "median b dwLeft dwRight =
     (let j = dwRight - 1
      in do { sum \<leftarrow> add32 dwLeft dwRight; b1 \<leftarrow> exch b (sum div 2) j; b2 \<leftarrow> order_two b1 j dwRight;
              b3 \<leftarrow> order_two b2 dwLeft dwRight; order_two b3 dwLeft j })"

partial_function (option) scan_up :: "'a::linorder \<Rightarrow> 'a list \<Rightarrow> int \<Rightarrow> int option" where
  "scan_up v b k = do { x \<leftarrow> rd b (k + 1); if x < v then scan_up v b (k + 1) else Some (k + 1) }"

partial_function (option) scan_down :: "'a::linorder \<Rightarrow> 'a list \<Rightarrow> int \<Rightarrow> int \<Rightarrow> int option" where
  "scan_down v b k j =
     do { x \<leftarrow> rd b (j - 1);
          if x > v then (if j - 1 = k then Some (j - 1) else scan_down v b k (j - 1)) else Some (j - 1) }"

partial_function (option) part_scan :: "'a::linorder \<Rightarrow> 'a list \<Rightarrow> int \<Rightarrow> int \<Rightarrow> ('a list \<times> int) option" where
  "part_scan v b k j =
     do { k1 \<leftarrow> scan_up v b k; j1 \<leftarrow> scan_down v b k1 j;
          if k1 \<ge> j1 then Some (b, k1) else do { b1 \<leftarrow> exch b k1 j1; part_scan v b1 k1 j1 } }"

definition qs_partition :: "('a::linorder) list \<Rightarrow> int \<Rightarrow> int \<Rightarrow> ('a list \<times> int) option" where
  "qs_partition b dwLeft dwRight =
     do { b1 \<leftarrow> median b dwLeft dwRight; v \<leftarrow> rd b1 (dwRight - 1);
          (b2, k) \<leftarrow> part_scan v b1 dwLeft (dwRight - 1);
          b3 \<leftarrow> exch b2 (dwRight - 1) k; Some (b3, k) }"

text \<open>\<open>i\<close> is twice the number of pairs on the stack.\<close>

partial_function (option) qs_loop ::
    "int \<Rightarrow> ('a::linorder) list \<Rightarrow> (int \<times> int) list \<Rightarrow> ('a list \<times> int) option" where
  "qs_loop dwStackSize b stk =
     (case stk of
        [] \<Rightarrow> Some (b, 0)
      | iv # rest \<Rightarrow>
          let dwLeft = snd iv; dwRight = fst iv
          in if dwRight - dwLeft < 16
             then do { b1 \<leftarrow> small_sort b dwLeft dwRight; qs_loop dwStackSize b1 rest }
             else do { bk \<leftarrow> qs_partition b dwLeft dwRight;
                       let b1 = fst bk; k = snd bk;
                           s1 = (if dwRight > k + 1 then (dwRight, k + 1) # rest else rest);
                           s2 = (if k - 1 > dwLeft then (k - 1, dwLeft) # s1 else s1)
                       in if 2 * int (length rest) \<ge> dwStackSize then Some (b1, -1)
                          else qs_loop dwStackSize b1 s2 })"

definition QuickSortAsc :: "('a::linorder) list \<Rightarrow> int \<Rightarrow> int \<Rightarrow> ('a list \<times> int) option" where
  "QuickSortAsc pBuf dwLeft dwRight =
     (if dwLeft \<ge> dwRight then Some (pBuf, 0)
      else do { i \<leftarrow> bit_count 1 (dwRight - 1); qs_loop (i * 64 - 4) pBuf [(dwRight, dwLeft)] })"

section \<open>Array access in range\<close>

lemma rd_Some [simp]: "0 \<le> i \<Longrightarrow> i < int (length b) \<Longrightarrow> rd b i = Some (b ! nat i)"
  by (simp add: rd_def)

lemma wr_Some [simp]: "0 \<le> i \<Longrightarrow> i < int (length b) \<Longrightarrow> wr b i v = Some (b[nat i := v])"
  by (simp add: wr_def)

lemma exch_Some [simp]:
  "0 \<le> i \<Longrightarrow> i < int (length b) \<Longrightarrow> 0 \<le> j \<Longrightarrow> j < int (length b) \<Longrightarrow> exch b i j = Some (list_swap b (nat i) (nat j))"
  by (simp add: exch_def list_swap_def)

text \<open>An exchange of two positions of an interval, seen at the other positions.\<close>

lemma swap_nth:
  "0 \<le> i \<Longrightarrow> i < int (length b) \<Longrightarrow> 0 \<le> j \<Longrightarrow> j < int (length b) \<Longrightarrow> 0 \<le> p \<Longrightarrow> p < int (length b) \<Longrightarrow>
   list_swap b (nat i) (nat j) ! nat p = (if p = i then b ! nat j else if p = j then b ! nat i else b ! nat p)"
  by (subst nth_list_swap) (auto simp: nat_eq_iff2)

lemma same_outside_length: "same_outside lo hi b b' \<Longrightarrow> length b' = length b"
  by (simp add: same_outside_def)

definition window_sorted :: "('a::linorder) list \<Rightarrow> int \<Rightarrow> int \<Rightarrow> bool" where
  "window_sorted b lo hi \<longleftrightarrow> (\<forall>i j. lo \<le> i \<and> i < j \<and> j \<le> hi \<longrightarrow> b ! nat i \<le> b ! nat j)"

section \<open>Short intervals\<close>

lemma bubble_min_spec:
  assumes "0 \<le> l" and "l \<le> j" and "j \<le> r" and "r < int (length b)" and "\<forall>p. j \<le> p \<and> p \<le> r \<longrightarrow> b ! nat j \<le> b ! nat p"
  shows "\<exists>b'. bubble_min b l j = Some b' \<and> same_outside l r b b' \<and> (\<forall>p. l \<le> p \<and> p \<le> r \<longrightarrow> b' ! nat l \<le> b' ! nat p)"
  using assms
proof (induction "nat (j - l)" arbitrary: b j rule: less_induct)
  case less
  show ?case
  proof (cases "j > l")
    case False
    then show ?thesis using less.prems by (intro exI [of _ b]) (simp add: bubble_min.simps)
  next
    case True
    let ?b = "if b ! nat j < b ! nat (j - 1) then list_swap b (nat j) (nat (j - 1)) else b"
    have run: "bubble_min b l j = bubble_min ?b l (j - 1)" using True less.prems by (simp add: bubble_min.simps [of b l j])
    have so: "same_outside l r b ?b" using True less.prems by (auto intro!: same_outside_swap)
    have nth: "?b ! nat p = (if b ! nat j < b ! nat (j - 1) then (if p = j then b ! nat (j - 1) else if p = j - 1 then b ! nat j else b ! nat p) else b ! nat p)"
      if "l \<le> p" "p \<le> r" for p
      using that True less.prems by (auto simp: swap_nth)
    have "?b ! nat (j - 1) \<le> ?b ! nat p" if p: "j - 1 \<le> p" "p \<le> r" for p
    proof -
      have "p = j - 1 \<or> p = j \<or> (j \<le> p \<and> p \<noteq> j)" using p by linarith
      moreover have "j \<le> p \<Longrightarrow> b ! nat j \<le> b ! nat p" using less.prems(5) p by blast
      ultimately show ?thesis using nth [of "j - 1"] nth [of p] p True less.prems by (auto simp del: nth_list_update)
    qed
    then obtain b' where "bubble_min ?b l (j - 1) = Some b'" "same_outside l r ?b b'" "\<forall>p. l \<le> p \<and> p \<le> r \<longrightarrow> b' ! nat l \<le> b' ! nat p"
      using less.hyps [of "j - 1" ?b] True less.prems same_outside_length [OF so] by fastforce
    then show ?thesis using run so same_outside_trans by metis
  qed
qed

text \<open>
  The element \<open>v\<close> on its way down stands at \<open>k\<close>: the others up to \<open>j\<close> are in order, those above \<open>k\<close>
  are not smaller, and the smallest element at \<open>l\<close> will stop the loop.
\<close>

definition sinking :: "int \<Rightarrow> int \<Rightarrow> int \<Rightarrow> int \<Rightarrow> 'a \<Rightarrow> ('a::linorder) list \<Rightarrow> bool" where
  "sinking l k j r v b \<longleftrightarrow> 0 \<le> l \<and> l < k \<and> k \<le> j \<and> j \<le> r \<and> r < int (length b) \<and> b ! nat k = v \<and>
     (\<forall>p q. l \<le> p \<and> p < q \<and> q \<le> j \<and> p \<noteq> k \<and> q \<noteq> k \<longrightarrow> b ! nat p \<le> b ! nat q) \<and>
     (\<forall>q. k < q \<and> q \<le> j \<longrightarrow> v \<le> b ! nat q) \<and> (\<forall>p. l \<le> p \<and> p \<le> r \<longrightarrow> b ! nat l \<le> b ! nat p)"

lemma sinkingD:
  assumes "sinking l k j r v b"
  shows "0 \<le> l" "l < k" "k \<le> j" "j \<le> r" "r < int (length b)" "b ! nat k = v"
    and "l \<le> p \<Longrightarrow> p < q \<Longrightarrow> q \<le> j \<Longrightarrow> p \<noteq> k \<Longrightarrow> q \<noteq> k \<Longrightarrow> b ! nat p \<le> b ! nat q"
    and "k < q \<Longrightarrow> q \<le> j \<Longrightarrow> v \<le> b ! nat q" and "l \<le> p \<Longrightarrow> p \<le> r \<Longrightarrow> b ! nat l \<le> b ! nat p"
  using assms unfolding sinking_def by blast+

lemma sinking_stop:
  assumes s: "sinking l k j r v b" and stop: "b ! nat (k - 1) \<le> v"
  shows "window_sorted b l j"
  unfolding window_sorted_def
proof (intro allI impI)
  fix p q
  assume pq: "l \<le> p \<and> p < q \<and> q \<le> j"
  note D = sinkingD [OF s]
  have below: "b ! nat p \<le> v" if "p < k"
  proof (cases "p = k - 1")
    case False
    then have "b ! nat p \<le> b ! nat (k - 1)" using D(3) pq that by (intro D(7)) auto
    then show ?thesis using stop by simp
  qed (use stop in simp)
  consider "p = k" | "q = k" | "p \<noteq> k" "q \<noteq> k" by blast
  then show "b ! nat p \<le> b ! nat q"
    using pq below D(6,7,8) by cases auto
qed

lemma sinking_step:
  assumes s: "sinking l k j r v b" and less: "v < b ! nat (k - 1)"
  shows "sinking l (k - 1) j r v (list_swap b (nat k) (nat (k - 1)))"
proof -
  note D = sinkingD [OF s]
  let ?b = "list_swap b (nat k) (nat (k - 1))"
  have "b ! nat l \<le> v" using D(9) [of k] D(2-4,6) by simp
  then have kl: "l < k - 1" using less D(2) by (cases "k - 1 = l") auto
  have nth: "?b ! nat p = (if p = k then b ! nat (k - 1) else if p = k - 1 then v else b ! nat p)" if "l \<le> p" "p \<le> r" for p
    using that D(1-6) by (auto simp: swap_nth)
  have order: "?b ! nat p \<le> ?b ! nat q" if pq: "l \<le> p" "p < q" "q \<le> j" "p \<noteq> k - 1" "q \<noteq> k - 1" for p q
  proof -
    let ?p = "if p = k then k - 1 else p" and ?q = "if q = k then k - 1 else q"
    have "b ! nat ?p \<le> b ! nat ?q" using pq kl D(3) by (intro D(7)) auto
    then show ?thesis using nth [of p] nth [of q] pq D(4) by auto
  qed
  have above: "v \<le> ?b ! nat q" if "k - 1 < q" "q \<le> j" for q
    using that nth [of q] D(8) [of q] less kl D(4) by (cases "q = k") auto
  have least: "?b ! nat l \<le> ?b ! nat p" if "l \<le> p" "p \<le> r" for p
    using that nth [of p] nth [of l] D(9) [of p] D(9) [of k] D(9) [of "k - 1"] D(1-6) kl by auto
  show ?thesis
    using order above least nth [of "k - 1"] kl D(1-5) by (auto simp: sinking_def)
qed

lemma insert_down_spec:
  assumes "sinking l k j r v b"
  shows "\<exists>b'. insert_down v b k = Some b' \<and> same_outside (l + 1) r b b' \<and> window_sorted b' l j"
  using assms
proof (induction "nat (k - l)" arbitrary: b k rule: less_induct)
  case less
  note D = sinkingD [OF less.prems]
  let ?b = "list_swap b (nat k) (nat (k - 1))"
  have run: "insert_down v b k = (if v < b ! nat (k - 1) then insert_down v ?b (k - 1) else Some b)"
    using D by (simp add: insert_down.simps [of v b k] list_swap_def)
  show ?case
  proof (cases "v < b ! nat (k - 1)")
    case False
    then show ?thesis using run sinking_stop [OF less.prems] by (intro exI [of _ b]) simp
  next
    case True
    note st = sinking_step [OF less.prems True]
    have so: "same_outside (l + 1) r b ?b" using D sinkingD(2) [OF st] by (intro same_outside_swap) auto
    obtain b' where "insert_down v ?b (k - 1) = Some b'" "same_outside (l + 1) r ?b b'" "window_sorted b' l j"
      using less.hyps [OF _ st] D(2) by auto
    then show ?thesis using run True so same_outside_trans by auto
  qed
qed

lemma insert_loop_spec:
  assumes "0 \<le> l" and "l < j" and "j \<le> r + 1" and "r < int (length b)" and "window_sorted b l (j - 1)"
    and "\<forall>p. l \<le> p \<and> p \<le> r \<longrightarrow> b ! nat l \<le> b ! nat p"
  shows "\<exists>b'. insert_loop b r j = Some b' \<and> same_outside l r b b' \<and> window_sorted b' l r"
  using assms
proof (induction "nat (r + 1 - j)" arbitrary: b j rule: less_induct)
  case less
  note P = less.prems
  show ?case
  proof (cases "j \<le> r")
    case False
    then have "j = r + 1" using P by simp
    then show ?thesis using P by (intro exI [of _ b]) (simp add: insert_loop.simps)
  next
    case True
    have "\<exists>b'. insert_down (b ! nat j) b j = Some b' \<and> same_outside (l + 1) r b b' \<and> window_sorted b' l j"
      using P True by (intro insert_down_spec) (auto simp: sinking_def window_sorted_def)
    then obtain b1 where b1: "insert_down (b ! nat j) b j = Some b1" "same_outside (l + 1) r b b1" "window_sorted b1 l j" by blast
    note len = same_outside_length [OF b1(2)]
    have "b1 ! nat l \<le> b1 ! nat p" if p: "l \<le> p" "p \<le> r" for p
    proof -
      have l: "b1 ! nat l = b ! nat l" using same_outside_nth [OF b1(2), of l] P True by simp
      show ?thesis
      proof (cases "p = l")
        case False
        then obtain q where "l + 1 \<le> q" "q \<le> r" "b1 ! nat p = b ! nat q"
          using same_outside_elem [OF b1(2), of p] p P by auto
        then show ?thesis using P(6) l by simp
      qed simp
    qed
    then obtain b' where "insert_loop b1 r (j + 1) = Some b'" "same_outside l r b1 b'" "window_sorted b' l r"
      using less.hyps [of "j + 1" b1] b1(3) P True len by auto
    moreover have "same_outside l r b b1" by (rule same_outside_mono [OF b1(2)]) simp_all
    ultimately show ?thesis using True P b1(1) same_outside_trans by (auto simp: insert_loop.simps [of b r j])
  qed
qed

lemma small_sort_spec:
  assumes "0 \<le> l" and "l < r" and "r < int (length b)"
  shows "\<exists>b'. small_sort b l r = Some b' \<and> same_outside l r b b' \<and> window_sorted b' l r"
proof -
  have "\<forall>p. r \<le> p \<and> p \<le> r \<longrightarrow> b ! nat r \<le> b ! nat p" by auto
  then obtain b1 where b1: "bubble_min b l r = Some b1" "same_outside l r b b1" "\<forall>p. l \<le> p \<and> p \<le> r \<longrightarrow> b1 ! nat l \<le> b1 ! nat p"
    using bubble_min_spec [of l r r b] assms by auto
  have "window_sorted b1 l (l + 2 - 1)" unfolding window_sorted_def
  proof (intro allI impI)
    fix i j
    assume ij: "l \<le> i \<and> i < j \<and> j \<le> l + 2 - 1"
    then have i: "i = l" and j: "l \<le> j" "j \<le> r" using assms by linarith+
    show "b1 ! nat i \<le> b1 ! nat j" unfolding i using b1(3) j by blast
  qed
  then obtain b' where "insert_loop b1 r (l + 2) = Some b'" "same_outside l r b1 b'" "window_sorted b' l r"
    using insert_loop_spec [of l "l + 2" r b1] assms b1(3) same_outside_length [OF b1(2)] by auto
  then show ?thesis using b1 same_outside_trans by (auto simp: small_sort_def)
qed

section \<open>The partition\<close>

lemma order_two_spec:
  assumes "0 \<le> l" and "l \<le> i" and "i < j" and "j \<le> r" and "r < int (length b)"
  shows "\<exists>b'. order_two b i j = Some b' \<and> same_outside l r b b' \<and>
    b' ! nat i \<le> b' ! nat j \<and> b' ! nat j = max (b ! nat i) (b ! nat j) \<and>
    (\<forall>p. l \<le> p \<and> p \<le> r \<and> p \<noteq> i \<and> p \<noteq> j \<longrightarrow> b' ! nat p = b ! nat p)"
proof (cases "b ! nat i > b ! nat j")
  case True
  moreover have "same_outside l r b (list_swap b (nat i) (nat j))" using assms by (intro same_outside_swap) auto
  ultimately show ?thesis using assms by (auto simp: order_two_def swap_nth min_def max_def)
next
  case False
  then show ?thesis using assms by (auto simp: order_two_def min_def max_def)
qed

lemma median_spec:
  assumes "0 \<le> l" and "l + 2 \<le> r" and "r < int (length b)" and "r < 2 ^ 30"
  shows "\<exists>b'. median b l r = Some b' \<and> same_outside l r b b' \<and> b' ! nat l \<le> b' ! nat (r - 1) \<and> b' ! nat (r - 1) \<le> b' ! nat r"
proof -
  let ?b = "list_swap b (nat ((l + r) div 2)) (nat (r - 1))"
  have sum: "add32 l r = Some (l + r)" using assms by (simp add: add32_def)
  have ex: "exch b ((l + r) div 2) (r - 1) = Some ?b" using assms by (intro exch_Some) auto
  have so: "same_outside l r b ?b" using assms by (intro same_outside_swap) auto
  note len = same_outside_length [OF so]
  obtain b2 where b2: "order_two ?b (r - 1) r = Some b2" "same_outside l r ?b b2" "b2 ! nat (r - 1) \<le> b2 ! nat r"
    using order_two_spec [of l "r - 1" r r ?b] assms len by auto
  obtain b3 where b3: "order_two b2 l r = Some b3" "same_outside l r b2 b3" "b3 ! nat l \<le> b3 ! nat r"
      "b3 ! nat (r - 1) = b2 ! nat (r - 1)" "b3 ! nat r = max (b2 ! nat l) (b2 ! nat r)"
    using order_two_spec [of l l r r b2] assms len same_outside_length [OF b2(2)] by auto
  obtain b4 where b4: "order_two b3 l (r - 1) = Some b4" "same_outside l r b3 b4" "b4 ! nat l \<le> b4 ! nat (r - 1)"
      "b4 ! nat r = b3 ! nat r" "b4 ! nat (r - 1) = max (b3 ! nat l) (b3 ! nat (r - 1))"
    using order_two_spec [of l l "r - 1" r b3] assms len same_outside_length [OF b2(2)] same_outside_length [OF b3(2)] by auto
  have "b4 ! nat (r - 1) \<le> b4 ! nat r" using b2(3) b3 b4 by (auto simp: le_max_iff_disj)
  moreover have "same_outside l r b b4" using so b2(2) b3(2) b4(2) same_outside_trans by blast
  ultimately show ?thesis using ex b2(1) b3(1) b4(1,3) by (auto simp: median_def sum)
qed

lemma scan_up_spec:
  assumes "0 \<le> k" and "k < j" and "j < int (length b)" and "v \<le> b ! nat j"
  shows "\<exists>k'. scan_up v b k = Some k' \<and> k < k' \<and> k' \<le> j \<and> v \<le> b ! nat k' \<and> (\<forall>p. k < p \<and> p < k' \<longrightarrow> b ! nat p < v)"
  using assms
proof (induction "nat (j - k)" arbitrary: k rule: less_induct)
  case less
  show ?case
  proof (cases "b ! nat (k + 1) < v")
    case True
    then have "k + 1 < j" using less.prems by (cases "k + 1 = j") auto
    then obtain k' where k': "scan_up v b (k + 1) = Some k'" "k + 1 < k'" "k' \<le> j" "v \<le> b ! nat k'"
        "\<forall>p. k + 1 < p \<and> p < k' \<longrightarrow> b ! nat p < v"
      using less.hyps [of "k + 1"] less.prems by auto
    have "b ! nat p < v" if "k < p" "p < k'" for p
      using that k'(5) True by (cases "p = k + 1") auto
    then show ?thesis using k' True less.prems by (auto simp: scan_up.simps [of v b k])
  next
    case False
    then show ?thesis using less.prems by (intro exI [of _ "k + 1"]) (auto simp: scan_up.simps [of v b k])
  qed
qed

text \<open>Downwards from \<open>j\<close>: the loop stops at \<open>k\<close> at the latest, or at once when \<open>k = j\<close>.\<close>

lemma scan_down_spec:
  assumes "0 \<le> k" and "k < j" and "j < int (length b)"
  shows "\<exists>j'. scan_down v b k j = Some j' \<and> k \<le> j' \<and> j' < j \<and> (\<forall>p. j' < p \<and> p < j \<longrightarrow> v < b ! nat p) \<and>
    (k < j' \<longrightarrow> b ! nat j' \<le> v)"
  using assms
proof (induction "nat (j - k)" arbitrary: j rule: less_induct)
  case less
  show ?case
  proof (cases "v < b ! nat (j - 1) \<and> j - 1 \<noteq> k")
    case True
    then obtain j' where j': "scan_down v b k (j - 1) = Some j'" "k \<le> j'" "j' < j - 1"
        "\<forall>p. j' < p \<and> p < j - 1 \<longrightarrow> v < b ! nat p" "k < j' \<longrightarrow> b ! nat j' \<le> v"
      using less.hyps [of "j - 1"] less.prems by auto
    have "v < b ! nat p" if "j' < p" "p < j" for p
      using that j'(4) True by (cases "p = j - 1") auto
    then show ?thesis using j' True less.prems by (auto simp: scan_down.simps [of v b k j])
  next
    case False
    then show ?thesis using less.prems by (intro exI [of _ "j - 1"]) (auto simp: scan_down.simps [of v b k j])
  qed
qed

lemma part_scan_spec:
  assumes "0 \<le> l" and "l \<le> k" and "k < j" and "j \<le> r" and "r < int (length b)"
    and "\<forall>p. l \<le> p \<and> p \<le> k \<longrightarrow> b ! nat p \<le> v" and "\<forall>p. j \<le> p \<and> p \<le> r \<longrightarrow> v \<le> b ! nat p"
  shows "\<exists>b' k'. part_scan v b k j = Some (b', k') \<and> same_outside (k + 1) (j - 1) b b' \<and> k < k' \<and> k' \<le> j \<and>
    (\<forall>p. l \<le> p \<and> p < k' \<longrightarrow> b' ! nat p \<le> v) \<and> (\<forall>p. k' \<le> p \<and> p \<le> r \<longrightarrow> v \<le> b' ! nat p)"
  using assms
proof (induction "nat (j - k)" arbitrary: b k j rule: less_induct)
  case less
  note P = less.prems
  have "v \<le> b ! nat j" using P by auto
  then obtain k1 where k1: "scan_up v b k = Some k1" "k < k1" "k1 \<le> j" "v \<le> b ! nat k1" "\<forall>p. k < p \<and> p < k1 \<longrightarrow> b ! nat p < v"
    using scan_up_spec [of k j b v] P by auto
  have low: "b ! nat p \<le> v" if "l \<le> p" "p < k1" for p
    using that k1(5) P(6) by (cases "p \<le> k") (auto simp: less_imp_le)
  show ?case
  proof (cases "k1 = j")
    case True
    have "\<not> v < b ! nat (j - 1)" using low [of "j - 1"] True k1(2) P by simp
    then have "scan_down v b k1 j = Some (j - 1)" using P by (simp add: scan_down.simps [of v b k1 j])
    then have "part_scan v b k j = Some (b, k1)" using k1(1) True by (simp add: part_scan.simps [of v b k j])
    then show ?thesis using low k1(2) True P(7) by (intro exI [of _ b] exI [of _ k1]) auto
  next
    case False
    then have k1j: "k1 < j" using k1(3) by simp
    obtain j1 where j1: "scan_down v b k1 j = Some j1" "k1 \<le> j1" "j1 < j" "\<forall>p. j1 < p \<and> p < j \<longrightarrow> v < b ! nat p"
        "k1 < j1 \<longrightarrow> b ! nat j1 \<le> v"
      using scan_down_spec [of k1 j b v] k1j k1(2) P by auto
    have high: "v \<le> b ! nat p" if "j1 < p" "p \<le> r" for p
      using that j1(4) P(7) by (cases "p < j") (auto simp: less_imp_le)
    show ?thesis
    proof (cases "j1 = k1")
      case True
      have "v \<le> b ! nat p" if "k1 \<le> p" "p \<le> r" for p using that high [of p] True k1(4) by (cases "p = k1") auto
      moreover have "part_scan v b k j = Some (b, k1)" using k1(1) j1(1) True by (simp add: part_scan.simps [of v b k j])
      ultimately show ?thesis using low k1(2,3) by (intro exI [of _ b] exI [of _ k1]) auto
    next
      case ne: False
      let ?b = "list_swap b (nat k1) (nat j1)"
      have b: "k1 < j1" "0 \<le> k1" "j1 < int (length b)" using ne j1 k1(2) P by auto
      have nth: "?b ! nat p = (if p = k1 then b ! nat j1 else if p = j1 then b ! nat k1 else b ! nat p)" if "l \<le> p" "p \<le> r" for p
        using that b P by (intro swap_nth) auto
      have run: "part_scan v b k j = part_scan v ?b k1 j1"
        using k1(1) j1(1) b by (simp add: part_scan.simps [of v b k j])
      have so: "same_outside (k + 1) (j - 1) b ?b" using b k1(2) j1(3) P by (intro same_outside_swap) auto
      have L: "\<forall>p. l \<le> p \<and> p \<le> k1 \<longrightarrow> ?b ! nat p \<le> v" using nth low j1 b k1 P by (auto simp: less_le)
      have R: "\<forall>p. j1 \<le> p \<and> p \<le> r \<longrightarrow> v \<le> ?b ! nat p" using nth high j1 b k1 P by (auto simp: less_le)
      obtain b' k' where r: "part_scan v ?b k1 j1 = Some (b', k')" "same_outside (k1 + 1) (j1 - 1) ?b b'" "k1 < k'" "k' \<le> j1"
          "\<forall>p. l \<le> p \<and> p < k' \<longrightarrow> b' ! nat p \<le> v" "\<forall>p. k' \<le> p \<and> p \<le> r \<longrightarrow> v \<le> b' ! nat p"
        using less.hyps [of j1 k1 ?b] L R b j1(3) k1(2) P by auto
      have "same_outside (k + 1) (j - 1) ?b b'" by (rule same_outside_mono [OF r(2)]) (use k1(2) j1(3) in auto)
      with so have "same_outside (k + 1) (j - 1) b b'" by (rule same_outside_trans)
      then show ?thesis using run r k1(2) j1(3) by (intro exI [of _ b'] exI [of _ k']) auto
    qed
  qed
qed

text \<open>The pivot ends between the elements that are not larger and those that are not smaller.\<close>

lemma qs_partition_spec:
  assumes "0 \<le> l" and "l + 2 \<le> r" and "r < int (length b)" and "r < 2 ^ 30"
  shows "\<exists>b' k. qs_partition b l r = Some (b', k) \<and> same_outside l r b b' \<and> l < k \<and> k < r \<and>
    (\<forall>p. l \<le> p \<and> p < k \<longrightarrow> b' ! nat p \<le> b' ! nat k) \<and> (\<forall>p. k < p \<and> p \<le> r \<longrightarrow> b' ! nat k \<le> b' ! nat p)"
proof -
  obtain b1 where b1: "median b l r = Some b1" "same_outside l r b b1" "b1 ! nat l \<le> b1 ! nat (r - 1)" "b1 ! nat (r - 1) \<le> b1 ! nat r"
    using median_spec [OF assms] by blast
  note len = same_outside_length [OF b1(2)]
  let ?v = "b1 ! nat (r - 1)"
  have L: "\<forall>p. l \<le> p \<and> p \<le> l \<longrightarrow> b1 ! nat p \<le> ?v" using b1(3) by auto
  have R: "\<forall>p. r - 1 \<le> p \<and> p \<le> r \<longrightarrow> ?v \<le> b1 ! nat p"
  proof (intro allI impI)
    fix p
    assume "r - 1 \<le> p \<and> p \<le> r"
    then have "p = r - 1 \<or> p = r" by auto
    then show "?v \<le> b1 ! nat p" using b1(4) by auto
  qed
  obtain b2 k where b2: "part_scan ?v b1 l (r - 1) = Some (b2, k)" "same_outside (l + 1) (r - 1 - 1) b1 b2" "l < k" "k \<le> r - 1"
      "\<forall>p. l \<le> p \<and> p < k \<longrightarrow> b2 ! nat p \<le> ?v" "\<forall>p. k \<le> p \<and> p \<le> r \<longrightarrow> ?v \<le> b2 ! nat p"
    using part_scan_spec [OF assms(1) order_refl _ _ _ L R] assms len by auto
  have len2: "length b2 = length b" using len same_outside_length [OF b2(2)] by simp
  have v2: "b2 ! nat (r - 1) = ?v" using same_outside_nth [OF b2(2), of "r - 1"] assms len by simp
  let ?b = "list_swap b2 (nat (r - 1)) (nat k)"
  have nth: "?b ! nat p = (if p = r - 1 then b2 ! nat k else if p = k then ?v else b2 ! nat p)" if "l \<le> p" "p \<le> r" for p
    using that swap_nth [of "r - 1" b2 k p] b2(3,4) assms len2 v2 by auto
  have so: "same_outside l r b ?b"
    using same_outside_trans [OF b1(2) same_outside_trans [OF same_outside_mono [OF b2(2)] same_outside_swap]] b2(3,4) assms len2 by auto
  have kk: "?b ! nat k = ?v" using nth [of k] b2 v2 by (cases "k = r - 1") auto
  have "?b ! nat p \<le> ?v" if "l \<le> p" "p < k" for p using nth [of p] that b2(4,5) by auto
  moreover have "?v \<le> ?b ! nat p" if "k < p" "p \<le> r" for p using nth [of p] that b2(3,4,6) by auto
  ultimately show ?thesis using b1(1) b2(1,3,4) assms len len2 so kk
    by (intro exI [of _ ?b] exI [of _ k]) (simp add: qs_partition_def)
qed

section \<open>The loop over the stack\<close>

text \<open>
  Two positions of the whole range are in order unless one interval on the stack holds both; the
  intervals are disjoint, have two elements at least, and together not more than \<open>n\<close>.
\<close>

definition qs_inv :: "int \<Rightarrow> int \<Rightarrow> ('a::linorder) list \<Rightarrow> (int \<times> int) list \<Rightarrow> bool" where
  "qs_inv L R b stk \<longleftrightarrow>
     (\<forall>(r, l) \<in> set stk. L \<le> l \<and> l < r \<and> r \<le> R) \<and>
     sorted_wrt (\<lambda>(r, l) (r', l'). r < l' \<or> r' < l) stk \<and>
     (\<forall>p q. L \<le> p \<and> p < q \<and> q \<le> R \<longrightarrow> b ! nat p \<le> b ! nat q \<or> (\<exists>(r, l) \<in> set stk. l \<le> p \<and> q \<le> r))"

definition stk_size :: "(int \<times> int) list \<Rightarrow> int" where
  "stk_size stk = sum_list (map (\<lambda>(r, l). r - l + 1) stk)"

lemma stk_size_simps [simp]: "stk_size [] = 0" "stk_size ((r, l) # stk) = r - l + 1 + stk_size stk"
  by (simp_all add: stk_size_def)

lemma stk_size_ge: "\<forall>(r, l) \<in> set stk. l < r \<Longrightarrow> 2 * int (length stk) \<le> stk_size stk"
  by (induction stk) auto

lemma qs_invD:
  assumes "qs_inv L R b stk"
  shows "(r, l) \<in> set stk \<Longrightarrow> L \<le> l \<and> l < r \<and> r \<le> R"
    and "L \<le> p \<Longrightarrow> p < q \<Longrightarrow> q \<le> R \<Longrightarrow> b ! nat p \<le> b ! nat q \<or> (\<exists>(r, l) \<in> set stk. l \<le> p \<and> q \<le> r)"
  using assms unfolding qs_inv_def by auto

text \<open>
  Rearranging one interval and replacing it by intervals inside it: only pairs of positions inside
  the interval have to be looked at.
\<close>

lemma qs_inv_replace:
  assumes inv: "qs_inv L R b ((r, l) # rest)" and L: "0 \<le> L" and R: "R < int (length b)"
    and so: "same_outside l r b b'"
    and new: "\<forall>(r', l') \<in> set new. l \<le> l' \<and> l' < r' \<and> r' \<le> r" "sorted_wrt (\<lambda>(r, l) (r', l'). r < l' \<or> r' < l) new"
    and inside: "\<And>p q. l \<le> p \<Longrightarrow> p < q \<Longrightarrow> q \<le> r \<Longrightarrow> b' ! nat p \<le> b' ! nat q \<or> (\<exists>(r, l) \<in> set new. l \<le> p \<and> q \<le> r)"
  shows "qs_inv L R b' (new @ rest)"
proof -
  have lr: "L \<le> l" "l < r" "r \<le> R" using qs_invD(1) [OF inv, of r l] by auto
  have rest: "r < l' \<or> r' < l" if "(r', l') \<in> set rest" for r' l'
    using inv that by (auto simp: qs_inv_def)
  have elem: "\<exists>q. l \<le> q \<and> q \<le> r \<and> b' ! nat p = b ! nat q" if "l \<le> p" "p \<le> r" for p
    using same_outside_elem [OF so] that lr L R by (metis order_le_less_trans order_trans)
  have outside: "b' ! nat p = b ! nat p" if "L \<le> p" "p \<le> R" "p < l \<or> r < p" for p
    using same_outside_nth [OF so, of p] that L R by auto
  have image: "\<exists>p'. b' ! nat p = b ! nat p' \<and> (p = p' \<and> (p < l \<or> r < p) \<or> l \<le> p \<and> p \<le> r \<and> l \<le> p' \<and> p' \<le> r)"
    if "L \<le> p" "p \<le> R" for p
    using elem [of p] outside [OF that] by (cases "l \<le> p \<and> p \<le> r") auto
  have "b' ! nat p \<le> b' ! nat q \<or> (\<exists>(r, l) \<in> set (new @ rest). l \<le> p \<and> q \<le> r)" if pq: "L \<le> p" "p < q" "q \<le> R" for p q
  proof (cases "l \<le> p \<and> q \<le> r")
    case True
    then show ?thesis using inside [of p q] pq by auto
  next
    case False
    obtain p' where p': "b' ! nat p = b ! nat p'" "p = p' \<and> (p < l \<or> r < p) \<or> l \<le> p \<and> p \<le> r \<and> l \<le> p' \<and> p' \<le> r"
      using image [of p] pq by auto
    obtain q' where q': "b' ! nat q = b ! nat q'" "q = q' \<and> (q < l \<or> r < q) \<or> l \<le> q \<and> q \<le> r \<and> l \<le> q' \<and> q' \<le> r"
      using image [of q] pq by auto
    have "L \<le> p'" "p' < q'" "q' \<le> R" using p'(2) q'(2) False pq lr by auto
    note o = this
    have "\<not> (l \<le> p' \<and> q' \<le> r)" using p'(2) q'(2) False by auto
    with qs_invD(2) [OF inv o] consider "b ! nat p' \<le> b ! nat q'" | r0 l0 where "(r0, l0) \<in> set rest" "l0 \<le> p'" "q' \<le> r0"
      by auto
    then show ?thesis
    proof cases
      case 1
      then show ?thesis using p' q' by simp
    next
      case 2
      then have "p' = p" "q' = q" using rest [OF 2(1)] p'(2) q'(2) \<open>p' < q'\<close> by auto
      then show ?thesis using 2 by auto
    qed
  qed
  moreover have "\<forall>(r', l') \<in> set (new @ rest). L \<le> l' \<and> l' < r' \<and> r' \<le> R"
    using new(1) lr qs_invD(1) [OF inv] by fastforce
  moreover have "sorted_wrt (\<lambda>(r, l) (r', l'). r < l' \<or> r' < l) (new @ rest)"
    using new rest inv by (fastforce simp: sorted_wrt_append qs_inv_def)
  ultimately show ?thesis by (simp add: qs_inv_def)
qed

lemma qs_inv_partition:
  assumes inv: "qs_inv L R b ((r, l) # rest)" and L: "0 \<le> L" and R: "R < int (length b)"
    and so: "same_outside l r b b'" and k: "l < k" "k < r"
    and left: "\<forall>p. l \<le> p \<and> p < k \<longrightarrow> b' ! nat p \<le> b' ! nat k" and right: "\<forall>p. k < p \<and> p \<le> r \<longrightarrow> b' ! nat k \<le> b' ! nat p"
  shows "qs_inv L R b' (((if k - 1 > l then [(k - 1, l)] else []) @ (if r > k + 1 then [(r, k + 1)] else [])) @ rest)"
proof (rule qs_inv_replace [OF inv L R so])
  let ?new = "(if k - 1 > l then [(k - 1, l)] else []) @ (if r > k + 1 then [(r, k + 1)] else [])"
  fix p q
  assume pq: "l \<le> p" "p < q" "q \<le> r"
  consider "q < k" | "k < p" | "p \<le> k \<and> k \<le> q" by linarith
  then show "b' ! nat p \<le> b' ! nat q \<or> (\<exists>(r, l) \<in> set ?new. l \<le> p \<and> q \<le> r)"
  proof cases
    case 3
    then have "b' ! nat p \<le> b' ! nat k" "b' ! nat k \<le> b' ! nat q"
      using left right pq by (cases "p = k"; cases "q = k"; simp)+
    then show ?thesis by (intro disjI1) (rule order_trans)
  qed (use pq in auto)
qed (use k in auto)

text \<open>
  The loop returns; with 0 everything is in order, and -1 can only come when the stack is too small
  for the number of elements.
\<close>

lemma qs_loop_spec:
  assumes "qs_inv L R b stk" and "0 \<le> L" and "R < int (length b)" and "R < 2 ^ 30"
  shows "\<exists>b' ret. qs_loop cap b stk = Some (b', ret) \<and> same_outside L R b b' \<and>
    (ret = 0 \<and> window_sorted b' L R \<or> ret = -1 \<and> cap + 17 \<le> stk_size stk)"
  using assms
proof (induction "nat (stk_size stk)" arbitrary: b stk rule: less_induct)
  case less
  note inv = less.prems(1) and L = less.prems(2) and R = less.prems(3) and S = less.prems(4)
  show ?case
  proof (cases stk)
    case Nil
    then show ?thesis using inv by (intro exI [of _ b] exI [of _ 0]) (simp add: qs_loop.simps qs_inv_def window_sorted_def)
  next
    case (Cons iv rest)
    obtain r l where iv: "iv = (r, l)" by (cases iv)
    have lr: "L \<le> l" "l < r" "r \<le> R" and rest: "\<forall>(r, l) \<in> set rest. l < r"
      using qs_invD(1) [OF inv] Cons iv by auto
    note ge = stk_size_ge [OF rest]
    have inv': "qs_inv L R b ((r, l) # rest)" using inv Cons iv by simp
    note rep = qs_inv_replace [OF inv' L R]
    have wide: "same_outside L R b b'" if "same_outside l r b b'" for b' using same_outside_mono [OF that] lr by simp
    show ?thesis
    proof (cases "r - l < 16")
      case True
      obtain b1 where b1: "small_sort b l r = Some b1" "same_outside l r b b1" "window_sorted b1 l r"
        using small_sort_spec [of l r b] lr L R by auto
      have "qs_inv L R b1 ([] @ rest)" by (rule rep [OF b1(2)]) (use b1(3) in \<open>auto simp: window_sorted_def\<close>)
      then obtain b' ret where "qs_loop cap b1 rest = Some (b', ret)" "same_outside L R b1 b'"
          "ret = 0 \<and> window_sorted b' L R \<or> ret = -1 \<and> cap + 17 \<le> stk_size rest"
        using less.hyps [of rest b1] Cons iv lr L R S ge same_outside_length [OF b1(2)] by auto
      then show ?thesis using Cons iv True b1(1) lr same_outside_trans [OF wide [OF b1(2)]]
        by (intro exI [of _ b'] exI [of _ ret]) (auto simp: qs_loop.simps [of cap b "(r, l) # rest"])
    next
      case False
      obtain b1 k where b1: "qs_partition b l r = Some (b1, k)" "same_outside l r b b1" "l < k" "k < r"
          "\<forall>p. l \<le> p \<and> p < k \<longrightarrow> b1 ! nat p \<le> b1 ! nat k" "\<forall>p. k < p \<and> p \<le> r \<longrightarrow> b1 ! nat k \<le> b1 ! nat p"
        using qs_partition_spec [of l r b] lr L R S False by auto
      let ?new = "(if k - 1 > l then [(k - 1, l)] else []) @ (if r > k + 1 then [(r, k + 1)] else [])"
      have run: "qs_loop cap b stk = (if cap \<le> 2 * int (length rest) then Some (b1, -1) else qs_loop cap b1 (?new @ rest))"
        using Cons iv False b1(1) by (auto simp: qs_loop.simps [of cap b "(r, l) # rest"] Let_def)
      show ?thesis
      proof (cases "cap \<le> 2 * int (length rest)")
        case True
        then show ?thesis using run wide [OF b1(2)] Cons iv False ge by (intro exI [of _ b1] exI [of _ "-1"]) simp
      next
        case go: False
        have "qs_inv L R b1 (?new @ rest)" using qs_inv_partition [OF inv' L R b1(2-6)] by simp
        moreover have sz: "stk_size (?new @ rest) < stk_size stk" using Cons iv b1(3,4) by auto
        moreover have "0 \<le> stk_size (?new @ rest)" using ge by auto
        ultimately obtain b' ret where "qs_loop cap b1 (?new @ rest) = Some (b', ret)" "same_outside L R b1 b'"
            "ret = 0 \<and> window_sorted b' L R \<or> ret = -1 \<and> cap + 17 \<le> stk_size (?new @ rest)"
          using less.hyps [of "?new @ rest" b1] L R S same_outside_length [OF b1(2)] by fastforce
        then show ?thesis using run go sz same_outside_trans [OF wide [OF b1(2)]]
          by (intro exI [of _ b'] exI [of _ ret]) auto
      qed
    qed
  qed
qed

lemma bit_count_spec:
  assumes "0 \<le> j"
  shows "\<exists>m \<ge> 0. bit_count i j = Some (i + m) \<and> j < 2 ^ nat (m + 1)"
  using assms
proof (induction "nat j" arbitrary: i j rule: less_induct)
  case less
  show ?case
  proof (cases "j div 2 = 0")
    case True
    then show ?thesis using less.prems by (intro exI [of _ 0]) (auto simp: bit_count.simps [of i j])
  next
    case False
    then have "nat (j div 2) < nat j" "0 \<le> j div 2" using less.prems by auto
    then obtain m where m: "0 \<le> m" "bit_count (i + 1) (j div 2) = Some (i + 1 + m)" "j div 2 < 2 ^ nat (m + 1)"
      using less.hyps [of "j div 2" "i + 1"] by auto
    have "j < 2 * 2 ^ nat (m + 1)" using m(3) by simp
    also have "\<dots> = 2 ^ nat (m + 1 + 1)" using m(1) by (simp add: nat_add_distrib)
    finally show ?thesis using False m by (intro exI [of _ "m + 1"]) (auto simp: bit_count.simps [of i j] algebra_simps)
  qed
qed

text \<open>\<open>bit_count\<close> is large enough for short arrays.\<close>

lemma stack_large_enough:
  assumes "0 \<le> m" and "R - 1 < 2 ^ nat (m + 1)" and "R < 652"
  shows "R + 1 < (1 + m) * 64 - 4 + (17::int)"
proof -
  have p: "(2::int) ^ nat (m + 1) \<le> 2 ^ nat (k + 1)" if "m \<le> k" for k using that assms(1) by (intro power_increasing) auto
  show ?thesis using assms p [of 0] p [of 6] p [of 8] by (cases "m \<le> 0"; cases "m \<le> 6"; cases "m \<le> 8") auto
qed

lemma QuickSortAsc_spec:
  assumes "0 \<le> L" and "R < int (length b)" and "R < 2 ^ 30"
  shows "\<exists>b' ret. QuickSortAsc b L R = Some (b', ret) \<and> same_outside L R b b' \<and>
    (ret = 0 \<and> window_sorted b' L R \<or> ret = -1 \<and> 652 \<le> R)"
proof (cases "L < R")
  case False
  then show ?thesis by (intro exI [of _ b] exI [of _ 0]) (auto simp: QuickSortAsc_def window_sorted_def)
next
  case True
  then obtain m where m: "0 \<le> m" "bit_count 1 (R - 1) = Some (1 + m)" "R - 1 < 2 ^ nat (m + 1)"
    using bit_count_spec [of "R - 1" 1] assms(1) by auto
  have "qs_inv L R b [(R, L)]" using True by (simp add: qs_inv_def)
  from qs_loop_spec [OF this assms, of "(1 + m) * 64 - 4"] obtain b' ret where
    r: "qs_loop ((1 + m) * 64 - 4) b [(R, L)] = Some (b', ret)" "same_outside L R b b'"
      "ret = 0 \<and> window_sorted b' L R \<or> ret = -1 \<and> (1 + m) * 64 - 4 + 17 \<le> stk_size [(R, L)]" by blast
  then have "ret = 0 \<and> window_sorted b' L R \<or> ret = -1 \<and> 652 \<le> R"
    using stack_large_enough [OF m(1,3)] assms(1) by force
  then show ?thesis using r(1,2) m(2) True by (simp add: QuickSortAsc_def)
qed

lemma window_sorted_whole: "window_sorted b 0 (int n - 1) \<Longrightarrow> n \<le> length b \<Longrightarrow> sorted (take n b)"
proof (unfold sorted_iff_nth_mono_less, intro allI impI)
  fix i j
  assume w: "window_sorted b 0 (int n - 1)" and n: "n \<le> length b" and ij: "i < j" "j < length (take n b)"
  then have "b ! nat (int i) \<le> b ! nat (int j)" unfolding window_sorted_def by (metis less_imp_le_nat min.strict_boundedE length_take of_nat_0_le_iff of_nat_less_iff zle_diff1_eq)
  then show "take n b ! i \<le> take n b ! j" using ij n by simp
qed

text \<open>The first \<open>n\<close> elements sorted: the use of the heap class.\<close>

lemma QuickSortAsc_prefix:
  assumes "n \<le> length b" and "n \<le> 652"
  shows "QuickSortAsc b 0 (int n - 1) = Some (sort (take n b) @ drop n b, 0)"
proof -
  obtain b' ret where b': "QuickSortAsc b 0 (int n - 1) = Some (b', ret)" "same_outside 0 (int n - 1) b b'"
      "ret = 0 \<and> window_sorted b' 0 (int n - 1) \<or> ret = -1 \<and> 652 \<le> int n - 1"
    using QuickSortAsc_spec [of 0 "int n - 1" b] assms by auto
  then have r: "ret = 0" "window_sorted b' 0 (int n - 1)" using assms(2) by auto
  note len = same_outside_length [OF b'(2)]
  have d: "drop n b' = drop n b" using b'(2) len by (intro nth_equalityI) (auto simp: same_outside_def)
  have "mset (take n b') + mset (drop n b') = mset (take n b) + mset (drop n b)"
    using b'(2) by (simp add: same_outside_def flip: mset_append)
  then have "sort (take n b) = take n b'"
    using window_sorted_whole [OF r(2)] assms(1) len d by (intro properties_for_sort) auto
  then show ?thesis using b'(1) r(1) d append_take_drop_id [of n b'] by simp
qed

text \<open>
  C15. \<open>QuickSortAsc\<close> sorts: on every range inside an array whose positions are below 2 to the 30, so
  that the sum of two positions stays in 32 bits, it ends without an access outside the array, changes
  no element outside the range, permutes the array, and returns 0 with the range in ascending order, or
  -1 when its stack is full, which cannot happen in the first 652 elements of an array.
\<close>

theorem QuickSortAsc_sorts:
  assumes "0 \<le> dwLeft" and "dwRight < int (length pBuf)" and "dwRight < 2 ^ 30"
  shows "\<exists>b ret. QuickSortAsc pBuf dwLeft dwRight = Some (b, ret) \<and> length b = length pBuf \<and> mset b = mset pBuf \<and>
    (\<forall>i < length pBuf. int i < dwLeft \<or> dwRight < int i \<longrightarrow> b ! i = pBuf ! i) \<and>
    (ret = 0 \<and> (\<forall>i j. dwLeft \<le> int i \<and> i < j \<and> int j \<le> dwRight \<longrightarrow> b ! i \<le> b ! j) \<or> ret = -1 \<and> 652 \<le> dwRight)"
proof -
  obtain b ret where b: "QuickSortAsc pBuf dwLeft dwRight = Some (b, ret)" "same_outside dwLeft dwRight pBuf b"
      "ret = 0 \<and> window_sorted b dwLeft dwRight \<or> ret = -1 \<and> 652 \<le> dwRight"
    using QuickSortAsc_spec [OF assms] by blast
  have "b ! i \<le> b ! j" if "window_sorted b dwLeft dwRight" "dwLeft \<le> int i" "i < j" "int j \<le> dwRight" for i j
    using that unfolding window_sorted_def by (metis nat_int of_nat_less_iff)
  then show ?thesis using b by (auto simp: same_outside_def)
qed

theorem QuickSortAsc_sorts_witness:
  "\<exists>b. QuickSortAsc [3, 1, 2 :: int] 0 2 = Some (b, 0) \<and> b ! 0 \<le> b ! 2"
proof -
  have "(2::int) < int (length [3, 1, 2 :: int])" "(2::int) < 2 ^ 30" by simp_all
  from QuickSortAsc_sorts [OF _ this, of 0] obtain b ret where
    "QuickSortAsc [3, 1, 2 :: int] 0 2 = Some (b, ret)"
    "ret = 0 \<and> (\<forall>i j. 0 \<le> int i \<and> i < j \<and> int j \<le> 2 \<longrightarrow> b ! i \<le> b ! j) \<or> ret = -1 \<and> 652 \<le> (2::int)" by auto
  then show ?thesis by auto
qed

end
