(* ===== verification/PriorSort.thy ===== *)
theory PriorSort
  imports GarySort "HOL-Library.Log_Nat"
begin

text \<open>
  The class \<open>CPriorSort\<close> of \<open>src/include/gary_common/gary_priorsort.h\<close>, which keeps the largest \<open>n\<close>
  of the values it is given: first an array, then a heap (children at \<open>2 i\<close> and \<open>2 i + 1\<close>, so that
  the root 0 has the child 1 only). A failed assertion, an access outside one of the two buffers, a fault
  of the sort and a loop that does not end are different errors.
\<close>

section \<open>Errors\<close>

text \<open>\<open>IndexRead i\<close> and \<open>IndexWrite i\<close>: an access to position \<open>i\<close> outside the index buffer.\<close>

datatype prior_fault = AssertFailed | ValuesOut | IndexRead int | IndexWrite int | SortFault | HeapifyLoops

definition need :: "'e \<Rightarrow> 'a option \<Rightarrow> 'e + 'a" where
  "need e x = (case x of None \<Rightarrow> Inl e | Some v \<Rightarrow> Inr v)"

definition and_then :: "'e + 'a \<Rightarrow> ('a \<Rightarrow> 'e + 'b) \<Rightarrow> 'e + 'b" where
  "and_then x f = (case x of Inl e \<Rightarrow> Inl e | Inr v \<Rightarrow> f v)"

lemma need_simps [simp]: "need e None = Inl e" "need e (Some v) = Inr v"
  by (simp_all add: need_def)

lemma and_then_simps [simp]: "and_then (Inl e) f = Inl e" "and_then (Inr v) f = f v"
  by (simp_all add: and_then_def)

section \<open>The class\<close>

record 'a prior_sort =
  m_udwMaxElemNum :: nat
  m_udwMaxSortElemNum :: nat
  m_tpValues :: "'a list"
  m_udwpIdxBuff :: "nat list"
  m_udwCurrElemNum :: nat
  is_sort :: bool

text \<open>\<open>(TUINT32)log2(n)\<close>, the position of the highest bit.\<close>

definition floor_log2 :: "nat \<Rightarrow> nat" where
  "floor_log2 n = floorlog 2 n - 1"

text \<open>What \<open>new\<close> leaves in the two buffers is a parameter.\<close>

definition CPriorSort :: "(nat \<Rightarrow> 'a) \<Rightarrow> (nat \<Rightarrow> nat) \<Rightarrow> nat \<Rightarrow> prior_fault + 'a prior_sort" where
  "CPriorSort junk idx udwMaxElemNum =
     (if 1 \<le> udwMaxElemNum
      then Inr \<lparr>m_udwMaxElemNum = udwMaxElemNum, m_udwMaxSortElemNum = 0,
             m_tpValues = map junk [0..<udwMaxElemNum],
             m_udwpIdxBuff = map idx [0..<floor_log2 udwMaxElemNum + 20],
             m_udwCurrElemNum = 0, is_sort = False\<rparr>
      else Inl AssertFailed)"

definition Reset :: "nat \<Rightarrow> 'a prior_sort \<Rightarrow> 'a prior_sort" where
  "Reset udwMaxSortElemNum s =
     s\<lparr>m_udwCurrElemNum := 0,
       m_udwMaxSortElemNum := (if udwMaxSortElemNum > 0 then udwMaxSortElemNum else m_udwMaxElemNum s),
       is_sort := False\<rparr>"

text \<open>The loops of \<open>Add\<close> that look for an equal value: \<open>n\<close> elements from position \<open>i\<close>.\<close>

fun find_equal :: "'a list \<Rightarrow> 'a \<Rightarrow> nat \<Rightarrow> nat \<Rightarrow> nat option option" where
  "find_equal vals t i 0 = Some None"
| "find_equal vals t i (Suc n) =
     do { x \<leftarrow> rd vals (int i); if x = t then Some (Some i) else find_equal vals t (Suc i) n }"

text \<open>The node with the smallest value among a node and its children.\<close>

definition min_child :: "('a::linorder) list \<Rightarrow> nat \<Rightarrow> nat \<Rightarrow> nat option" where
  "min_child vals num udwIdx =
     do { m \<leftarrow> (if 2 * udwIdx < num
                then do { y \<leftarrow> rd vals (int (2 * udwIdx)); x \<leftarrow> rd vals (int udwIdx);
                          Some (if y < x then 2 * udwIdx else udwIdx) }
                else Some udwIdx);
          if 2 * udwIdx + 1 < num
          then do { y \<leftarrow> rd vals (int (2 * udwIdx + 1)); x \<leftarrow> rd vals (int m);
                    Some (if y < x then 2 * udwIdx + 1 else m) }
          else Some m }"

text \<open>One round: the new stack position and the buffers.\<close>

definition heapify_step :: "nat \<Rightarrow> int \<Rightarrow> ('a::linorder) list \<Rightarrow> nat list \<Rightarrow> prior_fault + (int \<times> 'a list \<times> nat list)" where
  "heapify_step num dwStackPos vals buff =
     and_then (need (IndexRead dwStackPos) (rd buff dwStackPos)) (\<lambda>udwIdx.
     and_then (need ValuesOut (min_child vals num udwIdx)) (\<lambda>m.
       if m \<noteq> udwIdx
       then and_then (need ValuesOut (exch vals (int udwIdx) (int m))) (\<lambda>vals1.
            and_then (need (IndexWrite dwStackPos) (wr buff dwStackPos m)) (\<lambda>buff1. Inr (dwStackPos, vals1, buff1)))
       else Inr (dwStackPos - 1, vals, buff)))"

partial_function (option) heapify_loop ::
    "nat \<Rightarrow> int \<Rightarrow> int \<Rightarrow> ('a::linorder) list \<Rightarrow> nat list \<Rightarrow> (prior_fault + ('a list \<times> nat list)) option" where
  "heapify_loop num dwKeyPos dwStackPos vals buff =
     (if dwStackPos \<ge> dwKeyPos
      then (case heapify_step num dwStackPos vals buff of
              Inl e \<Rightarrow> Some (Inl e)
            | Inr (pos, vals1, buff1) \<Rightarrow> heapify_loop num dwKeyPos pos vals1 buff1)
      else Some (Inr (vals, buff)))"

definition Heapify :: "nat \<Rightarrow> ('a::linorder) prior_sort \<Rightarrow> prior_fault + 'a prior_sort" where
  "Heapify dwKeyPos s =
     and_then (need (IndexWrite (int dwKeyPos)) (wr (m_udwpIdxBuff s) (int dwKeyPos) dwKeyPos)) (\<lambda>buff.
     and_then (need HeapifyLoops (heapify_loop (m_udwMaxSortElemNum s) (int dwKeyPos) (int dwKeyPos) (m_tpValues s) buff)) (\<lambda>res.
     and_then res (\<lambda>vb. Inr (s\<lparr>m_tpValues := fst vb, m_udwpIdxBuff := snd vb\<rparr>))))"

text \<open>The result of \<open>QuickSortAsc\<close> is not looked at.\<close>

definition Add_below :: "('a::linorder) \<Rightarrow> 'a prior_sort \<Rightarrow> prior_fault + 'a prior_sort" where
  "Add_below tValue s =
     and_then (need ValuesOut (find_equal (m_tpValues s) tValue 0 (m_udwCurrElemNum s))) (\<lambda>f.
       if f \<noteq> None then Inr s
       else and_then (need ValuesOut (wr (m_tpValues s) (int (m_udwCurrElemNum s)) tValue)) (\<lambda>vals.
              let cur = m_udwCurrElemNum s + 1
              in if cur = m_udwMaxSortElemNum s
                 then and_then (need SortFault (QuickSortAsc vals 0 (int (m_udwMaxSortElemNum s) - 1))) (\<lambda>vr.
                        Inr (s\<lparr>m_tpValues := fst vr, m_udwCurrElemNum := cur\<rparr>))
                 else Inr (s\<lparr>m_tpValues := vals, m_udwCurrElemNum := cur\<rparr>)))"

definition Add_full :: "('a::linorder) \<Rightarrow> 'a prior_sort \<Rightarrow> prior_fault + 'a prior_sort" where
  "Add_full tValue s =
     and_then (need ValuesOut (rd (m_tpValues s) 0)) (\<lambda>x.
       if x \<ge> tValue then Inr s
       else and_then (need ValuesOut (find_equal (m_tpValues s) tValue 0 (m_udwCurrElemNum s))) (\<lambda>f.
              case f of
                Some i \<Rightarrow> Heapify i s
              | None \<Rightarrow> and_then (need ValuesOut (wr (m_tpValues s) 0 tValue)) (\<lambda>vals. Heapify 0 (s\<lparr>m_tpValues := vals\<rparr>))))"

definition Add_prior :: "('a::linorder) \<Rightarrow> 'a prior_sort \<Rightarrow> prior_fault + 'a prior_sort" where
  "Add_prior tValue s =
     (if m_udwCurrElemNum s < m_udwMaxSortElemNum s then Add_below tValue s
      else if m_udwCurrElemNum s = m_udwMaxSortElemNum s then Add_full tValue s
      else Inr s)"

text \<open>The number of results, the buffer, and the new state.\<close>

definition FillResult :: "('a::linorder) prior_sort \<Rightarrow> prior_fault + (nat \<times> 'a list \<times> 'a prior_sort)" where
  "FillResult s =
     and_then (if is_sort s then Inr s
               else and_then (need SortFault (QuickSortAsc (m_tpValues s) 0 (int (m_udwCurrElemNum s) - 1))) (\<lambda>vr.
                      Inr (s\<lparr>m_tpValues := fst vr, is_sort := True\<rparr>)))
       (\<lambda>s1. Inr (m_udwCurrElemNum s1, m_tpValues s1, s1))"

section \<open>The largest elements of a set\<close>

definition is_top :: "nat \<Rightarrow> ('a::linorder) set \<Rightarrow> 'a set \<Rightarrow> bool" where
  "is_top n S T \<longleftrightarrow> T \<subseteq> S \<and> card T = n \<and> (\<forall>x \<in> T. \<forall>y \<in> S - T. y < x)"

lemma is_top_all: "is_top (card S) S S"
  by (simp add: is_top_def)

lemma is_top_small: "is_top n S T \<Longrightarrow> \<forall>x \<in> T. t \<le> x \<Longrightarrow> is_top n (insert t S) T"
  by (auto simp: is_top_def order_le_less)

lemma is_top_replace:
  assumes t: "is_top n S T" and n: "0 < n" and m: "m \<in> T" "\<forall>x \<in> T. m \<le> x" and "m < v" and "v \<notin> T"
  shows "is_top n (insert v S) (insert v (T - {m}))"
proof -
  have "finite T" using t n card_ge_0_finite by (auto simp: is_top_def)
  then have "card (insert v (T - {m})) = n" using t n m(1) assms(6) by (simp add: is_top_def)
  moreover have "y < x" if "x \<in> insert v (T - {m})" "y \<in> insert v S - insert v (T - {m})" for x y
  proof -
    have y: "y = m \<or> y \<in> S - T" using that(2) by auto
    have "y \<le> m" using y t m(1) by (auto simp: is_top_def less_imp_le)
    moreover have "x = v \<or> m < x" using that(1) m(2) by (auto simp: order_le_less)
    ultimately show ?thesis using assms(5) by auto
  qed
  ultimately show ?thesis using t by (auto simp: is_top_def)
qed

lemma is_top_sorted_list:
  assumes "is_top n S T" and "finite S"
  shows "sorted_list_of_set T = drop (card S - n) (sorted_list_of_set S)"
proof -
  have T: "T \<subseteq> S" "finite T" "card T = n" "\<forall>x \<in> T. \<forall>y \<in> S - T. y < x"
    using assms finite_subset by (auto simp: is_top_def)
  have "sorted (sorted_list_of_set (S - T) @ sorted_list_of_set T)"
    using T assms(2) by (auto simp: sorted_append less_imp_le)
  moreover have "distinct (sorted_list_of_set (S - T) @ sorted_list_of_set T)" using T assms(2) by auto
  moreover have "set (sorted_list_of_set (S - T) @ sorted_list_of_set T) = S" using T assms(2) by auto
  ultimately have "sorted_list_of_set S = sorted_list_of_set (S - T) @ sorted_list_of_set T"
    using assms(2) by (intro sorted_distinct_set_unique) auto
  moreover have "length (sorted_list_of_set (S - T)) = card S - n" using T assms(2) by (simp add: card_Diff_subset)
  ultimately show ?thesis by simp
qed

section \<open>Sifting down\<close>

definition is_heap :: "nat \<Rightarrow> ('a::linorder) list \<Rightarrow> bool" where
  "is_heap n v \<longleftrightarrow> (\<forall>i. 1 \<le> i \<and> i < n \<longrightarrow> v ! (i div 2) \<le> v ! i)"

text \<open>A heap but for the node \<open>k\<close>, which may be larger than its children.\<close>

definition heap_except :: "nat \<Rightarrow> nat \<Rightarrow> ('a::linorder) list \<Rightarrow> bool" where
  "heap_except k n v \<longleftrightarrow> (\<forall>i. 1 \<le> i \<and> i < n \<longrightarrow> i div 2 \<noteq> k \<longrightarrow> v ! (i div 2) \<le> v ! i) \<and>
     (\<forall>i. 1 \<le> k \<and> 1 \<le> i \<and> i < n \<and> i div 2 = k \<longrightarrow> v ! (k div 2) \<le> v ! i)"

lemma is_heap_root:
  assumes "is_heap n v" and "i < n"
  shows "v ! 0 \<le> v ! i"
  using assms(2)
proof (induction i rule: less_induct)
  case (less i)
  show ?case
  proof (cases "i = 0")
    case False
    then have "v ! 0 \<le> v ! (i div 2)" using less by simp
    also have "\<dots> \<le> v ! i" using assms(1) less.prems False by (simp add: is_heap_def)
    finally show ?thesis .
  qed simp
qed

lemma sorted_is_heap: "sorted (take n v) \<Longrightarrow> n \<le> length v \<Longrightarrow> is_heap n v"
  unfolding is_heap_def by (auto simp: sorted_iff_nth_mono)

lemma min_child_spec:
  assumes "k < n" and "n \<le> length v"
  shows "\<exists>m. min_child v n k = Some m \<and> k \<le> m \<and> m < n \<and> (m \<noteq> k \<longrightarrow> m div 2 = k \<and> v ! m < v ! k) \<and>
    (\<forall>i. 1 \<le> i \<and> i < n \<and> i div 2 = k \<longrightarrow> v ! m \<le> v ! i)"
proof -
  define m1 where "m1 = (if 2 * k < n \<and> v ! (2 * k) < v ! k then 2 * k else k)"
  define m where "m = (if 2 * k + 1 < n \<and> v ! (2 * k + 1) < v ! m1 then 2 * k + 1 else m1)"
  have m1n: "m1 < n" using assms by (simp add: m1_def)
  have r: "rd v (int i) = Some (v ! i)" if "i < n" for i using that assms(2) by simp
  have "min_child v n k = Some m"
    using assms m1n r [of k] r [of m1] r [of "2 * k"] r [of "2 * k + 1"]
    by (auto simp: min_child_def m1_def m_def simp del: rd_Some)
  moreover have "v ! m \<le> v ! i" if "i < n" "i div 2 = k" for i
  proof -
    have "i = 2 * k \<or> i = 2 * k + 1" using that(2) by linarith
    then show ?thesis using that(1) by (auto simp: m_def m1_def not_less dest: less_imp_le)
  qed
  moreover have "m \<noteq> k \<longrightarrow> m div 2 = k \<and> v ! m < v ! k" by (auto simp: m_def m1_def)
  moreover have "k \<le> m" "m < n" using assms by (auto simp: m_def m1_def)
  ultimately show ?thesis by blast
qed

lemma take_list_swap: "i < n \<Longrightarrow> j < n \<Longrightarrow> n \<le> length v \<Longrightarrow> take n (list_swap v i j) = list_swap (take n v) i j"
  by (auto simp: list_swap_def take_update_swap)

text \<open>One exchange moves the exception from a node to its smaller child.\<close>

lemma heap_except_step:
  assumes h: "heap_except k n v" and m: "m div 2 = k" "m \<noteq> k" "k < n" "m < n" "v ! m < v ! k"
    and least: "\<forall>i. 1 \<le> i \<and> i < n \<and> i div 2 = k \<longrightarrow> v ! m \<le> v ! i" and n: "n \<le> length v"
  shows "heap_except m n (list_swap v k m)"
proof -
  let ?v = "list_swap v k m"
  have km: "k < m" "1 \<le> m" using m(1,2) by auto
  have nth: "?v ! i = (if i = k then v ! m else if i = m then v ! k else v ! i)" if "i < n" for i
    using that m n by (simp add: nth_list_swap)
  have a: "v ! (i div 2) \<le> v ! i" if "1 \<le> i" "i < n" "i div 2 \<noteq> k" for i using h that by (simp add: heap_except_def)
  have b: "v ! (k div 2) \<le> v ! i" if "1 \<le> k" "1 \<le> i" "i < n" "i div 2 = k" for i using h that by (simp add: heap_except_def)
  have "?v ! (i div 2) \<le> ?v ! i" if i: "1 \<le> i" "i < n" "i div 2 \<noteq> m" for i
  proof -
    have lt: "i div 2 < i" using i(1) by simp
    consider "i = m" | "i \<noteq> m" "i div 2 = k" | "i = k" | "i \<noteq> m" "i div 2 \<noteq> k" "i \<noteq> k" by blast
    then show ?thesis
    proof cases
      case 1
      then show ?thesis using nth [of k] nth [of m] m km by (simp add: less_imp_le)
    next
      case 2
      then show ?thesis using nth [of k] nth [of i] least i lt m by auto
    next
      case 3
      then show ?thesis using nth [of k] nth [of "k div 2"] i lt b [of m] m km by auto
    next
      case 4
      then show ?thesis using nth [of i] nth [of "i div 2"] i lt a by auto
    qed
  qed
  moreover have "?v ! (m div 2) \<le> ?v ! i" if i: "1 \<le> i" "i < n" "i div 2 = m" for i
  proof -
    have "m < i" using i km by auto
    then show ?thesis using nth [of k] nth [of i] a [of i] i m km by auto
  qed
  ultimately show ?thesis by (auto simp: heap_except_def)
qed

lemma heapify_loop_spec:
  assumes "heap_except k n v" and "k < n" and "n \<le> length v" and "p < length buff" and "buff ! p = k"
  shows "\<exists>v' buff'. heapify_loop n (int p) (int p) v buff = Some (Inr (v', buff')) \<and> length v' = length v \<and> length buff' = length buff \<and>
    mset (take n v') = mset (take n v) \<and> is_heap n v'"
  using assms
proof (induction "n - k" arbitrary: k v buff rule: less_induct)
  case less
  note P = less.prems
  obtain m where m: "min_child v n k = Some m" "k \<le> m" "m < n" "m \<noteq> k \<longrightarrow> m div 2 = k \<and> v ! m < v ! k"
      "\<forall>i. 1 \<le> i \<and> i < n \<and> i div 2 = k \<longrightarrow> v ! m \<le> v ! i"
    using min_child_spec [OF P(2,3)] by blast
  show ?case
  proof (cases "m = k")
    case True
    have "is_heap n v" using P(1) m(5) True unfolding is_heap_def heap_except_def by blast
    moreover have "heapify_loop n (int p) (int p) v buff = Some (Inr (v, buff))"
      using m(1) True P(4,5) by (simp add: heapify_step_def heapify_loop.simps [of n "int p" "int p"] heapify_loop.simps [of n "int p" "int p - 1"])
    ultimately show ?thesis by auto
  next
    case False
    let ?v = "list_swap v k m" and ?b = "buff[p := m]"
    have run: "heapify_loop n (int p) (int p) v buff = heapify_loop n (int p) (int p) ?v ?b"
      using m(1,3) False P by (simp add: heapify_step_def heapify_loop.simps [of n "int p" "int p" v])
    have "heap_except m n ?v" using heap_except_step [OF P(1) _ False P(2) m(3)] m(4,5) False P(3) by blast
    moreover have "n - m < n - k" using m(2,3) False by linarith
    ultimately obtain v' buff' where r: "heapify_loop n (int p) (int p) ?v ?b = Some (Inr (v', buff'))" "length v' = length v" "length buff' = length buff"
        "mset (take n v') = mset (take n ?v)" "is_heap n v'"
      using less.hyps [of m ?v ?b] m(2,3) False P by auto
    have "mset (take n ?v) = mset (take n v)" using take_list_swap [of k n m v] P m(3) by simp
    then show ?thesis using run r by auto
  qed
qed

section \<open>What the class keeps\<close>

text \<open>The values in the buffer are the \<open>n\<close> largest of the set \<open>S\<close> of all values so far.\<close>

definition prior_inv :: "nat \<Rightarrow> nat \<Rightarrow> ('a::linorder) set \<Rightarrow> 'a prior_sort \<Rightarrow> bool" where
  "prior_inv n bufs S s \<longleftrightarrow> m_udwMaxSortElemNum s = n \<and> 0 < n \<and> n \<le> 652 \<and> n \<le> length (m_tpValues s) \<and>
     length (m_udwpIdxBuff s) = bufs \<and> 0 < bufs \<and> finite S \<and> \<not> is_sort s \<and>
     m_udwCurrElemNum s = min n (card S) \<and>
     is_top (m_udwCurrElemNum s) S (set (take (m_udwCurrElemNum s) (m_tpValues s))) \<and>
     (m_udwCurrElemNum s = n \<longrightarrow> is_heap n (m_tpValues s))"

lemma prior_invD:
  assumes "prior_inv n bufs S s"
  shows "m_udwMaxSortElemNum s = n" "0 < n" "n \<le> 652" "n \<le> length (m_tpValues s)"
    "length (m_udwpIdxBuff s) = bufs" "0 < bufs" "finite S" "\<not> is_sort s"
    "m_udwCurrElemNum s = min n (card S)"
    "is_top (m_udwCurrElemNum s) S (set (take (m_udwCurrElemNum s) (m_tpValues s)))"
    "m_udwCurrElemNum s = n \<Longrightarrow> is_heap n (m_tpValues s)"
  using assms unfolding prior_inv_def by auto

lemma prior_invI:
  assumes "m_udwMaxSortElemNum s = n" "0 < n" "n \<le> 652" "n \<le> length (m_tpValues s)"
    "length (m_udwpIdxBuff s) = bufs" "0 < bufs" "finite S" "\<not> is_sort s" "m_udwCurrElemNum s = min n (card S)"
    "is_top (m_udwCurrElemNum s) S (set (take (m_udwCurrElemNum s) (m_tpValues s)))"
    "m_udwCurrElemNum s = n \<Longrightarrow> is_heap n (m_tpValues s)"
  shows "prior_inv n bufs S s"
  using assms unfolding prior_inv_def by auto

lemma find_equal_spec:
  "i + n \<le> length v \<Longrightarrow> \<exists>f. find_equal v t i n = Some f \<and>
    (case f of None \<Rightarrow> t \<notin> set (take n (drop i v)) | Some k \<Rightarrow> i \<le> k \<and> k < i + n \<and> v ! k = t)"
proof (induction n arbitrary: i)
  case (Suc n)
  have r: "rd v (int i) = Some (v ! i)" using Suc.prems by simp
  have d: "drop i v = v ! i # drop (Suc i) v" using Suc.prems by (simp add: Cons_nth_drop_Suc)
  show ?case
  proof (cases "v ! i = t")
    case False
    obtain f where f: "find_equal v t (Suc i) n = Some f"
        "case f of None \<Rightarrow> t \<notin> set (take n (drop (Suc i) v)) | Some k \<Rightarrow> Suc i \<le> k \<and> k < Suc i + n \<and> v ! k = t"
      using Suc.IH [of "Suc i"] Suc.prems by auto
    then show ?thesis using False r d by (auto split: option.splits)
  qed (simp add: r)
qed simp

lemma find_equal_front:
  assumes "n \<le> length v"
  obtains "find_equal v t 0 n = Some None" "t \<notin> set (take n v)"
  | k where "find_equal v t 0 n = Some (Some k)" "k < n" "v ! k = t"
proof -
  obtain f where f: "find_equal v t 0 n = Some f"
      "case f of None \<Rightarrow> t \<notin> set (take n (drop 0 v)) | Some k \<Rightarrow> 0 \<le> k \<and> k < 0 + n \<and> v ! k = t"
    using find_equal_spec [of 0 n v t] assms by force
  then show thesis using that by (cases f) auto
qed

lemma is_top_card_eq: "finite S \<Longrightarrow> is_top (card S) S T \<Longrightarrow> T = S"
  by (auto simp: is_top_def card_subset_eq)

lemma Add_below_inv:
  assumes inv: "prior_inv n bufs S s" and lt: "m_udwCurrElemNum s < n"
  shows "\<exists>s'. Add_below t s = Inr s' \<and> prior_inv n bufs (insert t S) s'"
proof -
  note I = prior_invD [OF inv]
  let ?c = "m_udwCurrElemNum s" and ?v = "m_tpValues s"
  have c: "?c = card S" using I(9) lt by simp
  have S: "set (take ?c ?v) = S" using is_top_card_eq [OF I(7)] I(10) c by simp
  have cl: "?c < length ?v" using lt I(4) by simp
  have "?c \<le> length ?v" using cl by simp
  then show ?thesis
  proof (cases rule: find_equal_front [of ?c ?v t])
    case 1
    let ?w = "?v[?c := t]"
    have tS: "t \<notin> S" using 1 S by simp
    have cc: "card (insert t S) = Suc ?c" using tS I(7) c by simp
    have tk: "take (Suc ?c) ?w = take ?c ?v @ [t]" using cl by (simp add: take_Suc_conv_app_nth)
    have w: "wr ?v (int ?c) t = Some ?w" using cl by simp
    have top: "is_top (Suc ?c) (insert t S) (insert t S)" using is_top_all [of "insert t S"] cc by simp
    show ?thesis
    proof (cases "Suc ?c = n")
      case True
      let ?x = "sort (take n ?w) @ drop n ?w"
      have q: "QuickSortAsc ?w 0 (int n - 1) = Some (?x, 0)" using I(3,4) by (intro QuickSortAsc_prefix) simp_all
      have "Add_below t s = Inr (s\<lparr>m_tpValues := ?x, m_udwCurrElemNum := Suc ?c\<rparr>)"
        using 1(1) w q True I(1) by (simp add: Add_below_def)
      moreover have tx: "take n ?x = sort (take n ?w)" using I(4) by simp
      then have heap: "is_heap n ?x" using I(4) by (intro sorted_is_heap) simp_all
      have "set (take n ?x) = insert t S" unfolding tx using tk S True by simp
      then have "is_top n (insert t S) (set (take n ?x))" using top True by simp
      then have "prior_inv n bufs (insert t S) (s\<lparr>m_tpValues := ?x, m_udwCurrElemNum := Suc ?c\<rparr>)"
        using I(1-8) True cc heap by (intro prior_invI) (simp_all del: take_append)
      ultimately show ?thesis by blast
    next
      case False
      have "Add_below t s = Inr (s\<lparr>m_tpValues := ?w, m_udwCurrElemNum := Suc ?c\<rparr>)"
        using 1(1) w False I(1) by (simp add: Add_below_def)
      moreover have "prior_inv n bufs (insert t S) (s\<lparr>m_tpValues := ?w, m_udwCurrElemNum := Suc ?c\<rparr>)"
        using I False cc top S tk lt by (intro prior_invI) simp_all
      ultimately show ?thesis by blast
    qed
  next
    case (2 k)
    then have "t \<in> S" using S cl by (metis in_set_conv_nth length_take min.absorb4 nth_take)
    then show ?thesis using 2(1) inv by (simp add: Add_below_def insert_absorb)
  qed
qed

text \<open>
  A full buffer: an equal value is only a call of \<open>Heapify\<close> without effect, provided that its
  position is one of the index buffer.
\<close>

lemma Heapify_heap:
  assumes inv: "prior_inv n bufs S s" and full: "m_udwCurrElemNum s = n" and k: "k < n" "k < bufs"
  shows "\<exists>s'. Heapify k s = Inr s' \<and> prior_inv n bufs S s'"
proof -
  note I = prior_invD [OF inv]
  have h: "is_heap n (m_tpValues s)" using I(11) full by simp
  then obtain m where m: "min_child (m_tpValues s) n k = Some m" "m \<noteq> k \<longrightarrow> m div 2 = k \<and> m_tpValues s ! m < m_tpValues s ! k" "k \<le> m" "m < n"
    using min_child_spec [OF k(1) I(4)] by blast
  have "m = k"
  proof (rule ccontr)
    assume "m \<noteq> k"
    then have "m_tpValues s ! (m div 2) \<le> m_tpValues s ! m" using h m(3,4) by (simp add: is_heap_def)
    then show False using m(2) \<open>m \<noteq> k\<close> by auto
  qed
  then have "Heapify k s = Inr (s\<lparr>m_udwpIdxBuff := (m_udwpIdxBuff s)[k := k]\<rparr>)"
    using m(1) I(1,5) k
    by (simp add: Heapify_def heapify_step_def heapify_loop.simps [of n "int k" "int k"] heapify_loop.simps [of n "int k" "int k - 1"])
  moreover have "prior_inv n bufs S (s\<lparr>m_udwpIdxBuff := (m_udwpIdxBuff s)[k := k]\<rparr>)"
    using I by (intro prior_invI) simp_all
  ultimately show ?thesis by blast
qed

text \<open>A new larger value takes the place of the smallest.\<close>

lemma Heapify_replace:
  assumes inv: "prior_inv n bufs S s" and full: "m_udwCurrElemNum s = n"
    and t: "m_tpValues s ! 0 < t" "t \<notin> set (take n (m_tpValues s))"
  shows "\<exists>s'. Heapify 0 (s\<lparr>m_tpValues := (m_tpValues s)[0 := t]\<rparr>) = Inr s' \<and> prior_inv n bufs (insert t S) s'"
proof -
  note I = prior_invD [OF inv]
  let ?v = "m_tpValues s" and ?b = "(m_udwpIdxBuff s)[0 := 0]"
  let ?w = "?v[0 := t]" and ?T = "set (take n ?v)"
  have h: "is_heap n ?v" using I(11) full by simp
  have "heap_except 0 n ?w" using h by (auto simp: heap_except_def is_heap_def nth_list_update)
  then obtain v' b' where r: "heapify_loop n (int 0) (int 0) ?w ?b = Some (Inr (v', b'))" "length v' = length ?w" "length b' = length ?b"
      "mset (take n v') = mset (take n ?w)" "is_heap n v'"
    using heapify_loop_spec [of 0 n ?w 0 ?b] I(2,4,5,6) by auto
  have top: "is_top n S ?T" using I(10) full by simp
  have root: "?v ! 0 \<in> ?T" using I(2,4) by (auto simp: in_set_conv_nth)
  have least: "\<forall>x \<in> ?T. ?v ! 0 \<le> x" using is_heap_root [OF h] I(4) by (auto simp: in_set_conv_nth)
  have ne: "take n ?v \<noteq> []" using I(2,4) by auto
  have dis: "distinct (take n ?v)" using top I(4) by (intro card_distinct) (simp add: is_top_def)
  have tw: "take n ?w = t # tl (take n ?v)" using ne I(2) by (cases "?v"; cases n) auto
  have hd: "take n ?v = ?v ! 0 # tl (take n ?v)" using ne I(2) by (cases "?v"; cases n) auto
  have "?v ! 0 \<notin> set (tl (take n ?v))" "set (tl (take n ?v)) \<subseteq> ?T" using dis hd by (metis distinct.simps(2), metis list.set_intros(2) subsetI)
  then have "set (tl (take n ?v)) = ?T - {?v ! 0}" using hd by (metis Diff_insert_absorb list.simps(15))
  then have "set (take n v') = insert t (?T - {?v ! 0})" using r(4) tw by (metis list.simps(15) mset_eq_setD)
  then have "is_top n (insert t S) (set (take n v'))" using is_top_replace [OF top I(2) root least t] by simp
  moreover have "n \<le> card S" using I(9) full by simp
  then have "n \<le> card (insert t S)" using I(7) card_insert_le [of S t] by simp
  ultimately have "prior_inv n bufs (insert t S) (s\<lparr>m_tpValues := v', m_udwpIdxBuff := b'\<rparr>)"
    using I(1-8) full r by (intro prior_invI) simp_all
  moreover have "Heapify 0 (s\<lparr>m_tpValues := ?w\<rparr>) = Inr (s\<lparr>m_tpValues := v', m_udwpIdxBuff := b'\<rparr>)"
    using r(1) I(1,5,6) by (simp add: Heapify_def)
  ultimately show ?thesis by blast
qed

lemma Add_full_inv:
  assumes inv: "prior_inv n bufs S s" and full: "m_udwCurrElemNum s = n" and b: "n \<le> bufs \<or> t \<notin> S"
  shows "\<exists>s'. Add_full t s = Inr s' \<and> prior_inv n bufs (insert t S) s'"
proof -
  note I = prior_invD [OF inv]
  let ?v = "m_tpValues s"
  have "0 < length ?v" using I(2,4) by linarith
  then have rd0: "rd ?v 0 = Some (?v ! 0)" and wr0: "wr ?v 0 t = Some (?v[0 := t])" by (simp_all add: rd_def wr_def)
  have top: "is_top n S (set (take n ?v))" using I(10) full by simp
  have least: "\<forall>x \<in> set (take n ?v). ?v ! 0 \<le> x" using is_heap_root I(4,11) full by (auto simp: in_set_conv_nth)
  show ?thesis
  proof (cases "t \<le> ?v ! 0")
    case True
    have "is_top n (insert t S) (set (take n ?v))" using least True by (intro is_top_small [OF top]) auto
    moreover have "n \<le> card S" using I(9) full by simp
    then have "n \<le> card (insert t S)" using I(7) card_insert_le [of S t] by simp
    ultimately have "prior_inv n bufs (insert t S) s" using I full by (intro prior_invI) simp_all
    then show ?thesis using rd0 True by (simp add: Add_full_def)
  next
    case False
    show ?thesis
    proof (cases rule: find_equal_front [OF I(4), of t])
      case 1
      have "Add_full t s = Heapify 0 (s\<lparr>m_tpValues := ?v[0 := t]\<rparr>)" using 1(1) False rd0 wr0 full by (simp add: Add_full_def)
      then show ?thesis using Heapify_replace [OF inv full _ 1(2)] False by simp
    next
      case (2 k)
      have "t \<in> set (take n ?v)" using 2(2,3) I(4) by (auto simp: in_set_conv_nth)
      then have tS: "t \<in> S" using top by (auto simp: is_top_def)
      then have "k < bufs" using b 2(2) by auto
      then show ?thesis using Heapify_heap [OF inv full 2(2)] 2(1) False rd0 full tS by (simp add: Add_full_def insert_absorb)
    qed
  qed
qed

lemma Add_inv:
  assumes inv: "prior_inv n bufs S s" and b: "n \<le> bufs \<or> t \<notin> S"
  shows "\<exists>s'. Add_prior t s = Inr s' \<and> prior_inv n bufs (insert t S) s'"
proof -
  note I = prior_invD [OF inv]
  consider "m_udwCurrElemNum s < n" | "m_udwCurrElemNum s = n" using I(9) by linarith
  then show ?thesis
    using Add_below_inv [OF inv, of t] Add_full_inv [OF inv _ b] I(1) by cases (simp_all add: Add_prior_def)
qed

section \<open>The whole use of the class\<close>

fun add_all :: "('a::linorder) list \<Rightarrow> 'a prior_sort \<Rightarrow> prior_fault + 'a prior_sort" where
  "add_all [] s = Inr s"
| "add_all (t # ts) s = and_then (Add_prior t s) (add_all ts)"

lemma add_all_inv:
  assumes "prior_inv n bufs S s" and "n \<le> bufs \<or> distinct ts \<and> S \<inter> set ts = {}"
  shows "\<exists>s'. add_all ts s = Inr s' \<and> prior_inv n bufs (S \<union> set ts) s'"
  using assms
proof (induction ts arbitrary: S s)
  case (Cons t ts)
  have "n \<le> bufs \<or> t \<notin> S" using Cons.prems(2) by auto
  then obtain s1 where s1: "Add_prior t s = Inr s1" "prior_inv n bufs (insert t S) s1" using Add_inv [OF Cons.prems(1)] by blast
  have "n \<le> bufs \<or> distinct ts \<and> insert t S \<inter> set ts = {}" using Cons.prems(2) by auto
  then obtain s' where "add_all ts s1 = Inr s'" "prior_inv n bufs (insert t S \<union> set ts) s'" using Cons.IH [OF s1(2)] by blast
  then show ?case using s1(1) by auto
qed simp

lemma FillResult_top:
  assumes inv: "prior_inv n bufs S s"
  shows "\<exists>vals s'. FillResult s = Inr (min n (card S), vals, s') \<and>
    take (min n (card S)) vals = drop (card S - n) (sorted_list_of_set S)"
proof -
  note I = prior_invD [OF inv]
  let ?c = "m_udwCurrElemNum s" and ?v = "m_tpValues s"
  have c: "?c \<le> length ?v" "?c \<le> 652" using I(3,4,9) by auto
  have "FillResult s = Inr (?c, sort (take ?c ?v) @ drop ?c ?v, s\<lparr>m_tpValues := sort (take ?c ?v) @ drop ?c ?v, is_sort := True\<rparr>)"
    using QuickSortAsc_prefix [OF c] I(8) by (simp add: FillResult_def)
  moreover have "take ?c (sort (take ?c ?v) @ drop ?c ?v) = sort (take ?c ?v)" using c(1) by simp
  moreover have "distinct (take ?c ?v)" using I(10) c(1) by (intro card_distinct) (simp add: is_top_def)
  then have "sort (take ?c ?v) = sorted_list_of_set (set (take ?c ?v))" by (simp add: sorted_list_of_set_sort_remdups distinct_remdups_id)
  moreover have "\<dots> = drop (card S - ?c) (sorted_list_of_set S)" by (rule is_top_sorted_list [OF I(10,7)])
  moreover have "card S - ?c = card S - n" using I(9) by simp
  ultimately show ?thesis using I(9) by simp
qed

lemma fresh_inv:
  assumes "1 \<le> num" and "n = (if k > 0 then k else num)" and "n \<le> num" and "n \<le> 652"
  shows "\<exists>s. CPriorSort vals idx num = Inr s \<and> prior_inv n (floor_log2 num + 20) {} (Reset k s)"
  using assms by (auto simp: CPriorSort_def Reset_def prior_inv_def is_top_def)

text \<open>
  C17. \<open>CPriorSort\<close> finds the top \<open>n\<close>, for \<open>n\<close> at most 652 (the range in which \<open>QuickSortAsc\<close> cannot
  fail) and at most the room of the object: after \<open>Reset\<close> and a sequence of calls of \<open>Add\<close> in which no
  value is added twice, or any sequence when \<open>n\<close> is at most the size of the index buffer, \<open>FillResult\<close>
  returns the \<open>n\<close> largest different values, or all when there are fewer, in ascending order.
\<close>

theorem CPriorSort_top_n:
  assumes "1 \<le> num" and "n = (if k > 0 then k else num)" and "n \<le> num" and "n \<le> 652"
    and "n \<le> floor_log2 num + 20 \<or> distinct ts"
  shows "\<exists>s0 s1 vals s2. CPriorSort junk idx num = Inr s0 \<and> add_all ts (Reset k s0) = Inr s1 \<and>
    FillResult s1 = Inr (min n (card (set ts)), vals, s2) \<and>
    take (min n (card (set ts))) vals = drop (card (set ts) - n) (sorted_list_of_set (set ts))"
proof -
  obtain s0 where s0: "CPriorSort junk idx num = Inr s0" "prior_inv n (floor_log2 num + 20) {} (Reset k s0)"
    using fresh_inv [OF assms(1-4)] by blast
  obtain s1 where s1: "add_all ts (Reset k s0) = Inr s1" "prior_inv n (floor_log2 num + 20) (set ts) s1"
    using add_all_inv [OF s0(2), of ts] assms(5) by auto
  then show ?thesis using s0(1) FillResult_top [OF s1(2)] by blast
qed

theorem CPriorSort_top_n_witness:
  "\<exists>s0 s1 vals s2. CPriorSort (\<lambda>_. 0::int) (\<lambda>_. 0) 5 = Inr s0 \<and> add_all [4, 1, 7, 4, 9] (Reset 2 s0) = Inr s1 \<and>
    FillResult s1 = Inr (2, vals, s2) \<and> take 2 vals = [7, 9]"
proof -
  have c: "card (set [4, 1, 7, 4, 9::int]) = 4" by (simp add: card_insert_if)
  have l: "sorted_list_of_set (set [4, 1, 7, 4, 9::int]) = [1, 4, 7, 9]"
    unfolding sorted_list_of_set_sort_remdups by simp
  show ?thesis
    using CPriorSort_top_n [of 5 2 2 "[4, 1, 7, 4, 9::int]" "\<lambda>_. 0" "\<lambda>_. 0", unfolded c l] by auto
qed

text \<open>An equal value at a position beyond the index buffer.\<close>

lemma Add_full_overrun:
  assumes inv: "prior_inv n bufs S s" and full: "m_udwCurrElemNum s = n"
    and i: "bufs \<le> i" "i < n" and t: "m_tpValues s ! i = t"
  shows "Add_prior t s = Inl (IndexWrite (int i)) \<and> t \<in> S"
proof -
  note I = prior_invD [OF inv]
  let ?v = "m_tpValues s"
  have h: "is_heap n ?v" using I(11) full by simp
  have top: "is_top n S (set (take n ?v))" using I(10) full by simp
  have dis: "distinct (take n ?v)" using top I(4) by (intro card_distinct) (simp add: is_top_def)
  have only: "k = i" if "k < n" "?v ! k = t" for k
    using that t i(2) dis I(4) nth_eq_iff_index_eq [OF dis, of k i] by simp
  have "?v ! 0 < t" using is_heap_root [OF h i(2)] t only [of 0] I(2,6) i(1) by (auto simp: order_le_less)
  moreover have mem: "t \<in> set (take n ?v)" using t i(2) I(4) by (auto simp: in_set_conv_nth)
  then have "find_equal ?v t 0 n = Some (Some i)"
    using only by (cases rule: find_equal_front [OF I(4), of t]) auto
  moreover have "wr (m_udwpIdxBuff s) (int i) i = None" using I(5) i(1) by (simp add: wr_def)
  moreover have "0 < length ?v" using I(2,4) by linarith
  ultimately show ?thesis using full I(1) mem top by (auto simp: Add_prior_def Add_full_def Heapify_def rd_def not_le is_top_def)
qed

text \<open>
  C18. The index buffer is too small: when \<open>n\<close> different values with \<open>log2(num) + 20 < n\<close> have been
  added, adding again the one at position \<open>log2(num) + 20\<close> calls \<open>Heapify\<close> with that position, which
  writes outside \<open>m_udwpIdxBuff\<close>.
\<close>

theorem Heapify_overruns_index_buffer:
  assumes "n \<le> num" and "n \<le> 652" and "floor_log2 num + 20 < n" and "distinct ts" and "length ts = n"
  shows "\<exists>s0 s1. CPriorSort junk idx num = Inr s0 \<and> add_all ts (Reset n s0) = Inr s1 \<and>
    length (m_udwpIdxBuff s1) = floor_log2 num + 20 \<and>
    m_tpValues s1 ! (floor_log2 num + 20) \<in> set ts \<and> Add_prior (m_tpValues s1 ! (floor_log2 num + 20)) s1 = Inl (IndexWrite (int (floor_log2 num + 20)))"
proof -
  let ?i = "floor_log2 num + 20"
  obtain s0 where s0: "CPriorSort junk idx num = Inr s0" "prior_inv n ?i {} (Reset n s0)"
    using fresh_inv [of num n n] assms by auto
  obtain s1 where s1: "add_all ts (Reset n s0) = Inr s1" "prior_inv n ?i (set ts) s1"
    using add_all_inv [OF s0(2), of ts] assms(4) by auto
  have "m_udwCurrElemNum s1 = n" using prior_invD(9) [OF s1(2)] assms(4,5) by (simp add: distinct_card)
  then show ?thesis
    using Add_full_overrun [OF s1(2) _ order_refl assms(3) refl] s0(1) s1(1) prior_invD(5) [OF s1(2)] by blast
qed

lemma floor_log2_25: "floor_log2 25 = 4"
  by (simp add: floor_log2_def compute_floorlog)

theorem Heapify_overruns_index_buffer_witness:
  "\<exists>s0 s1. CPriorSort (\<lambda>_. 0) (\<lambda>_. 0) 25 = Inr s0 \<and> add_all [0..<25] (Reset 25 s0) = Inr s1 \<and>
    length (m_udwpIdxBuff s1) = 24 \<and> Add_prior (m_tpValues s1 ! 24) s1 = Inl (IndexWrite 24)"
  using Heapify_overruns_index_buffer [of 25 25 "[0..<25]" "\<lambda>_. 0" "\<lambda>_. 0", unfolded floor_log2_25] by auto

end
