(* ===== verification/BitMap.thy ===== *)
theory BitMap
  imports Prelude "HOL-Library.Word"
begin

text \<open>
  The 64-bit map of \<open>src/include/gary_common/gary_bitmap.h\<close>. The code works on the bytes of the word
  (least significant first, as on the machines it is built for); the map is shown to be a set of
  positions below 64, with the table of bit counts as its size.
\<close>

unbundle bit_operations_syntax

section \<open>The bytes of a word\<close>

definition byte_of :: "64 word \<Rightarrow> nat \<Rightarrow> 8 word" where
  "byte_of w k = ucast (drop_bit (8 * k) w)"

definition put_byte :: "64 word \<Rightarrow> nat \<Rightarrow> 8 word \<Rightarrow> 64 word" where
  "put_byte w k b = (w AND NOT (push_bit (8 * k) 0xFF)) OR push_bit (8 * k) (ucast b)"

section \<open>The operations\<close>

text \<open>\<open>None\<close> is an access outside the eight bytes.\<close>

definition SetBitMap :: "64 word \<Rightarrow> 32 word \<Rightarrow> 64 word option" where
  "SetBitMap bitMap udwPos =
     (let k = unat (drop_bit 3 udwPos)
      in if k < 8 then Some (put_byte bitMap k (byte_of bitMap k OR push_bit (unat (udwPos AND 7)) 1)) else None)"

definition GetBitMap :: "64 word \<Rightarrow> 32 word \<Rightarrow> bool option" where
  "GetBitMap bitMap udwPos =
     (let k = unat (drop_bit 3 udwPos)
      in if k < 8 then Some ((byte_of bitMap k AND push_bit (unat (udwPos AND 7)) 1) \<noteq> 0) else None)"

definition BYTE_COUNTS :: "nat list" where
  "BYTE_COUNTS =
    [0, 1, 1, 2, 1, 2, 2, 3, 1, 2, 2, 3, 2, 3, 3, 4,
     1, 2, 2, 3, 2, 3, 3, 4, 2, 3, 3, 4, 3, 4, 4, 5,
     1, 2, 2, 3, 2, 3, 3, 4, 2, 3, 3, 4, 3, 4, 4, 5,
     2, 3, 3, 4, 3, 4, 4, 5, 3, 4, 4, 5, 4, 5, 5, 6,
     1, 2, 2, 3, 2, 3, 3, 4, 2, 3, 3, 4, 3, 4, 4, 5,
     2, 3, 3, 4, 3, 4, 4, 5, 3, 4, 4, 5, 4, 5, 5, 6,
     2, 3, 3, 4, 3, 4, 4, 5, 3, 4, 4, 5, 4, 5, 5, 6,
     3, 4, 4, 5, 4, 5, 5, 6, 4, 5, 5, 6, 5, 6, 6, 7,
     1, 2, 2, 3, 2, 3, 3, 4, 2, 3, 3, 4, 3, 4, 4, 5,
     2, 3, 3, 4, 3, 4, 4, 5, 3, 4, 4, 5, 4, 5, 5, 6,
     2, 3, 3, 4, 3, 4, 4, 5, 3, 4, 4, 5, 4, 5, 5, 6,
     3, 4, 4, 5, 4, 5, 5, 6, 4, 5, 5, 6, 5, 6, 6, 7,
     2, 3, 3, 4, 3, 4, 4, 5, 3, 4, 4, 5, 4, 5, 5, 6,
     3, 4, 4, 5, 4, 5, 5, 6, 4, 5, 5, 6, 5, 6, 6, 7,
     3, 4, 4, 5, 4, 5, 5, 6, 4, 5, 5, 6, 5, 6, 6, 7,
     4, 5, 5, 6, 5, 6, 6, 7, 5, 6, 6, 7, 6, 7, 7, 8]"

definition GetBitMapCount :: "64 word \<Rightarrow> 32 word" where
  "GetBitMapCount bitMap =
     foldl (\<lambda>udwCount i. udwCount + of_nat (BYTE_COUNTS ! unat (byte_of bitMap i AND 0xFF))) 0 [0..<8]"

section \<open>Counting bits\<close>

text \<open>The positions of the bits that are set, and their number.\<close>

definition bits_of :: "'w::len word \<Rightarrow> nat set" where
  "bits_of w = set (filter (bit w) [0..<LENGTH('w)])"

lemma bits_of_eq: "bits_of (w :: 'w::len word) = {n. n < LENGTH('w) \<and> bit w n}"
  by (auto simp: bits_of_def)

lemma finite_bits_of [simp]: "finite (bits_of w)"
  by (simp add: bits_of_eq)

lemma bits_of_inj: "bits_of v = bits_of w \<Longrightarrow> v = (w :: 'w::len word)"
  by (rule bit_word_eqI) (auto simp: bits_of_eq)

fun bit_sum :: "nat \<Rightarrow> nat" where
  "bit_sum n = (if n = 0 then 0 else n mod 2 + bit_sum (n div 2))"

declare bit_sum.simps [simp del]

lemma bit_sum_card: "n < 2 ^ m \<Longrightarrow> bit_sum n = card {i. i < m \<and> bit n i}"
proof (induction m arbitrary: n)
  case 0
  then show ?case by (simp add: bit_sum.simps)
next
  case (Suc m)
  have "{i. i < Suc m \<and> bit n i} = (if odd n then {0} else {}) \<union> Suc ` {i. i < m \<and> bit (n div 2) i}"
    by (auto simp: bit_Suc bit_0 image_iff less_Suc_eq_0_disj)
  moreover have "bit_sum n = n mod 2 + bit_sum (n div 2)" by (cases "n = 0") (simp_all add: bit_sum.simps)
  moreover have "bit_sum (n div 2) = card {i. i < m \<and> bit (n div 2) i}" using Suc by simp
  ultimately show ?case by (auto simp: card_image odd_iff_mod_2_eq_one card_insert_if)
qed

lemma BYTE_COUNTS_table: "BYTE_COUNTS = map bit_sum [0..<256]"
  by code_simp

lemma BYTE_COUNTS_card: "BYTE_COUNTS ! unat (b AND 0xFF) = card (bits_of (b :: 8 word))"
proof -
  have "(0xFF :: 8 word) = - 1" by simp
  then have "b AND 0xFF = b" by (metis and.right_neutral)
  moreover have "unat b < 256" using unsigned_less [of b] by simp
  ultimately show ?thesis using bit_sum_card [of "unat b" 8]
    by (simp add: BYTE_COUNTS_table bits_of_eq bit_unsigned_iff)
qed

section \<open>The map is a set of positions\<close>

lemma bit_byte_of: "k < 8 \<Longrightarrow> n < 8 \<Longrightarrow> bit (byte_of w k) n \<longleftrightarrow> bit w (8 * k + n)"
  by (simp add: byte_of_def bit_unsigned_iff bit_drop_bit_eq)

lemma mask_byte: "(0xFF :: 64 word) = mask 8"
  by (simp add: mask_eq_exp_minus_1)

lemma bit_put_byte:
  assumes "k < 8" and "n < 64"
  shows "bit (put_byte w k b) n \<longleftrightarrow> (if n div 8 = k then bit b (n mod 8) else bit w n)"
proof -
  have "n div 8 = k \<longleftrightarrow> 8 * k \<le> n \<and> n - 8 * k < 8" using assms by auto
  moreover have "n div 8 = k \<Longrightarrow> n mod 8 = n - 8 * k" by (simp add: modulo_nat_def mult.commute)
  moreover have "\<not> n - 8 * k < 8 \<Longrightarrow> \<not> bit b (n - 8 * k)" using bit_imp_le_length [of b "n - 8 * k"] by auto
  ultimately show ?thesis using assms
    by (auto simp: put_byte_def mask_byte bit_simps)
qed

lemma unat_drop_3: "unat (drop_bit 3 p) = unat p div 8" for p :: "32 word"
  using unat_drop_bit_eq [of 3 p] by (simp add: drop_bit_eq_div)

lemma byte_position:
  fixes p :: "32 word"
  assumes "p < 64"
  shows "unat (drop_bit 3 p) = unat p div 8" and "unat (p AND 7) = unat p mod 8" and "unat p div 8 < 8"
proof -
  have p: "unat p < 64" using assms by (simp add: word_less_nat_alt)
  show "unat (drop_bit 3 p) = unat p div 8" by (rule unat_drop_3)
  have "p AND 7 = take_bit 3 p" by (simp add: take_bit_eq_mask mask_eq_exp_minus_1)
  then show "unat (p AND 7) = unat p mod 8" using unsigned_take_bit_eq [of 3 p] by (simp add: take_bit_eq_mod)
  show "unat p div 8 < 8" using p by simp
qed

lemma SetBitMap_set_bit: "p < 64 \<Longrightarrow> SetBitMap w p = Some (set_bit (unat p) w)"
proof -
  assume p: "p < 64"
  note P = byte_position [OF p]
  let ?k = "unat p div 8" and ?j = "unat p mod 8"
  have "put_byte w ?k (byte_of w ?k OR push_bit ?j 1) = set_bit (unat p) w"
  proof (rule bit_word_eqI)
    fix n
    assume n: "n < LENGTH(64)"
    have same: "unat p = n \<longleftrightarrow> n div 8 = ?k \<and> n mod 8 = ?j" by (metis div_mult_mod_eq)
    have "bit (byte_of w ?k OR push_bit ?j 1) (n mod 8) \<longleftrightarrow> bit w n \<or> n mod 8 = ?j" if k: "n div 8 = ?k"
    proof -
      have "8 * ?k + n mod 8 = n" unfolding k [symmetric] by simp
      then show ?thesis using bit_byte_of [OF P(3), of "n mod 8" w] by (auto simp: bit_or_iff bit_exp_iff)
    qed
    then show "bit (put_byte w ?k (byte_of w ?k OR push_bit ?j 1)) n \<longleftrightarrow> bit (set_bit (unat p) w) n"
      using n P(3) same by (auto simp: bit_put_byte bit_set_bit_iff)
  qed
  then show ?thesis using P by (simp add: SetBitMap_def)
qed

lemma GetBitMap_bit: "p < 64 \<Longrightarrow> GetBitMap w p = Some (bit w (unat p))"
proof -
  assume p: "p < 64"
  note P = byte_position [OF p]
  let ?k = "unat p div 8" and ?j = "unat p mod 8"
  have "byte_of w ?k AND push_bit ?j 1 \<noteq> 0 \<longleftrightarrow> bit (byte_of w ?k) ?j"
    by (simp add: bit_iff_and_push_bit_not_eq_0)
  also have "\<dots> \<longleftrightarrow> bit w (unat p)" using bit_byte_of [OF P(3), of ?j w] by simp
  finally show ?thesis using P by (simp add: GetBitMap_def)
qed

lemma bits_of_bytes: "bits_of w = (\<Union>k < 8. (\<lambda>j. 8 * k + j) ` bits_of (byte_of w k))" for w :: "64 word"
proof (intro set_eqI iffI)
  fix n
  assume n: "n \<in> bits_of w"
  then have k: "n div 8 < 8" and e: "n = 8 * (n div 8) + n mod 8" by (auto simp: bits_of_eq)
  have "n mod 8 \<in> bits_of (byte_of w (n div 8))" using n bit_byte_of [OF k, of "n mod 8" w] by (simp add: bits_of_eq)
  then have "n \<in> (\<lambda>j. 8 * (n div 8) + j) ` bits_of (byte_of w (n div 8))" by (intro image_eqI [where x = "n mod 8"]) simp_all
  then show "n \<in> (\<Union>k < 8. (\<lambda>j. 8 * k + j) ` bits_of (byte_of w k))" using k by blast
next
  fix n
  assume "n \<in> (\<Union>k < 8. (\<lambda>j. 8 * k + j) ` bits_of (byte_of w k))"
  then obtain k j where kj: "k < 8" "j < 8" "bit (byte_of w k) j" "n = 8 * k + j" by (auto simp: bits_of_eq)
  then show "n \<in> bits_of w" using bit_byte_of [OF kj(1,2), of w] by (simp add: bits_of_eq)
qed

lemma card_bits_of_bytes: "card (bits_of w) = (\<Sum>k < 8. card (bits_of (byte_of w k)))" for w :: "64 word"
proof -
  have "card (bits_of w) = (\<Sum>k < 8. card ((\<lambda>j. 8 * k + j) ` bits_of (byte_of w k)))"
    unfolding bits_of_bytes [of w]
  proof (rule card_UN_disjoint)
    show "\<forall>i \<in> {..<8}. \<forall>j \<in> {..<8}. i \<noteq> j \<longrightarrow>
        (\<lambda>n. 8 * i + n) ` bits_of (byte_of w i) \<inter> (\<lambda>n. 8 * j + n) ` bits_of (byte_of w j) = {}"
      by (auto simp: bits_of_eq)
  qed simp_all
  also have "\<dots> = (\<Sum>k < 8. card (bits_of (byte_of w k)))" by (simp add: card_image)
  finally show ?thesis .
qed

lemma GetBitMapCount_card: "GetBitMapCount w = of_nat (card (bits_of w))"
proof -
  have "foldl (\<lambda>c i. c + of_nat (f i)) 0 [0..<n] = (of_nat (\<Sum>i < n. f i) :: 32 word)" for f :: "nat \<Rightarrow> nat" and n
    by (induction n) simp_all
  then show ?thesis by (simp add: GetBitMapCount_def BYTE_COUNTS_card card_bits_of_bytes)
qed

lemma card_bits_of_le: "card (bits_of (w :: 'w::len word)) \<le> LENGTH('w)"
proof -
  have "bits_of w \<subseteq> {..<LENGTH('w)}" by (auto simp: bits_of_eq)
  then show ?thesis using card_mono [of "{..<LENGTH('w)}"] by simp
qed

text \<open>
  The bit map implements a set of positions below 64: \<open>SetBitMap\<close> inserts, \<open>GetBitMap\<close> tests for
  membership, \<open>GetBitMapCount\<close> is the number of elements; other positions are outside the object.
\<close>

theorem bitmap_refines_set:
  "(p < 64 \<longrightarrow> (\<exists>w'. SetBitMap w p = Some w' \<and> bits_of w' = insert (unat p) (bits_of w)) \<and>
      GetBitMap w p = Some (unat p \<in> bits_of w)) \<and>
   (\<not> p < 64 \<longrightarrow> SetBitMap w p = None \<and> GetBitMap w p = None) \<and>
   unat (GetBitMapCount w) = card (bits_of w)"
proof (intro conjI impI)
  assume p: "p < 64"
  then have "unat p < 64" by (simp add: word_less_nat_alt)
  then show "\<exists>w'. SetBitMap w p = Some w' \<and> bits_of w' = insert (unat p) (bits_of w)" "GetBitMap w p = Some (unat p \<in> bits_of w)"
    using SetBitMap_set_bit [OF p] GetBitMap_bit [OF p] by (auto simp: bits_of_eq bit_set_bit_iff)
next
  assume "\<not> p < 64"
  then have "\<not> unat (drop_bit 3 p) < 8" by (simp add: word_less_nat_alt unat_drop_3 del: drop_bit_numeral_bit1)
  then show "SetBitMap w p = None" "GetBitMap w p = None" by (simp_all add: SetBitMap_def GetBitMap_def)
next
  show "unat (GetBitMapCount w) = card (bits_of w)"
    using card_bits_of_le [of w] by (simp add: GetBitMapCount_card unat_of_nat)
qed

theorem bitmap_refines_set_witness:
  "SetBitMap 5 1 = Some 7 \<and> GetBitMap 5 2 = Some True \<and> unat (GetBitMapCount 5) = card (bits_of (5 :: 64 word))"
proof -
  have "bits_of (7 :: 64 word) = insert 1 (bits_of (5 :: 64 word))" by code_simp
  moreover obtain w' where w': "SetBitMap 5 1 = Some w'" "bits_of w' = insert 1 (bits_of (5 :: 64 word))"
    using bitmap_refines_set [of 1 5] by auto
  ultimately have "w' = 7" by (intro bits_of_inj) simp
  moreover have "(2::nat) \<in> bits_of (5 :: 64 word)" by code_simp
  ultimately show ?thesis using w'(1) bitmap_refines_set [of 2 5] by simp
qed

end
