(* ===== verification/CNumber.thy ===== *)
theory CNumber
  imports Prelude
begin

text \<open>
  Decimal numbers in C strings: \<open>atoi\<close> as the C library computes it (\<open>strtol\<close> saturates at 64 bits,
  the result is cut to 32) and the conversion \<open>%d\<close> of \<open>printf\<close>, with their round trip. The
  configuration reader and the HTTP front end share them.
\<close>

section \<open>Reading\<close>

definition digit_val :: "char \<Rightarrow> int" where
  "digit_val c = int (uchar c) - 48"

definition digits_val :: "bytes \<Rightarrow> int" where
  "digits_val ds = foldl (\<lambda>n c. 10 * n + digit_val c) 0 ds"

definition strtol :: "bytes \<Rightarrow> int" where
  "strtol s =
     (let t = dropWhile c_isspace (cstr s);
          neg = (t \<noteq> [] \<and> hd t = CHR ''-'');
          u = (if t \<noteq> [] \<and> (hd t = CHR ''-'' \<or> hd t = CHR ''+'') then tl t else t);
          n = digits_val (takeWhile c_isdigit u)
      in if neg then max (- (2 ^ 63)) (- n) else min (2 ^ 63 - 1) n)"

definition atoi :: "bytes \<Rightarrow> int" where
  "atoi s = signed_take_bit 31 (strtol s)"

section \<open>Printing\<close>

definition digit_char :: "nat \<Rightarrow> char" where
  "digit_char d = char_of (48 + d)"

fun dec_nat :: "nat \<Rightarrow> bytes" where
  "dec_nat n = (if n < 10 then [digit_char n] else dec_nat (n div 10) @ [digit_char (n mod 10)])"

declare dec_nat.simps [simp del]

definition dec :: "int \<Rightarrow> bytes" where
  "dec i = (if i < 0 then CHR ''-'' # dec_nat (nat (- i)) else dec_nat (nat i))"

section \<open>Round trip\<close>

lemma uchar_digit_char: "d < 10 \<Longrightarrow> uchar (digit_char d) = 48 + d"
  by (simp add: digit_char_def)

lemma digit_char_isdigit: "d < 10 \<Longrightarrow> c_isdigit (digit_char d)"
  by (simp add: c_isdigit_def uchar_digit_char)

lemma c_isdigit_not: "c_isdigit c \<Longrightarrow> \<not> c_isspace c \<and> c \<noteq> NUL \<and> c \<noteq> CHR ''-'' \<and> c \<noteq> CHR ''+''"
  by (auto simp: c_isdigit_def c_isspace_def uchar_def)

lemma dec_nat_digits: "\<forall>c \<in> set (dec_nat n). c_isdigit c"
proof (induction n rule: dec_nat.induct)
  case (1 n)
  then show ?case by (subst dec_nat.simps) (auto simp: digit_char_isdigit)
qed

lemma dec_nat_not_Nil [simp]: "dec_nat n \<noteq> []"
  by (subst dec_nat.simps) simp

lemma digits_val_dec_nat: "digits_val (dec_nat n) = int n"
proof (induction n rule: dec_nat.induct)
  case (1 n)
  show ?case
  proof (cases "n < 10")
    case True
    then show ?thesis by (subst dec_nat.simps) (simp add: digits_val_def digit_val_def uchar_digit_char)
  next
    case False
    with 1 have "digits_val (dec_nat (n div 10)) = int (n div 10)" by simp
    moreover have "10 * int (n div 10) + int (n mod 10) = int n" by (simp add: zdiv_int zmod_int)
    ultimately show ?thesis using False
      by (subst dec_nat.simps) (simp add: digits_val_def digit_val_def uchar_digit_char)
  qed
qed

lemma nul_free_dec_nat: "nul_free (dec_nat n)"
  using dec_nat_digits [of n] by (auto simp: nul_free_def c_isdigit_def)

lemma takeWhile_dec_nat: "takeWhile c_isdigit (dec_nat n @ s) = dec_nat n @ takeWhile c_isdigit s"
  using dec_nat_digits [of n] by (simp add: takeWhile_append2)

lemma strtol_dec_nat:
  assumes "nul_free s" and "s = [] \<or> \<not> c_isdigit (hd s)"
  shows "strtol (dec_nat n @ s) = min (2 ^ 63 - 1) (int n)"
proof -
  obtain c cs where d: "dec_nat n = c # cs" by (cases "dec_nat n") auto
  have c: "c_isdigit c" using dec_nat_digits [of n] d by simp
  have "cstr (dec_nat n @ s) = dec_nat n @ s"
    using assms(1) nul_free_dec_nat [of n] by (intro cstr_nul_free) (auto simp: nul_free_def)
  moreover have "takeWhile c_isdigit s = []" using assms(2) by (cases s) auto
  ultimately show ?thesis
    using c_isdigit_not [OF c] d takeWhile_dec_nat [of n s] digits_val_dec_nat [of n]
    by (simp add: strtol_def Let_def)
qed

lemma strtol_dec_neg: "strtol (CHR ''-'' # dec_nat n) = max (- (2 ^ 63)) (- int n)"
proof -
  have "cstr (CHR ''-'' # dec_nat n) = CHR ''-'' # dec_nat n"
    using nul_free_dec_nat [of n] by (intro cstr_nul_free) (auto simp: nul_free_def)
  moreover have "digits_val (takeWhile c_isdigit (dec_nat n)) = int n"
    using takeWhile_dec_nat [of n "[]"] digits_val_dec_nat [of n] by (metis append_Nil2 takeWhile.simps(1))
  ultimately show ?thesis
    by (simp add: strtol_def Let_def c_isspace_def uchar_def)
qed

lemma signed_take_bit_31: "- (2 ^ 31) \<le> i \<Longrightarrow> i < 2 ^ 31 \<Longrightarrow> signed_take_bit 31 i = (i::int)"
  by (simp add: signed_take_bit_int_eq_self)

lemma atoi_dec_append:
  assumes "nul_free s" and "s = [] \<or> \<not> c_isdigit (hd s)" and "int n < 2 ^ 31"
  shows "atoi (dec (int n) @ s) = int n"
  using strtol_dec_nat [OF assms(1,2)] assms(3) by (simp add: atoi_def dec_def signed_take_bit_31)

lemma atoi_dec: "- (2 ^ 31) \<le> i \<Longrightarrow> i < 2 ^ 31 \<Longrightarrow> atoi (dec i) = i"
proof (cases "i < 0")
  case True
  assume "- (2 ^ 31) \<le> i"
  then show ?thesis using True strtol_dec_neg [of "nat (- i)"] by (simp add: atoi_def dec_def signed_take_bit_31)
next
  case False
  assume "i < 2 ^ 31"
  then show ?thesis using False atoi_dec_append [of "[]" "nat i"] by (simp add: nul_free_def)
qed

lemma atoi_bounds: "- (2 ^ 31) \<le> atoi s \<and> atoi s < 2 ^ 31"
  unfolding atoi_def using signed_take_bit_int_less_exp [of 31 "strtol s"] signed_take_bit_int_greater_eq_minus_exp [of 31 "strtol s"]
  by simp

lemma atoi_no_digit: "c_isdigit c = False \<Longrightarrow> \<not> c_isspace c \<Longrightarrow> c \<notin> {CHR ''-'', CHR ''+''} \<Longrightarrow> atoi (c # s) = 0"
  by (simp add: atoi_def strtol_def cstr_def digits_val_def)

end
