(* ===== verification/SimHash.thy ===== *)
theory SimHash
  imports BitMap CNumber Complex_Main "HOL-Library.Monad_Syntax"
begin

text \<open>
  Near-duplicate detection of \<open>src/simhash\<close>: the 64-bit signature of weighted features and the
  Hamming distance (\<open>hashsign.cpp\<close>), the keys under which a signature is stored (\<open>make_rediskey\<close> of
  \<open>bak/redis.cpp\<close>), the search among the stored values (\<open>get_similar_doc\<close>), and \<open>trim_string\<close> of
  \<open>utils.cpp\<close>. The 64-bit hash of a feature (\<open>creat_sign_mds64\<close>) and the store are parameters, the
  rounding of \<open>float\<close> is a function on reals. \<open>None\<close> is an access outside an array.
\<close>

section \<open>Signatures\<close>

record funit =
  weight :: real
  feature :: bytes

text \<open>One histogram cell per bit; \<open>rnd\<close> rounds a sum to a \<open>float\<close>.\<close>

fun update_hist :: "(real \<Rightarrow> real) \<Rightarrow> 64 word \<Rightarrow> real \<Rightarrow> real list \<Rightarrow> real list" where
  "update_hist rnd token w [] = []"
| "update_hist rnd token w (h # hist) =
     (if token AND 1 \<noteq> 0 then rnd (h + w) else rnd (h - w)) # update_hist rnd (drop_bit 1 token) w hist"

definition add_feature :: "(real \<Rightarrow> real) \<Rightarrow> (bytes \<Rightarrow> 64 word option) \<Rightarrow> real list \<Rightarrow> funit \<Rightarrow> real list" where
  "add_feature rnd mds64 hist tmp =
     (let str = cstr (feature tmp)
      in if length str \<le> 0 then hist
         else (case mds64 str of None \<Rightarrow> hist | Some token \<Rightarrow> update_hist rnd token (weight tmp) hist))"

definition simhash_sign :: "(real \<Rightarrow> real) \<Rightarrow> (bytes \<Rightarrow> 64 word option) \<Rightarrow> funit list \<Rightarrow> 64 word" where
  "simhash_sign rnd mds64 features =
     (let hist = foldl (add_feature rnd mds64) (replicate 64 0) features
      in foldl (\<lambda>sign i. sign OR push_bit i (if hist ! i > 0 then 1 else 0)) 0 [0..<64])"

section \<open>The Hamming distance\<close>

lemma and_minus_1_less: "val \<noteq> 0 \<Longrightarrow> unat (val AND (val - 1)) < unat (val :: 64 word)"
proof -
  assume "val \<noteq> 0"
  moreover have "val AND (val - 1) \<le> val - 1" by (rule word_and_le1)
  ultimately show ?thesis using measure_unat [of val] by (simp add: word_le_nat_alt)
qed

function count_bits :: "64 word \<Rightarrow> int \<Rightarrow> int" where
  "count_bits val d = (if val \<noteq> 0 then count_bits (val AND (val - 1)) (d + 1) else d)"
  by pat_completeness auto
termination by (relation "measure (\<lambda>(val, _). unat val)") (use and_minus_1_less in auto)

declare count_bits.simps [simp del]

definition hamming_dist :: "64 word \<Rightarrow> 64 word \<Rightarrow> int" where
  "hamming_dist t1 t2 = count_bits (t1 XOR t2) 0"


section \<open>The keys of a signature\<close>

datatype pattern = FULLTEXT | PARAGRAPH | SENTENCE | Other_pattern nat

text \<open>The six blocks \<open>tmpd[0..5]\<close>, cut off from the low end: two of 10 bits, then four of 11.\<close>

definition cut_block :: "nat \<Rightarrow> 64 word \<Rightarrow> 64 word \<times> 32 word list \<Rightarrow> 64 word \<times> 32 word list" where
  "cut_block k m = (\<lambda>(sign, tmpd). (drop_bit k sign, ucast (sign AND m) # tmpd))"

definition split_sign :: "64 word \<Rightarrow> 32 word list" where
  "split_sign sign = snd (((cut_block 11 0x7ff) ^^ 4) (((cut_block 10 0x3ff) ^^ 2) (sign, [])))"

definition pair_key :: "32 word list \<Rightarrow> nat \<Rightarrow> nat \<Rightarrow> 32 word" where
  "pair_key tmpd i j =
     (if j = 4 \<or> j = 5 then push_bit 10 (tmpd ! i) OR tmpd ! j else push_bit 11 (tmpd ! i) OR tmpd ! j)"

text \<open>The text of a key; \<open>snprintf\<close> keeps nine digits. The user key may be \<open>NULL\<close>.\<close>

definition key_text :: "bytes \<Rightarrow> bytes option \<Rightarrow> 32 word \<Rightarrow> bytes" where
  "key_text type userkey t =
     type @ '':'' @ (case userkey of None \<Rightarrow> [] | Some u \<Rightarrow> if length (cstr u) > 0 then cstr u @ '':'' else []) @
     take 9 (dec_nat (unat t))"

definition push_key :: "bytes \<Rightarrow> bytes set \<times> bytes list \<Rightarrow> bytes set \<times> bytes list" where
  "push_key tmpk = (\<lambda>(key_set, rediskey).
     if tmpk \<in> key_set then (key_set, rediskey) else (insert tmpk key_set, rediskey @ [tmpk]))"

definition block_pairs :: "(nat \<times> nat) list" where
  "block_pairs = concat (map (\<lambda>i. map (\<lambda>j. (i, j)) [i + 1..<6]) [0..<5])"

definition pattern_type :: "pattern \<Rightarrow> bytes option" where
  "pattern_type p = (case p of FULLTEXT \<Rightarrow> Some ''F'' | PARAGRAPH \<Rightarrow> Some ''P'' | SENTENCE \<Rightarrow> Some ''S'' | Other_pattern _ \<Rightarrow> None)"

definition make_rediskey :: "bytes option \<Rightarrow> pattern \<Rightarrow> 64 word \<Rightarrow> bytes list \<Rightarrow> int \<times> bytes list" where
  "make_rediskey userkey p sign rediskey =
     (case pattern_type p of
        None \<Rightarrow> (-1, rediskey)
      | Some type \<Rightarrow>
          let tmpd = split_sign sign
          in (0, snd (foldl (\<lambda>acc (i, j). push_key (key_text type userkey (pair_key tmpd i j)) acc) ({}, rediskey) block_pairs)))"

section \<open>Searching the stored values\<close>

datatype strategy = APPEND | COMPARE | APPCOM | DELETE

record value_t =
  simid :: "64 word"
  docid :: "64 word"
  timestamp :: "32 word"
  userdata :: bytes
  datasize :: nat

record rpush_t =
  rkey :: bytes
  rvalue :: "value_t list"

record simval =
  skey :: bytes
  rate :: real
  sval :: value_t

record sim_output_t =
  simdis :: "simval list list"
  simrate :: "simval list"
  counts :: "int list"

text \<open>The fields of the request that the search reads.\<close>

record sim_input_t =
  in_docid :: "64 word"
  in_pattern :: pattern
  in_strategy :: strategy
  hamdis :: int

text \<open>\<open>userdata\<close> has \<open>RAW_DATA_MAX_SIZE + 1\<close> bytes; \<open>memset\<close> and \<open>memcpy\<close> of \<open>datasize\<close> bytes.\<close>

definition copy_value :: "value_t \<Rightarrow> value_t option" where
  "copy_value v =
     (if datasize v \<le> 65 \<and> datasize v \<le> length (userdata v)
      then Some (v\<lparr>userdata := take (datasize v) (userdata v) @ replicate (65 - datasize v) NUL\<rparr>) else None)"

definition visit_value :: "32 word \<Rightarrow> 64 word \<Rightarrow> sim_input_t \<Rightarrow> bytes \<Rightarrow> value_t
    \<Rightarrow> sim_output_t \<times> bool \<Rightarrow> (sim_output_t \<times> bool) option" where
  "visit_value now sign input k v = (\<lambda>(output, existSameDoc).
     if in_docid input = docid v then Some (output, True)
     else if timestamp v \<le> now \<and> timestamp v \<noteq> 0 then Some (output, existSameDoc)
     else let d = hamming_dist (simid v) sign
          in if d \<le> hamdis input
             then do { tv \<leftarrow> copy_value v;
                       if nat d < length (simdis output) \<and> nat d < length (counts output)
                       then Some (output\<lparr>simdis := (simdis output)[nat d := simdis output ! nat d @ [\<lparr>skey = k, rate = 0, sval = tv\<rparr>]],
                                         counts := (counts output)[nat d := counts output ! nat d + 1]\<rparr>, existSameDoc)
                       else None }
             else Some (output, existSameDoc))"

fun visit_values :: "32 word \<Rightarrow> 64 word \<Rightarrow> sim_input_t \<Rightarrow> bytes \<Rightarrow> value_t list
    \<Rightarrow> sim_output_t \<times> bool \<Rightarrow> (sim_output_t \<times> bool) option" where
  "visit_values now sign input k [] acc = Some acc"
| "visit_values now sign input k (v # vs) acc =
     do { acc1 \<leftarrow> visit_value now sign input k v acc; visit_values now sign input k vs acc1 }"

fun visit_all :: "32 word \<Rightarrow> 64 word \<Rightarrow> sim_input_t \<Rightarrow> rpush_t list
    \<Rightarrow> sim_output_t \<times> bool \<Rightarrow> (sim_output_t \<times> bool) option" where
  "visit_all now sign input [] acc = Some acc"
| "visit_all now sign input (r # rs) acc =
     do { acc1 \<leftarrow> visit_values now sign input (rkey r) (rvalue r) acc; visit_all now sign input rs acc1 }"

text \<open>The result, the output (\<open>None\<close> is the pointer \<open>NULL\<close>), and whether the document itself was seen.\<close>

definition get_similar_doc :: "32 word \<Rightarrow> rpush_t list \<Rightarrow> 64 word \<Rightarrow> sim_output_t option \<Rightarrow> sim_input_t \<Rightarrow> bool
    \<Rightarrow> (int \<times> sim_output_t option \<times> bool) option" where
  "get_similar_doc now redisvalue sign output input existSameDoc =
     (case output of
        None \<Rightarrow> Some (-1, None, existSameDoc)
      | Some out \<Rightarrow>
          if in_strategy input = APPEND then Some (0, Some out, existSameDoc)
          else (case in_pattern input of
                  FULLTEXT \<Rightarrow>
                    do { (out1, same) \<leftarrow> visit_all now sign input redisvalue
                           (out\<lparr>counts := replicate (length (counts out)) 0\<rparr>, existSameDoc);
                         Some (0, Some out1, same) }
                | PARAGRAPH \<Rightarrow> Some (0, Some out, existSameDoc)
                | SENTENCE \<Rightarrow> Some (0, Some out, existSameDoc)
                | Other_pattern _ \<Rightarrow> Some (-1, Some out, existSameDoc)))"

section \<open>trim\_string\<close>

definition trim_char :: "char \<Rightarrow> bool" where
  "trim_char c \<longleftrightarrow> uchar c \<in> {32, 9, 13, 10, 11, 8}"

fun trim_front :: "bytes \<Rightarrow> bytes" where
  "trim_front [] = []"
| "trim_front (c # s) = (if trim_char c then trim_front s else c # s)"

text \<open>The loop from the end; it would leave the buffer on a string of such characters only.\<close>

function trim_back :: "bytes \<Rightarrow> bytes option" where
  "trim_back s = (if s = [] then None else if trim_char (last s) then trim_back (butlast s) else Some s)"
  by pat_completeness auto
termination by (relation "measure length") auto

declare trim_back.simps [simp del]

definition trim_string :: "bytes \<Rightarrow> bytes option" where
  "trim_string pstr = (let s = trim_front pstr in if length s \<le> 0 then Some s else trim_back s)"

section \<open>The distance is a metric\<close>

lemma bit_sum_double [simp]: "bit_sum (2 * m) = bit_sum m" "bit_sum (Suc (2 * m)) = Suc (bit_sum m)"
  by (cases "m = 0") (simp_all add: bit_sum.simps [of "2 * m"] bit_sum.simps [of "Suc (2 * m)"] bit_sum.simps [of 0])

text \<open>\<open>val &= val - 1\<close> clears one bit.\<close>

lemma bit_sum_clear_lowest: "0 < n \<Longrightarrow> Suc (bit_sum (n AND (n - 1))) = bit_sum n"
proof (induction n rule: less_induct)
  case (less n)
  show ?case
  proof (cases "even n")
    case True
    then obtain m where m: "n = 2 * m" by blast
    then have "0 < m" using less.prems by simp
    have "(2 * m - Suc 0) div 2 = m - 1" using \<open>0 < m\<close> by (cases m) simp_all
    then have "n AND (n - 1) = 2 * (m AND (m - 1))"
      using m \<open>0 < m\<close> and_nat_rec [of n "n - 1"] by simp
    then show ?thesis using less.IH [of m] m \<open>0 < m\<close> by simp
  next
    case False
    then obtain m where m: "n = Suc (2 * m)" by (auto elim: oddE)
    have "n AND (n - 1) = 2 * m" using m and_nat_rec [of n "n - 1"] by simp
    then show ?thesis using m by simp
  qed
qed

lemma card_bits_of_unat: "card (bits_of w) = bit_sum (unat w)" for w :: "64 word"
proof -
  have "unat w < 2 ^ 64" using unsigned_less [where ?'a = nat, of w] by simp
  then show ?thesis using bit_sum_card [of "unat w" 64] by (simp add: bits_of_eq bit_unsigned_iff)
qed

lemma card_clear_lowest: "w \<noteq> 0 \<Longrightarrow> Suc (card (bits_of (w AND (w - 1)))) = card (bits_of w)" for w :: "64 word"
  using bit_sum_clear_lowest [of "unat w"] by (simp add: card_bits_of_unat unsigned_and_eq unat_minus_one unat_gt_0)

lemma count_bits_card: "count_bits w d = d + int (card (bits_of w))"
proof (induction w d rule: count_bits.induct)
  case (1 w d)
  show ?case
  proof (cases "w = 0")
    case True
    then show ?thesis by (simp add: count_bits.simps bits_of_eq)
  next
    case False
    then show ?thesis using 1 card_clear_lowest [OF False] by (simp add: count_bits.simps [of w d])
  qed
qed

lemma hamming_dist_card: "hamming_dist a b = int (card (bits_of (a XOR b)))"
  by (simp add: hamming_dist_def count_bits_card)

lemma bits_of_xor: "bits_of (a XOR b) = {n. n < 64 \<and> bit a n \<noteq> bit b n}" for a b :: "64 word"
  by (simp add: bits_of_eq bit_xor_iff)

text \<open>
  C20. \<open>hamming_dist\<close> is the number of positions at which two signatures differ, and a metric: the
  loop that clears the lowest bit ends, the result is between 0 and 64, 0 only for equal
  signatures, symmetric, and satisfies the triangle inequality.
\<close>

theorem hamming_dist_metric:
  "hamming_dist a b = int (card {n. n < 64 \<and> bit a n \<noteq> bit b n}) \<and>
   0 \<le> hamming_dist a b \<and> hamming_dist a b \<le> 64 \<and> (hamming_dist a b = 0 \<longleftrightarrow> a = b) \<and>
   hamming_dist a b = hamming_dist b a \<and> hamming_dist a c \<le> hamming_dist a b + hamming_dist b c"
proof -
  have "bits_of (a XOR c) \<subseteq> bits_of (a XOR b) \<union> bits_of (b XOR c)" by (auto simp: bits_of_xor)
  then have "card (bits_of (a XOR c)) \<le> card (bits_of (a XOR b) \<union> bits_of (b XOR c))" by (intro card_mono) auto
  also have "\<dots> \<le> card (bits_of (a XOR b)) + card (bits_of (b XOR c))" by (rule card_Un_le)
  finally have tri: "card (bits_of (a XOR c)) \<le> card (bits_of (a XOR b)) + card (bits_of (b XOR c))" .
  have "card (bits_of (a XOR b)) = 0 \<longleftrightarrow> a = b"
    unfolding bits_of_xor by (auto intro: bit_word_eqI)
  then show ?thesis using tri card_bits_of_le [of "a XOR b"]
    by (simp add: hamming_dist_card bits_of_xor xor.commute [of b a] conj_commute)
qed

section \<open>The signature is a majority vote\<close>

definition vote :: "(bytes \<Rightarrow> 64 word option) \<Rightarrow> nat \<Rightarrow> funit \<Rightarrow> real" where
  "vote mds64 i f =
     (if cstr (feature f) = [] then 0
      else (case mds64 (cstr (feature f)) of None \<Rightarrow> 0 | Some t \<Rightarrow> if bit t i then weight f else - weight f))"

lemma length_update_hist [simp]: "length (update_hist rnd t w hist) = length hist"
  by (induction rnd t w hist rule: update_hist.induct) simp_all

lemma nth_update_hist:
  "i < length hist \<Longrightarrow> update_hist rnd t w hist ! i = rnd (hist ! i + (if bit t i then w else - w))"
proof (induction rnd t w hist arbitrary: i rule: update_hist.induct)
  case (2 rnd t w h hist)
  have "t AND 1 \<noteq> 0 \<longleftrightarrow> bit t 0" by (simp add: and_one_eq bit_0 odd_iff_mod_2_eq_one)
  then show ?case using 2 by (cases i) (auto simp: bit_drop_bit_eq bit_Suc drop_bit_Suc)
qed simp

lemma length_add_feature [simp]: "length (add_feature rnd mds64 hist f) = length hist"
  by (simp add: add_feature_def Let_def split: option.split)

lemma length_foldl_add_feature [simp]: "length (foldl (add_feature rnd mds64) hist fs) = length hist"
  by (induction fs arbitrary: hist) simp_all

lemma add_feature_nth:
  assumes "i < length hist" and "rnd (hist ! i + vote mds64 i f) = hist ! i + vote mds64 i f"
  shows "add_feature rnd mds64 hist f ! i = hist ! i + vote mds64 i f"
  using assms by (auto simp: add_feature_def Let_def vote_def nth_update_hist split: option.splits)

text \<open>Sums of whole numbers up to \<open>2\<^sup>2\<^sup>4\<close> are exact in \<open>float\<close>.\<close>

definition exact_on_ints :: "(real \<Rightarrow> real) \<Rightarrow> bool" where
  "exact_on_ints rnd \<longleftrightarrow> (\<forall>n. \<bar>n\<bar> \<le> 2 ^ 24 \<longrightarrow> rnd (of_int n) = of_int n)"

lemma vote_bound: "\<bar>vote mds64 i f\<bar> \<le> \<bar>weight f\<bar>" and vote_int: "weight f \<in> \<int> \<Longrightarrow> vote mds64 i f \<in> \<int>"
  by (auto simp: vote_def split: option.split)

lemma histogram_sum:
  assumes r: "exact_on_ints rnd" and "\<forall>f \<in> set fs. weight f \<in> \<int>" and "i < length hist" and "hist ! i \<in> \<int>"
    and "\<bar>hist ! i\<bar> + (\<Sum>f \<leftarrow> fs. \<bar>weight f\<bar>) \<le> 2 ^ 24"
  shows "foldl (add_feature rnd mds64) hist fs ! i = hist ! i + (\<Sum>f \<leftarrow> fs. vote mds64 i f)"
  using assms(2-5)
proof (induction fs arbitrary: hist)
  case (Cons f fs)
  let ?s = "hist ! i + vote mds64 i f"
  have "?s \<in> \<int>" using Cons.prems vote_int by auto
  then obtain n where n: "?s = of_int n" by (auto elim: Ints_cases)
  have nn: "0 \<le> (\<Sum>f \<leftarrow> fs. \<bar>weight f\<bar>)" by (intro sum_list_nonneg) auto
  have b: "\<bar>?s\<bar> + (\<Sum>f \<leftarrow> fs. \<bar>weight f\<bar>) \<le> 2 ^ 24" using Cons.prems(4) vote_bound [of mds64 i f] by simp
  then have "\<bar>n\<bar> \<le> 2 ^ 24" using n nn by (simp flip: of_int_abs)
  then have "rnd ?s = ?s" using r n by (simp add: exact_on_ints_def)
  then have s: "add_feature rnd mds64 hist f ! i = ?s" using Cons.prems(2) by (intro add_feature_nth) simp_all
  show ?case using Cons.IH [of "add_feature rnd mds64 hist f"] Cons.prems \<open>?s \<in> \<int>\<close> b s by simp
qed simp

lemma bit_set_fold:
  "m \<le> 64 \<Longrightarrow> bit (foldl (\<lambda>s i. s OR push_bit i (if P i then 1 else 0)) (0 :: 64 word) [0..<m]) n \<longleftrightarrow> n < m \<and> P n"
  by (induction m) (auto simp: bit_or_iff bit_exp_iff less_Suc_eq)

text \<open>
  C21. A bit of \<open>simhash_sign\<close> is the majority vote of the features: when the weights are whole
  numbers that sum up to at most \<open>2\<^sup>2\<^sup>4\<close> (so that \<open>float\<close> is exact), bit \<open>i\<close> is set exactly when the
  features whose hash has bit \<open>i\<close> outweigh those whose hash has not; empty features and features
  without a hash do not count.
\<close>

theorem simhash_sign_majority:
  assumes "exact_on_ints rnd" and "\<forall>f \<in> set features. weight f \<in> \<int>" and "(\<Sum>f \<leftarrow> features. \<bar>weight f\<bar>) \<le> 2 ^ 24" and "i < 64"
  shows "bit (simhash_sign rnd mds64 features) i \<longleftrightarrow> 0 < (\<Sum>f \<leftarrow> features. vote mds64 i f)"
proof -
  have "foldl (add_feature rnd mds64) (replicate 64 0) features ! i = (\<Sum>f \<leftarrow> features. vote mds64 i f)"
    using histogram_sum [OF assms(1,2), of i "replicate 64 0"] assms(3,4) by simp
  then show ?thesis using assms(4) by (simp add: simhash_sign_def bit_set_fold del: upt_Suc)
qed

theorem simhash_sign_majority_witness:
  "bit (simhash_sign (\<lambda>x. x) (\<lambda>s. Some (if s = ''a'' then 1 else 2)) [\<lparr>weight = 3, feature = ''a''\<rparr>, \<lparr>weight = 2, feature = ''b''\<rparr>]) 0"
proof -
  let ?fs = "[\<lparr>weight = 3, feature = ''a''\<rparr>, \<lparr>weight = 2, feature = ''b''\<rparr>]"
  have "exact_on_ints (\<lambda>x. x)" by (simp add: exact_on_ints_def)
  then show ?thesis
    using simhash_sign_majority [of "\<lambda>x. x" ?fs 0 "\<lambda>s. Some (if s = ''a'' then 1 else 2)"]
    by (simp add: vote_def cstr_def)
qed

section \<open>Signatures at a small distance share a key\<close>

definition block_off :: "nat \<Rightarrow> nat" where
  "block_off b = [53, 42, 31, 20, 10, 0] ! b"

definition block_width :: "nat \<Rightarrow> nat" where
  "block_width b = [11, 11, 11, 11, 10, 10] ! b"

lemma split_sign_eq:
  "split_sign s = [ucast (drop_bit 53 s AND 0x7ff), ucast (drop_bit 42 s AND 0x7ff), ucast (drop_bit 31 s AND 0x7ff),
     ucast (drop_bit 20 s AND 0x7ff), ucast (drop_bit 10 s AND 0x3ff), ucast (s AND 0x3ff)]"
  by (simp add: split_sign_def cut_block_def numeral_eq_Suc drop_bit_drop_bit)

lemma below_6: "b < 6 \<longleftrightarrow> b = 0 \<or> b = 1 \<or> b = 2 \<or> b = 3 \<or> b = 4 \<or> b = (5::nat)"
  by auto

lemma split_sign_nth: "b < 6 \<Longrightarrow> split_sign s ! b = ucast (drop_bit (block_off b) s AND mask (block_width b))"
  by (auto simp: split_sign_eq below_6 block_off_def block_width_def mask_eq_exp_minus_1)

lemma block_bits: "b < 6 \<Longrightarrow> n < block_width b \<Longrightarrow> bit (split_sign s ! b) n \<longleftrightarrow> bit s (block_off b + n)"
  by (auto simp: split_sign_nth bit_unsigned_iff bit_and_iff bit_drop_bit_eq bit_mask_iff below_6 block_width_def)

lemma block_width_le: "b < 6 \<Longrightarrow> block_width b \<le> 11 \<and> block_off b + block_width b \<le> 64"
  by (auto simp: below_6 block_width_def block_off_def)

lemma block_eqI:
  assumes "b < 6" and "\<And>n. n < block_width b \<Longrightarrow> bit s (block_off b + n) \<longleftrightarrow> bit t (block_off b + n)"
  shows "split_sign s ! b = split_sign t ! b"
proof (rule bit_word_eqI)
  fix n
  assume "n < LENGTH(32)"
  show "bit (split_sign s ! b) n \<longleftrightarrow> bit (split_sign t ! b) n"
  proof (cases "n < block_width b")
    case True
    then show ?thesis using assms block_bits by simp
  next
    case False
    then show ?thesis using assms(1) by (simp add: split_sign_nth bit_unsigned_iff bit_and_iff bit_mask_iff)
  qed
qed

lemma block_disjoint:
  "a < 6 \<Longrightarrow> b < 6 \<Longrightarrow> m < block_width a \<Longrightarrow> n < block_width b \<Longrightarrow> block_off a + m = block_off b + n \<Longrightarrow> a = b"
  by (auto simp: below_6 block_width_def block_off_def)

text \<open>At most as many blocks differ as bits.\<close>

lemma differing_blocks: "int (card {b. b < 6 \<and> split_sign s ! b \<noteq> split_sign t ! b}) \<le> hamming_dist s t"
proof -
  let ?D = "{b. b < 6 \<and> split_sign s ! b \<noteq> split_sign t ! b}"
  have "\<exists>n. n < block_width b \<and> bit s (block_off b + n) \<noteq> bit t (block_off b + n)" if "b \<in> ?D" for b
  proof (rule ccontr)
    assume "\<nexists>n. n < block_width b \<and> bit s (block_off b + n) \<noteq> bit t (block_off b + n)"
    then have "split_sign s ! b = split_sign t ! b" using that by (intro block_eqI) auto
    then show False using that by simp
  qed
  then have "\<forall>b \<in> ?D. \<exists>n. n < block_width b \<and> bit s (block_off b + n) \<noteq> bit t (block_off b + n)" by blast
  from bchoice [OF this] obtain f
    where f: "\<And>b. b \<in> ?D \<Longrightarrow> f b < block_width b \<and> bit s (block_off b + f b) \<noteq> bit t (block_off b + f b)" by blast
  have "inj_on (\<lambda>b. block_off b + f b) ?D"
  proof (rule inj_onI)
    fix a b
    assume "a \<in> ?D" "b \<in> ?D" "block_off a + f a = block_off b + f b"
    then show "a = b" using block_disjoint [of a b "f a" "f b"] f [of a] f [of b] by auto
  qed
  moreover have "block_off b + f b \<in> bits_of (s XOR t)" if "b \<in> ?D" for b
    using f [OF that] block_width_le [of b] that unfolding bits_of_xor by auto
  then have "(\<lambda>b. block_off b + f b) ` ?D \<subseteq> bits_of (s XOR t)" by blast
  ultimately have "card ?D \<le> card (bits_of (s XOR t))" by (intro card_inj_on_le) auto
  then show ?thesis by (simp add: hamming_dist_card)
qed

lemma two_equal_blocks:
  assumes "hamming_dist s t \<le> 4"
  shows "\<exists>i j. i < j \<and> j < 6 \<and> split_sign s ! i = split_sign t ! i \<and> split_sign s ! j = split_sign t ! j"
proof -
  let ?D = "{b. b < 6 \<and> split_sign s ! b \<noteq> split_sign t ! b}" and ?E = "{b. b < 6 \<and> split_sign s ! b = split_sign t ! b}"
  have "{..<6::nat} = ?D \<union> ?E" by auto
  then have "6 \<le> card ?D + card ?E" using card_Un_le [of ?D ?E] by (metis card_lessThan)
  then have "2 \<le> card ?E" using differing_blocks [of s t] assms by linarith
  then obtain i j where "i \<in> ?E" "j \<in> ?E" "i \<noteq> j" using card_le_Suc0_iff_eq [of ?E] by fastforce
  then show ?thesis by (cases "i < j") (blast, auto simp: not_less dest: le_neq_implies_less)
qed

text \<open>Every pair of blocks has its key in the list.\<close>

lemma push_key_fold:
  "S \<subseteq> set ks \<Longrightarrow>
   set (snd (foldl (\<lambda>acc (i, j). push_key (f i j) acc) (S, ks) ps)) = set ks \<union> (\<lambda>(i, j). f i j) ` set ps"
proof (induction ps arbitrary: S ks)
  case (Cons p ps)
  obtain i j where p: "p = (i, j)" by (cases p)
  show ?case
  proof (cases "f i j \<in> S")
    case True
    then show ?thesis using Cons.IH [of S ks] Cons.prems p by (auto simp: push_key_def)
  next
    case False
    have "insert (f i j) S \<subseteq> set (ks @ [f i j])" using Cons.prems by auto
    from Cons.IH [OF this] False show ?thesis using p by (auto simp: push_key_def)
  qed
qed simp

lemma set_block_pairs: "set block_pairs = {(i, j). i < j \<and> j < 6}"
  by (auto simp: block_pairs_def image_iff)

lemma make_rediskey_set:
  assumes "pattern_type p = Some type"
  shows "fst (make_rediskey u p s ks) = 0"
    and "set (snd (make_rediskey u p s ks)) = set ks \<union> {key_text type u (pair_key (split_sign s) i j) | i j. i < j \<and> j < 6}"
proof -
  let ?f = "\<lambda>i j. key_text type u (pair_key (split_sign s) i j)"
  have m: "make_rediskey u p s ks = (0, snd (foldl (\<lambda>acc (i, j). push_key (?f i j) acc) ({}, ks) block_pairs))"
    using assms by (simp add: make_rediskey_def)
  show "fst (make_rediskey u p s ks) = 0" by (simp add: m)
  have "(\<lambda>(i, j). ?f i j) ` set block_pairs = {?f i j | i j. i < j \<and> j < 6}" unfolding set_block_pairs by (auto simp: image_iff)
  then show "set (snd (make_rediskey u p s ks)) = set ks \<union> {?f i j | i j. i < j \<and> j < 6}"
    unfolding m snd_conv by (subst push_key_fold) simp_all
qed

lemma shared_key:
  assumes "hamming_dist s t \<le> 4" and "pattern_type p = Some type"
  shows "\<exists>k. k \<in> set (snd (make_rediskey u p s ks)) \<and> k \<in> set (snd (make_rediskey u p t ks'))"
proof -
  obtain i j where ij: "i < j" "j < 6" "split_sign s ! i = split_sign t ! i" "split_sign s ! j = split_sign t ! j"
    using two_equal_blocks [OF assms(1)] by blast
  then have e: "pair_key (split_sign s) i j = pair_key (split_sign t) i j" by (simp add: pair_key_def)
  let ?k = "key_text type u (pair_key (split_sign t) i j)"
  have "?k \<in> set (snd (make_rediskey u p s ks))" "?k \<in> set (snd (make_rediskey u p t ks'))"
    unfolding make_rediskey_set(2) [OF assms(2)] using ij(1,2) e [symmetric] by auto
  then show ?thesis by blast
qed

section \<open>What the search reports\<close>

definition visible :: "32 word \<Rightarrow> sim_input_t \<Rightarrow> value_t \<Rightarrow> bool" where
  "visible now input v \<longleftrightarrow> in_docid input \<noteq> docid v \<and> \<not> (timestamp v \<le> now \<and> timestamp v \<noteq> 0)"

definition hit :: "32 word \<Rightarrow> 64 word \<Rightarrow> sim_input_t \<Rightarrow> nat \<Rightarrow> bytes \<times> value_t \<Rightarrow> bool" where
  "hit now sign input d kv \<longleftrightarrow> visible now input (snd kv) \<and> hamming_dist (simid (snd kv)) sign = int d \<and> int d \<le> hamdis input"

definition hits :: "32 word \<Rightarrow> 64 word \<Rightarrow> sim_input_t \<Rightarrow> nat \<Rightarrow> (bytes \<times> value_t) list \<Rightarrow> simval list" where
  "hits now sign input d kvs =
     map (\<lambda>kv. \<lparr>skey = fst kv, rate = 0, sval = the (copy_value (snd kv))\<rparr>) (filter (hit now sign input d) kvs)"

definition stored :: "rpush_t list \<Rightarrow> (bytes \<times> value_t) list" where
  "stored rs = concat (map (\<lambda>r. map (Pair (rkey r)) (rvalue r)) rs)"

definition output_ok :: "sim_output_t \<Rightarrow> bool" where
  "output_ok out \<longleftrightarrow> length (simdis out) = 5 \<and> length (counts out) = 6"

definition value_ok :: "value_t \<Rightarrow> bool" where
  "value_ok v \<longleftrightarrow> datasize v \<le> 65 \<and> length (userdata v) = 65"

definition reports :: "32 word \<Rightarrow> 64 word \<Rightarrow> sim_input_t \<Rightarrow> (bytes \<times> value_t) list
    \<Rightarrow> sim_output_t \<times> bool \<Rightarrow> sim_output_t \<times> bool \<Rightarrow> bool" where
  "reports now sign input kvs acc acc' \<longleftrightarrow> output_ok (fst acc') \<and> simrate (fst acc') = simrate (fst acc) \<and>
     (snd acc' \<longleftrightarrow> snd acc \<or> (\<exists>kv \<in> set kvs. docid (snd kv) = in_docid input)) \<and>
     (\<forall>d < 5. simdis (fst acc') ! d = simdis (fst acc) ! d @ hits now sign input d kvs \<and>
        counts (fst acc') ! d = counts (fst acc) ! d + int (length (hits now sign input d kvs)))"

lemma reports_trans:
  "reports now sign input xs a b \<Longrightarrow> reports now sign input ys b c \<Longrightarrow> reports now sign input (xs @ ys) a c"
  by (auto simp: reports_def hits_def)

lemma reports_Nil: "output_ok (fst acc) \<Longrightarrow> reports now sign input [] acc acc"
  by (simp add: reports_def hits_def)

lemma reports_skip:
  assumes "output_ok out" and "\<And>d. \<not> hit now sign input d (k, v)"
  shows "reports now sign input [(k, v)] (out, same) (out, same \<or> docid v = in_docid input)"
  using assms by (simp add: reports_def hits_def)

lemma visit_value_reports:
  assumes ok: "output_ok (fst acc)" and v: "value_ok v" and h: "hamdis input \<le> 4"
  shows "\<exists>acc'. visit_value now sign input k v acc = Some acc' \<and> reports now sign input [(k, v)] acc acc'"
proof -
  obtain out same where acc: "acc = (out, same)" by (cases acc)
  let ?d = "hamming_dist (simid v) sign"
  have d0: "0 \<le> ?d" by (simp add: hamming_dist_card)
  show ?thesis
  proof (cases "visible now input v \<and> ?d \<le> hamdis input")
    case False
    then have "visit_value now sign input k v acc = Some (out, same \<or> docid v = in_docid input)"
      using acc by (auto simp: visit_value_def visible_def Let_def)
    moreover have "\<not> hit now sign input d (k, v)" for d using False by (auto simp: hit_def)
    ultimately show ?thesis using reports_skip [of out] ok acc by simp
  next
    case True
    define n where "n = nat ?d"
    have n: "?d = int n" "n < 5" "int n \<le> hamdis input" using d0 True h by (auto simp: n_def)
    obtain tv where tv: "copy_value v = Some tv" using v by (simp add: copy_value_def value_ok_def)
    let ?out = "out\<lparr>simdis := (simdis out)[n := simdis out ! n @ [\<lparr>skey = k, rate = 0, sval = tv\<rparr>]],
                    counts := (counts out)[n := counts out ! n + 1]\<rparr>"
    have len: "length (simdis out) = 5" "length (counts out) = 6" using ok acc by (auto simp: output_ok_def)
    have run: "visit_value now sign input k v acc = Some (?out, same)"
      using acc True n tv len by (auto simp: visit_value_def visible_def Let_def)
    have hd: "hit now sign input d (k, v) \<longleftrightarrow> d = n" for d using True n by (auto simp: hit_def)
    have "hits now sign input d [(k, v)] = (if d = n then [\<lparr>skey = k, rate = 0, sval = tv\<rparr>] else [])" for d
      using tv by (simp add: hits_def hd)
    moreover have "docid v \<noteq> in_docid input" using True by (auto simp: visible_def)
    ultimately have "reports now sign input [(k, v)] acc (?out, same)"
      using acc n len by (simp add: reports_def output_ok_def nth_list_update)
    then show ?thesis using run by blast
  qed
qed

lemma visit_values_reports:
  assumes "output_ok (fst acc)" and "\<forall>v \<in> set vs. value_ok v" and "hamdis input \<le> 4"
  shows "\<exists>acc'. visit_values now sign input k vs acc = Some acc' \<and> reports now sign input (map (Pair k) vs) acc acc'"
  using assms
proof (induction vs arbitrary: acc)
  case Nil
  then show ?case by (simp add: reports_Nil)
next
  case (Cons v vs)
  obtain acc1 where a: "visit_value now sign input k v acc = Some acc1" "reports now sign input [(k, v)] acc acc1"
    using visit_value_reports [of acc v input now sign k] Cons.prems by force
  moreover obtain acc2 where "visit_values now sign input k vs acc1 = Some acc2" "reports now sign input (map (Pair k) vs) acc1 acc2"
    using Cons.IH [of acc1] Cons.prems a(2) by (auto simp: reports_def)
  ultimately show ?case using reports_trans [OF a(2), of "map (Pair k) vs" acc2] by auto
qed

lemma visit_all_reports:
  assumes "output_ok (fst acc)" and "\<forall>r \<in> set rs. \<forall>v \<in> set (rvalue r). value_ok v" and "hamdis input \<le> 4"
  shows "\<exists>acc'. visit_all now sign input rs acc = Some acc' \<and> reports now sign input (stored rs) acc acc'"
  using assms
proof (induction rs arbitrary: acc)
  case Nil
  then show ?case by (simp add: reports_Nil stored_def)
next
  case (Cons r rs)
  obtain acc1 where a: "visit_values now sign input (rkey r) (rvalue r) acc = Some acc1"
      "reports now sign input (map (Pair (rkey r)) (rvalue r)) acc acc1"
    using visit_values_reports [of acc "rvalue r" input now sign "rkey r"] Cons.prems by force
  moreover obtain acc2 where "visit_all now sign input rs acc1 = Some acc2" "reports now sign input (stored rs) acc1 acc2"
    using Cons.IH [of acc1] Cons.prems a(2) by (auto simp: reports_def)
  ultimately show ?case using reports_trans [OF a(2), of "stored rs" acc2] by (auto simp: stored_def)
qed

lemma get_similar_doc_run:
  assumes "output_ok out" and "\<forall>r \<in> set rs. \<forall>v \<in> set (rvalue r). value_ok v" and "hamdis input \<le> 4"
    and "in_strategy input \<noteq> APPEND" and "in_pattern input = FULLTEXT"
  shows "\<exists>out' same'. get_similar_doc now rs sign (Some out) input same = Some (0, Some out', same') \<and>
    (same' \<longleftrightarrow> same \<or> (\<exists>kv \<in> set (stored rs). docid (snd kv) = in_docid input)) \<and>
    (\<forall>d < 5. simdis out' ! d = simdis out ! d @ hits now sign input d (stored rs) \<and>
       counts out' ! d = int (length (hits now sign input d (stored rs))))"
proof -
  let ?out = "out\<lparr>counts := replicate (length (counts out)) 0\<rparr>"
  have "output_ok (fst (?out, same))" using assms(1) by (simp add: output_ok_def)
  from visit_all_reports [OF this assms(2,3)] obtain acc' where
    a: "visit_all now sign input rs (?out, same) = Some acc'" "reports now sign input (stored rs) (?out, same) acc'" by blast
  obtain out' same' where acc': "acc' = (out', same')" by (cases acc')
  have "get_similar_doc now rs sign (Some out) input same = Some (0, Some out', same')"
    using a(1) acc' assms(4,5) by (simp add: get_similar_doc_def)
  then show ?thesis using a(2) acc' assms(1) by (auto simp: reports_def output_ok_def)
qed

text \<open>
  C19. \<open>get_similar_doc\<close> sorts the stored values by their distance: for a distance limit of at most 4
  it returns 0, appends to list \<open>d\<close>, in the order of the store, exactly the values of other
  documents that have not expired and lie at distance \<open>d\<close> within the limit, counts them, and
  tells whether the document itself was among the values.
\<close>

theorem get_similar_doc_buckets:
  assumes "output_ok out" and "\<forall>r \<in> set rs. \<forall>v \<in> set (rvalue r). value_ok v" and "hamdis input \<le> 4"
    and "in_strategy input \<noteq> APPEND" and "in_pattern input = FULLTEXT"
  shows "\<exists>out' same'. get_similar_doc now rs sign (Some out) input same = Some (0, Some out', same') \<and>
    (same' \<longleftrightarrow> same \<or> (\<exists>kv \<in> set (stored rs). docid (snd kv) = in_docid input)) \<and>
    (\<forall>d < 5. simdis out' ! d = simdis out ! d @ hits now sign input d (stored rs) \<and>
       counts out' ! d = int (length (hits now sign input d (stored rs))))"
  by (rule get_similar_doc_run [OF assms])

definition sample_value :: value_t where
  "sample_value = \<lparr>simid = 3, docid = 7, timestamp = 0, userdata = replicate 65 NUL, datasize = 0\<rparr>"

definition sample_input :: sim_input_t where
  "sample_input = \<lparr>in_docid = 8, in_pattern = FULLTEXT, in_strategy = COMPARE, hamdis = 3\<rparr>"

definition sample_output :: sim_output_t where
  "sample_output = \<lparr>simdis = replicate 5 [], simrate = [], counts = replicate 6 0\<rparr>"

lemma sample_ok: "output_ok sample_output" "value_ok sample_value" "hamdis sample_input \<le> 4"
    "in_strategy sample_input \<noteq> APPEND" "in_pattern sample_input = FULLTEXT"
  by (simp_all add: output_ok_def sample_output_def value_ok_def sample_value_def sample_input_def)

theorem get_similar_doc_buckets_witness:
  "\<exists>out'. get_similar_doc 5 [\<lparr>rkey = ''k'', rvalue = [sample_value]\<rparr>] 1 (Some sample_output) sample_input False = Some (0, Some out', False) \<and>
    counts out' ! 1 = 1"
proof -
  have "\<forall>r \<in> set [\<lparr>rkey = ''k'', rvalue = [sample_value]\<rparr>]. \<forall>v \<in> set (rvalue r). value_ok v" using sample_ok by simp
  from get_similar_doc_buckets [OF sample_ok(1) this sample_ok(3-5), of 5 1 False] obtain out' same' where
    o: "get_similar_doc 5 [\<lparr>rkey = ''k'', rvalue = [sample_value]\<rparr>] 1 (Some sample_output) sample_input False = Some (0, Some out', same')"
      "same' \<longleftrightarrow> False \<or> (\<exists>kv \<in> set (stored [\<lparr>rkey = ''k'', rvalue = [sample_value]\<rparr>]). docid (snd kv) = in_docid sample_input)"
      "counts out' ! 1 = int (length (hits 5 1 sample_input 1 (stored [\<lparr>rkey = ''k'', rvalue = [sample_value]\<rparr>])))" by fastforce
  have "hamming_dist 3 1 = 1" by (simp add: hamming_dist_def count_bits.simps)
  then show ?thesis using o by (simp add: stored_def hits_def hit_def visible_def sample_value_def sample_input_def)
qed

text \<open>The values that the store holds for a list of keys.\<close>

definition lookup_keys :: "(bytes \<Rightarrow> value_t list) \<Rightarrow> bytes list \<Rightarrow> rpush_t list" where
  "lookup_keys store ks = map (\<lambda>k. \<lparr>rkey = k, rvalue = store k\<rparr>) ks"

lemma stored_lookup: "(k, v) \<in> set (stored (lookup_keys store ks)) \<longleftrightarrow> k \<in> set ks \<and> v \<in> set (store k)"
  by (auto simp: stored_def lookup_keys_def)

text \<open>
  C13. No near duplicate is missed: a value that was stored under all keys of its signature, and
  whose signature differs from the one searched for in at most \<open>hamdis\<close> (at most 4) bits, is found
  under a key that the two signatures share, and reported in the list of its distance, provided
  that it belongs to another document and has not expired.
\<close>

theorem near_duplicate_found:
  assumes "output_ok out" and "\<forall>k. \<forall>v \<in> set (store k). value_ok v" and "hamdis input \<le> 4"
    and "in_strategy input \<noteq> APPEND" and "in_pattern input = FULLTEXT"
    and insert: "\<forall>k \<in> set (snd (make_rediskey u FULLTEXT (simid v) [])). v \<in> set (store k)"
    and near: "hamming_dist (simid v) sign \<le> hamdis input" and "visible now input v"
  shows "\<exists>out' same' x. get_similar_doc now (lookup_keys store (snd (make_rediskey u FULLTEXT sign []))) sign (Some out) input same
      = Some (0, Some out', same') \<and>
    x \<in> set (simdis out' ! nat (hamming_dist (simid v) sign)) \<and> docid (sval x) = docid v \<and> simid (sval x) = simid v"
proof -
  let ?d = "nat (hamming_dist (simid v) sign)" and ?rs = "lookup_keys store (snd (make_rediskey u FULLTEXT sign []))"
  have d: "hamming_dist (simid v) sign = int ?d" by (simp add: hamming_dist_card)
  have d5: "?d < 5" using near assms(3) d by linarith
  have four: "hamming_dist (simid v) sign \<le> 4" using near assms(3) by linarith
  have "pattern_type FULLTEXT = Some ''F''" by (simp add: pattern_type_def)
  then obtain k where k: "k \<in> set (snd (make_rediskey u FULLTEXT (simid v) []))" "k \<in> set (snd (make_rediskey u FULLTEXT sign []))"
    using shared_key [OF four] by blast
  then have kv: "(k, v) \<in> set (stored ?rs)" and okv: "value_ok v" using insert assms(2) stored_lookup by blast+
  obtain tv where tv: "copy_value v = Some tv" "docid tv = docid v" "simid tv = simid v"
    using okv by (simp add: copy_value_def value_ok_def)
  have "hit now sign input ?d (k, v)" using assms(8) near d by (simp add: hit_def)
  then have x: "\<lparr>skey = k, rate = 0, sval = tv\<rparr> \<in> set (hits now sign input ?d (stored ?rs))"
    using kv tv(1) by (force simp: hits_def)
  have "\<forall>r \<in> set ?rs. \<forall>v \<in> set (rvalue r). value_ok v" using assms(2) by (auto simp: lookup_keys_def)
  from get_similar_doc_run [OF assms(1) this assms(3-5), of now sign same] obtain out' same' where
    "get_similar_doc now ?rs sign (Some out) input same = Some (0, Some out', same')"
    "simdis out' ! ?d = simdis out ! ?d @ hits now sign input ?d (stored ?rs)" using d5 by blast
  then show ?thesis using x tv by (intro exI [of _ out'] exI [of _ same'] exI [of _ "\<lparr>skey = k, rate = 0, sval = tv\<rparr>"]) simp
qed

theorem near_duplicate_found_witness:
  "\<exists>out' same' x. get_similar_doc 5 (lookup_keys (\<lambda>_. [sample_value]) (snd (make_rediskey None FULLTEXT 1 []))) 1 (Some sample_output) sample_input False
      = Some (0, Some out', same') \<and> x \<in> set (simdis out' ! 1) \<and> docid (sval x) = 7"
proof -
  have h: "hamming_dist (simid sample_value) 1 = 1" by (simp add: sample_value_def hamming_dist_def count_bits.simps)
  have "visible 5 sample_input sample_value" by (simp add: visible_def sample_input_def sample_value_def)
  moreover have "\<forall>k \<in> set (snd (make_rediskey None FULLTEXT (simid sample_value) [])). sample_value \<in> set [sample_value]" by simp
  moreover have "hamming_dist (simid sample_value) 1 \<le> hamdis sample_input" unfolding h by (simp add: sample_input_def)
  moreover have "\<forall>k. \<forall>v \<in> set ((\<lambda>_. [sample_value]) k). value_ok v" using sample_ok(2) by simp
  ultimately show ?thesis
    using near_duplicate_found [OF sample_ok(1) _ sample_ok(3-5), of "\<lambda>_. [sample_value]" None sample_value 1 5 False]
    unfolding h by (auto simp: sample_value_def)
qed

text \<open>
  C39. The distance limit is not checked: a request with \<open>hamdis\<close> of 5 or more that meets a stored
  value at such a distance writes past the end of \<open>simdis[DISTANCE]\<close>.
\<close>

theorem large_hamdis_overruns_simdis:
  assumes "output_ok out" and "visible now input v" and "hamming_dist (simid v) sign \<le> hamdis input"
    and "5 \<le> hamming_dist (simid v) sign" and "in_strategy input \<noteq> APPEND" and "in_pattern input = FULLTEXT"
  shows "get_similar_doc now (\<lparr>rkey = k, rvalue = v # vs\<rparr> # rs) sign (Some out) input same = None"
proof -
  have "\<not> nat (hamming_dist (simid v) sign) < 5" using assms(4) by linarith
  then have "visit_value now sign input k v (out\<lparr>counts := replicate (length (counts out)) 0\<rparr>, same) = None"
    using assms(1-3) by (cases "copy_value v") (auto simp: visit_value_def visible_def output_ok_def Let_def)
  then show ?thesis using assms(5,6) by (simp add: get_similar_doc_def)
qed

theorem large_hamdis_overruns_simdis_witness:
  "get_similar_doc 5 [\<lparr>rkey = ''k'', rvalue = [sample_value\<lparr>simid := 31\<rparr>]\<rparr>] 0 (Some sample_output) (sample_input\<lparr>hamdis := 6\<rparr>) False = None"
proof -
  have h: "hamming_dist (simid (sample_value\<lparr>simid := 31\<rparr>)) 0 = 5" by (simp add: hamming_dist_def count_bits.simps)
  have "visible 5 (sample_input\<lparr>hamdis := 6\<rparr>) (sample_value\<lparr>simid := 31\<rparr>)" by (simp add: visible_def sample_input_def sample_value_def)
  then show ?thesis
    using large_hamdis_overruns_simdis [OF sample_ok(1), of 5 "sample_input\<lparr>hamdis := 6\<rparr>" "sample_value\<lparr>simid := 31\<rparr>" 0 "''k''" "[]" "[]" False]
    unfolding h by (simp add: sample_input_def)
qed

section \<open>trim\_string removes blanks at both ends\<close>

lemma trim_front_dropWhile: "trim_front s = dropWhile trim_char s"
  by (induction s) simp_all

lemma trim_back_spec:
  "s \<noteq> [] \<Longrightarrow> \<not> trim_char (hd s) \<Longrightarrow> \<exists>core ws. trim_back s = Some core \<and> s = core @ ws \<and> (\<forall>c \<in> set ws. trim_char c) \<and>
    core \<noteq> [] \<and> \<not> trim_char (last core)"
proof (induction s rule: rev_induct)
  case (snoc c s)
  show ?case
  proof (cases "trim_char c")
    case False
    then show ?thesis by (intro exI [of _ "s @ [c]"] exI [of _ "[]"]) (simp add: trim_back.simps)
  next
    case True
    then have "s \<noteq> []" using snoc.prems by auto
    then obtain core ws where "trim_back s = Some core" "s = core @ ws" "\<forall>c \<in> set ws. trim_char c" "core \<noteq> []" "\<not> trim_char (last core)"
      using snoc by auto
    moreover have "trim_back (s @ [c]) = trim_back s" using True by (simp add: trim_back.simps [of "s @ [c]"])
    ultimately show ?thesis using True by (intro exI [of _ core] exI [of _ "ws @ [c]"]) auto
  qed
qed simp

lemma trim_string_spec:
  "\<exists>pre core post. trim_string s = Some core \<and> s = pre @ core @ post \<and> (\<forall>c \<in> set (pre @ post). trim_char c) \<and>
    (core \<noteq> [] \<longrightarrow> \<not> trim_char (hd core) \<and> \<not> trim_char (last core))"
proof (cases "trim_front s = []")
  case True
  then have "\<forall>c \<in> set s. trim_char c" by (simp add: trim_front_dropWhile)
  then show ?thesis using True by (intro exI [of _ s] exI [of _ "[]"]) (simp add: trim_string_def)
next
  case False
  let ?t = "dropWhile trim_char s"
  have t: "?t \<noteq> []" "\<not> trim_char (hd ?t)" using False hd_dropWhile [of trim_char s] by (simp_all add: trim_front_dropWhile)
  then obtain core ws where c: "trim_back ?t = Some core" "?t = core @ ws" "\<forall>c \<in> set ws. trim_char c" "core \<noteq> []" "\<not> trim_char (last core)"
    using trim_back_spec by blast
  have "s = takeWhile trim_char s @ core @ ws" using c(2) by (metis takeWhile_dropWhile_id)
  moreover have "hd core = hd ?t" using c(2,4) by simp
  ultimately show ?thesis using c t False set_takeWhileD [of _ trim_char s]
    by (intro exI [of _ "takeWhile trim_char s"] exI [of _ core] exI [of _ ws]) (auto simp: trim_string_def trim_front_dropWhile)
qed

end
