(* ===== verification/UrlCodec.thy ===== *)
theory UrlCodec
  imports Prelude
begin

text \<open>
  The URL codecs: \<open>url_encode\<close>, \<open>url_decode\<close> and \<open>is_url_encode_str\<close> of
  \<open>src/include/UrlEncodeAndDecode.h\<close>, \<open>URLDecode\<close> of \<open>src/include/utils.cpp\<close> and \<open>UrlEncode\<close> of
  \<open>src/http_server/HttpHandler.cpp\<close>, with the city helpers of \<open>utils.cpp\<close>. The locale \<open>byte_codec\<close>
  states what makes an encoder and a decoder fit; all four combinations of the two encoders and
  the two decoders do.
\<close>

section \<open>UrlEncodeAndDecode.h\<close>

unbundle bit_operations_syntax

text \<open>A \<open>char\<close> result is kept as its signed value.\<close>

definition from_hex :: "char \<Rightarrow> int" where
  "from_hex ch = schar (to_char (if c_isdigit ch then schar ch - 48 else schar (c_tolower ch) - 97 + 10))"

definition to_hex :: "int \<Rightarrow> char" where
  "to_hex code = ''0123456789abcdef'' ! nat (code AND 15)"

definition url_plain :: "char \<Rightarrow> bool" where
  "url_plain c \<longleftrightarrow> c_isalnum c \<or> c = CHR ''-'' \<or> c = CHR ''_'' \<or> c = CHR ''.'' \<or> c = CHR ''~''"

definition url_encode_char :: "char \<Rightarrow> bytes" where
  "url_encode_char c =
     (if url_plain c then [c] else if c = CHR '' '' then ''+''
      else [CHR ''%'', to_hex (schar c div 2 ^ 4), to_hex (schar c AND 15)])"

definition url_encode :: "bytes \<Rightarrow> bytes" where
  "url_encode str = concat (map url_encode_char (cstr str))"

fun url_decode_loop :: "bytes \<Rightarrow> bytes" where
  "url_decode_loop [] = []"
| "url_decode_loop (c # r) =
     (if c = CHR ''%'' then
        (case r of a # b # r' \<Rightarrow> to_char ((from_hex a * 2 ^ 4) OR from_hex b) # url_decode_loop r'
         | _ \<Rightarrow> url_decode_loop r)
      else if c = CHR ''+'' then CHR '' '' # url_decode_loop r
      else c # url_decode_loop r)"

definition url_decode :: "bytes \<Rightarrow> bytes" where
  "url_decode str = url_decode_loop (cstr str)"

definition hex_digit :: "char \<Rightarrow> bool" where
  "hex_digit c \<longleftrightarrow> c_isdigit c \<or> (97 \<le> schar c \<and> schar c \<le> 102) \<or> (65 \<le> schar c \<and> schar c \<le> 70)"

text \<open>The loop returns the number of plain characters, or \<open>None\<close> for \<open>return false\<close>.\<close>

fun is_url_loop :: "bytes \<Rightarrow> int \<Rightarrow> int option" where
  "is_url_loop [] n = Some n"
| "is_url_loop (c # r) n =
     (if c = CHR ''%'' then
        (case r of a # b # r' \<Rightarrow> if \<not> hex_digit a then None else if \<not> hex_digit b then None else is_url_loop r' n
         | _ \<Rightarrow> None)
      else if c = CHR ''+'' \<or> c = CHR '' '' \<or> c = CHR ''~'' then is_url_loop r (n + 1)
      else None)"

definition is_url_encode_str :: "bytes \<Rightarrow> bool" where
  "is_url_encode_str str =
     (case is_url_loop (cstr str) 0 of None \<Rightarrow> False | Some naive_count \<Rightarrow> naive_count \<noteq> int (length str))"

definition url_decoded_str :: "bytes \<Rightarrow> bytes" where
  "url_decoded_str str = cstr (url_decode str)"

definition url_encoded_str :: "bytes \<Rightarrow> bytes" where
  "url_encoded_str str = cstr (url_encode str)"

section \<open>utils.cpp\<close>

definition char2num :: "char \<Rightarrow> int" where
  "char2num ch =
     (if 48 \<le> schar ch \<and> schar ch \<le> 57 then schar ch - 48
      else if 97 \<le> schar ch \<and> schar ch \<le> 102 then schar ch - 97 + 10
      else if 65 \<le> schar ch \<and> schar ch \<le> 70 then schar ch - 65 + 10 else -1)"

fun URLDecode :: "bytes \<Rightarrow> bytes" where
  "URLDecode [] = []"
| "URLDecode (ch # r) =
     (if ch = CHR ''+'' then CHR '' '' # URLDecode r
      else if ch = CHR ''%'' then
        (case r of a # b # r' \<Rightarrow>
           if char2num a \<noteq> -1 \<and> char2num b \<noteq> -1
           then to_char ((char2num a * 2 ^ 4) OR char2num b) # URLDecode r'
           else ch # URLDecode r
         | _ \<Rightarrow> ch # URLDecode r)
      else ch # URLDecode r)"

text \<open>The GBK names of the seven areas without a province.\<close>

definition short_provinces :: "bytes list" where
  "short_provinces = map (map (char_of :: nat \<Rightarrow> char))
     [[0xB1, 0xB1, 0xBE, 0xA9], [0xCC, 0xEC, 0xBD, 0xF2], [0xC9, 0xCF, 0xBA, 0xA3],
      [0xD6, 0xD8, 0xC7, 0xEC], [0xCC, 0xA8, 0xCD, 0xE5], [0xCF, 0xE3, 0xB8, 0xDB], [0xB0, 0xC4, 0xC3, 0xC5]]"

definition rfind_char :: "char \<Rightarrow> bytes \<Rightarrow> nat option" where
  "rfind_char c s = map_option (\<lambda>i. length s - 1 - i) (find_sub (rev s) [c])"

text \<open>Province, city and district are in-out parameters.\<close>

definition parseCity :: "bytes \<Rightarrow> bytes \<times> bytes \<times> bytes \<Rightarrow> bytes \<times> bytes \<times> bytes" where
  "parseCity userArea = (\<lambda>(province, city, district).
     case (find_sub userArea [CHR 0x09], rfind_char (CHR 0x09) userArea) of
       (Some pos1, Some pos2) \<Rightarrow>
         if pos1 \<noteq> pos2 then
           (take pos1 userArea, take (pos2 - pos1 - 1) (drop (pos1 + 1) userArea), drop (pos2 + 1) userArea)
         else
           let shortProvince = (if length userArea \<ge> 4 then take 4 userArea else []) in
           if shortProvince \<in> set short_provinces
           then ([], take pos1 userArea, drop (pos2 + 1) userArea)
           else (take pos1 userArea, drop (pos2 + 1) userArea, [])
     | _ \<Rightarrow> (province, userArea, district))"

definition isSameCity :: "bytes \<Rightarrow> bytes \<Rightarrow> bool" where
  "isSameCity cityA cityB =
     (let (longCity, shortCity) = (if length cityA > length cityB then (cityA, cityB) else (cityB, cityA))
      in find_sub longCity shortCity \<noteq> None)"

section \<open>HttpHandler.cpp\<close>

definition ToHex :: "nat \<Rightarrow> char" where
  "ToHex x = char_of (if x > 9 then x + 55 else x + 48)"

definition UrlEncode_char :: "char \<Rightarrow> bytes" where
  "UrlEncode_char c =
     (if url_plain c then [c] else if c = CHR '' '' then ''+''
      else [CHR ''%'', ToHex (uchar c div 2 ^ 4), ToHex (uchar c mod 16)])"

definition UrlEncode :: "bytes \<Rightarrow> bytes" where
  "UrlEncode str = concat (map UrlEncode_char str)"

section \<open>Encoders and decoders that fit\<close>

locale byte_codec =
  fixes enc :: "char \<Rightarrow> bytes"
    and dec :: "bytes \<Rightarrow> bytes"
  assumes dec_Nil: "dec [] = []"
    and dec_enc: "dec (enc c @ r) = c # dec r"
    and enc_safe: "x \<in> set (enc c) \<Longrightarrow> url_plain x \<or> x = CHR ''+'' \<or> x = CHR ''%''"
begin

lemma decode_encode: "dec (concat (map enc s)) = s"
  by (induction s) (simp_all add: dec_Nil dec_enc)

lemma encode_inj: "concat (map enc s) = concat (map enc t) \<longleftrightarrow> s = t"
  by (metis decode_encode)

lemma encode_safe: "x \<in> set (concat (map enc s)) \<Longrightarrow> url_plain x \<or> x = CHR ''+'' \<or> x = CHR ''%''"
  using enc_safe by auto

lemma encode_nul_free: "nul_free (concat (map enc s))"
  using encode_safe [of NUL s] by (auto simp: nul_free_def url_plain_def c_isalnum_def c_isdigit_def c_isupper_def
      c_islower_def)

end

subsection \<open>Hexadecimal digits\<close>

lemma less_16_iff:
  "(k :: nat) < 16 \<longleftrightarrow> k \<in> {0, 1, 2, 3, 4, 5, 6, 7, 8, 9, 10, 11, 12, 13, 14, 15}"
  by (simp, presburger)

definition lower_digit :: "nat \<Rightarrow> char" where
  "lower_digit k = ''0123456789abcdef'' ! k"

lemma from_hex_lower: "k < 16 \<Longrightarrow> from_hex (lower_digit k) = int k"
  unfolding less_16_iff insert_iff empty_iff
  by (elim disjE FalseE; simp add: lower_digit_def from_hex_def schar_def to_char_def c_isdigit_def c_tolower_def
      c_isupper_def uchar_def)

lemma from_hex_upper: "k < 16 \<Longrightarrow> from_hex (ToHex k) = int k"
  unfolding less_16_iff insert_iff empty_iff
  by (elim disjE FalseE; simp add: ToHex_def from_hex_def schar_def to_char_def c_isdigit_def c_tolower_def
      c_isupper_def)

lemma char2num_lower: "k < 16 \<Longrightarrow> char2num (lower_digit k) = int k"
  unfolding less_16_iff insert_iff empty_iff
  by (elim disjE FalseE; simp add: lower_digit_def char2num_def schar_def uchar_def)

lemma char2num_upper: "k < 16 \<Longrightarrow> char2num (ToHex k) = int k"
  unfolding less_16_iff insert_iff empty_iff
  by (elim disjE FalseE; simp add: ToHex_def char2num_def schar_def)

lemma digits_plain: "k < 16 \<Longrightarrow> url_plain (lower_digit k) \<and> url_plain (ToHex k)"
  unfolding less_16_iff insert_iff empty_iff
  by (elim disjE FalseE; simp add: lower_digit_def ToHex_def url_plain_def c_isalnum_def c_isdigit_def
      c_isupper_def c_islower_def uchar_def)

lemma to_hex_digit: "to_hex x = lower_digit (nat (x mod 16))"
proof -
  have "x AND 15 = x mod 16" using take_bit_eq_mask [of 4 x] by (simp add: take_bit_eq_mod mask_eq_exp_minus_1)
  then show ?thesis by (simp add: to_hex_def lower_digit_def)
qed

lemma hex_high: "nat (schar c div 2 ^ 4 mod 16) = uchar c div 16"
proof -
  have "schar c = int (uchar c) \<or> schar c = int (uchar c) - 16 * 16" by (auto simp: schar_def)
  moreover have "(int (uchar c) - 16 * 16) div 16 = int (uchar c) div 16 - 16"
    using div_mult_self1 [of 16 "int (uchar c)" "-16"] by simp
  ultimately have "schar c div 16 mod 16 = int (uchar c) div 16 mod 16" by auto
  also have "\<dots> = int (uchar c div 16)" using uchar_less [of c] by (simp add: zdiv_int)
  finally show ?thesis by simp
qed

lemma hex_low: "nat ((schar c AND 15) mod 16) = uchar c mod 16"
proof -
  have "schar c AND 15 = schar c mod 16"
    using take_bit_eq_mask [of 4 "schar c"] by (simp add: take_bit_eq_mod mask_eq_exp_minus_1)
  moreover have "schar c mod 16 = int (uchar c mod 16)"
    by (auto simp: schar_def zmod_int mod_diff_right_eq [symmetric])
  ultimately show ?thesis by simp
qed

lemma nibbles: "to_char ((int (uchar c div 16) * 2 ^ 4) OR int (uchar c mod 16)) = c"
proof -
  have "(int (uchar c div 16) * 2 ^ 4) OR int (uchar c mod 16) = int (uchar c div 16) * 2 ^ 4 + int (uchar c mod 16)"
  proof (rule disjunctive_add_eq_or [symmetric])
    have "int (uchar c div 16) * 2 ^ 4 = push_bit 4 (int (uchar c div 16))"
      and "int (uchar c mod 16) = take_bit 4 (int (uchar c))"
      by (simp_all add: push_bit_eq_mult take_bit_eq_mod zmod_int)
    then show "int (uchar c div 16) * 2 ^ 4 AND int (uchar c mod 16) = 0"
      by (simp add: bit_eq_iff bit_and_iff bit_push_bit_iff bit_take_bit_iff)
  qed
  also have "\<dots> = int (uchar c)"
    using div_mult_mod_eq [of "uchar c" 16] by (simp, linarith)
  finally show ?thesis using uchar_less [of c] by (simp add: to_char_def)
qed

subsection \<open>The four combinations\<close>

lemma div_16_less: "uchar c div 16 < 16" and mod_16_less: "uchar c mod 16 < 16"
  using uchar_less [of c] by auto

lemma plain_not_special: "url_plain c \<Longrightarrow> c \<noteq> CHR ''%'' \<and> c \<noteq> CHR ''+''"
  by (auto simp: url_plain_def c_isalnum_def c_isdigit_def c_isupper_def c_islower_def uchar_def)

lemma url_encode_char_escape:
  "url_encode_char c = (if url_plain c then [c] else if c = CHR '' '' then ''+''
     else [CHR ''%'', lower_digit (uchar c div 16), lower_digit (uchar c mod 16)])"
  unfolding url_encode_char_def to_hex_digit hex_high hex_low ..

lemma UrlEncode_char_escape:
  "UrlEncode_char c = (if url_plain c then [c] else if c = CHR '' '' then ''+''
     else [CHR ''%'', ToHex (uchar c div 16), ToHex (uchar c mod 16)])"
  by (simp add: UrlEncode_char_def)

lemmas escape_digits = from_hex_lower from_hex_upper char2num_lower char2num_upper div_16_less mod_16_less nibbles

lemma url_decode_step:
  assumes "from_hex a = int (uchar c div 16)" and "from_hex b = int (uchar c mod 16)"
  shows "url_decode_loop (CHR ''%'' # a # b # r) = c # url_decode_loop r"
  using assms nibbles [of c] by simp

lemma URLDecode_step:
  assumes "char2num a = int (uchar c div 16)" and "char2num b = int (uchar c mod 16)"
  shows "URLDecode (CHR ''%'' # a # b # r) = c # URLDecode r"
  using assms nibbles [of c] by simp

lemma decode_plain:
  "url_plain c \<Longrightarrow> url_decode_loop (c # r) = c # url_decode_loop r"
  "url_plain c \<Longrightarrow> URLDecode (c # r) = c # URLDecode r"
  "url_decode_loop (CHR ''+'' # r) = CHR '' '' # url_decode_loop r"
  "URLDecode (CHR ''+'' # r) = CHR '' '' # URLDecode r"
  by (simp_all add: plain_not_special)

lemmas decode_steps = url_decode_step URLDecode_step decode_plain escape_digits digits_plain

interpretation url_url: byte_codec url_encode_char url_decode_loop
  by unfold_locales (auto simp: url_encode_char_escape decode_steps split: if_splits
    simp del: url_decode_loop.simps(2))

interpretation http_url: byte_codec UrlEncode_char url_decode_loop
  by unfold_locales (auto simp: UrlEncode_char_escape decode_steps split: if_splits
    simp del: url_decode_loop.simps(2))

interpretation url_utils: byte_codec url_encode_char URLDecode
  by unfold_locales (auto simp: url_encode_char_escape decode_steps split: if_splits simp del: URLDecode.simps(2))

interpretation http_utils: byte_codec UrlEncode_char URLDecode
  by unfold_locales (auto simp: UrlEncode_char_escape decode_steps split: if_splits simp del: URLDecode.simps(2))

section \<open>Properties\<close>

text \<open>
  C27. Decoding undoes encoding for both encoders and both decoders of the program: the C functions
  on every C string, the C++ ones on every byte sequence, and each decoder on the output of the
  other file's encoder.
\<close>

theorem url_codec_roundtrip:
  "url_decoded_str (url_encoded_str s) = cstr s \<and> url_decode (UrlEncode (cstr s)) = cstr s \<and>
   URLDecode (url_encode s) = cstr s \<and> URLDecode (UrlEncode s) = s"
proof -
  have nf: "nul_free (concat (map url_encode_char t))" "nul_free (concat (map UrlEncode_char t))" for t
    by (rule url_url.encode_nul_free http_url.encode_nul_free)+
  show ?thesis
    by (simp add: url_decoded_str_def url_encoded_str_def url_decode_def url_encode_def UrlEncode_def cstr_nul_free nf
        url_url.decode_encode http_url.decode_encode url_utils.decode_encode http_utils.decode_encode)
qed

text \<open>
  Both encoders produce only unreserved characters, plus signs and percent escapes, and
  different strings have different encodings.
\<close>

theorem UrlEncode_safe_injective:
  "(\<forall>x \<in> set (UrlEncode s). url_plain x \<or> x = CHR ''+'' \<or> x = CHR ''%'') \<and>
   (UrlEncode s = UrlEncode t \<longleftrightarrow> s = t)"
  using http_url.encode_safe [of _ s] http_url.encode_inj [of s t] by (auto simp: UrlEncode_def)

theorem UrlEncode_safe_injective_witness:
  "UrlEncode ''a b'' = ''a+b'' \<and> UrlEncode ''a b'' \<noteq> UrlEncode ''a+b''"
  using UrlEncode_safe_injective [of "''a b''" "''a+b''"]
  by (simp add: UrlEncode_def UrlEncode_char_def url_plain_def c_isalnum_def c_isdigit_def c_isupper_def c_islower_def
      uchar_def)

text \<open>The test for encoded text accepts no letter and no digit outside an escape.\<close>

lemma is_url_rejects_plain: "c_isalnum c \<Longrightarrow> is_url_encode_str (c # s) = False"
  by (auto simp: is_url_encode_str_def cstr_def c_isalnum_def c_isdigit_def c_isupper_def c_islower_def uchar_def)

lemma find_single: "find_sub s [c] = Some i \<Longrightarrow> i < length s \<and> s ! i = c \<and> c \<notin> set (take i s)"
proof (induction s arbitrary: i)
  case (Cons x s)
  then show ?case by (cases i) (auto split: if_splits)
qed simp

lemma rfind_char_Some:
  assumes "rfind_char c s = Some j"
  shows "j < length s \<and> s ! j = c \<and> c \<notin> set (drop (Suc j) s)"
proof -
  from assms obtain k where k: "find_sub (rev s) [c] = Some k" "j = length s - 1 - k"
    by (auto simp: rfind_char_def)
  note f = find_single [OF k(1)]
  then have "length s - k = Suc j" using k(2) Suc_diff_Suc [of k "length s"] by simp
  then have "take k (rev s) = rev (drop (Suc j) s)" by (simp add: take_rev)
  with f k(2) show ?thesis by (auto simp: rev_nth)
qed

lemma find_sub_sublist: "find_sub s pat \<noteq> None \<longleftrightarrow> (\<exists>p q. s = p @ pat @ q)"
proof
  assume "find_sub s pat \<noteq> None"
  then show "\<exists>p q. s = p @ pat @ q" using find_sub_split by blast
next
  assume "\<exists>p q. s = p @ pat @ q"
  then obtain p q where "s = p @ pat @ q" by blast
  then have "occurs_at s pat (length p)" by (simp add: occurs_at_def)
  then show "find_sub s pat \<noteq> None" by (metis find_sub_None)
qed

text \<open>
  An area with at least two tabs is split into province, city and district that, joined with
  tabs, give the area back; the province has no tab and the district has none.
\<close>

theorem parseCity_roundtrip:
  assumes "parseCity userArea old = (province, city, district)"
    and "find_sub userArea [CHR 0x09] = Some i" and "rfind_char (CHR 0x09) userArea = Some j" and "i \<noteq> j"
  shows "userArea = province @ CHR 0x09 # city @ CHR 0x09 # district \<and>
    CHR 0x09 \<notin> set province \<and> CHR 0x09 \<notin> set district"
proof -
  let ?s = userArea and ?t = "CHR 0x09"
  note f = find_single [OF assms(2)]
  note r = rfind_char_Some [OF assms(3)]
  have "i \<le> j"
  proof (rule ccontr)
    assume "\<not> i \<le> j"
    then have "?s ! j \<in> set (take i ?s)" using f r by (auto simp: in_set_conv_nth intro!: exI [of _ j])
    with f r show False by simp
  qed
  with assms(4) have ij: "i < j" by simp
  have pc: "province = take i ?s" "city = take (j - i - 1) (drop (i + 1) ?s)" "district = drop (j + 1) ?s"
    using assms by (auto simp: parseCity_def split: prod.splits)
  have "?s = take i ?s @ ?t # drop (Suc i) ?s" using f id_take_nth_drop [of i ?s] by simp
  moreover have "drop (Suc i) ?s = take (j - i - 1) (drop (Suc i) ?s) @ ?t # drop (Suc (j - i - 1)) (drop (Suc i) ?s)"
    using r ij id_take_nth_drop [of "j - i - 1" "drop (Suc i) ?s"] by (simp add: diff_less_mono)
  ultimately show ?thesis using f r ij pc by simp
qed

theorem parseCity_roundtrip_witness:
  "parseCity [CHR ''p'', CHR 0x09, CHR ''c'', CHR 0x09, CHR ''d''] ([], [], []) = (''p'', ''c'', ''d'')"
proof -
  let ?s = "[CHR ''p'', CHR 0x09, CHR ''c'', CHR 0x09, CHR ''d'']"
  obtain p c d where e: "parseCity ?s ([], [], []) = (p, c, d)" by (metis prod_cases3)
  have i: "find_sub ?s [CHR 0x09] = Some 1" and j: "rfind_char (CHR 0x09) ?s = Some 3"
    by (simp_all add: rfind_char_def)
  have "?s = p @ CHR 0x09 # c @ CHR 0x09 # d" using parseCity_roundtrip [OF e i j] by simp
  moreover have "parseCity ?s ([], [], []) = (''p'', ''c'', ''d'')" by (simp add: parseCity_def i j)
  ultimately show ?thesis by simp
qed

text \<open>\<open>isSameCity\<close> is symmetric: it holds exactly when one of the names is a substring of the other.\<close>

theorem isSameCity_sublist:
  "isSameCity a b \<longleftrightarrow> (\<exists>p q. a = p @ b @ q) \<or> (\<exists>p q. b = p @ a @ q)"
proof -
  have len: "length y \<le> length x" if "x = p @ y @ q" for x y p q :: bytes using that by simp
  show ?thesis
  proof (cases "length a > length b")
    case True
    then have "\<not> (\<exists>p q. b = p @ a @ q)" using len by (metis linorder_not_less)
    with True show ?thesis unfolding isSameCity_def by (simp add: find_sub_sublist del: not_None_eq)
  next
    case False
    then have "b = [] @ a @ []" if "a = p @ b @ q" for p q using that by auto
    then have "\<exists>p q. b = p @ a @ q" if "\<exists>p q. a = p @ b @ q" using that by blast
    with False show ?thesis unfolding isSameCity_def by (simp add: find_sub_sublist del: not_None_eq) blast
  qed
qed

end
