(* ===== verification/GaryDictionary.thy ===== *)
theory GaryDictionary
  imports Prelude
begin

text \<open>
  The dictionary \<open>CDictionary<T_udwDicSize>\<close> of \<open>src/include/gary_common/gary_dictionary.h\<close>: a
  256-way trie whose nodes come from a fixed pool. A node is its position in the pool; position 0,
  which the code leaves unused, stands for the separate root object. \<open>dwIndex\<close> is negative for an
  inner node and positive for the end of a word; its magnitude is the position of the node.

  The abstract view is a finite map from words to ids (\<open>dict_map\<close>): \<open>AddWord\<close> adds one word with a
  fresh id and changes nothing else, also when the pool runs out half way.
\<close>

section \<open>Nodes and state\<close>

record SCharNode =
  dwIndex :: int
  nextp :: "char \<Rightarrow> nat option"

definition Reset_node :: SCharNode where
  "Reset_node = \<lparr>dwIndex = 0, nextp = (\<lambda>_. None)\<rparr>"

record dictionary =
  m_pNodeBuf :: "nat \<Rightarrow> SCharNode"
  m_dwCurNodeIndex :: nat

definition new_dictionary :: "dictionary" where
  "new_dictionary = \<lparr>m_pNodeBuf = (\<lambda>_. Reset_node), m_dwCurNodeIndex = 1\<rparr>"

definition Reset_dict :: "dictionary \<Rightarrow> dictionary" where
  "Reset_dict d = d\<lparr>m_dwCurNodeIndex := 1, m_pNodeBuf := (m_pNodeBuf d)(0 := Reset_node)\<rparr>"

section \<open>Lookup\<close>

fun walk :: "dictionary \<Rightarrow> nat \<Rightarrow> bytes \<Rightarrow> nat option" where
  "walk d n [] = Some n"
| "walk d n (c # w) = (case nextp (m_pNodeBuf d n) c of None \<Rightarrow> None | Some m \<Rightarrow> walk d m w)"

definition LookUp :: "dictionary \<Rightarrow> bytes \<Rightarrow> int" where
  "LookUp d w = (if w = [] then 0
     else case walk d 0 w of None \<Rightarrow> 0 | Some n \<Rightarrow> dwIndex (m_pNodeBuf d n))"

text \<open>
  The second \<open>LookUp\<close> folds the case of single-byte letters on the way; \<open>need\<close> is
  \<open>dwNeedWordMatchLen\<close>, two at the first byte of a double-byte character.
\<close>

fun LookUp_fold :: "dictionary \<Rightarrow> nat \<Rightarrow> bytes \<Rightarrow> int \<Rightarrow> nat option" where
  "LookUp_fold d n [] need = Some n"
| "LookUp_fold d n (c # w) need =
     (let (need', c') =
        (if need = 0 then
           (if is_neg c then (2, c)
            else (1, if 65 \<le> schar c \<and> schar c \<le> 90 then to_char (schar c - (65 - 97)) else c))
         else (need, c))
      in case nextp (m_pNodeBuf d n) c' of None \<Rightarrow> None | Some m \<Rightarrow> LookUp_fold d m w (need' - 1))"

definition LookUp_node :: "dictionary \<Rightarrow> bytes \<Rightarrow> nat option \<Rightarrow> nat option" where
  "LookUp_node d w beg = (if w = [] then None
     else LookUp_fold d (case beg of None \<Rightarrow> 0 | Some n \<Rightarrow> n) w 0)"

section \<open>Adding a word\<close>

definition AllocateNode :: "nat \<Rightarrow> dictionary \<Rightarrow> (nat \<times> dictionary) option" where
  "AllocateNode N d =
     (let i = m_dwCurNodeIndex d in
      if i \<ge> N then None
      else Some (i, d\<lparr>m_pNodeBuf := (m_pNodeBuf d)(i := Reset_node\<lparr>dwIndex := - int i\<rparr>),
                      m_dwCurNodeIndex := Suc i\<rparr>))"

definition set_next :: "nat \<Rightarrow> char \<Rightarrow> nat \<Rightarrow> dictionary \<Rightarrow> dictionary" where
  "set_next n c m d = d\<lparr>m_pNodeBuf := (m_pNodeBuf d)(n := (m_pNodeBuf d n)\<lparr>nextp :=
     (nextp (m_pNodeBuf d n))(c := Some m)\<rparr>)\<rparr>"

text \<open>The loop of \<open>AddWord\<close>: the node of the last character, or \<open>None\<close> when the pool is empty.\<close>

fun add_path :: "nat \<Rightarrow> dictionary \<Rightarrow> nat \<Rightarrow> bytes \<Rightarrow> dictionary \<times> nat option" where
  "add_path N d n [] = (d, Some n)"
| "add_path N d n (c # w) = (case nextp (m_pNodeBuf d n) c of
       None \<Rightarrow> (case AllocateNode N d of
           None \<Rightarrow> (d, None)
         | Some (m, d1) \<Rightarrow> add_path N (set_next n c m d1) m w)
     | Some m \<Rightarrow> add_path N d m w)"

definition AddWord :: "nat \<Rightarrow> bytes \<Rightarrow> dictionary \<Rightarrow> dictionary \<times> int" where
  "AddWord N w d =
     (if w = [] then (d, 0)
      else case add_path N d 0 w of
        (d1, None) \<Rightarrow> (d1, 0)
      | (d1, Some n) \<Rightarrow>
          let nd = m_pNodeBuf d1 n;
              nd' = (if dwIndex nd < 0 then nd\<lparr>dwIndex := - dwIndex nd\<rparr> else nd)
          in (d1\<lparr>m_pNodeBuf := (m_pNodeBuf d1)(n := nd')\<rparr>, dwIndex nd'))"

section \<open>The invariant\<close>

text \<open>
  Nodes in use have their own position as the magnitude of \<open>dwIndex\<close>, children lie in the used
  part of the pool, and no two edges lead to the same node.
\<close>

definition dict_ok :: "dictionary \<Rightarrow> bool" where
  "dict_ok d \<longleftrightarrow>
     1 \<le> m_dwCurNodeIndex d \<and>
     (\<forall>n < m_dwCurNodeIndex d. \<bar>dwIndex (m_pNodeBuf d n)\<bar> = int n) \<and>
     (\<forall>n < m_dwCurNodeIndex d. \<forall>c m. nextp (m_pNodeBuf d n) c = Some m \<longrightarrow> 1 \<le> m \<and> m < m_dwCurNodeIndex d) \<and>
     (\<forall>n < m_dwCurNodeIndex d. \<forall>n' < m_dwCurNodeIndex d. \<forall>c c' m.
        nextp (m_pNodeBuf d n) c = Some m \<longrightarrow> nextp (m_pNodeBuf d n') c' = Some m \<longrightarrow> n = n' \<and> c = c')"

definition dict_map :: "dictionary \<Rightarrow> bytes \<rightharpoonup> int" where
  "dict_map d w = (if LookUp d w > 0 then Some (LookUp d w) else None)"

lemma new_dict_ok: "dict_ok new_dictionary"
  by (simp add: dict_ok_def new_dictionary_def Reset_node_def)

lemma Reset_dict_ok: "dict_ok (Reset_dict d) \<and> dict_map (Reset_dict d) = (\<lambda>_. None)"
proof
  show "dict_ok (Reset_dict d)" by (simp add: dict_ok_def Reset_dict_def Reset_node_def)
  have "LookUp (Reset_dict d) w = 0" for w
    by (cases w) (simp_all add: LookUp_def Reset_dict_def Reset_node_def)
  then show "dict_map (Reset_dict d) = (\<lambda>_. None)" by (simp add: dict_map_def fun_eq_iff)
qed

lemma walk_append: "walk d n (u @ v) = (case walk d n u of None \<Rightarrow> None | Some m \<Rightarrow> walk d m v)"
  by (induction u arbitrary: n) (auto split: option.splits)

lemma dict_ok_child:
  "dict_ok d \<Longrightarrow> n < m_dwCurNodeIndex d \<Longrightarrow> nextp (m_pNodeBuf d n) c = Some m \<Longrightarrow> 1 \<le> m \<and> m < m_dwCurNodeIndex d"
  unfolding dict_ok_def by blast

lemma walk_bound: "dict_ok d \<Longrightarrow> n < m_dwCurNodeIndex d \<Longrightarrow> walk d n w = Some m \<Longrightarrow> m < m_dwCurNodeIndex d"
proof (induction w arbitrary: n)
  case (Cons c w)
  then show ?case by (auto split: option.splits dest: dict_ok_child)
qed simp

lemma dict_ok_pos: "dict_ok d \<Longrightarrow> 0 < m_dwCurNodeIndex d"
  by (simp add: dict_ok_def)

lemma walk_snoc:
  assumes "dict_ok d" and "walk d 0 (u @ [a]) = Some m"
  obtains n where "walk d 0 u = Some n" and "n < m_dwCurNodeIndex d" and "nextp (m_pNodeBuf d n) a = Some m" and "1 \<le> m"
proof -
  from assms(2) obtain n where n: "walk d 0 u = Some n" "nextp (m_pNodeBuf d n) a = Some m"
    by (auto simp: walk_append split: option.splits)
  moreover have "n < m_dwCurNodeIndex d" using walk_bound [OF assms(1) dict_ok_pos n(1)] assms(1) by simp
  ultimately show ?thesis using assms(1) that by (auto simp: dict_ok_def)
qed

text \<open>Different words end at different nodes.\<close>

lemma walk_inj:
  assumes "dict_ok d"
  shows "walk d 0 u = Some m \<Longrightarrow> walk d 0 v = Some m \<Longrightarrow> u = v"
proof (induction u arbitrary: v m rule: rev_induct)
  case Nil
  show ?case
  proof (cases v rule: rev_cases)
    case (snoc v' b)
    with Nil walk_snoc [OF assms, of v' b m] show ?thesis by auto
  qed simp
next
  case (snoc a u)
  obtain n where n: "walk d 0 u = Some n" "n < m_dwCurNodeIndex d" "nextp (m_pNodeBuf d n) a = Some m" "1 \<le> m"
    by (rule walk_snoc [OF assms snoc.prems(1)])
  show ?case
  proof (cases v rule: rev_cases)
    case Nil
    with snoc.prems n show ?thesis by simp
  next
    case v: (snoc v' b)
    obtain n' where n': "walk d 0 v' = Some n'" "n' < m_dwCurNodeIndex d" "nextp (m_pNodeBuf d n') b = Some m"
      using walk_snoc [OF assms snoc.prems(2) [unfolded v]] by blast
    from assms n n' have "n = n' \<and> a = b" unfolding dict_ok_def by blast
    with snoc.IH [OF n(1)] n'(1) v show ?thesis by simp
  qed
qed

section \<open>Growing the trie by one node\<close>

definition grow :: "nat \<Rightarrow> char \<Rightarrow> dictionary \<Rightarrow> dictionary" where
  "grow n c d = (let i = m_dwCurNodeIndex d in
     set_next n c i (d\<lparr>m_pNodeBuf := (m_pNodeBuf d)(i := Reset_node\<lparr>dwIndex := - int i\<rparr>), m_dwCurNodeIndex := Suc i\<rparr>))"

lemma grow_simps:
  "m_dwCurNodeIndex (grow n c d) = Suc (m_dwCurNodeIndex d)"
  "n < m_dwCurNodeIndex d \<Longrightarrow> k < m_dwCurNodeIndex d \<Longrightarrow> dwIndex (m_pNodeBuf (grow n c d) k) = dwIndex (m_pNodeBuf d k)"
  "n < m_dwCurNodeIndex d \<Longrightarrow> dwIndex (m_pNodeBuf (grow n c d) (m_dwCurNodeIndex d)) = - int (m_dwCurNodeIndex d)"
  "n < m_dwCurNodeIndex d \<Longrightarrow> k < m_dwCurNodeIndex d \<Longrightarrow> nextp (m_pNodeBuf (grow n c d) k) c' =
     (if k = n \<and> c' = c then Some (m_dwCurNodeIndex d) else nextp (m_pNodeBuf d k) c')"
  "n < m_dwCurNodeIndex d \<Longrightarrow> nextp (m_pNodeBuf (grow n c d) (m_dwCurNodeIndex d)) c' = None"
  by (auto simp: grow_def set_next_def Let_def Reset_node_def)

lemma grow_ok:
  assumes ok: "dict_ok d" and n: "n < m_dwCurNodeIndex d" and free: "nextp (m_pNodeBuf d n) c = None"
  shows "dict_ok (grow n c d)"
proof -
  let ?i = "m_dwCurNodeIndex d" and ?g = "grow n c d"
  have edge: "(k = n \<and> c' = c \<and> m = ?i) \<or> (k < ?i \<and> nextp (m_pNodeBuf d k) c' = Some m \<and> m < ?i)"
    if "k < Suc ?i" "nextp (m_pNodeBuf ?g k) c' = Some m" for k c' m
    using that n dict_ok_child [OF ok, of k c' m] by (cases "k = ?i") (auto simp: grow_simps split: if_splits)
  have "\<bar>dwIndex (m_pNodeBuf ?g k)\<bar> = int k" if "k < Suc ?i" for k
    using that ok n by (cases "k = ?i") (auto simp: grow_simps dict_ok_def)
  moreover have "1 \<le> m \<and> m < Suc ?i" if "k < Suc ?i" "nextp (m_pNodeBuf ?g k) c' = Some m" for k c' m
    using edge [OF that] dict_ok_child [OF ok, of k c' m] dict_ok_pos [OF ok] by auto
  moreover have "k = k' \<and> x = y"
    if "k < Suc ?i" "k' < Suc ?i" "nextp (m_pNodeBuf ?g k) x = Some m" "nextp (m_pNodeBuf ?g k') y = Some m" for k k' x y m
    using edge [OF that(1,3)] edge [OF that(2,4)] ok unfolding dict_ok_def by blast
  ultimately show ?thesis unfolding dict_ok_def grow_simps by (auto simp del: One_nat_def)
qed

lemma grow_walk_keeps:
  assumes ok: "dict_ok d" and n: "n < m_dwCurNodeIndex d" and free: "nextp (m_pNodeBuf d n) c = None"
  shows "k < m_dwCurNodeIndex d \<Longrightarrow> walk d k v = Some m \<Longrightarrow> walk (grow n c d) k v = Some m"
proof (induction v arbitrary: k)
  case (Cons x v)
  then obtain k' where k': "nextp (m_pNodeBuf d k) x = Some k'" "walk d k' v = Some m"
    by (auto split: option.splits)
  with free have "nextp (m_pNodeBuf (grow n c d) k) x = Some k'" using Cons.prems n by (auto simp: grow_simps)
  with Cons.IH [of k'] k' dict_ok_child [OF ok Cons.prems(1) k'(1)] show ?case by simp
qed simp

lemma grow_walk_old:
  assumes ok: "dict_ok d" and n: "n < m_dwCurNodeIndex d"
  shows "k < m_dwCurNodeIndex d \<Longrightarrow> walk (grow n c d) k v = Some m \<Longrightarrow> m < m_dwCurNodeIndex d \<Longrightarrow> walk d k v = Some m"
proof (induction v arbitrary: k)
  case (Cons x v)
  then obtain k' where k': "nextp (m_pNodeBuf (grow n c d) k) x = Some k'" "walk (grow n c d) k' v = Some m"
    by (auto split: option.splits)
  show ?case
  proof (cases "k = n \<and> x = c")
    case True
    with k' n Cons.prems have "k' = m_dwCurNodeIndex d" by (simp add: grow_simps)
    with k'(2) n Cons.prems(3) show ?thesis by (cases v) (auto simp: grow_simps)
  next
    case False
    then have "nextp (m_pNodeBuf d k) x = Some k'" using k' n Cons.prems by (auto simp: grow_simps split: if_splits)
    with Cons k' dict_ok_child [OF ok Cons.prems(1)] show ?thesis by auto
  qed
qed simp

lemma grow_map:
  assumes ok: "dict_ok d" and n: "n < m_dwCurNodeIndex d" and free: "nextp (m_pNodeBuf d n) c = None"
  shows "dict_map (grow n c d) = dict_map d"
proof
  fix w
  let ?i = "m_dwCurNodeIndex d" and ?g = "grow n c d"
  note z = dict_ok_pos [OF ok]
  show "dict_map ?g w = dict_map d w"
  proof (cases "walk d 0 w")
    case (Some m)
    with walk_bound [OF ok z Some] grow_walk_keeps [OF ok n free z Some] n show ?thesis
      by (simp add: dict_map_def LookUp_def grow_simps)
  next
    case None
    have "LookUp ?g w \<le> 0"
    proof (cases "walk ?g 0 w")
      case (Some m)
      then have "\<not> m < ?i" using grow_walk_old [OF ok n z Some] None by auto
      moreover have "m < Suc ?i"
        using walk_bound [OF grow_ok [OF ok n free] _ Some] by (simp add: grow_simps)
      ultimately have "m = ?i" by simp
      with Some n show ?thesis by (simp add: LookUp_def grow_simps)
    qed (simp add: LookUp_def)
    with None show ?thesis by (simp add: dict_map_def LookUp_def)
  qed
qed

lemma AllocateNode_grow:
  "AllocateNode N d = (if N \<le> m_dwCurNodeIndex d then None
     else Some (m_dwCurNodeIndex d, d\<lparr>m_pNodeBuf := (m_pNodeBuf d)(m_dwCurNodeIndex d :=
            Reset_node\<lparr>dwIndex := - int (m_dwCurNodeIndex d)\<rparr>), m_dwCurNodeIndex := Suc (m_dwCurNodeIndex d)\<rparr>))"
  by (simp add: AllocateNode_def Let_def)

lemma add_path_spec:
  assumes "add_path N d n w = (d', r)" and "dict_ok d" and "n < m_dwCurNodeIndex d"
  shows "dict_ok d' \<and> dict_map d' = dict_map d \<and>
    m_dwCurNodeIndex d \<le> m_dwCurNodeIndex d' \<and> m_dwCurNodeIndex d' \<le> m_dwCurNodeIndex d + length w \<and>
    (\<forall>k v m. k < m_dwCurNodeIndex d \<longrightarrow> walk d k v = Some m \<longrightarrow> walk d' k v = Some m) \<and>
    (case r of Some m \<Rightarrow> walk d' n w = Some m | None \<Rightarrow> N < m_dwCurNodeIndex d + length w)"
  using assms
proof (induction w arbitrary: d n d' r)
  case (Cons c w)
  show ?case
  proof (cases "nextp (m_pNodeBuf d n) c")
    case (Some m)
    with Cons dict_ok_child [OF Cons.prems(2,3) Some] have IH: "dict_ok d' \<and> dict_map d' = dict_map d \<and>
      m_dwCurNodeIndex d \<le> m_dwCurNodeIndex d' \<and> m_dwCurNodeIndex d' \<le> m_dwCurNodeIndex d + length w \<and>
      (\<forall>k v m. k < m_dwCurNodeIndex d \<longrightarrow> walk d k v = Some m \<longrightarrow> walk d' k v = Some m) \<and>
      (case r of Some x \<Rightarrow> walk d' m w = Some x | None \<Rightarrow> N < m_dwCurNodeIndex d + length w)" by auto
    moreover have "walk d n [c] = Some m" using Some by simp
    ultimately have "walk d' n [c] = Some m" using Cons.prems(3) by blast
    then have "nextp (m_pNodeBuf d' n) c = Some m" by (auto split: option.splits)
    with IH show ?thesis by (auto split: option.splits)
  next
    case None
    show ?thesis
    proof (cases "N \<le> m_dwCurNodeIndex d")
      case True
      with None Cons show ?thesis by (auto simp: AllocateNode_grow)
    next
      case False
      let ?g = "grow n c d" and ?i = "m_dwCurNodeIndex d"
      have run: "add_path N ?g ?i w = (d', r)"
        using Cons.prems(1) None False by (simp add: AllocateNode_grow grow_def Let_def)
      have IH: "dict_ok d' \<and> dict_map d' = dict_map ?g \<and>
        m_dwCurNodeIndex ?g \<le> m_dwCurNodeIndex d' \<and> m_dwCurNodeIndex d' \<le> m_dwCurNodeIndex ?g + length w \<and>
        (\<forall>k v m. k < m_dwCurNodeIndex ?g \<longrightarrow> walk ?g k v = Some m \<longrightarrow> walk d' k v = Some m) \<and>
        (case r of Some x \<Rightarrow> walk d' ?i w = Some x | None \<Rightarrow> N < m_dwCurNodeIndex ?g + length w)"
        by (rule Cons.IH [OF run grow_ok [OF Cons.prems(2,3) None]]) (simp add: grow_simps)
      have "walk ?g n [c] = Some ?i" using Cons.prems(3) by (simp add: grow_simps)
      moreover have "n < m_dwCurNodeIndex ?g" using Cons.prems(3) by (simp add: grow_simps)
      ultimately have "walk d' n [c] = Some ?i" using IH by blast
      then have "nextp (m_pNodeBuf d' n) c = Some ?i" by (auto split: option.splits)
      with IH grow_map [OF Cons.prems(2,3) None] grow_walk_keeps [OF Cons.prems(2,3) None] show ?thesis
        by (auto simp: grow_simps split: option.splits)
    qed
  qed
qed simp

section \<open>Properties\<close>

lemma LookUp_walk: "w \<noteq> [] \<Longrightarrow> walk d 0 w = Some n \<Longrightarrow> LookUp d w = dwIndex (m_pNodeBuf d n)"
  by (simp add: LookUp_def)

lemma mark_word:
  assumes ok: "dict_ok d" and w: "walk d 0 w = Some n" "w \<noteq> []"
  defines "d' \<equiv> d\<lparr>m_pNodeBuf := (m_pNodeBuf d)(n := (m_pNodeBuf d n)\<lparr>dwIndex := \<bar>dwIndex (m_pNodeBuf d n)\<bar>\<rparr>)\<rparr>"
  shows "dict_ok d' \<and> dict_map d' = (dict_map d)(w \<mapsto> int n) \<and> 0 < n"
proof -
  have n: "n < m_dwCurNodeIndex d" by (rule walk_bound [OF ok dict_ok_pos [OF ok] w(1)])
  obtain u a where u: "w = u @ [a]" using w(2) by (cases w rule: rev_cases) auto
  have pos: "0 < n" using walk_snoc [OF ok w(1) [unfolded u]] by auto
  have nx: "nextp (m_pNodeBuf d' k) = nextp (m_pNodeBuf d k)" for k by (simp add: d'_def)
  have wk: "walk d' k v = walk d k v" for k v by (induction v arbitrary: k) (simp_all add: nx split: option.split)
  have idx: "\<bar>dwIndex (m_pNodeBuf d k)\<bar> = int k" if "k < m_dwCurNodeIndex d" for k
    using ok that by (simp add: dict_ok_def)
  have ok': "dict_ok d'" using ok unfolding dict_ok_def nx by (simp add: d'_def)
  have "dict_map d' v = ((dict_map d)(w \<mapsto> int n)) v" for v
  proof (cases "v = w")
    case True
    then show ?thesis using w pos idx [OF n] by (simp add: dict_map_def LookUp_def wk) (simp add: d'_def)
  next
    case False
    then have "walk d 0 v \<noteq> Some n" using walk_inj [OF ok w(1)] by auto
    with False show ?thesis
      by (auto simp: dict_map_def LookUp_def wk split: option.splits) (auto simp: d'_def)
  qed
  with ok' pos show ?thesis by auto
qed

lemma AddWord_map:
  assumes run: "AddWord N w d = (d', r)" and ok: "dict_ok d" and w: "w \<noteq> []"
  shows "dict_ok d' \<and> (if r = 0 then dict_map d' = dict_map d \<and> N < m_dwCurNodeIndex d + length w
     else 0 < r \<and> dict_map d' = (dict_map d)(w \<mapsto> r))"
proof -
  obtain d1 r1 where p: "add_path N d 0 w = (d1, r1)" by fastforce
  note P = add_path_spec [OF p ok dict_ok_pos [OF ok]]
  show ?thesis
  proof (cases r1)
    case None
    with run w p P show ?thesis by (auto simp: AddWord_def)
  next
    case (Some n)
    let ?nd = "m_pNodeBuf d1 n"
    have wn: "walk d1 0 w = Some n" using P Some by simp
    have "(if dwIndex ?nd < 0 then ?nd\<lparr>dwIndex := - dwIndex ?nd\<rparr> else ?nd) = ?nd\<lparr>dwIndex := \<bar>dwIndex ?nd\<bar>\<rparr>" by simp
    then have d': "d' = d1\<lparr>m_pNodeBuf := (m_pNodeBuf d1)(n := ?nd\<lparr>dwIndex := \<bar>dwIndex ?nd\<bar>\<rparr>)\<rparr>" and r: "r = \<bar>dwIndex ?nd\<bar>"
      using run w p Some by (auto simp: AddWord_def Let_def)
    have "n < m_dwCurNodeIndex d1" using P walk_bound [OF _ dict_ok_pos wn] by auto
    then have "r = int n" using P r by (simp add: dict_ok_def)
    with mark_word [OF _ wn w] P d' show ?thesis by auto
  qed
qed

text \<open>
  C28. \<open>AddWord\<close> implements insertion into a finite map from words to ids. If it returns a positive
  id, \<open>LookUp\<close> of the word gives that id from then on and every other word keeps what it had; if it
  returns 0, which happens only when the pool has fewer free nodes than the word has characters,
  no word is added, changed or lost. The invariant of the trie holds afterwards in both cases.
\<close>

theorem AddWord_refines_map_update:
  assumes "dict_ok d" and "w \<noteq> []"
  shows "case AddWord N w d of (d', r) \<Rightarrow>
    dict_ok d' \<and> (if r = 0 then dict_map d' = dict_map d \<and> N < m_dwCurNodeIndex d + length w
      else 0 < r \<and> dict_map d' = (dict_map d)(w \<mapsto> r))"
  using AddWord_map [OF _ assms] by (cases "AddWord N w d") auto

theorem AddWord_refines_map_update_witness:
  "case AddWord 10 ''ab'' new_dictionary of (d', r) \<Rightarrow> dict_ok d' \<and> 0 < r \<and> dict_map d' ''ab'' = Some r"
  using AddWord_refines_map_update [OF new_dict_ok, of "''ab''" 10] 
  by (auto simp: new_dictionary_def split: if_splits)

text \<open>Two words of the dictionary never share an id.\<close>

theorem LookUp_ids_distinct:
  assumes "dict_ok d" and "0 < LookUp d u" and "LookUp d u = LookUp d v"
  shows "u = v"
proof -
  obtain n where n: "walk d 0 u = Some n" "LookUp d u = dwIndex (m_pNodeBuf d n)"
    using assms(2) by (auto simp: LookUp_def split: if_splits option.splits)
  obtain m where m: "walk d 0 v = Some m" "LookUp d v = dwIndex (m_pNodeBuf d m)"
    using assms(2,3) by (auto simp: LookUp_def split: if_splits option.splits)
  have "n < m_dwCurNodeIndex d" "m < m_dwCurNodeIndex d"
    using walk_bound [OF assms(1) dict_ok_pos [OF assms(1)]] n m by auto
  with assms(1) n m assms(3) have "int n = int m" unfolding dict_ok_def by metis
  then show ?thesis using walk_inj [OF assms(1) n(1)] m(1) by simp
qed

theorem LookUp_ids_distinct_witness:
  "LookUp (fst (AddWord 10 ''a'' new_dictionary)) ''a'' = 1 \<and> LookUp (fst (AddWord 10 ''a'' new_dictionary)) ''b'' \<noteq> 1"
proof -
  let ?d = "fst (AddWord 10 ''a'' new_dictionary)"
  have "dict_ok ?d" using AddWord_map [OF _ new_dict_ok, of 10 "''a''" ?d] by (metis list.distinct(1) prod.collapse)
  moreover have one: "LookUp ?d ''a'' = 1"
    by (simp add: AddWord_def new_dictionary_def Reset_node_def AllocateNode_def set_next_def LookUp_def Let_def)
  ultimately show ?thesis using LookUp_ids_distinct [of ?d "''a''" "''b''"] by auto
qed

text \<open>The case-folding lookup is a lookup of the folded word.\<close>

fun gbk_lower :: "bytes \<Rightarrow> bytes" where
  "gbk_lower [] = []"
| "gbk_lower (c # w) =
     (if is_neg c then c # (case w of [] \<Rightarrow> [] | x # w' \<Rightarrow> x # gbk_lower w')
      else c_tolower c # gbk_lower w)"

text \<open>
  The second \<open>LookUp\<close> finds the node of the word with its single-byte letters in lower case;
  the bytes of double-byte characters are taken as they are.
\<close>

theorem LookUp_node_folds:
  "LookUp_node d w beg = (if w = [] then None else walk d (case beg of None \<Rightarrow> 0 | Some n \<Rightarrow> n) (gbk_lower w))"
proof -
  have low: "(if 65 \<le> schar c \<and> schar c \<le> 90 then to_char (schar c - (65 - 97)) else c) = c_tolower c"
    if "\<not> is_neg c" for c
    using that uchar_less [of c] by (auto simp: is_neg_def schar_def c_tolower_def c_isupper_def to_char_def nat_add_distrib split: if_splits)
  have "LookUp_fold d n w 0 = walk d n (gbk_lower w)" for n
  proof (induction w arbitrary: n rule: gbk_lower.induct)
    case (2 c w)
    show ?case
    proof (cases "is_neg c")
      case True
      then show ?thesis using 2 by (cases w) (auto split: option.splits)
    next
      case False
      then show ?thesis using 2 low [OF False] by (auto split: option.splits)
    qed
  qed simp
  then show ?thesis by (simp add: LookUp_node_def)
qed

end
