(* ===== verification/LinkedList.thy ===== *)
theory LinkedList
  imports Prelude
begin

text \<open>
  The intrusive doubly linked list \<open>linked_list_t\<close> of \<open>src/http_server/linked_list.hpp\<close> and the
  blocking queue \<open>wait_list_t\<close> of \<open>wait_list.hpp\<close> built on it. List nodes are addresses in a heap of
  \<open>next\<close>/\<open>prev\<close> pairs, the head of the list is address 0, and every operation performs the pointer
  writes of the source in order. The refinement relation \<open>ring\<close> says which sequence of nodes a heap
  represents.

  A queue operation of \<open>wait_list_t\<close> runs under the object's mutex; the model makes it one step of
  the transition relation \<open>wl_step\<close>. Waiting on the condition variable is the absence of a step.
\<close>

section \<open>The list\<close>

type_synonym addr = nat

record linked_list_node_t =
  nxt :: addr
  prv :: addr

type_synonym lheap = "addr \<Rightarrow> linked_list_node_t"

abbreviation head_addr :: addr where "head_addr \<equiv> 0"

definition set_nxt :: "addr \<Rightarrow> addr \<Rightarrow> lheap \<Rightarrow> lheap" where
  "set_nxt a v h = h(a := (h a)\<lparr>nxt := v\<rparr>)"

definition set_prv :: "addr \<Rightarrow> addr \<Rightarrow> lheap \<Rightarrow> lheap" where
  "set_prv a v h = h(a := (h a)\<lparr>prv := v\<rparr>)"

definition list_empty :: "lheap \<Rightarrow> lheap" where
  "list_empty h = set_nxt head_addr head_addr (set_prv head_addr head_addr h)"

definition is_empty :: "lheap \<Rightarrow> bool" where
  "is_empty h \<longleftrightarrow> nxt (h head_addr) = head_addr"

definition list_add :: "addr \<Rightarrow> lheap \<Rightarrow> lheap" where
  "list_add node h =
     (let h1 = set_prv (nxt (h head_addr)) node h;
          h2 = set_nxt node (nxt (h1 head_addr)) h1;
          h3 = set_prv node head_addr h2
      in set_nxt head_addr node h3)"

definition add_prev :: "addr \<Rightarrow> addr \<Rightarrow> lheap \<Rightarrow> lheap" where
  "add_prev node cur h =
     (let h1 = set_nxt (prv (h cur)) node h;
          h2 = set_prv node (prv (h1 cur)) h1;
          h3 = set_nxt node cur h2
      in set_prv cur node h3)"

definition add_next :: "addr \<Rightarrow> addr \<Rightarrow> lheap \<Rightarrow> lheap" where
  "add_next node cur h =
     (let h1 = set_prv (nxt (h cur)) node h;
          h2 = set_nxt node (nxt (h1 cur)) h1;
          h3 = set_prv node cur h2
      in set_nxt cur node h3)"

definition list_del :: "addr \<Rightarrow> lheap \<Rightarrow> lheap" where
  "list_del node h =
     (let h1 = set_prv (nxt (h node)) (prv (h node)) h
      in set_nxt (prv (h1 node)) (nxt (h1 node)) h1)"

text \<open>The null pointer is \<open>None\<close>.\<close>

definition entry_of :: "addr \<Rightarrow> addr option" where
  "entry_of a = (if a = head_addr then None else Some a)"

definition list_next :: "addr \<Rightarrow> lheap \<Rightarrow> addr option" where
  "list_next node h = entry_of (nxt (h node))"

definition list_prev :: "addr \<Rightarrow> lheap \<Rightarrow> addr option" where
  "list_prev node h = entry_of (prv (h node))"

section \<open>What a heap represents\<close>

text \<open>\<open>seg h a xs b\<close>: from \<open>a\<close> the pointers lead through \<open>xs\<close> to \<open>b\<close>, and back.\<close>

fun seg :: "lheap \<Rightarrow> addr \<Rightarrow> addr list \<Rightarrow> addr \<Rightarrow> bool" where
  "seg h a [] b \<longleftrightarrow> nxt (h a) = b \<and> prv (h b) = a"
| "seg h a (x # xs) b \<longleftrightarrow> nxt (h a) = x \<and> prv (h x) = a \<and> seg h x xs b"

definition ring :: "lheap \<Rightarrow> addr list \<Rightarrow> bool" where
  "ring h xs \<longleftrightarrow> seg h head_addr xs head_addr \<and> distinct (head_addr # xs)"

lemma nxt_set [simp]: "nxt (set_nxt a v h x) = (if x = a then v else nxt (h x))" "nxt (set_prv a v h x) = nxt (h x)"
  by (simp_all add: set_nxt_def set_prv_def)

lemma prv_set [simp]: "prv (set_prv a v h x) = (if x = a then v else prv (h x))" "prv (set_nxt a v h x) = prv (h x)"
  by (simp_all add: set_nxt_def set_prv_def)

lemma seg_append: "seg h a (xs @ y # ys) b \<longleftrightarrow> seg h a xs y \<and> seg h y ys b"
  by (induction h a xs b rule: seg.induct) auto

text \<open>A segment depends on the \<open>next\<close> fields of \<open>a # xs\<close> and the \<open>prev\<close> fields of \<open>xs @ [b]\<close>.\<close>

lemma seg_frame:
  "seg h a xs b \<Longrightarrow> \<forall>x \<in> set (a # xs). nxt (h' x) = nxt (h x) \<Longrightarrow> \<forall>x \<in> set (xs @ [b]). prv (h' x) = prv (h x) \<Longrightarrow>
   seg h' a xs b"
  by (induction h a xs b rule: seg.induct) auto

lemma seg_first: "seg h a xs b \<Longrightarrow> nxt (h a) = hd (xs @ [b])"
  by (cases xs) auto

lemma seg_last: "seg h a xs b \<Longrightarrow> prv (h b) = last (a # xs)"
  by (induction h a xs b rule: seg.induct) auto

lemma ring_first: "ring h xs \<Longrightarrow> nxt (h head_addr) = hd (xs @ [head_addr])"
  by (auto simp: ring_def dest: seg_first)

lemma ring_last: "ring h xs \<Longrightarrow> prv (h head_addr) = last (head_addr # xs)"
  by (auto simp: ring_def dest: seg_last)

lemma ring_is_empty: "ring h xs \<Longrightarrow> is_empty h \<longleftrightarrow> xs = []"
  by (cases xs) (auto simp: ring_def is_empty_def)

lemma ring_list_empty: "ring (list_empty h) []"
  by (simp add: ring_def list_empty_def)

text \<open>Inserting after \<open>cur\<close>; \<open>add\<close> is insertion after the head.\<close>

lemma seg_insert:
  assumes "seg h a ys b" and "n \<notin> set (a # ys)" and "n \<noteq> b" and "distinct (a # ys)" and "distinct (ys @ [b])"
  shows "seg (add_next n a h) a (n # ys) b"
proof (cases ys)
  case Nil
  with assms show ?thesis by (auto simp: add_next_def Let_def)
next
  case (Cons y zs)
  let ?h = "add_next n a h"
  have y: "nxt (h a) = y" "prv (h y) = a" "seg h y zs b" using assms(1) Cons by auto
  have "seg ?h y zs b"
    by (rule seg_frame [OF y(3)]) (use assms Cons y in \<open>auto simp: add_next_def Let_def\<close>)
  with assms Cons y show ?thesis by (auto simp: add_next_def Let_def)
qed

lemma add_next_outside:
  "x \<noteq> n \<Longrightarrow> x \<noteq> a \<Longrightarrow> nxt (add_next n a h x) = nxt (h x)"
  "x \<noteq> n \<Longrightarrow> x \<noteq> nxt (h a) \<Longrightarrow> prv (add_next n a h x) = prv (h x)"
  by (simp_all add: add_next_def Let_def)

lemma list_add_add_next: "list_add n h = add_next n head_addr h"
  by (simp add: list_add_def add_next_def)

lemma ring_add: "ring h xs \<Longrightarrow> n \<notin> set (head_addr # xs) \<Longrightarrow> ring (list_add n h) (n # xs)"
  unfolding ring_def list_add_add_next
  using seg_insert [of h head_addr xs head_addr n] by (simp del: seg.simps)

lemma ring_add_next:
  assumes r: "ring h (xs @ c # ys)" and n: "n \<notin> set (head_addr # xs @ c # ys)"
  shows "ring (add_next n c h) (xs @ c # n # ys)"
proof -
  have s: "seg h head_addr xs c" "seg h c ys head_addr" and d: "distinct (head_addr # xs @ c # ys)"
    using r by (auto simp: ring_def seg_append)
  have f: "nxt (h c) = hd (ys @ [head_addr])" by (rule seg_first [OF s(2)])
  have "nxt (h c) \<notin> set (xs @ [c])" using f d by (cases ys) auto
  then have "nxt (add_next n c h x) = nxt (h x)" if "x \<in> set (head_addr # xs)" for x
    using that d n by (intro add_next_outside) auto
  moreover have "prv (add_next n c h x) = prv (h x)" if "x \<in> set (xs @ [c])" for x
    using that d n \<open>nxt (h c) \<notin> set (xs @ [c])\<close> by (intro add_next_outside) auto
  ultimately have "seg (add_next n c h) head_addr xs c"
    by (intro seg_frame [OF s(1)]) blast+
  moreover have "seg (add_next n c h) c (n # ys) head_addr"
    using d n by (intro seg_insert [OF s(2)]) auto
  ultimately show ?thesis using d n by (auto simp: ring_def seg_append)
qed

text \<open>Removing a node joins what was before and after it.\<close>

lemma seg_remove:
  assumes "seg h a xs n" and "seg h n ys b" and "distinct (a # xs @ n # ys)" and "distinct (xs @ n # ys @ [b])"
  shows "seg (list_del n h) a (xs @ ys) b"
  using assms
proof (induction xs arbitrary: a)
  case Nil
  show ?case
  proof (cases ys)
    case Nil
    with \<open>seg h a [] n\<close> Nil.prems show ?thesis by (auto simp: list_del_def Let_def)
  next
    case (Cons y zs)
    with Nil.prems have y: "nxt (h n) = y" "prv (h y) = n" "seg h y zs b" "prv (h n) = a" by auto
    have "seg (list_del n h) y zs b"
      by (rule seg_frame [OF y(3)]) (use Nil.prems Cons y in \<open>auto simp: list_del_def Let_def\<close>)
    with Nil.prems Cons y show ?thesis by (auto simp: list_del_def Let_def)
  qed
next
  case (Cons x xs)
  have p: "prv (h n) = last (x # xs)" using Cons.prems(1) by (auto dest: seg_last)
  then have "prv (h n) \<in> set (x # xs)" using last_in_set [of "x # xs"] by simp
  then have pa: "prv (h n) \<noteq> a" "prv (h n) \<noteq> n" using Cons.prems(3) by auto
  have "nxt (h n) = hd (ys @ [b])" using Cons.prems(2) by (rule seg_first)
  then have q: "nxt (h n) \<noteq> x" "nxt (h n) \<noteq> n" using Cons.prems(4) by (cases ys; auto)+
  have "seg (list_del n h) x (xs @ ys) b" using Cons.prems by (intro Cons.IH) auto
  with Cons.prems pa q show ?case by (auto simp: list_del_def Let_def)
qed

lemma ring_del: "ring h (xs @ n # ys) \<Longrightarrow> ring (list_del n h) (xs @ ys)"
  unfolding ring_def by (auto simp: seg_append intro!: seg_remove)

section \<open>The contract of a doubly ended list\<close>

text \<open>
  What the queue relies on: a representation relation, adding at the front, removing a member, and
  reading both ends.
\<close>

locale deque =
  fixes rep :: "'h \<Rightarrow> 'n list \<Rightarrow> bool"
    and ok :: "'n \<Rightarrow> bool"
    and dadd :: "'n \<Rightarrow> 'h \<Rightarrow> 'h"
    and ddel :: "'n \<Rightarrow> 'h \<Rightarrow> 'h"
    and dempty :: "'h \<Rightarrow> bool"
    and dfirst :: "'h \<Rightarrow> 'n"
    and dlast :: "'h \<Rightarrow> 'n"
  assumes rep_add: "rep h xs \<Longrightarrow> ok n \<Longrightarrow> n \<notin> set xs \<Longrightarrow> rep (dadd n h) (n # xs)"
    and rep_del: "rep h (xs @ n # ys) \<Longrightarrow> rep (ddel n h) (xs @ ys)"
    and rep_empty: "rep h xs \<Longrightarrow> dempty h \<longleftrightarrow> xs = []"
    and rep_first: "rep h (n # xs) \<Longrightarrow> dfirst h = n"
    and rep_last: "rep h (xs @ [n]) \<Longrightarrow> dlast h = n"
begin

lemma pop_first: "rep h (n # xs) \<Longrightarrow> dfirst h = n \<and> rep (ddel (dfirst h) h) xs"
  using rep_first rep_del [of h "[]" n xs] by auto

lemma pop_last: "rep h (xs @ [n]) \<Longrightarrow> dlast h = n \<and> rep (ddel (dlast h) h) xs"
  using rep_last rep_del [of h xs n "[]"] by auto

end

interpretation heap_list: deque ring "\<lambda>n. n \<noteq> head_addr" list_add list_del is_empty
  "\<lambda>h. nxt (h head_addr)" "\<lambda>h. prv (h head_addr)"
  by unfold_locales (auto simp: ring_add ring_del ring_is_empty ring_first ring_last)

section \<open>The queue\<close>

record wait_list =
  wheap :: lheap
  wl_alive :: bool
  wl_num :: int

definition new_wait_list :: "lheap \<Rightarrow> wait_list" where
  "new_wait_list h = \<lparr>wheap = list_empty h, wl_alive = True, wl_num = 0\<rparr>"

definition wl_put :: "addr \<Rightarrow> wait_list \<Rightarrow> wait_list" where
  "wl_put node w = (if wl_alive w then w\<lparr>wheap := list_add node (wheap w), wl_num := wl_num w + 1\<rparr> else w)"

text \<open>
  \<open>get\<close> and \<open>get_from_head\<close>: \<open>None\<close> while the caller waits; otherwise the new state and the result
  (\<open>None\<close> for the null pointer of a flushed queue).
\<close>

definition wl_take :: "(lheap \<Rightarrow> addr) \<Rightarrow> wait_list \<Rightarrow> (wait_list \<times> addr option) option" where
  "wl_take side w =
     (if wl_alive w \<and> is_empty (wheap w) then None
      else if wl_alive w then
        let ret = side (wheap w)
        in Some (w\<lparr>wheap := list_del ret (wheap w), wl_num := wl_num w - 1\<rparr>, entry_of ret)
      else Some (w, None))"

definition wl_get :: "wait_list \<Rightarrow> (wait_list \<times> addr option) option" where
  "wl_get = wl_take (\<lambda>h. prv (h head_addr))"

definition wl_get_from_head :: "wait_list \<Rightarrow> (wait_list \<times> addr option) option" where
  "wl_get_from_head = wl_take (\<lambda>h. nxt (h head_addr))"

text \<open>
  The timed \<open>get\<close>. While it waits the other threads change the queue: \<open>wakes\<close> lists the returns of
  \<open>pthread_cond_timedwait\<close>, each with whether the result is not 0 and the queue as it is then. A wait
  that fails makes the result null at once, whatever the queue holds and also when it was flushed.
  \<open>None\<close> means that the thread still waits after these wake-ups.
\<close>

fun wl_get_timed :: "(bool \<times> wait_list) list \<Rightarrow> wait_list \<Rightarrow> (wait_list \<times> addr option) option" where
  "wl_get_timed wakes w =
     (if wl_alive w \<and> is_empty (wheap w)
      then (case wakes of
              [] \<Rightarrow> None
            | (failed, w') # wakes' \<Rightarrow> if failed then Some (w', None) else wl_get_timed wakes' w')
      else wl_get w)"

declare wl_get_timed.simps [simp del]

definition wl_flush :: "wait_list \<Rightarrow> wait_list" where
  "wl_flush w = w\<lparr>wl_alive := False\<rparr>"

text \<open>
  Steps of any number of threads, in the order in which they hold the mutex. \<open>GetTimedOut\<close> is the
  return of a thread that has waited in the timed \<open>get\<close> and whose wait fails, in any state.
\<close>

datatype wl_action = Put addr | Get "addr option" | GetHead "addr option" | GetTimedOut | Flush

inductive wl_step :: "wait_list \<Rightarrow> wl_action \<Rightarrow> wait_list \<Rightarrow> bool" where
  step_put: "wl_step w (Put n) (wl_put n w)"
| step_get: "wl_get w = Some (w', r) \<Longrightarrow> wl_step w (Get r) w'"
| step_head: "wl_get_from_head w = Some (w', r) \<Longrightarrow> wl_step w (GetHead r) w'"
| step_timeout: "wl_step w GetTimedOut w"
| step_flush: "wl_step w Flush (wl_flush w)"

inductive wl_run :: "wait_list \<Rightarrow> wl_action list \<Rightarrow> wait_list \<Rightarrow> bool" where
  run_nil: "wl_run w [] w"
| run_cons: "wl_step w a w' \<Longrightarrow> wl_run w' as w'' \<Longrightarrow> wl_run w (a # as) w''"

inductive_cases wl_step_putE: "wl_step w (Put n) w'"
inductive_cases wl_step_getE: "wl_step w (Get r) w'"
inductive_cases wl_step_headE: "wl_step w (GetHead r) w'"
inductive_cases wl_step_timeoutE: "wl_step w GetTimedOut w'"
inductive_cases wl_step_flushE: "wl_step w Flush w'"
inductive_cases wl_runE: "wl_run w (a # as) w'"

lemmas wl_step_cases = wl_step_putE wl_step_getE wl_step_headE wl_step_timeoutE wl_step_flushE

section \<open>The abstract queue and the refinement\<close>

definition holds :: "wait_list \<Rightarrow> addr list \<Rightarrow> bool" where
  "holds w xs \<longleftrightarrow> ring (wheap w) xs \<and> wl_num w = int (length xs)"

text \<open>What the operations mean for a sequence of nodes, newest first.\<close>

fun queue_step :: "bool \<times> addr list \<Rightarrow> wl_action \<Rightarrow> bool \<times> addr list \<Rightarrow> bool" where
  "queue_step (alive, xs) (Put n) s' \<longleftrightarrow> s' = (alive, if alive then n # xs else xs)"
| "queue_step (alive, xs) (Get r) s' \<longleftrightarrow>
     (if alive then xs \<noteq> [] \<and> r = Some (last xs) \<and> s' = (alive, butlast xs) else r = None \<and> s' = (alive, xs))"
| "queue_step (alive, xs) (GetHead r) s' \<longleftrightarrow>
     (if alive then xs \<noteq> [] \<and> r = Some (hd xs) \<and> s' = (alive, tl xs) else r = None \<and> s' = (alive, xs))"
| "queue_step (alive, xs) GetTimedOut s' \<longleftrightarrow> s' = (alive, xs)"
| "queue_step (alive, xs) Flush s' \<longleftrightarrow> s' = (False, xs)"

lemma wl_put_holds:
  "holds w xs \<Longrightarrow> n \<noteq> head_addr \<Longrightarrow> n \<notin> set xs \<Longrightarrow> holds (wl_put n w) (if wl_alive w then n # xs else xs)"
  by (auto simp: holds_def wl_put_def heap_list.rep_add)

lemma wl_get_holds:
  assumes "holds w xs" and "wl_get w = Some (w', r)"
  shows "if wl_alive w then xs \<noteq> [] \<and> r = Some (last xs) \<and> holds w' (butlast xs) \<and> wl_alive w'
         else r = None \<and> w' = w"
proof (cases "wl_alive w \<and> xs \<noteq> []")
  case True
  then obtain ys n where xs: "xs = ys @ [n]" by (cases xs rule: rev_cases) auto
  have "ring (wheap w) (ys @ [n])" "n \<noteq> head_addr" using assms(1) by (auto simp: holds_def xs ring_def)
  with heap_list.pop_last [OF this(1)] True assms show ?thesis
    by (auto simp: wl_get_def wl_take_def holds_def xs heap_list.rep_empty entry_of_def Let_def)
next
  case False
  with assms show ?thesis
    by (auto simp: wl_get_def wl_take_def holds_def heap_list.rep_empty split: if_splits)
qed

lemma wl_get_from_head_holds:
  assumes "holds w xs" and "wl_get_from_head w = Some (w', r)"
  shows "if wl_alive w then xs \<noteq> [] \<and> r = Some (hd xs) \<and> holds w' (tl xs) \<and> wl_alive w'
         else r = None \<and> w' = w"
proof (cases "wl_alive w \<and> xs \<noteq> []")
  case True
  then obtain n ys where xs: "xs = n # ys" by (cases xs) auto
  have "ring (wheap w) (n # ys)" "n \<noteq> head_addr" using assms(1) by (auto simp: holds_def xs ring_def)
  with heap_list.pop_first [OF this(1)] True assms show ?thesis
    by (auto simp: wl_get_from_head_def wl_take_def holds_def xs heap_list.rep_empty entry_of_def Let_def)
next
  case False
  with assms show ?thesis
    by (auto simp: wl_get_from_head_def wl_take_def holds_def heap_list.rep_empty split: if_splits)
qed

lemma wl_step_refines:
  assumes "holds w xs" and "wl_step w a w'" and "\<forall>n. a = Put n \<longrightarrow> n \<noteq> head_addr \<and> n \<notin> set xs"
  shows "\<exists>xs'. holds w' xs' \<and> queue_step (wl_alive w, xs) a (wl_alive w', xs')"
proof (cases a)
  case (Put n)
  with assms wl_put_holds [OF assms(1), of n] show ?thesis
    by (auto elim!: wl_step_putE simp: wl_put_def split: if_splits)
next
  case (Get r)
  with assms have "wl_get w = Some (w', r)" by (auto elim: wl_step_getE)
  from wl_get_holds [OF assms(1) this] Get assms(1) show ?thesis by (auto split: if_splits)
next
  case (GetHead r)
  with assms have "wl_get_from_head w = Some (w', r)" by (auto elim: wl_step_headE)
  from wl_get_from_head_holds [OF assms(1) this] GetHead assms(1) show ?thesis by (auto split: if_splits)
next
  case GetTimedOut
  with assms show ?thesis by (auto elim!: wl_step_timeoutE)
next
  case Flush
  with assms show ?thesis by (auto elim!: wl_step_flushE simp: holds_def wl_flush_def)
qed

text \<open>A call of the timed \<open>get\<close> returns with one of the steps, in the last state it woke up in.\<close>

lemma wl_get_timed_step:
  "wl_get_timed wakes w = Some (w'', r) \<Longrightarrow>
   \<exists>w' \<in> insert w (snd ` set wakes). wl_step w' (Get r) w'' \<or> (wl_step w' GetTimedOut w'' \<and> r = None)"
proof (induction wakes w rule: wl_get_timed.induct)
  case (1 wakes w)
  show ?case
  proof (cases "wl_alive w \<and> is_empty (wheap w)")
    case False
    then have "wl_get w = Some (w'', r)" using "1.prems" unfolding wl_get_timed.simps [of wakes w] by (simp only: if_False)
    then show ?thesis by (auto intro: step_get)
  next
    case True
    then obtain failed w1 wakes' where w: "wakes = (failed, w1) # wakes'"
        "(if failed then Some (w1, None) else wl_get_timed wakes' w1) = Some (w'', r)"
      using "1.prems" by (subst (asm) wl_get_timed.simps) (auto split: list.splits prod.splits)
    show ?thesis
    proof (cases failed)
      case True
      then show ?thesis using w by (auto intro: step_timeout)
    next
      case False
      with "1.IH" [OF \<open>wl_alive w \<and> is_empty (wheap w)\<close> w(1)] w(2) obtain w' where
        "w' \<in> insert w1 (snd ` set wakes')" "wl_step w' (Get r) w'' \<or> (wl_step w' GetTimedOut w'' \<and> r = None)" by auto
      then show ?thesis unfolding w(1) by auto
    qed
  qed
qed

fun puts :: "wl_action list \<Rightarrow> addr list" where
  "puts [] = []"
| "puts (Put n # as) = n # puts as"
| "puts (_ # as) = puts as"

fun gets :: "wl_action list \<Rightarrow> addr option list" where
  "gets [] = []"
| "gets (Get r # as) = r # gets as"
| "gets (_ # as) = gets as"

definition fifo_action :: "wl_action \<Rightarrow> bool" where
  "fifo_action a \<longleftrightarrow> (case a of GetHead _ \<Rightarrow> False | Flush \<Rightarrow> False | _ \<Rightarrow> True)"

text \<open>
  The condition on the callers: a node is put only when it is not in the queue; \<open>q\<close> holds the
  nodes that were put and not yet returned. A node that was returned may be put again.
\<close>

fun put_when_free :: "addr list \<Rightarrow> wl_action list \<Rightarrow> bool" where
  "put_when_free q [] \<longleftrightarrow> True"
| "put_when_free q (Put n # as) \<longleftrightarrow> n \<noteq> head_addr \<and> n \<notin> set q \<and> put_when_free (n # q) as"
| "put_when_free q (Get (Some n) # as) \<longleftrightarrow> put_when_free (remove1 n q) as"
| "put_when_free q (_ # as) \<longleftrightarrow> put_when_free q as"

lemma remove1_last: "distinct xs \<Longrightarrow> xs \<noteq> [] \<Longrightarrow> remove1 (last xs) xs = butlast xs"
  by (induction xs rule: rev_induct) (auto simp: remove1_append)

lemma wl_run_fifo:
  assumes "wl_run w as w'" and "holds w xs" and "wl_alive w" and "list_all fifo_action as" and "put_when_free xs as"
  shows "\<exists>xs'. holds w' xs' \<and> wl_alive w' \<and> map Some (rev xs @ puts as) = gets as @ map Some (rev xs')"
  using assms
proof (induction w as w' arbitrary: xs rule: wl_run.induct)
  case (run_nil w)
  then show ?case by auto
next
  case (run_cons w a w1 as w2)
  have fresh: "\<forall>n. a = Put n \<longrightarrow> n \<noteq> head_addr \<and> n \<notin> set xs" using run_cons.prems(4) by auto
  from wl_step_refines [OF run_cons.prems(1) run_cons.hyps(1) fresh] obtain xs1 where
    xs1: "holds w1 xs1" "queue_step (wl_alive w, xs) a (wl_alive w1, xs1)" by blast
  have alive: "wl_alive w1" using xs1(2) run_cons.prems(2,3) by (cases a) (auto simp: fifo_action_def)
  show ?case
  proof (cases a)
    case (Put n)
    with xs1 run_cons.prems alive run_cons.IH [OF xs1(1) alive] show ?thesis by auto
  next
    case (Get r)
    then have q: "xs \<noteq> []" "r = Some (last xs)" "xs1 = butlast xs" using xs1(2) run_cons.prems(2) by auto
    have r: "rev xs = last xs # rev (butlast xs)" using q(1) by (metis append_butlast_last_id rev_eq_Cons_iff rev_rev_ident)
    have "distinct xs" using run_cons.prems(1) by (simp add: holds_def ring_def)
    then have "put_when_free xs1 as" "list_all fifo_action as"
      using run_cons.prems(3,4) Get q by (simp_all add: remove1_last)
    from run_cons.IH [OF xs1(1) alive this(2,1)] obtain xs' where
      xs': "holds w2 xs'" "wl_alive w2" "map Some (rev xs1 @ puts as) = gets as @ map Some (rev xs')" by blast
    have "map Some (rev xs @ puts (a # as)) = gets (a # as) @ map Some (rev xs')"
      unfolding r using xs'(3) q Get by simp
    with xs' show ?thesis by blast
  next
    case GetTimedOut
    with xs1 run_cons.prems alive run_cons.IH [OF xs1(1) alive] show ?thesis by auto
  qed (use run_cons.prems(3) in \<open>auto simp: fifo_action_def\<close>)
qed

section \<open>Properties\<close>

text \<open>
  C29. The pointer operations of the list refine operations on a sequence: \<open>add\<close> prepends,
  \<open>add_next\<close> inserts after a member, \<open>del\<close> removes a member wherever it stands, and the head's two
  pointers are the ends of the sequence.
\<close>

theorem linked_list_refines_sequence:
  "(ring h xs \<and> n \<notin> set (head_addr # xs) \<longrightarrow> ring (list_add n h) (n # xs)) \<and>
   (ring h (xs @ c # ys) \<and> n \<notin> set (head_addr # xs @ c # ys) \<longrightarrow> ring (add_next n c h) (xs @ c # n # ys)) \<and>
   (ring h (xs @ c # ys) \<longrightarrow> ring (list_del c h) (xs @ ys)) \<and>
   (ring h xs \<longrightarrow> is_empty h = (xs = []) \<and> nxt (h head_addr) = hd (xs @ [head_addr]) \<and>
      prv (h head_addr) = last (head_addr # xs))"
  by (intro conjI impI; (elim conjE)?)
    ((erule (1) ring_add ring_add_next | erule ring_del ring_is_empty ring_first ring_last)+)

theorem linked_list_refines_sequence_witness:
  "ring (list_del 5 (list_add 7 (list_add 5 (list_empty (\<lambda>_. \<lparr>nxt = 1, prv = 1\<rparr>))))) [7]"
proof -
  have a: "ring (list_add 5 (list_empty (\<lambda>_. \<lparr>nxt = 1, prv = 1\<rparr>))) [5]"
    using linked_list_refines_sequence [of "list_empty (\<lambda>_. \<lparr>nxt = 1, prv = 1\<rparr>)" "[]" 5] ring_list_empty by simp
  have "ring (list_add 7 (list_add 5 (list_empty (\<lambda>_. \<lparr>nxt = 1, prv = 1\<rparr>)))) ([7] @ 5 # [])"
    using linked_list_refines_sequence [of _ "[5]" 7] a by simp
  then show ?thesis using linked_list_refines_sequence [of _ "[7]" _ 5 "[]"] by fastforce
qed

text \<open>
  C30. Every step of any thread on a \<open>wait_list_t\<close> that represents a sequence of nodes is a step of
  the abstract queue, and the element count stays the length of the sequence, as long as a node is
  not put while it is in the list. Among the steps is the return of a timed \<open>get\<close> whose wait failed:
  it gives null and changes nothing, whatever the queue holds by then.
\<close>

theorem wait_list_step_refines:
  assumes "holds w xs" and "wl_step w a w'" and "\<forall>n. a = Put n \<longrightarrow> n \<noteq> head_addr \<and> n \<notin> set xs"
  shows "\<exists>xs'. ring (wheap w') xs' \<and> wl_num w' = int (length xs') \<and>
    queue_step (wl_alive w, xs) a (wl_alive w', xs')"
  using wl_step_refines [OF assms] by (auto simp: holds_def)

theorem wait_list_step_refines_witness:
  "\<exists>xs'. ring (wheap (wl_put 5 (new_wait_list (\<lambda>_. \<lparr>nxt = 1, prv = 1\<rparr>)))) xs' \<and> xs' = [5]"
proof -
  let ?w = "new_wait_list (\<lambda>_. \<lparr>nxt = 1, prv = 1\<rparr>)"
  have "holds ?w []" by (simp add: holds_def new_wait_list_def ring_list_empty)
  from wait_list_step_refines [OF this step_put [of ?w 5]] show ?thesis
    by (auto simp: new_wait_list_def split: if_splits)
qed

text \<open>
  C31. The queue is first in, first out under any interleaving of \<open>put\<close>, \<open>get\<close> and timed out
  \<open>get\<close> calls in which a node is put only while it is not in the queue (it may be put again after it
  was returned): the nodes put are the nodes returned by \<open>get\<close>, in the same order, followed by those
  still in the list, which holds exactly these, the newest first.
\<close>

theorem wait_list_fifo:
  assumes "wl_run (new_wait_list h) as w" and "list_all fifo_action as" and "put_when_free [] as"
  shows "\<exists>rest. map Some (puts as) = gets as @ map Some rest \<and> wl_num w = int (length rest) \<and> ring (wheap w) (rev rest)"
proof -
  have "holds (new_wait_list h) []" "wl_alive (new_wait_list h)"
    by (simp_all add: holds_def new_wait_list_def ring_list_empty)
  from wl_run_fifo [OF assms(1) this assms(2,3)] obtain xs where
    "holds w xs" "map Some (puts as) = gets as @ map Some (rev xs)" by auto
  then show ?thesis by (intro exI [of _ "rev xs"]) (simp add: holds_def)
qed

theorem wait_list_fifo_witness:
  "\<exists>w. wl_run (new_wait_list (\<lambda>_. \<lparr>nxt = 1, prv = 1\<rparr>)) [Put 5, Put 7, Get (Some 5), GetTimedOut, Put 5] w \<and> wl_num w = 2"
proof -
  let ?w = "new_wait_list (\<lambda>_. \<lparr>nxt = 1, prv = 1\<rparr>)" and ?as = "[Put 5, Put 7, Get (Some 5), GetTimedOut, Put 5]"
  obtain w3 where g: "wl_get (wl_put 7 (wl_put 5 ?w)) = Some (w3, Some 5)"
    by (simp add: wl_get_def wl_take_def wl_put_def new_wait_list_def list_add_def list_empty_def is_empty_def
        entry_of_def Let_def set_nxt_def set_prv_def)
  have run: "wl_run ?w ?as (wl_put 5 w3)"
    by (rule run_cons [OF step_put run_cons [OF step_put run_cons [OF step_get [OF g]
      run_cons [OF step_timeout run_cons [OF step_put run_nil]]]]])
  have "\<exists>rest. map Some (puts ?as) = gets ?as @ map Some rest \<and> wl_num (wl_put 5 w3) = int (length rest) \<and>
      ring (wheap (wl_put 5 w3)) (rev rest)"
    by (rule wait_list_fifo [OF run]) (simp_all add: fifo_action_def)
  then have "wl_num (wl_put 5 w3) = 2" by (auto simp: Cons_eq_map_conv)
  with run show ?thesis by blast
qed

end
