(* ===== verification/ConfigMap.thy ===== *)
theory ConfigMap
  imports GaryString CNumber
begin

text \<open>
  The configuration of the HTTP server: the tree of sections and values of
  \<open>src/http_server/config_map.hpp\<close> (parsing, section changes, assignment, lookup, enumeration) and
  the readers of \<open>src/http_server/configuration.cpp\<close> on top of it. The tree refines a finite store
  from a section path and a key to a value; a printed configuration is read back as that store.
\<close>

section \<open>The tree\<close>

datatype node_type = SECTION | VALUE

text \<open>
  \<open>left\<close> is the list of children: the first child and its chain of \<open>right\<close> siblings. A new node is
  put in front of the list.
\<close>

datatype cnode = CNode (ntype: node_type) (nkey: bytes) (nvalue: bytes) (left: "cnode list")

text \<open>
  The pointer \<open>cur\<close> is the path of section keys from the root. The pointer \<open>iter\<close> is a section and
  the number of nodes from the one pointed at to the end of that section's list, which does not
  change when a node is put in front; 0 stands for NULL.
\<close>

record config_map =
  root :: "cnode list"
  cur :: "bytes list"
  iter :: "bytes list \<times> nat"

definition new_config_map :: config_map where
  "new_config_map = \<lparr>root = [], cur = [], iter = ([], 0)\<rparr>"

definition strip :: "bytes \<Rightarrow> bytes" where
  "strip str =
     (let head = length (takeWhile c_isspace str);
          tail = length str - length (takeWhile c_isspace (rev str))
      in if tail < head then drop head str else take (tail - head) (drop head str))"

fun find_child :: "node_type \<Rightarrow> bytes \<Rightarrow> cnode list \<Rightarrow> cnode option" where
  "find_child t k [] = None"
| "find_child t k (n # ns) = (if ntype n \<noteq> t \<or> nkey n \<noteq> k then find_child t k ns else Some n)"

fun map_child :: "node_type \<Rightarrow> bytes \<Rightarrow> (cnode \<Rightarrow> cnode) \<Rightarrow> cnode list \<Rightarrow> cnode list" where
  "map_child t k f [] = []"
| "map_child t k f (n # ns) = (if ntype n \<noteq> t \<or> nkey n \<noteq> k then n # map_child t k f ns else f n # ns)"

fun children_at :: "cnode list \<Rightarrow> bytes list \<Rightarrow> cnode list" where
  "children_at cs [] = cs"
| "children_at cs (k # p) = (case find_child SECTION k cs of None \<Rightarrow> [] | Some n \<Rightarrow> children_at (left n) p)"

definition set_left :: "(cnode list \<Rightarrow> cnode list) \<Rightarrow> cnode \<Rightarrow> cnode" where
  "set_left f n = CNode (ntype n) (nkey n) (nvalue n) (f (left n))"

fun update_at :: "bytes list \<Rightarrow> (cnode list \<Rightarrow> cnode list) \<Rightarrow> cnode list \<Rightarrow> cnode list" where
  "update_at [] f cs = f cs"
| "update_at (k # p) f cs = map_child SECTION k (set_left (update_at p f)) cs"

section \<open>Operations\<close>

text \<open>One round of the loop of \<open>set_section\<close> for a component that is not empty.\<close>

definition enter_section :: "config_map \<Rightarrow> bytes \<Rightarrow> config_map" where
  "enter_section cm sub =
     (let p = cur cm @ [sub]
      in case find_child SECTION sub (children_at (root cm) (cur cm)) of
           None \<Rightarrow> cm\<lparr>root := update_at (cur cm) (\<lambda>cs. CNode SECTION sub '''' [] # cs) (root cm),
                      cur := p, iter := (p, 0)\<rparr>
         | Some n \<Rightarrow> cm\<lparr>cur := p, iter := (p, length (left n))\<rparr>)"

text \<open>The argument is the string from \<open>head\<close>, which stands on a slash.\<close>

function section_loop :: "bytes \<Rightarrow> config_map \<Rightarrow> config_map" where
  "section_loop [] cm = cm"
| "section_loop (c # rest) cm =
     (let sub = strip (takeWhile (\<lambda>x. x \<noteq> CHR ''/'') rest);
          tail = dropWhile (\<lambda>x. x \<noteq> CHR ''/'') rest
      in section_loop tail (if sub \<noteq> [] then enter_section cm sub else cm))"
  by pat_completeness auto
termination
  by (relation "measure (\<lambda>(s, _). length s)") (auto simp: length_dropWhile_le less_Suc_eq_le)

definition slashes :: "bytes \<Rightarrow> bytes" where
  "slashes = map (\<lambda>c. if c = char_of (92::nat) then CHR ''/'' else c)"

definition set_section :: "bytes \<Rightarrow> config_map \<Rightarrow> config_map" where
  "set_section key cm = section_loop (slashes (CHR ''/'' # cstr key)) (cm\<lparr>cur := []\<rparr>)"

definition set_value_in :: "bytes \<Rightarrow> bytes \<Rightarrow> cnode list \<Rightarrow> cnode list" where
  "set_value_in key val cs =
     (case find_child VALUE key cs of
        None \<Rightarrow> CNode VALUE key val [] # cs
      | Some _ \<Rightarrow> map_child VALUE key (\<lambda>n. CNode (ntype n) (nkey n) val (left n)) cs)"

definition set_value :: "bytes \<Rightarrow> bytes \<Rightarrow> config_map \<Rightarrow> config_map" where
  "set_value key val cm = cm\<lparr>root := update_at (cur cm) (set_value_in (cstr key) (cstr val)) (root cm)\<rparr>"

text \<open>\<open>None\<close> is the return value -1. The value is handed out as a C string.\<close>

definition get_value :: "bytes \<Rightarrow> config_map \<Rightarrow> bytes option" where
  "get_value key cm =
     map_option (\<lambda>n. cstr (nvalue n)) (find_child VALUE (cstr key) (children_at (root cm) (cur cm)))"

fun skip_sections :: "cnode list \<Rightarrow> cnode list" where
  "skip_sections [] = []"
| "skip_sections (n # ns) = (if ntype n = SECTION then skip_sections ns else n # ns)"

definition enum_value :: "config_map \<Rightarrow> config_map \<times> (bytes \<times> bytes) option" where
  "enum_value cm =
     (let (p, k) = iter cm; cs = children_at (root cm) p
      in case skip_sections (drop (length cs - k) cs) of
           [] \<Rightarrow> (cm\<lparr>iter := (p, 0)\<rparr>, None)
         | n # rest \<Rightarrow> (cm\<lparr>iter := (p, length rest)\<rparr>, Some (cstr (nkey n), cstr (nvalue n))))"

section \<open>Reading a file\<close>

definition quoted :: "bytes \<Rightarrow> bytes" where
  "quoted body = takeWhile (\<lambda>c. c \<noteq> CHR ''\"'') body"

definition import_line :: "config_map \<Rightarrow> bytes \<Rightarrow> config_map" where
  "import_line cm line0 =
     (let line = strip line0
      in if line = [] then cm
         else if hd line = CHR ''['' then
           (let name = takeWhile (\<lambda>c. c \<noteq> CHR '']'') (tl line)
            in if CHR '']'' \<in> set (tl line) \<and> name \<noteq> [] then set_section (strip name) cm else cm)
         else if hd line = CHR ''\"'' then
           (let key = quoted (tl line)
            in if CHR ''\"'' \<in> set (tl line) \<and> key \<noteq> [] then
                 (let line = strip (drop (Suc (length key)) (tl line))
                  in if line \<noteq> [] \<and> hd line = CHR ''='' then
                       (let line = strip (tl line)
                        in if line \<noteq> [] \<and> hd line = CHR ''\"'' \<and> CHR ''\"'' \<in> set (tl line)
                           then set_value key (quoted (tl line)) cm else cm)
                     else cm)
               else cm)
         else cm)"

abbreviation newline :: char where
  "newline \<equiv> char_of (10::nat)"

text \<open>The lines that \<open>while (!file.eof()) getline(...)\<close> sees.\<close>

function getlines :: "bytes \<Rightarrow> bytes list" where
  "getlines s =
     takeWhile (\<lambda>c. c \<noteq> newline) s #
     (case dropWhile (\<lambda>c. c \<noteq> newline) s of [] \<Rightarrow> [] | _ # rest \<Rightarrow> getlines rest)"
  by pat_completeness auto
termination
proof (relation "measure length")
  fix s x rest
  assume "dropWhile (\<lambda>c. c \<noteq> newline) s = (x::char) # rest"
  then show "(rest, s) \<in> measure length" using length_dropWhile_le [of "\<lambda>c. c \<noteq> newline" s] by simp
qed simp

declare getlines.simps [simp del]

text \<open>A file is its content, or \<open>None\<close> when it cannot be opened; then \<open>import\<close> returns -1.\<close>

definition config_import :: "bytes option \<Rightarrow> config_map \<Rightarrow> config_map \<times> int" where
  "config_import file cm =
     (case file of None \<Rightarrow> (cm, -1) | Some content \<Rightarrow> (foldl import_line cm (getlines content), 0))"

section \<open>configuration.cpp\<close>

record configuration =
  listen_port :: "32 word"
  thread_stack_size :: "32 word"
  receiver_num :: "32 word"

definition SeparateIP :: "bytes \<Rightarrow> (bytes \<times> int) option" where
  "SeparateIP val =
     (if CHR '':'' \<in> set (cstr val)
      then (let ip = takeWhile (\<lambda>c. c \<noteq> CHR '':'') (cstr val)
            in Some (ip, atoi (drop (Suc (length ip)) (cstr val))))
      else None)"

definition readParameter :: "bytes option \<Rightarrow> bytes \<Rightarrow> configuration \<Rightarrow> configuration \<times> int" where
  "readParameter filename key conf =
     (let config = set_section (cstr key @ ''/Parameter'') (fst (config_import filename new_config_map))
      in case get_value ''ListenPort'' config of
           None \<Rightarrow> (conf, -1)
         | Some v \<Rightarrow>
             (let conf = conf\<lparr>listen_port := of_int (atoi v)\<rparr>
              in case get_value ''ThreadStackSize'' config of
                   None \<Rightarrow> (conf\<lparr>thread_stack_size := 256 * 2 ^ 10\<rparr>, 0)
                 | Some w \<Rightarrow> (conf\<lparr>thread_stack_size := of_int (atoi w * 2 ^ 10)\<rparr>, 0)))"

definition readThreadNumber :: "bytes option \<Rightarrow> bytes \<Rightarrow> configuration \<Rightarrow> configuration \<times> int" where
  "readThreadNumber filename key conf =
     (let config = set_section (cstr key @ ''/ThreadNumber'') (fst (config_import filename new_config_map))
      in case get_value ''ReceiverThread'' config of
           None \<Rightarrow> (conf\<lparr>receiver_num := 3\<rparr>, 0)
         | Some v \<Rightarrow> (conf\<lparr>receiver_num := of_int (atoi v)\<rparr>, 0))"

definition open_config :: "bytes option \<Rightarrow> bytes \<Rightarrow> configuration \<Rightarrow> configuration \<times> int" where
  "open_config filename key conf =
     (let (conf1, r1) = readParameter filename key conf
      in if r1 \<noteq> 0 then (conf1, -1)
         else (let (conf2, r2) = readThreadNumber filename key conf1
               in if r2 \<noteq> 0 then (conf2, -1) else (conf2, 0)))"

definition readString :: "bytes option \<Rightarrow> bytes \<Rightarrow> bytes \<Rightarrow> bytes" where
  "readString filename path name =
     (let (config, r) = config_import filename new_config_map
      in if r \<noteq> 0 then []
         else (case get_value name (set_section path config) of None \<Rightarrow> [] | Some v \<Rightarrow> v))"

section \<open>The store behind the tree\<close>

text \<open>What the tree means: the value of a key in the section with a given path.\<close>

definition lookup :: "config_map \<Rightarrow> bytes list \<Rightarrow> bytes \<rightharpoonup> bytes" where
  "lookup cm p k = map_option nvalue (find_child VALUE k (children_at (root cm) p))"

fun path_ok :: "cnode list \<Rightarrow> bytes list \<Rightarrow> bool" where
  "path_ok cs [] = True"
| "path_ok cs (k # p) = (case find_child SECTION k cs of None \<Rightarrow> False | Some n \<Rightarrow> path_ok (left n) p)"

definition tags :: "cnode list \<Rightarrow> (node_type \<times> bytes) list" where
  "tags = map (\<lambda>n. (ntype n, nkey n))"

text \<open>Among the children of a section no two have the same type and key, and values are C strings.\<close>

fun wf_node :: "cnode \<Rightarrow> bool" where
  "wf_node (CNode t k v cs) \<longleftrightarrow> nul_free k \<and> nul_free v \<and> distinct (tags cs) \<and> (\<forall>n \<in> set cs. wf_node n)"

definition wf_nodes :: "cnode list \<Rightarrow> bool" where
  "wf_nodes cs \<longleftrightarrow> distinct (tags cs) \<and> (\<forall>n \<in> set cs. wf_node n)"

definition config_ok :: "config_map \<Rightarrow> bool" where
  "config_ok cm \<longleftrightarrow> wf_nodes (root cm) \<and> path_ok (root cm) (cur cm) \<and> path_ok (root cm) (fst (iter cm)) \<and>
     snd (iter cm) \<le> length (children_at (root cm) (fst (iter cm)))"

lemma wf_node_iff: "wf_node n \<longleftrightarrow> nul_free (nkey n) \<and> nul_free (nvalue n) \<and> wf_nodes (left n)"
  by (cases n) (auto simp: wf_nodes_def)

lemma wf_nodes_Cons [simp]:
  "wf_nodes (n # ns) \<longleftrightarrow> wf_node n \<and> (ntype n, nkey n) \<notin> set (tags ns) \<and> wf_nodes ns"
  by (auto simp: wf_nodes_def tags_def)

lemma wf_nodes_Nil [simp]: "wf_nodes []"
  by (simp add: wf_nodes_def tags_def)

lemma set_left_sel [simp]:
  "ntype (set_left f n) = ntype n" "nkey (set_left f n) = nkey n" "nvalue (set_left f n) = nvalue n"
  "left (set_left f n) = f (left n)"
  by (simp_all add: set_left_def)

lemma find_child_Some: "find_child t k cs = Some n \<Longrightarrow> n \<in> set cs \<and> ntype n = t \<and> nkey n = k"
  by (induction cs) (auto split: if_splits)

lemma find_child_None: "find_child t k cs = None \<longleftrightarrow> (t, k) \<notin> set (tags cs)"
  by (induction cs) (auto simp: tags_def)

lemma find_child_map_child:
  assumes "\<And>n. ntype (f n) = ntype n" and "\<And>n. nkey (f n) = nkey n"
  shows "find_child t k (map_child t' k' f cs) =
    (if t = t' \<and> k = k' then map_option f (find_child t k cs) else find_child t k cs)"
  by (induction cs) (auto simp: assms)

lemma tags_map_child:
  assumes "\<And>n. ntype (f n) = ntype n" and "\<And>n. nkey (f n) = nkey n"
  shows "tags (map_child t k f cs) = tags cs"
  by (induction cs) (auto simp: assms tags_def)

lemma wf_map_child:
  assumes "\<And>n. ntype (f n) = ntype n" and "\<And>n. nkey (f n) = nkey n"
    and "\<And>n. find_child t k cs = Some n \<Longrightarrow> wf_node n \<Longrightarrow> wf_node (f n)" and "wf_nodes cs"
  shows "wf_nodes (map_child t k f cs)"
  using assms(3,4) by (induction cs) (auto simp: assms(1,2) tags_map_child split: if_splits)

lemma wf_update_at:
  assumes "\<And>cs. wf_nodes cs \<Longrightarrow> cs = children_at ds p \<Longrightarrow> wf_nodes (f cs)" and "wf_nodes ds"
  shows "wf_nodes (update_at p f ds)"
  using assms
proof (induction p arbitrary: ds)
  case (Cons k p)
  have "wf_node (set_left (update_at p f) n)" if "find_child SECTION k ds = Some n" "wf_node n" for n
    using that Cons.IH [of "left n"] Cons.prems(1) by (simp add: wf_node_iff)
  then show ?case using Cons.prems(2) by (auto intro: wf_map_child)
qed simp

lemma path_ok_append:
  "path_ok cs (p @ q) \<longleftrightarrow> path_ok cs p \<and> path_ok (children_at cs p) q"
  by (induction p arbitrary: cs) (auto split: option.splits)

lemma children_at_append:
  "path_ok cs p \<Longrightarrow> children_at cs (p @ q) = children_at (children_at cs p) q"
  by (induction p arbitrary: cs) (auto split: option.splits)

lemma path_ok_update_at:
  assumes "\<And>p. path_ok (children_at cs q) p \<Longrightarrow> path_ok (f (children_at cs q)) p" and "path_ok cs q" and "path_ok cs p"
  shows "path_ok (update_at q f cs) p"
  using assms
proof (induction q arbitrary: cs p)
  case (Cons k q)
  then show ?case
    by (cases p) (auto simp: find_child_map_child split: option.splits)
qed simp

lemma children_at_update_at: "path_ok cs p \<Longrightarrow> children_at (update_at p f cs) p = f (children_at cs p)"
  by (induction p arbitrary: cs) (auto simp: find_child_map_child split: option.splits)

text \<open>An update of the children of one section is seen in that section only.\<close>

lemma find_value_update_at:
  assumes "path_ok cs q"
    and "\<And>j p. find_child VALUE k (children_at (f (children_at cs q)) (j # p)) =
      find_child VALUE k (children_at (children_at cs q) (j # p))"
  shows "map_option nvalue (find_child VALUE k (children_at (update_at q f cs) p)) =
    map_option nvalue (if p = q then find_child VALUE k (f (children_at cs q)) else find_child VALUE k (children_at cs p))"
  using assms
proof (induction q arbitrary: cs p)
  case Nil
  then show ?case by (cases p) (auto simp del: children_at.simps(2))
next
  case (Cons j q)
  then show ?case
    by (cases p) (auto simp: find_child_map_child option.map_comp comp_def split: option.splits)
qed

lemma find_child_map_value:
  "find_child t k (map_child VALUE key (\<lambda>n. CNode (ntype n) (nkey n) val (left n)) cs) =
    (if t = VALUE \<and> k = key then map_option (\<lambda>n. CNode (ntype n) (nkey n) val (left n)) (find_child t k cs)
     else find_child t k cs)"
  by (simp add: find_child_map_child)

lemma find_set_value_in:
  "find_child SECTION k (set_value_in key val cs) = find_child SECTION k cs"
  "map_option nvalue (find_child VALUE k (set_value_in key val cs)) =
     (if k = key then Some val else map_option nvalue (find_child VALUE k cs))"
  by (auto simp: set_value_in_def find_child_map_value split: option.splits)

lemma path_ok_set_value_in: "path_ok (set_value_in key val cs) p = path_ok cs p"
  by (cases p) (simp_all add: find_set_value_in)

lemma children_at_set_value_in: "children_at (set_value_in key val cs) (j # p) = children_at cs (j # p)"
  by (simp add: find_set_value_in)

lemma wf_set_value_in: "nul_free key \<Longrightarrow> nul_free val \<Longrightarrow> wf_nodes cs \<Longrightarrow> wf_nodes (set_value_in key val cs)"
  unfolding set_value_in_def
  by (auto simp: find_child_None wf_node_iff intro!: wf_map_child split: option.splits)

lemma find_child_wf: "wf_nodes cs \<Longrightarrow> find_child t k cs = Some n \<Longrightarrow> wf_nodes (left n)"
  by (meson find_child_Some wf_node_iff wf_nodes_def)

lemma children_at_wf: "wf_nodes cs \<Longrightarrow> wf_nodes (children_at cs p)"
  by (induction p arbitrary: cs) (auto simp: find_child_wf split: option.splits)

section \<open>Operations on the store\<close>

lemma path_ok_new_section:
  "find_child SECTION sub cs = None \<Longrightarrow> path_ok cs p \<Longrightarrow> path_ok (CNode SECTION sub v [] # cs) p"
  by (cases p) auto

lemma find_value_new_section:
  "find_child SECTION sub cs = None \<Longrightarrow>
   find_child VALUE k (children_at (CNode SECTION sub v [] # cs) (j # p)) = find_child VALUE k (children_at cs (j # p))"
  by (cases p) auto

lemma enter_section_lookup: "config_ok cm \<Longrightarrow> lookup (enter_section cm sub) = lookup cm"
  unfolding enter_section_def lookup_def
  by (intro ext) (auto simp: Let_def config_ok_def find_value_update_at find_value_new_section
      simp del: children_at.simps(2) split: option.splits)

lemma enter_section_ok:
  assumes ok: "config_ok cm" and sub: "nul_free sub"
  shows "config_ok (enter_section cm sub)"
proof (cases "find_child SECTION sub (children_at (root cm) (cur cm))")
  case None
  let ?f = "\<lambda>cs. CNode SECTION sub '''' [] # cs"
  let ?r = "update_at (cur cm) ?f (root cm)"
  have ok': "wf_nodes (root cm)" "path_ok (root cm) (cur cm)" using ok by (auto simp: config_ok_def)
  have "wf_nodes ?r"
    using None ok' sub by (intro wf_update_at) (auto simp: wf_node_iff find_child_None nul_free_def)
  moreover have "path_ok ?r (cur cm)"
    using None ok' by (intro path_ok_update_at path_ok_new_section) auto
  ultimately show ?thesis
    using None ok'
    by (simp add: enter_section_def config_ok_def Let_def path_ok_append children_at_update_at children_at_append)
next
  case (Some n)
  then show ?thesis using ok
    by (auto simp: enter_section_def config_ok_def Let_def path_ok_append children_at_append)
qed

lemma enter_section_cur [simp]: "cur (enter_section cm sub) = cur cm @ [sub]"
  by (simp add: enter_section_def Let_def split: option.splits)

lemma enter_section_iter:
  "config_ok cm \<Longrightarrow> iter (enter_section cm sub) =
    (cur cm @ [sub], length (children_at (root (enter_section cm sub)) (cur cm @ [sub])))"
  by (auto simp: enter_section_def Let_def config_ok_def children_at_append path_ok_update_at
      path_ok_new_section children_at_update_at split: option.splits)

text \<open>The components of a section name: between slashes or backslashes, stripped, not empty.\<close>

definition section_path :: "bytes \<Rightarrow> bytes list" where
  "section_path s = filter (\<lambda>c. c \<noteq> []) (map strip (split_fields (slashes (cstr s)) ''/''))"

lemma split_fields_char:
  "split_fields s [c] = takeWhile (\<lambda>x. x \<noteq> c) s #
     (case dropWhile (\<lambda>x. x \<noteq> c) s of [] \<Rightarrow> [] | _ # rest \<Rightarrow> split_fields rest [c])"
proof (cases "c \<in> set s")
  case True
  then obtain x rest where d: "dropWhile (\<lambda>x. x \<noteq> c) s = x # rest"
    by (cases "dropWhile (\<lambda>x. x \<noteq> c) s") auto
  define k where "k = length (takeWhile (\<lambda>x. x \<noteq> c) s)"
  have "drop k s = x # rest" "take k s = takeWhile (\<lambda>x. x \<noteq> c) s"
    unfolding k_def using d dropWhile_eq_drop [of "\<lambda>x. x \<noteq> c" s] takeWhile_eq_take [of "\<lambda>x. x \<noteq> c" s] by auto
  moreover from this(1) have "drop (Suc k) s = rest" by (metis drop_Suc list.sel(3) tl_drop)
  moreover have "split_fields s [c] = take k s # split_fields (drop (Suc k) s) [c]"
    using True by (subst split_fields.simps) (simp add: find_sub_singleton k_def)
  ultimately show ?thesis using d by simp
next
  case False
  then have e: "takeWhile (\<lambda>x. x \<noteq> c) s = s" "dropWhile (\<lambda>x. x \<noteq> c) s = []" by auto
  have "split_fields s [c] = [s]" using False by (subst split_fields.simps) (simp add: find_sub_singleton)
  then show ?thesis unfolding e by simp
qed

lemma section_loop_foldl:
  "section_loop (c # s) cm = foldl enter_section cm (filter (\<lambda>c. c \<noteq> []) (map strip (split_fields s ''/'')))"
proof (induction s arbitrary: c cm rule: length_induct)
  case (1 s)
  show ?case
  proof (cases "dropWhile (\<lambda>x. x \<noteq> CHR ''/'') s")
    case Nil
    then show ?thesis using split_fields_char [of s "CHR ''/''"]
      by (simp add: Let_def del: dropWhile_eq_Nil_conv)
  next
    case (Cons d rest)
    then have "length rest < length s" using length_dropWhile_le [of "\<lambda>x. x \<noteq> CHR ''/''" s] by simp
    with 1 Cons show ?thesis using split_fields_char [of s "CHR ''/''"] by (simp add: Let_def)
  qed
qed

lemma set_section_foldl: "set_section key cm = foldl enter_section (cm\<lparr>cur := []\<rparr>) (section_path key)"
  using section_loop_foldl by (simp add: set_section_def slashes_def section_path_def del: section_loop.simps)

lemma foldl_enter:
  assumes "config_ok cm" and "\<forall>c \<in> set p. nul_free c"
  shows "config_ok (foldl enter_section cm p) \<and> lookup (foldl enter_section cm p) = lookup cm \<and>
    cur (foldl enter_section cm p) = cur cm @ p"
  using assms
  by (induction p arbitrary: cm) (auto simp: enter_section_ok enter_section_lookup)

lemma set_strip: "set (strip s) \<subseteq> set s"
  by (auto simp: strip_def Let_def dest: in_set_dropD in_set_takeD split: if_splits)

lemma set_split_fields: "f \<in> set (split_fields s [c]) \<Longrightarrow> set f \<subseteq> set s"
proof (induction s rule: length_induct)
  case (1 s)
  have s: "set (takeWhile (\<lambda>x. x \<noteq> c) s) \<subseteq> set s" by (auto dest: set_takeWhileD)
  show ?case
  proof (cases "dropWhile (\<lambda>x. x \<noteq> c) s")
    case Nil
    then show ?thesis using 1 s split_fields_char [of s c] by (simp del: dropWhile_eq_Nil_conv)
  next
    case (Cons d rest)
    then have "length rest < length s" "set rest \<subseteq> set s"
      using length_dropWhile_le [of "\<lambda>x. x \<noteq> c" s] set_dropWhileD [of _ "\<lambda>x. x \<noteq> c" s] by auto
    with 1 Cons s show ?thesis using split_fields_char [of s c] by auto
  qed
qed

lemma section_path_nul_free: "c \<in> set (section_path s) \<Longrightarrow> nul_free c"
proof -
  assume "c \<in> set (section_path s)"
  then obtain f where "c = strip f" "f \<in> set (split_fields (slashes (cstr s)) ''/'')" by (auto simp: section_path_def)
  then have "set c \<subseteq> set (slashes (cstr s))"
    using set_strip [of f] set_split_fields [of f "slashes (cstr s)" "CHR ''/''"] by simp
  moreover have "NUL \<notin> set (slashes (cstr s))" using nul_free_cstr [of s] by (auto simp: slashes_def nul_free_def)
  ultimately show ?thesis by (auto simp: nul_free_def)
qed

lemma config_ok_root: "config_ok cm \<Longrightarrow> config_ok (cm\<lparr>cur := []\<rparr>)"
  by (simp add: config_ok_def)

lemma set_section_correct:
  assumes "config_ok cm"
  shows "config_ok (set_section key cm) \<and> lookup (set_section key cm) = lookup cm \<and>
    cur (set_section key cm) = section_path key"
  using foldl_enter [OF config_ok_root [OF assms], of "section_path key"] section_path_nul_free
  by (simp add: set_section_foldl fun_eq_iff lookup_def)

lemma length_set_value_in: "length cs \<le> length (set_value_in key val cs)"
proof -
  have "length (map_child t k f cs) = length cs" for t k f by (induction cs) auto
  then show ?thesis by (simp add: set_value_in_def split: option.splits)
qed

lemma length_children_update_at:
  assumes "\<And>cs. length cs \<le> length (f cs)" and "\<And>cs j p. children_at (f cs) (j # p) = children_at cs (j # p)"
  shows "length (children_at cs p) \<le> length (children_at (update_at q f cs) p)"
proof (induction q arbitrary: cs p)
  case Nil
  then show ?case by (cases p) (simp_all add: assms del: children_at.simps(2))
next
  case (Cons k q)
  have "length (map_child t k f cs) = length cs" for t k f and cs :: "cnode list" by (induction cs) auto
  with Cons show ?case
    by (cases p) (auto simp: find_child_map_child split: option.splits)
qed

lemma set_value_ok:
  assumes "config_ok cm"
  shows "config_ok (set_value key val cm)"
  using assms
  by (auto simp: config_ok_def set_value_def wf_set_value_in path_ok_set_value_in
      intro!: wf_update_at path_ok_update_at
      intro: order_trans length_children_update_at length_set_value_in children_at_set_value_in)

lemma set_value_lookup:
  assumes "config_ok cm"
  shows "lookup (set_value key val cm) =
    (\<lambda>p k. if p = cur cm \<and> k = cstr key then Some (cstr val) else lookup cm p k)"
  using assms
  by (intro ext) (auto simp: config_ok_def lookup_def set_value_def find_value_update_at
      children_at_set_value_in find_set_value_in simp del: children_at.simps(2))

lemma lookup_nul_free: "config_ok cm \<Longrightarrow> lookup cm p k = Some v \<Longrightarrow> nul_free v"
proof -
  assume "config_ok cm" "lookup cm p k = Some v"
  then obtain n where "find_child VALUE k (children_at (root cm) p) = Some n" "v = nvalue n" "wf_nodes (root cm)"
    by (auto simp: lookup_def config_ok_def)
  then show ?thesis using find_child_Some children_at_wf by (metis wf_node_iff wf_nodes_def)
qed

lemma get_value_lookup: "config_ok cm \<Longrightarrow> get_value key cm = lookup cm (cur cm) (cstr key)"
  using lookup_nul_free [of cm "cur cm" "cstr key"]
  by (cases "find_child VALUE (cstr key) (children_at (root cm) (cur cm))")
    (auto simp: get_value_def lookup_def cstr_nul_free)

section \<open>Enumeration\<close>

text \<open>The results of up to \<open>n\<close> calls of \<open>enum_value\<close>, until one returns -1.\<close>

fun enums :: "nat \<Rightarrow> config_map \<Rightarrow> (bytes \<times> bytes) list" where
  "enums 0 cm = []"
| "enums (Suc n) cm = (case enum_value cm of (_, None) \<Rightarrow> [] | (cm', Some kv) \<Rightarrow> kv # enums n cm')"

definition pending :: "config_map \<Rightarrow> cnode list" where
  "pending cm = (let cs = children_at (root cm) (fst (iter cm)) in drop (length cs - snd (iter cm)) cs)"

lemma skip_sections_suffix: "suffix (skip_sections cs) cs"
  by (induction cs) (auto simp: suffix_ConsI)

lemma skip_sections_filter:
  "filter (\<lambda>n. ntype n = VALUE) (skip_sections cs) = filter (\<lambda>n. ntype n = VALUE) cs"
  "skip_sections cs = n # ns \<Longrightarrow> ntype n = VALUE"
  by (induction cs) (auto intro: node_type.exhaust split: if_splits)

lemma pending_iter: "suffix ns (children_at (root cm) p) \<Longrightarrow> pending (cm\<lparr>iter := (p, length ns)\<rparr>) = ns"
  by (auto simp: pending_def suffix_def)

lemma enum_value_None: "skip_sections (pending cm) = [] \<Longrightarrow> \<exists>cm'. enum_value cm = (cm', None)"
  by (cases "iter cm") (simp add: enum_value_def pending_def Let_def)

lemma enum_value_Some:
  assumes "skip_sections (pending cm) = n # ns" and "wf_nodes (root cm)"
  shows "\<exists>cm'. enum_value cm = (cm', Some (nkey n, nvalue n)) \<and> root cm' = root cm \<and> pending cm' = ns"
proof -
  obtain p k where it: "iter cm = (p, k)" by (cases "iter cm")
  let ?cs = "children_at (root cm) p"
  have sk: "skip_sections (drop (length ?cs - k) ?cs) = n # ns" using assms(1) it by (simp add: pending_def Let_def)
  have "suffix (n # ns) ?cs" using skip_sections_suffix [of "drop (length ?cs - k) ?cs"] sk
    by (metis suffix_drop suffix_order.trans)
  then have s: "n \<in> set ?cs" "suffix ns ?cs" by (auto simp: suffix_def)
  have "wf_node n" using s(1) children_at_wf [OF assms(2), of p] by (simp add: wf_nodes_def)
  then show ?thesis using sk it pending_iter [OF s(2)] by (simp add: enum_value_def cstr_nul_free wf_node_iff)
qed

lemma enums_pending:
  "wf_nodes (root cm) \<Longrightarrow>
   enums m cm = take m (map (\<lambda>n. (nkey n, nvalue n)) (filter (\<lambda>n. ntype n = VALUE) (pending cm)))"
proof (induction m arbitrary: cm)
  case (Suc m)
  show ?case
  proof (cases "skip_sections (pending cm)")
    case Nil
    then have "filter (\<lambda>n. ntype n = VALUE) (pending cm) = []"
      using skip_sections_filter(1) [of "pending cm"] by (metis filter.simps(1))
    moreover from enum_value_None [OF Nil] obtain cm' where "enum_value cm = (cm', None)" by blast
    ultimately show ?thesis by simp
  next
    case (Cons n ns)
    from enum_value_Some [OF Cons Suc.prems] obtain cm' where
      cm': "enum_value cm = (cm', Some (nkey n, nvalue n))" "root cm' = root cm" "pending cm' = ns" by blast
    have "filter (\<lambda>n. ntype n = VALUE) (pending cm) = n # filter (\<lambda>n. ntype n = VALUE) ns"
      using skip_sections_filter(1) [of "pending cm"] skip_sections_filter(2) [OF Cons] Cons by simp
    then show ?thesis using Suc.IH [of cm'] Suc.prems cm' by simp
  qed
qed simp

lemma map_of_values:
  "map_of (map (\<lambda>n. (nkey n, nvalue n)) (filter (\<lambda>n. ntype n = VALUE) cs)) k = map_option nvalue (find_child VALUE k cs)"
  by (induction cs) auto

lemma distinct_values: "wf_nodes cs \<Longrightarrow> distinct (map nkey (filter (\<lambda>n. ntype n = VALUE) cs))"
  by (induction cs) (force simp: tags_def)+

lemma pending_set_section:
  assumes "config_ok cm" and "section_path s \<noteq> []"
  shows "pending (set_section s cm) = children_at (root (set_section s cm)) (section_path s)"
proof -
  obtain p sub where p: "section_path s = p @ [sub]" using assms(2) by (cases "section_path s" rule: rev_cases) auto
  let ?c = "foldl enter_section (cm\<lparr>cur := []\<rparr>) p"
  have "\<forall>c \<in> set p. nul_free c" using section_path_nul_free [of _ s] p by simp
  from foldl_enter [OF config_ok_root [OF assms(1)] this] have "config_ok ?c" "cur ?c = p" by auto
  then show ?thesis using enter_section_iter [of ?c sub] p by (simp add: set_section_foldl pending_def)
qed

section \<open>Reading back a printed configuration\<close>

type_synonym sections = "(bytes \<times> (bytes \<times> bytes) list) list"

definition render_entry :: "bytes \<times> bytes \<Rightarrow> bytes" where
  "render_entry = (\<lambda>(k, v). CHR ''\"'' # k @ CHR ''\"'' # '' = '' @ CHR ''\"'' # v @ [CHR ''\"''])"

definition render_section :: "bytes \<times> (bytes \<times> bytes) list \<Rightarrow> bytes list" where
  "render_section = (\<lambda>(s, kvs). (CHR ''['' # s @ [CHR '']'']) # map render_entry kvs)"

definition render :: "sections \<Rightarrow> bytes" where
  "render secs = concat (map (\<lambda>l. l @ [newline]) (concat (map render_section secs)))"

definition sections_ok :: "sections \<Rightarrow> bool" where
  "sections_ok secs \<longleftrightarrow> (\<forall>(s, kvs) \<in> set secs. s \<noteq> [] \<and> set s \<inter> {CHR '']'', newline, NUL} = {} \<and>
     (\<forall>(k, v) \<in> set kvs. k \<noteq> [] \<and> (set k \<union> set v) \<inter> {CHR ''\"'', newline, NUL} = {}))"

definition assigned :: "sections \<Rightarrow> bytes list \<times> bytes \<rightharpoonup> bytes" where
  "assigned secs = map_of (rev (concat (map (\<lambda>(s, kvs). map (\<lambda>(k, v). ((section_path (strip s), k), v)) kvs) secs)))"

lemma takeWhile_rev_last: "s \<noteq> [] \<Longrightarrow> \<not> P (last s) \<Longrightarrow> takeWhile P (rev s @ t) = []"
  by (cases s rule: rev_cases) auto

lemma takeWhile_hd: "s \<noteq> [] \<Longrightarrow> \<not> P (hd s) \<Longrightarrow> takeWhile P s = []"
  by (cases s) auto

lemma strip_id: "s \<noteq> [] \<Longrightarrow> \<not> c_isspace (hd s) \<Longrightarrow> \<not> c_isspace (last s) \<Longrightarrow> strip s = s"
  using takeWhile_rev_last [of s c_isspace "[]"] takeWhile_hd [of s c_isspace] by (simp add: strip_def)

lemma strip_blank: "\<not> c_isspace (last s) \<Longrightarrow> s \<noteq> [] \<Longrightarrow> \<not> c_isspace (hd s) \<Longrightarrow> strip (CHR '' '' # s) = s"
  using takeWhile_rev_last [of s c_isspace "'' ''"] takeWhile_hd [of s c_isspace]
  by (simp add: strip_def c_isspace_def uchar_def)

lemma takeWhile_until: "c \<notin> set s \<Longrightarrow> takeWhile (\<lambda>x. x \<noteq> c) (s @ c # t) = s"
  by (induction s) auto

lemma not_space_simps: "\<not> c_isspace CHR ''[''" "\<not> c_isspace CHR '']''" "\<not> c_isspace CHR ''\"''" "\<not> c_isspace CHR ''=''"
  by (simp_all add: c_isspace_def uchar_def)

lemma import_line_section:
  assumes "s \<noteq> []" and "CHR '']'' \<notin> set s"
  shows "import_line cm (CHR ''['' # s @ [CHR '']'']) = set_section (strip s) cm"
  using assms takeWhile_until [of "CHR '']''" s "[]"]
  by (simp add: import_line_def strip_id not_space_simps)

lemma import_line_entry:
  assumes "k \<noteq> []" and "CHR ''\"'' \<notin> set k" and "CHR ''\"'' \<notin> set v"
  shows "import_line cm (render_entry (k, v)) = set_value k v cm"
proof -
  let ?q = "CHR ''\"''"
  have 1: "strip (render_entry (k, v)) = ?q # k @ ?q # '' = '' @ ?q # v @ [?q]"
    unfolding render_entry_def by (subst strip_id) (simp_all add: not_space_simps)
  have 2: "strip ('' = '' @ ?q # v @ [?q]) = ''= '' @ ?q # v @ [?q]"
    using strip_blank [of "''= '' @ ?q # v @ [?q]"] by (simp add: not_space_simps)
  have 3: "strip ('' '' @ ?q # v @ [?q]) = ?q # v @ [?q]"
    using strip_blank [of "?q # v @ [?q]"] by (simp add: not_space_simps)
  have 4: "quoted (k @ ?q # '' = '' @ ?q # v @ [?q]) = k" "quoted (v @ [?q]) = v"
    using takeWhile_until assms by (simp_all add: quoted_def)
  show ?thesis using assms(1) 1 2 3 4 by (simp add: import_line_def)
qed

lemma getlines_append: "newline \<notin> set l \<Longrightarrow> getlines (l @ newline # s) = l # getlines s"
proof -
  assume a: "newline \<notin> set l"
  then have "dropWhile (\<lambda>c. c \<noteq> newline) (l @ newline # s) = newline # s" by (induction l) auto
  then show ?thesis using takeWhile_until [OF a] by (subst getlines.simps) simp
qed

lemma getlines_concat:
  "\<forall>l \<in> set ls. newline \<notin> set l \<Longrightarrow> getlines (concat (map (\<lambda>l. l @ [newline]) ls)) = ls @ [[]]"
proof (induction ls)
  case Nil
  then show ?case by (subst getlines.simps) simp
next
  case (Cons l ls)
  then show ?case using getlines_append [of l] by simp
qed

lemma import_line_Nil: "import_line cm [] = cm"
  by (simp add: import_line_def strip_def)

lemma newline_neq [simp]:
  "newline \<noteq> CHR ''[''" "newline \<noteq> CHR '']''" "newline \<noteq> CHR ''\"''" "newline \<noteq> CHR ''=''" "newline \<noteq> CHR '' ''"
  by (simp_all add: char_of_def)

lemma newline_render_entry: "newline \<notin> set k \<Longrightarrow> newline \<notin> set v \<Longrightarrow> newline \<notin> set (render_entry (k, v))"
  by (simp add: render_entry_def)

lemma render_lines_ok:
  assumes "sections_ok secs" and "l \<in> set (concat (map render_section secs))"
  shows "newline \<notin> set l"
proof -
  obtain s kvs where s: "(s, kvs) \<in> set secs" "l \<in> set (render_section (s, kvs))" using assms(2) by auto
  with assms(1) have "newline \<notin> set s" "\<forall>(k, v) \<in> set kvs. newline \<notin> set k \<and> newline \<notin> set v"
    unfolding sections_ok_def by auto
  with s(2) show ?thesis by (auto simp: render_section_def newline_render_entry)
qed

text \<open>The map update that one section of the file makes.\<close>

lemma import_entries:
  assumes "config_ok cm" and "\<forall>(k, v) \<in> set kvs. k \<noteq> [] \<and> (set k \<union> set v) \<inter> {CHR ''\"'', newline, NUL} = {}"
  shows "config_ok (foldl import_line cm (map render_entry kvs)) \<and>
    (\<forall>p k. lookup (foldl import_line cm (map render_entry kvs)) p k =
      ((\<lambda>pk. lookup cm (fst pk) (snd pk)) ++ map_of (rev (map (\<lambda>(k, v). ((cur cm, k), v)) kvs))) (p, k))"
  using assms
proof (induction kvs arbitrary: cm)
  case (Cons kv kvs)
  obtain k v where kv: "kv = (k, v)" by (cases kv)
  have c: "nul_free k" "nul_free v" "k \<noteq> []" "CHR ''\"'' \<notin> set k" "CHR ''\"'' \<notin> set v"
    using Cons.prems(2) kv by (auto simp: nul_free_def)
  let ?cm = "set_value k v cm"
  have "config_ok ?cm" "cur ?cm = cur cm" using Cons.prems(1) set_value_ok by (auto simp: set_value_def)
  with Cons.IH [of ?cm] Cons.prems(2) show ?case
    unfolding kv using c set_value_lookup [OF Cons.prems(1), of k v]
    by (auto simp: import_line_entry cstr_nul_free map_add_def split: option.splits)
qed simp

lemma import_sections:
  assumes "config_ok cm" and "sections_ok secs"
  shows "config_ok (foldl import_line cm (concat (map render_section secs))) \<and>
    (\<forall>p k. lookup (foldl import_line cm (concat (map render_section secs))) p k =
      ((\<lambda>pk. lookup cm (fst pk) (snd pk)) ++ assigned secs) (p, k))"
  using assms
proof (induction secs arbitrary: cm)
  case (Cons sec secs)
  obtain s kvs where sec: "sec = (s, kvs)" by (cases sec)
  let ?cm = "foldl import_line (set_section (strip s) cm) (map render_entry kvs)"
  have s: "s \<noteq> []" "CHR '']'' \<notin> set s" and kvs: "\<forall>(k, v) \<in> set kvs. k \<noteq> [] \<and> (set k \<union> set v) \<inter> {CHR ''\"'', newline, NUL} = {}"
    and secs: "sections_ok secs"
    using Cons.prems(2) unfolding sec sections_ok_def by auto
  note sc = set_section_correct [OF Cons.prems(1), of "strip s"]
  note ie = import_entries [OF conjunct1 [OF sc] kvs]
  have "foldl import_line cm (concat (map render_section (sec # secs))) = foldl import_line ?cm (concat (map render_section secs))"
    using s by (simp add: sec render_section_def import_line_section)
  with Cons.IH [OF conjunct1 [OF ie] secs] ie sc show ?case
    by (auto simp: sec assigned_def map_add_def split: option.splits)
qed (simp add: assigned_def)

lemma config_ok_new: "config_ok new_config_map" "lookup new_config_map = (\<lambda>_ _. None)"
proof -
  have "children_at [] p = []" for p by (cases p) auto
  then show "config_ok new_config_map" "lookup new_config_map = (\<lambda>_ _. None)"
    by (auto simp: config_ok_def new_config_map_def lookup_def fun_eq_iff)
qed

lemma import_render:
  assumes "sections_ok secs"
  obtains cm where "config_import (Some (render secs)) new_config_map = (cm, 0)" and "config_ok cm"
    and "\<And>p k. lookup cm p k = assigned secs (p, k)"
proof -
  let ?ls = "concat (map render_section secs)"
  have "getlines (render secs) = ?ls @ [[]]"
    unfolding render_def using render_lines_ok [OF assms] by (intro getlines_concat) blast
  then have i: "config_import (Some (render secs)) new_config_map = (foldl import_line new_config_map ?ls, 0)"
    by (simp add: config_import_def import_line_Nil)
  show ?thesis
    using import_sections [OF config_ok_new(1) assms] i config_ok_new(2) that by (auto simp: map_add_def split: option.splits)
qed

lemma get_value_after_import:
  assumes "sections_ok secs"
  shows "get_value key (set_section s (fst (config_import (Some (render secs)) new_config_map))) =
    assigned secs (section_path s, cstr key)"
proof -
  obtain cm where cm: "config_import (Some (render secs)) new_config_map = (cm, 0)" "config_ok cm"
    "\<And>p k. lookup cm p k = assigned secs (p, k)" using import_render [OF assms] by blast
  then show ?thesis using set_section_correct [OF cm(2), of s] by (simp add: get_value_lookup)
qed

section \<open>Properties\<close>

text \<open>
  C32. The section tree refines a store from section paths and keys to values: \<open>set_section\<close> keeps
  the store and moves to the section named, \<open>set_value\<close> changes exactly the value of its key in the
  current section, \<open>get_value\<close> reads it, and every operation keeps the invariant that a section has
  no two children of the same type and key.
\<close>

theorem config_map_refines_store:
  assumes "config_ok cm"
  shows "config_ok (set_section s cm) \<and> lookup (set_section s cm) = lookup cm \<and>
      cur (set_section s cm) = section_path s \<and>
    config_ok (set_value k v cm) \<and>
      lookup (set_value k v cm) = (lookup cm)(cur cm := (lookup cm (cur cm))(cstr k \<mapsto> cstr v)) \<and>
    get_value k cm = lookup cm (cur cm) (cstr k)"
  using set_section_correct [OF assms, of s] set_value_ok [OF assms, of k v] set_value_lookup [OF assms, of k v]
    get_value_lookup [OF assms, of k]
  by (auto simp: fun_eq_iff)

theorem config_map_refines_store_witness:
  "get_value ''port'' (set_value ''port'' ''80'' (set_section ''HTTP/Parameter'' new_config_map)) = Some ''80''"
proof -
  let ?c = "set_section ''HTTP/Parameter'' new_config_map"
  have c: "config_ok ?c" using config_map_refines_store [OF config_ok_new(1)] by blast
  have "cur (set_value ''port'' ''80'' ?c) = cur ?c" "cstr ''port'' = ''port''" "cstr ''80'' = ''80''"
    by (simp_all add: set_value_def cstr_def)
  then show ?thesis
    using config_map_refines_store [OF c, of _ "''port''" "''80''"]
      config_map_refines_store [of "set_value ''port'' ''80'' ?c" _ "''port''"] by simp
qed

text \<open>
  After \<open>set_section\<close> on a section, repeated calls of \<open>enum_value\<close> return every key of that
  section exactly once, with its value, and then report the end.
\<close>

theorem enum_value_complete:
  assumes "config_ok cm" and "section_path s \<noteq> []"
  shows "\<exists>n. \<forall>m \<ge> n. enums m (set_section s cm) = enums n (set_section s cm) \<and>
    distinct (map fst (enums m (set_section s cm))) \<and>
    map_of (enums m (set_section s cm)) = lookup cm (section_path s)"
proof -
  let ?c = "set_section s cm"
  let ?cs = "children_at (root ?c) (section_path s)"
  let ?kvs = "map (\<lambda>n. (nkey n, nvalue n)) (filter (\<lambda>n. ntype n = VALUE) ?cs)"
  note sc = set_section_correct [OF assms(1), of s]
  have wf: "wf_nodes (root ?c)" using sc by (simp add: config_ok_def)
  have "enums m ?c = ?kvs" if "m \<ge> length ?kvs" for m
    using enums_pending [OF wf, of m] pending_set_section [OF assms] that by simp
  moreover have "distinct (map fst ?kvs)" using distinct_values [OF children_at_wf [OF wf]] by (simp add: comp_def)
  moreover have "map_of ?kvs = lookup cm (section_path s)"
    using sc map_of_values [of ?cs] by (auto simp: fun_eq_iff lookup_def)
  ultimately show ?thesis by (intro exI [of _ "length ?kvs"]) simp
qed

theorem enum_value_complete_witness:
  "config_ok (set_value ''a'' ''1'' (set_section ''S'' new_config_map)) \<and>
   (\<exists>n. ''a'' \<in> set (map fst (enums n (set_section ''S'' (set_value ''a'' ''1'' (set_section ''S'' new_config_map))))))"
proof -
  let ?s = "set_section ''S'' new_config_map"
  let ?c = "set_value ''a'' ''1'' ?s"
  have s: "config_ok ?s" "cur ?s = section_path ''S''" using set_section_correct [OF config_ok_new(1)] by auto
  have p: "section_path ''S'' \<noteq> []"
    by (simp add: section_path_def split_fields.simps slashes_def cstr_def strip_def c_isspace_def uchar_def char_of_def)
  have "lookup ?c (section_path ''S'') ''a'' = Some ''1''"
    using set_value_lookup [OF s(1), of "''a''" "''1''"] s(2) by (simp add: cstr_def)
  moreover obtain n where "map_of (enums n (set_section ''S'' ?c)) = lookup ?c (section_path ''S'')"
    using enum_value_complete [OF set_value_ok [OF s(1), of "''a''" "''1''"] p] by blast
  ultimately have "''a'' \<in> fst ` set (enums n (set_section ''S'' ?c))"
    by (metis map_of_eq_None_iff option.distinct(1))
  then show ?thesis using set_value_ok [OF s(1)] by auto
qed

text \<open>
  C33. A printed configuration is read back: \<open>Configuration::open\<close> on a file of sections and quoted
  assignments succeeds exactly when the parameter section assigns \<open>ListenPort\<close>, and stores the last
  value assigned to each parameter, or its default.
\<close>

theorem open_config_reads_file:
  assumes "sections_ok secs"
  shows "open_config (Some (render secs)) key conf =
    (case assigned secs (section_path (cstr key @ ''/Parameter''), ''ListenPort'') of
       None \<Rightarrow> (conf, -1)
     | Some port \<Rightarrow>
        (conf\<lparr>listen_port := of_int (atoi port),
              thread_stack_size := of_int (case assigned secs (section_path (cstr key @ ''/Parameter''), ''ThreadStackSize'') of
                None \<Rightarrow> 262144 | Some v \<Rightarrow> 1024 * atoi v),
              receiver_num := of_int (case assigned secs (section_path (cstr key @ ''/ThreadNumber''), ''ReceiverThread'') of
                None \<Rightarrow> 3 | Some v \<Rightarrow> atoi v)\<rparr>, 0))"
proof -
  have "cstr ''ListenPort'' = ''ListenPort''" "cstr ''ThreadStackSize'' = ''ThreadStackSize''"
    "cstr ''ReceiverThread'' = ''ReceiverThread''" by (simp_all add: cstr_def)
  then show ?thesis
    by (auto simp: open_config_def readParameter_def readThreadNumber_def get_value_after_import [OF assms] Let_def
        mult.commute split: option.splits)
qed

theorem open_config_reads_file_witness:
  "sections_ok [(''HTTP/Parameter'', [(''ListenPort'', ''80'')])] \<and>
   snd (open_config (Some (render [(''HTTP/Parameter'', [(''ListenPort'', ''80'')])])) ''HTTP'' \<lparr>listen_port = 0, thread_stack_size = 0, receiver_num = 0\<rparr>) = 0"
proof -
  let ?secs = "[(''HTTP/Parameter'', [(''ListenPort'', ''80'')])]"
  have ok: "sections_ok ?secs" by (simp add: sections_ok_def char_of_def)
  have "strip ''HTTP/Parameter'' = ''HTTP/Parameter''" by (rule strip_id) (simp_all add: c_isspace_def uchar_def)
  then have "assigned ?secs (section_path (cstr ''HTTP'' @ ''/Parameter''), ''ListenPort'') = Some ''80''"
    by (simp add: assigned_def cstr_def)
  with open_config_reads_file [OF ok, of "''HTTP''" "\<lparr>listen_port = 0, thread_stack_size = 0, receiver_num = 0\<rparr>"] ok show ?thesis by simp
qed

end
