(* ===== verification/HttpResponse.thy ===== *)
theory HttpResponse
  imports CNumber
begin

text \<open>
  The HTTP response of \<open>src/http_server/HttpResponse.hpp\<close> and \<open>HttpResponse.cpp\<close>: the tables of
  versions, fields and status codes, the response object, and \<open>dump_to_buff\<close>, which prints it into
  a buffer of the caller. A buffer is a list of bytes of its real size; a read or write outside it
  is an error value.
\<close>

section \<open>Tables\<close>

datatype http_res_version = HTTP10 | HTTP11

datatype http_response_field =
  Accept_Ranges | Age | Allow | Cache_Control | Connection | Content_Encoding | Content_Language |
  Content_Length | Content_Location | Content_MD5 | Content_Disposition | Content_Range | Content_Type |
  Date | ETag | Expires | Last_Modified | Link | Location | P3P | Pragma | Proxy_Authenticate | Refresh |
  Retry_After | Server | Set_Cookie | Strict_Transport_Security | Trailer | ransfer_Encoding | Vary | Via |
  Warning | WWW_Authenticate

datatype status_code =
  SC100 | SC101 | SC200 | SC201 | SC202 | SC203 | SC204 | SC205 | SC206 | SC300 | SC301 | SC302 | SC303 |
  SC304 | SC305 | SC307 | SC400 | SC401 | SC402 | SC403 | SC404 | SC405 | SC406 | SC407 | SC408 | SC409 |
  SC410 | SC411 | SC412 | SC413 | SC414 | SC415 | SC416 | SC417 | SC500 | SC501 | SC502 | SC503 | SC504 |
  SC505

primrec http_res_version_str :: "http_res_version \<Rightarrow> bytes" where
  "http_res_version_str HTTP10 = ''HTTP/1.0''"
| "http_res_version_str HTTP11 = ''HTTP/1.1''"

primrec http_response_field_names :: "http_response_field \<Rightarrow> bytes" where
  "http_response_field_names Accept_Ranges = ''Accept-Ranges: ''"
| "http_response_field_names Age = ''Age: ''"
| "http_response_field_names Allow = ''Allow: ''"
| "http_response_field_names Cache_Control = ''Cache-Control: ''"
| "http_response_field_names Connection = ''Connection: ''"
| "http_response_field_names Content_Encoding = ''Content-Encoding: ''"
| "http_response_field_names Content_Language = ''Content-Language: ''"
| "http_response_field_names Content_Length = ''Content-Length: ''"
| "http_response_field_names Content_Location = ''Content-Location: ''"
| "http_response_field_names Content_MD5 = ''Content-MD5: ''"
| "http_response_field_names Content_Disposition = ''Content-Disposition: ''"
| "http_response_field_names Content_Range = ''Content-Range: ''"
| "http_response_field_names Content_Type = ''Content-Type: ''"
| "http_response_field_names Date = ''Date: ''"
| "http_response_field_names ETag = ''ETag: ''"
| "http_response_field_names Expires = ''Expires: ''"
| "http_response_field_names Last_Modified = ''Last-Modified: ''"
| "http_response_field_names Link = ''Link: ''"
| "http_response_field_names Location = ''Location: ''"
| "http_response_field_names P3P = ''P3P: ''"
| "http_response_field_names Pragma = ''Pragma: ''"
| "http_response_field_names Proxy_Authenticate = ''Proxy-Authenticate: ''"
| "http_response_field_names Refresh = ''Refresh: ''"
| "http_response_field_names Retry_After = ''Retry-After: ''"
| "http_response_field_names Server = ''Server: ''"
| "http_response_field_names Set_Cookie = ''Set-Cookie: ''"
| "http_response_field_names Strict_Transport_Security = ''Strict-Transport-Security: ''"
| "http_response_field_names Trailer = ''Trailer: ''"
| "http_response_field_names ransfer_Encoding = ''Transfer-Encoding: ''"
| "http_response_field_names Vary = ''Vary: ''"
| "http_response_field_names Via = ''Via: ''"
| "http_response_field_names Warning = ''Warning: ''"
| "http_response_field_names WWW_Authenticate = ''WWW-Authenticate: ''"

primrec status_code_str :: "status_code \<Rightarrow> bytes" where
  "status_code_str SC100 = ''100 Continue''"
| "status_code_str SC101 = ''101 Switching Protocols''"
| "status_code_str SC200 = ''200 OK''"
| "status_code_str SC201 = ''201 Created''"
| "status_code_str SC202 = ''202 Accepted''"
| "status_code_str SC203 = ''203 Non-Authoritative Information''"
| "status_code_str SC204 = ''204 No Content''"
| "status_code_str SC205 = ''205 Reset Content''"
| "status_code_str SC206 = ''206 Partial Content''"
| "status_code_str SC300 = ''300 Multiple Choices''"
| "status_code_str SC301 = ''301 Moved Permanently''"
| "status_code_str SC302 = ''302 Found''"
| "status_code_str SC303 = ''303 See Other''"
| "status_code_str SC304 = ''304 Not Modified''"
| "status_code_str SC305 = ''305 Use Proxy''"
| "status_code_str SC307 = ''307 Temporary Redirect''"
| "status_code_str SC400 = ''400 Bad Request''"
| "status_code_str SC401 = ''401 Unauthorized''"
| "status_code_str SC402 = ''402 Payment Required''"
| "status_code_str SC403 = ''403 Forbidden''"
| "status_code_str SC404 = ''404 Not Found''"
| "status_code_str SC405 = ''405 Method Not Allowed''"
| "status_code_str SC406 = ''406 Not Acceptable''"
| "status_code_str SC407 = ''407 Proxy Authentication Required''"
| "status_code_str SC408 = ''408 Request Time-out''"
| "status_code_str SC409 = ''409 Conflict''"
| "status_code_str SC410 = ''410 Gone''"
| "status_code_str SC411 = ''411 Length Required''"
| "status_code_str SC412 = ''412 Precondition Failed''"
| "status_code_str SC413 = ''413 Request Entity Too Large''"
| "status_code_str SC414 = ''414 Request-URI Too Large''"
| "status_code_str SC415 = ''415 Unsupported Media Type''"
| "status_code_str SC416 = ''416 Requested range not satisfiable''"
| "status_code_str SC417 = ''417 Expectation Failed''"
| "status_code_str SC500 = ''500 Internal Server Error''"
| "status_code_str SC501 = ''501 Not Implemented''"
| "status_code_str SC502 = ''502 Bad Gateway''"
| "status_code_str SC503 = ''503 Service Unavailable''"
| "status_code_str SC504 = ''504 Gateway Time-out''"
| "status_code_str SC505 = ''505 HTTP Version not supported''"

definition http_response_fields :: "http_response_field list" where
  "http_response_fields =
     [Accept_Ranges, Age, Allow, Cache_Control, Connection, Content_Encoding, Content_Language,
     Content_Length, Content_Location, Content_MD5, Content_Disposition, Content_Range, Content_Type, Date,
     ETag, Expires, Last_Modified, Link, Location, P3P, Pragma, Proxy_Authenticate, Refresh, Retry_After,
     Server, Set_Cookie, Strict_Transport_Security, Trailer, ransfer_Encoding, Vary, Via, Warning,
     WWW_Authenticate]"

section \<open>The response object\<close>

record http_response =
  content_buff :: "bytes option"
  field_vals :: "http_response_field \<Rightarrow> bytes option"
  code :: status_code
  version :: http_res_version

definition new_http_response :: "http_res_version \<Rightarrow> status_code \<Rightarrow> http_response" where
  "new_http_response v c = \<lparr>content_buff = None, field_vals = (\<lambda>_. None), code = c, version = v\<rparr>"

text \<open>\<open>alloc\<close> tells whether \<open>malloc\<close> succeeds.\<close>

definition setField :: "bool \<Rightarrow> http_response_field \<Rightarrow> bytes \<Rightarrow> http_response \<Rightarrow> http_response \<times> int" where
  "setField alloc field field_value r =
     (if field = Content_Length then (r, -1)
      else if \<not> alloc then (r\<lparr>field_vals := (field_vals r)(field := None)\<rparr>, -1)
      else (r\<lparr>field_vals := (field_vals r)(field := Some (cstr field_value))\<rparr>, 0))"

datatype buf_fault = BufferOverflow | BadCopy

text \<open>
  \<open>fillContent\<close> allocates \<open>content_len + 10\<close> bytes, computed in 32 bits, and copies \<open>content_len\<close>
  bytes; \<open>junk\<close> is what the rest of the block holds.
\<close>

definition fillContent :: "bytes \<Rightarrow> 32 word \<Rightarrow> bytes \<Rightarrow> http_response \<Rightarrow> buf_fault + http_response" where
  "fillContent junk content_len content r =
     (let n = unat content_len; block = unat (content_len + 10)
      in if length content < n \<or> block < n then Inl BadCopy
         else Inr (r\<lparr>field_vals := (field_vals r)(Content_Length := Some (dec_nat n)),
                     content_buff := Some (take block (take n content @ junk))\<rparr>))"

definition setVersion :: "http_res_version \<Rightarrow> http_response \<Rightarrow> http_response" where
  "setVersion v r = r\<lparr>version := v\<rparr>"

definition setStatusCode :: "status_code \<Rightarrow> http_response \<Rightarrow> http_response" where
  "setStatusCode c r = r\<lparr>code := c\<rparr>"

section \<open>Printing into a buffer\<close>

definition line_sep :: bytes where
  "line_sep = [char_of (13::nat), char_of (10::nat)]"

definition put_bytes :: "bytes \<Rightarrow> nat \<Rightarrow> bytes \<Rightarrow> buf_fault + bytes" where
  "put_bytes dest pos bs =
     (if pos + length bs \<le> length dest then Inr (take pos dest @ bs @ drop (pos + length bs) dest)
      else Inl BufferOverflow)"

text \<open>
  \<open>snprintf(dest + pos, max_len - pos, ...)\<close> for the formatted text: at most that many bytes are
  written, the last one a NUL; the result is the length of the whole text. A negative size is
  converted to a huge unsigned one.
\<close>

definition snprintf_at :: "bytes \<Rightarrow> int \<Rightarrow> nat \<Rightarrow> bytes \<Rightarrow> buf_fault + bytes \<times> nat" where
  "snprintf_at dest max_len pos txt =
     (let len = max_len - int pos
      in if len = 0 then Inr (dest, length txt)
         else (case put_bytes dest pos (if len < 0 then txt @ [NUL] else take (nat len - 1) txt @ [NUL]) of
                 Inl e \<Rightarrow> Inl e
               | Inr dest' \<Rightarrow> Inr (dest', length txt)))"

text \<open>The loop over the fields; \<open>None\<close> is the early return -1.\<close>

fun dump_fields :: "http_response \<Rightarrow> http_response_field list \<Rightarrow> bytes \<Rightarrow> int \<Rightarrow> nat \<Rightarrow> buf_fault + (bytes \<times> nat option)" where
  "dump_fields r [] dest max_dest_len head_print_len = Inr (dest, Some head_print_len)"
| "dump_fields r (f # fs) dest max_dest_len head_print_len =
     (case field_vals r f of
        None \<Rightarrow> dump_fields r fs dest max_dest_len head_print_len
      | Some v \<Rightarrow>
          (let to_write_count = length (http_response_field_names f) + length v + length line_sep
           in case snprintf_at dest max_dest_len head_print_len (http_response_field_names f @ v @ line_sep) of
                Inl e \<Rightarrow> Inl e
              | Inr (dest, write_count) \<Rightarrow>
                  if to_write_count \<noteq> write_count then Inr (dest, None)
                  else dump_fields r fs dest max_dest_len (head_print_len + write_count)))"

text \<open>
  The last part: \<open>len\<close> is set, then the body is copied. \<open>head_print_len + body_len\<close> is a 32-bit sum.
\<close>

definition dump_body :: "http_response \<Rightarrow> bytes \<Rightarrow> int \<Rightarrow> nat \<Rightarrow> buf_fault + (int \<times> bytes \<times> int)" where
  "dump_body r dest max_dest_len head_print_len =
     (case field_vals r Content_Length of
        None \<Rightarrow> Inr (0, dest, int head_print_len)
      | Some v \<Rightarrow>
          (let body_len = atoi v
           in if signed_take_bit 31 (int head_print_len + body_len) > max_dest_len
              then Inr (-1, dest, int head_print_len)
              else (case content_buff r of
                      None \<Rightarrow> Inl BadCopy
                    | Some content \<Rightarrow>
                        if body_len < 0 \<or> int (length content) < body_len then Inl BadCopy
                        else (case put_bytes dest head_print_len (take (nat body_len) content) of
                                Inl e \<Rightarrow> Inl e
                              | Inr dest \<Rightarrow>
                                  (let len = head_print_len + nat body_len
                                   in case put_bytes dest len [NUL] of
                                        Inl e \<Rightarrow> Inl e
                                      | Inr dest \<Rightarrow> Inr (0, dest, int len))))))"

text \<open>The result is the return value, the buffer and \<open>len\<close>, which early returns leave alone.\<close>

definition dump_to_buff :: "http_response \<Rightarrow> bytes \<Rightarrow> int \<Rightarrow> int \<Rightarrow> buf_fault + (int \<times> bytes \<times> int)" where
  "dump_to_buff r dest max_dest_len len =
     (let vs = http_res_version_str (version r); cs = status_code_str (code r);
          to_write_count = length vs + 1 + length cs + length line_sep
      in case snprintf_at dest max_dest_len 0 (vs @ '' '' @ cs @ line_sep) of
           Inl e \<Rightarrow> Inl e
         | Inr (dest, write_count) \<Rightarrow>
             if write_count \<noteq> to_write_count then Inr (-1, dest, len)
             else (case dump_fields r http_response_fields dest max_dest_len write_count of
                     Inl e \<Rightarrow> Inl e
                   | Inr (dest, None) \<Rightarrow> Inr (-1, dest, len)
                   | Inr (dest, Some head_print_len) \<Rightarrow>
                       (case snprintf_at dest max_dest_len head_print_len line_sep of
                          Inl e \<Rightarrow> Inl e
                        | Inr (dest, write_count) \<Rightarrow>
                            if write_count \<noteq> length line_sep then Inr (-1, dest, len)
                            else dump_body r dest max_dest_len (head_print_len + write_count))))"

section \<open>What is printed\<close>

definition field_line :: "http_response \<Rightarrow> http_response_field \<Rightarrow> bytes" where
  "field_line r f = (case field_vals r f of None \<Rightarrow> [] | Some v \<Rightarrow> http_response_field_names f @ v @ line_sep)"

definition status_line :: "http_response \<Rightarrow> bytes" where
  "status_line r = http_res_version_str (version r) @ '' '' @ status_code_str (code r) @ line_sep"

definition head_bytes :: "http_response \<Rightarrow> bytes" where
  "head_bytes r = status_line r @ concat (map (field_line r) http_response_fields) @ line_sep"

text \<open>A buffer of \<open>n\<close> bytes that starts with \<open>w\<close>.\<close>

definition holds_prefix :: "nat \<Rightarrow> bytes \<Rightarrow> bytes \<Rightarrow> bool" where
  "holds_prefix n w dest \<longleftrightarrow> length dest = n \<and> length w \<le> n \<and> take (length w) dest = w"

lemma put_bytes_prefix:
  assumes "holds_prefix n w dest" and "length w + length bs \<le> n"
  shows "\<exists>dest'. put_bytes dest (length w) bs = Inr dest' \<and> holds_prefix n (w @ bs) dest'"
  using assms by (simp add: put_bytes_def holds_prefix_def)

lemma holds_prefix_append: "holds_prefix n (w @ bs) dest \<Longrightarrow> holds_prefix n w dest"
  by (auto simp: holds_prefix_def dest: arg_cong [of _ _ "take (length w)"])

lemma snprintf_at_room:
  assumes "holds_prefix n w dest" and "int (length w + length txt) < max_len" and "max_len \<le> int n"
  shows "\<exists>dest'. snprintf_at dest max_len (length w) txt = Inr (dest', length txt) \<and> holds_prefix n (w @ txt) dest'"
proof -
  have "length txt \<le> nat (max_len - int (length w)) - 1" "max_len - int (length w) > 0" using assms by auto
  moreover from put_bytes_prefix [OF assms(1), of "txt @ [NUL]"] assms obtain dest' where
    "put_bytes dest (length w) (txt @ [NUL]) = Inr dest'" "holds_prefix n ((w @ txt) @ [NUL]) dest'" by auto
  ultimately show ?thesis using holds_prefix_append by (auto simp: snprintf_at_def Let_def)
qed

lemma dump_fields_room:
  assumes "holds_prefix n w dest" and "int (length w + length (concat (map (field_line r) fs))) < max_len"
    and "max_len \<le> int n"
  shows "\<exists>dest'. dump_fields r fs dest max_len (length w) =
      Inr (dest', Some (length (w @ concat (map (field_line r) fs)))) \<and>
    holds_prefix n (w @ concat (map (field_line r) fs)) dest'"
  using assms
proof (induction fs arbitrary: w dest)
  case (Cons f fs)
  show ?case
  proof (cases "field_vals r f")
    case None
    then show ?thesis using Cons by (simp add: field_line_def)
  next
    case (Some v)
    let ?t = "http_response_field_names f @ v @ line_sep"
    have t: "field_line r f = ?t" using Some by (simp add: field_line_def)
    from snprintf_at_room [OF Cons.prems(1), of ?t max_len] Cons.prems(2,3) t obtain dest1 where
      d: "snprintf_at dest max_len (length w) ?t = Inr (dest1, length ?t)" "holds_prefix n (w @ ?t) dest1" by auto
    from Cons.IH [OF d(2)] Cons.prems(2,3) t obtain dest2 where
      "dump_fields r fs dest1 max_len (length (w @ ?t)) =
        Inr (dest2, Some (length ((w @ ?t) @ concat (map (field_line r) fs))))"
      "holds_prefix n ((w @ ?t) @ concat (map (field_line r) fs)) dest2" by auto
    then show ?thesis using Some d(1) t by (simp add: Let_def add.assoc)
  qed
qed simp

lemma dump_head_room:
  assumes "int (length (head_bytes r)) < max_len" and "max_len \<le> int (length dest)"
  shows "\<exists>dest'. dump_to_buff r dest max_len len = dump_body r dest' max_len (length (head_bytes r)) \<and>
    holds_prefix (length dest) (head_bytes r) dest'"
proof -
  let ?s = "status_line r" and ?f = "concat (map (field_line r) http_response_fields)"
  have "holds_prefix (length dest) [] dest" by (simp add: holds_prefix_def)
  from snprintf_at_room [OF this, of ?s max_len] assms obtain d1 where
    d1: "snprintf_at dest max_len 0 ?s = Inr (d1, length ?s)" "holds_prefix (length dest) ?s d1"
    by (auto simp: head_bytes_def)
  from dump_fields_room [OF d1(2), of r http_response_fields max_len] assms obtain d2 where
    d2: "dump_fields r http_response_fields d1 max_len (length ?s) = Inr (d2, Some (length (?s @ ?f)))"
      "holds_prefix (length dest) (?s @ ?f) d2" by (auto simp: head_bytes_def)
  from snprintf_at_room [OF d2(2), of line_sep max_len] assms obtain d3 where
    d3: "snprintf_at d2 max_len (length (?s @ ?f)) line_sep = Inr (d3, length line_sep)"
      "holds_prefix (length dest) ((?s @ ?f) @ line_sep) d3" by (auto simp: head_bytes_def)
  have w: "length ?s = length (http_res_version_str (version r)) + 1 + length (status_code_str (code r)) + length line_sep"
    by (simp add: status_line_def)
  have "dump_to_buff r dest max_len len = dump_body r d3 max_len (length (head_bytes r))"
    unfolding dump_to_buff_def Let_def
    using d1(1) d2(1) d3(1) w by (simp add: status_line_def head_bytes_def add.assoc)
  then show ?thesis using d3(2) by (auto simp: head_bytes_def)
qed

lemma strtol_dec_nat_word: "atoi (dec_nat n) = int n" if "int n < 2 ^ 31"
  using atoi_dec_append [of "[]" n] that by (simp add: nul_free_def dec_def)

lemma fillContent_Inr:
  assumes "fillContent junk n content r = Inr r'"
  shows "field_vals r' Content_Length = Some (dec_nat (unat n))"
    and "\<exists>c. content_buff r' = Some c \<and> unat n \<le> length c \<and> take (unat n) c = take (unat n) content"
  using assms by (auto simp: fillContent_def Let_def split: if_splits)

lemma dump_body_filled:
  assumes "fillContent junk n content r = Inr r'" and "int h + int (unat n) \<le> max_len" and "max_len < 2 ^ 31"
  shows "dump_body r' dest max_len h =
    (case put_bytes dest h (take (unat n) content) of
       Inl e \<Rightarrow> Inl e
     | Inr dest \<Rightarrow> (case put_bytes dest (h + unat n) [NUL] of
         Inl e \<Rightarrow> Inl e | Inr dest \<Rightarrow> Inr (0, dest, int (h + unat n))))"
proof -
  have n: "int (unat n) < 2 ^ 31" using assms(2,3) by linarith
  have s: "signed_take_bit 31 (int h + int (unat n)) = int h + int (unat n)"
    by (rule signed_take_bit_31) (use assms(2,3) in linarith)+
  from fillContent_Inr(2) [OF assms(1)] obtain c where
    c0: "content_buff r' = Some c" "unat n \<le> length c" "take (unat n) c = take (unat n) content" by blast
  from c0(2) have "\<not> int (length c) < int (unat n)" by linarith
  note c = c0 this
  show ?thesis
    using fillContent_Inr(1) [OF assms(1)] c strtol_dec_nat_word [OF n] s assms(2)
    by (simp add: dump_body_def Let_def split: sum.split)
qed

lemma dump_room:
  assumes "fillContent junk n content r = Inr r'" and "int (length (head_bytes r') + unat n) < max_len"
    and "max_len \<le> int (length dest)" and "max_len < 2 ^ 31"
  shows "\<exists>dest'. dump_to_buff r' dest max_len len = Inr (0, dest', int (length (head_bytes r') + unat n)) \<and>
    length dest' = length dest \<and>
    take (length (head_bytes r') + unat n) dest' = head_bytes r' @ take (unat n) content \<and>
    field_line r' Content_Length = ''Content-Length: '' @ dec (int (unat n)) @ line_sep"
proof -
  let ?h = "head_bytes r'" and ?c = "take (unat n) content"
  have lc: "length ?c = unat n" using assms(1) by (auto simp: fillContent_def Let_def split: if_splits)
  have room: "length ?h + unat n < length dest" "int (length ?h) + int (unat n) \<le> max_len" using assms(2,3) by linarith+
  from dump_head_room [of r' max_len dest len] assms obtain d1 where
    d1: "dump_to_buff r' dest max_len len = dump_body r' d1 max_len (length ?h)" "holds_prefix (length dest) ?h d1" by auto
  from put_bytes_prefix [OF d1(2), of ?c] lc room obtain d2 where
    d2: "put_bytes d1 (length ?h) ?c = Inr d2" "holds_prefix (length dest) (?h @ ?c) d2" by auto
  from put_bytes_prefix [OF d2(2), of "[NUL]"] lc room obtain d3 where
    d3: "put_bytes d2 (length ?h + unat n) [NUL] = Inr d3" "holds_prefix (length dest) ((?h @ ?c) @ [NUL]) d3" by auto
  have "dump_to_buff r' dest max_len len = Inr (0, d3, int (length ?h + unat n))"
    using d1(1) d2(1) d3(1) dump_body_filled [OF assms(1) room(2) assms(4), of d1] by simp
  moreover have "field_line r' Content_Length = ''Content-Length: '' @ dec (int (unat n)) @ line_sep"
    using fillContent_Inr(1) [OF assms(1)] by (simp add: field_line_def dec_def)
  ultimately show ?thesis using holds_prefix_append [OF d3(2)] lc by (auto simp: holds_prefix_def)
qed

section \<open>Properties\<close>

text \<open>
  C34. With room for the message and its terminating NUL, \<open>dump_to_buff\<close> writes the status line, a
  line for every field that is set, in the order of the enumeration, an empty line and the content,
  returns 0, and \<open>len\<close> is the length of the message; the Content-Length line shows the number of
  content bytes.
\<close>

theorem dump_to_buff_prints_response:
  assumes "fillContent junk n content r = Inr r'" and "int (length (head_bytes r') + unat n) < max_len"
    and "max_len \<le> int (length dest)" and "max_len < 2 ^ 31"
  shows "\<exists>dest'. dump_to_buff r' dest max_len len = Inr (0, dest', int (length (head_bytes r') + unat n)) \<and>
    length dest' = length dest \<and>
    take (length (head_bytes r') + unat n) dest' = head_bytes r' @ take (unat n) content \<and>
    field_line r' Content_Length = ''Content-Length: '' @ dec (int (unat n)) @ line_sep"
  using assms by (rule dump_room)

lemma two: "dec_nat 2 = ''2''"
proof -
  have "uchar (digit_char 2) = uchar CHR ''2''" by (simp only: uchar_digit_char) (simp add: uchar_def)
  then show ?thesis by (subst dec_nat.simps) (simp add: uchar_eq_iff)
qed

theorem dump_to_buff_prints_response_witness:
  "\<exists>r' dest'. fillContent [] 2 ''hi'' (new_http_response HTTP11 SC200) = Inr r' \<and>
    dump_to_buff r' (replicate 100 NUL) 100 0 = Inr (0, dest', 40) \<and> take 2 (drop 38 dest') = ''hi''"
proof -
  define r' where "r' = (new_http_response HTTP11 SC200)
    \<lparr>field_vals := (\<lambda>_. None)(Content_Length := Some ''2''), content_buff := Some ''hi''\<rparr>"
  have f: "fillContent [] 2 ''hi'' (new_http_response HTTP11 SC200) = Inr r'"
    by (simp add: fillContent_def new_http_response_def r'_def two)
  have h: "length (head_bytes r') = 38"
    by (simp add: head_bytes_def status_line_def field_line_def http_response_fields_def r'_def
        new_http_response_def line_sep_def)
  from dump_to_buff_prints_response [OF f, of 100 "replicate 100 NUL" 0] obtain dest' where
    d: "dump_to_buff r' (replicate 100 NUL) 100 0 = Inr (0, dest', 40)" "take 40 dest' = head_bytes r' @ ''hi''"
    by (auto simp: h)
  have "take 2 (drop 38 dest') = drop 38 (take 40 dest')" by (simp add: drop_take)
  then show ?thesis using f d h by auto
qed

text \<open>
  C35. A message that fills the buffer exactly passes the length check of \<open>dump_to_buff\<close>, and the
  terminating NUL is then written one byte past the end of the buffer.
\<close>

theorem dump_to_buff_off_by_one:
  assumes "fillContent junk n content r = Inr r'" and "n \<noteq> 0"
    and "length (head_bytes r') + unat n = length dest" and "length dest < 2 ^ 31"
  shows "dump_to_buff r' dest (int (length dest)) len = Inl BufferOverflow"
proof -
  let ?h = "head_bytes r'" and ?c = "take (unat n) content"
  have lc: "length ?c = unat n" using assms(1) by (auto simp: fillContent_def Let_def split: if_splits)
  have n: "0 < unat n" using assms(2) by (simp add: unat_gt_0)
  from dump_head_room [of r' "int (length dest)" dest len] assms(3) n obtain d1 where
    d1: "dump_to_buff r' dest (int (length dest)) len = dump_body r' d1 (int (length dest)) (length ?h)"
      "holds_prefix (length dest) ?h d1" by auto
  from put_bytes_prefix [OF d1(2), of ?c] lc assms(3) obtain d2 where
    d2: "put_bytes d1 (length ?h) ?c = Inr d2" "holds_prefix (length dest) (?h @ ?c) d2" by auto
  then have "put_bytes d2 (length ?h + unat n) [NUL] = Inl BufferOverflow"
    using assms(3) by (simp add: put_bytes_def holds_prefix_def)
  moreover have "int (length ?h) + int (unat n) \<le> int (length dest)" using assms(3) by linarith
  moreover have "int (length dest) < 2 ^ 31" using assms(4) by simp
  ultimately show ?thesis
    using d1(1) d2(1) dump_body_filled [OF assms(1), of "length ?h" "int (length dest)" d1] by simp
qed

theorem dump_to_buff_off_by_one_witness:
  "\<exists>r'. fillContent [] 2 ''hi'' (new_http_response HTTP11 SC200) = Inr r' \<and>
    dump_to_buff r' (replicate 40 NUL) 40 0 = Inl BufferOverflow"
proof -
  define r' where "r' = (new_http_response HTTP11 SC200)
    \<lparr>field_vals := (\<lambda>_. None)(Content_Length := Some ''2''), content_buff := Some ''hi''\<rparr>"
  have f: "fillContent [] 2 ''hi'' (new_http_response HTTP11 SC200) = Inr r'"
    by (simp add: fillContent_def new_http_response_def r'_def two)
  have "length (head_bytes r') = 38"
    by (simp add: head_bytes_def status_line_def field_line_def http_response_fields_def r'_def
        new_http_response_def line_sep_def)
  with f dump_to_buff_off_by_one [OF f, of "replicate 40 NUL" 0] show ?thesis by auto
qed

end
