(* ===== verification/HttpServer.thy ===== *)
theory HttpServer
  imports HttpResponse "HOL-Library.Monad_Syntax"
begin

text \<open>
  The request path of \<open>src/http_server/http_server.cpp\<close>: reading a request from a socket, parsing its
  header, answering it through the handler of \<open>HttpHandler.cpp\<close> and keeping the table of
  connections, with \<open>worker.hpp\<close> and \<open>socket_handle.hpp\<close>. The kernel is a list of read results and a
  list of write results; memory errors and failed assertions are error values.
\<close>

section \<open>Connections\<close>

record socket_handle =
  hfd :: int
  href :: int
  hflag :: int
  hread_buf :: bytes

text \<open>
  Handles live at addresses; \<open>m_fd_set\<close> maps a descriptor to the address of its handle. \<open>open_fds\<close>
  and \<open>epoll_set\<close> are the kernel's view: descriptors that are open, and those watched by epoll.
\<close>

record http_server =
  handles :: "nat \<rightharpoonup> socket_handle"
  next_handle :: nat
  m_fd_set :: "int \<rightharpoonup> nat"
  now_connections :: int
  open_fds :: "int set"
  epoll_set :: "int set"

text \<open>
  What \<open>poll\<close>, \<open>read\<close> and \<open>write\<close> give. A read has no input in time, an error, or bytes (none at the
  end of the stream); a write takes some bytes (-1 is an error) or is not possible in time.
\<close>

datatype read_event = Chunk bytes | ReadError | NoInput

datatype write_event = Wrote int | NotWritable

text \<open>The kernel side of one request: input, write results and the bytes that went out.\<close>

record io =
  reads :: "read_event list"
  writes :: "write_event list"
  wire :: bytes

text \<open>
  Memory errors, failed assertions and signed overflow. \<open>LogAfterDelete\<close> is the read of a deleted
  worker by the last log line of \<open>recv_request\<close>; it carries what was done before it.
\<close>

datatype server_fault =
  NoHandle | FreedHandle | NullWrite | NullResponse | BadSize | BlockOverrun | SumOverflow |
  BadBuffer buf_fault | ReadBeforeBuffer | LogAfterDelete http_server io

text \<open>\<open>EPOLL_CTL_ADD\<close> of a descriptor that is not open fails, and the result is not looked at.\<close>

definition add_input_fd :: "int \<Rightarrow> http_server \<Rightarrow> http_server" where
  "add_input_fd fd s = (if fd \<in> open_fds s then s\<lparr>epoll_set := insert fd (epoll_set s)\<rparr> else s)"

definition del_input_fd :: "int \<Rightarrow> http_server \<Rightarrow> http_server" where
  "del_input_fd fd s = s\<lparr>epoll_set := epoll_set s - {fd}\<rparr>"

text \<open>\<open>std::map::insert\<close> keeps an entry that is already there; the result is -1 then.\<close>

definition insert_handle :: "int \<Rightarrow> nat \<Rightarrow> http_server \<Rightarrow> http_server \<times> int" where
  "insert_handle fd hdle s =
     (case m_fd_set s fd of
        None \<Rightarrow> (s\<lparr>m_fd_set := (m_fd_set s)(fd \<mapsto> hdle)\<rparr>, 0)
      | Some _ \<Rightarrow> (s, -1))"

definition create_handle :: "int \<Rightarrow> int \<Rightarrow> http_server \<Rightarrow> http_server" where
  "create_handle fd flag s =
     (let h = next_handle s;
          s = s\<lparr>handles := (handles s)(h \<mapsto> \<lparr>hfd = fd, href = 0, hflag = flag, hread_buf = []\<rparr>),
                next_handle := Suc h\<rparr>
      in fst (insert_handle fd h s))"

definition get_handle :: "int \<Rightarrow> http_server \<Rightarrow> server_fault + http_server \<times> nat option" where
  "get_handle fd s =
     (case m_fd_set s fd of
        None \<Rightarrow> Inr (s, None)
      | Some h \<Rightarrow>
          (case handles s h of
             None \<Rightarrow> Inl FreedHandle
           | Some hdl \<Rightarrow> Inr (s\<lparr>handles := (handles s)(h \<mapsto> hdl\<lparr>href := href hdl + 1\<rparr>)\<rparr>, Some h)))"

text \<open>
  In the error branch the handle is released a second time, by the call inside the log line.
\<close>

definition release_handle :: "nat \<Rightarrow> bool \<Rightarrow> http_server \<Rightarrow> server_fault + http_server" where
  "release_handle h close_handle s =
     (case handles s h of
        None \<Rightarrow> Inl FreedHandle
      | Some hdl \<Rightarrow>
          if close_handle then
            (if href hdl - 1 = 0 then
               (let fd = hfd hdl; s = del_input_fd fd s
                in Inr (s\<lparr>open_fds := open_fds s - {fd}, handles := (handles s)(h := None),
                          m_fd_set := (m_fd_set s)(fd := None),
                          now_connections := now_connections s - 1\<rparr>))
             else Inr (s\<lparr>handles := (handles s)(h \<mapsto> hdl\<lparr>href := href hdl - 1 - 1\<rparr>)\<rparr>))
          else Inr (s\<lparr>handles := (handles s)(h \<mapsto> hdl\<lparr>href := href hdl - 1\<rparr>)\<rparr>))"

definition MAX_FD_NUM :: int where
  "MAX_FD_NUM = 1024"

text \<open>One round of the accept loop of \<open>svc\<close> for a descriptor that \<open>accept\<close> has just opened.\<close>

definition accept_fd :: "int \<Rightarrow> http_server \<Rightarrow> http_server" where
  "accept_fd new_fd s =
     (if now_connections s \<ge> MAX_FD_NUM \<or> new_fd \<ge> 1024 then s\<lparr>open_fds := open_fds s - {new_fd}\<rparr>
      else add_input_fd new_fd (create_handle new_fd 1 (s\<lparr>now_connections := now_connections s + 1\<rparr>)))"

section \<open>Reading\<close>

text \<open>
  A read takes at most the number of bytes asked for; the rest stays in the kernel. The test of the
  result of \<open>poll\<close> compares the function itself, so only the returned events count.
\<close>

fun read_data :: "nat \<Rightarrow> read_event list \<Rightarrow> bytes option \<times> read_event list" where
  "read_data n [] = (None, [])"
| "read_data n (NoInput # env) = (None, env)"
| "read_data n (ReadError # env) = (None, env)"
| "read_data n (Chunk d # env) =
     (if length d \<le> n then (Some d, env) else (Some (take n d), Chunk (drop n d) # env))"

fun event_bytes :: "read_event \<Rightarrow> bytes" where
  "event_bytes (Chunk d) = d"
| "event_bytes _ = []"

definition stream :: "read_event list \<Rightarrow> bytes" where
  "stream env = concat (map event_bytes env)"

definition pending_reads :: "read_event list \<Rightarrow> nat" where
  "pending_reads env = length (stream env) + length env"

lemma read_data_pending:
  "read_data n env = (Some d, env') \<Longrightarrow> d \<noteq> [] \<Longrightarrow> pending_reads env' < pending_reads env"
  by (cases "(n, env)" rule: read_data.cases) (auto simp: pending_reads_def stream_def split: if_splits)

definition READ_BUF_SIZE :: nat where
  "READ_BUF_SIZE = 512"

abbreviation header_end :: bytes where
  "header_end \<equiv> line_sep @ line_sep"

text \<open>\<open>_buffer += buf\<close> appends a C string: what follows a NUL in the bytes read is lost.\<close>

function read_http_header_timeout :: "bytes \<Rightarrow> read_event list \<Rightarrow> bytes option \<times> bytes \<times> read_event list" where
  "read_http_header_timeout buffer env =
     (case find_sub buffer header_end of
        Some pos \<Rightarrow> (Some (take pos buffer), drop (pos + 4) buffer, env)
      | None \<Rightarrow>
          (case read_data READ_BUF_SIZE env of
             (None, env') \<Rightarrow> (None, buffer, env')
           | (Some d, env') \<Rightarrow>
               if d = [] then (None, buffer, env') else read_http_header_timeout (buffer @ cstr d) env'))"
  by pat_completeness auto
termination
  by (relation "measure (\<lambda>(_, env). pending_reads env)") (auto intro: read_data_pending [OF sym])

declare read_http_header_timeout.simps [simp del]

text \<open>The loop of \<open>readn_timeout\<close>: the bytes collected, what is left and the remaining input.\<close>

function readn_loop :: "nat \<Rightarrow> bytes \<Rightarrow> read_event list \<Rightarrow> bytes \<times> nat \<times> read_event list" where
  "readn_loop left content env =
     (if left = 0 then (content, 0, env)
      else (case read_data (if left > READ_BUF_SIZE then READ_BUF_SIZE else left) env of
              (None, env') \<Rightarrow> (content, left, env')
            | (Some d, env') \<Rightarrow>
                if d = [] then (content, left, env') else readn_loop (left - length d) (content @ d) env'))"
  by pat_completeness auto
termination
  by (relation "measure (\<lambda>(_, _, env). pending_reads env)") (auto intro: read_data_pending [OF sym] split: if_splits)

declare readn_loop.simps [simp del]

text \<open>For \<open>buf_len \<ge> 0\<close>. The result: return value, content, the read buffer, the remaining input.\<close>

definition readn_timeout :: "int \<Rightarrow> bytes \<Rightarrow> read_event list \<Rightarrow> int \<times> bytes \<times> bytes \<times> read_event list" where
  "readn_timeout buf_len buffer env =
     (let left = buf_len - int (length buffer)
      in if left \<le> 0 then (buf_len, take (nat buf_len) buffer, drop (nat buf_len) buffer, env)
         else (let (content, left', env') = readn_loop (nat left) buffer env
               in (buf_len - int left', content, [], env')))"

section \<open>Writing\<close>

text \<open>
  The kernel takes at most the bytes offered; -1 is an error. The loop
  tests for 0 only, so after an error the position moves back by one byte.
\<close>

fun writen_loop :: "bytes \<Rightarrow> int \<Rightarrow> int \<Rightarrow> write_event list \<Rightarrow> bytes \<Rightarrow> server_fault + int \<times> write_event list \<times> bytes" where
  "writen_loop buf buf_len left out sent =
     (if left \<le> 0 then Inr (buf_len, out, sent)
      else (case out of
              [] \<Rightarrow> Inr (-1, [], sent)
            | NotWritable # out' \<Rightarrow> Inr (-1, out', sent)
            | Wrote m # out' \<Rightarrow>
                (let n = min m left; pos = buf_len - left
                 in if pos < 0 then Inl ReadBeforeBuffer
                    else if n = 0 then Inr (buf_len - left, out', sent)
                    else writen_loop buf buf_len (left - n) out' (sent @ take (nat n) (drop (nat pos) buf)))))"

declare writen_loop.simps [simp del]

definition writen_timeout :: "bytes \<Rightarrow> int \<Rightarrow> write_event list \<Rightarrow> bytes \<Rightarrow> server_fault + int \<times> write_event list \<times> bytes" where
  "writen_timeout buf buf_len out sent = writen_loop buf buf_len buf_len out sent"

definition send_result :: "bytes \<Rightarrow> int \<Rightarrow> write_event list \<Rightarrow> bytes \<Rightarrow> server_fault + int \<times> write_event list \<times> bytes" where
  "send_result buf buf_len out sent =
     (case writen_timeout buf buf_len out sent of
        Inl e \<Rightarrow> Inl e
      | Inr (n, out', sent') \<Rightarrow> Inr (if n \<noteq> buf_len then -3 else 0, out', sent'))"

section \<open>Parsing a request\<close>

text \<open>
  The conversions of \<open>sscanf\<close> that are used: a blank in the format skips white space, other characters
  match themselves, \<open>%s\<close> reads a word, \<open>%u\<close> and \<open>%d\<close> a number with an optional sign.
\<close>

definition skip_blanks :: "bytes \<Rightarrow> bytes" where
  "skip_blanks s = dropWhile c_isspace s"

definition scan_lit :: "bytes \<Rightarrow> bytes \<Rightarrow> bytes option" where
  "scan_lit lit s = (if take (length lit) s = lit then Some (drop (length lit) s) else None)"

definition scan_word :: "bytes \<Rightarrow> (bytes \<times> bytes) option" where
  "scan_word s =
     (let t = skip_blanks s; w = takeWhile (\<lambda>c. \<not> c_isspace c) t
      in if w = [] then None else Some (w, drop (length w) t))"

definition scan_int :: "bytes \<Rightarrow> (int \<times> bytes) option" where
  "scan_int s =
     (let t = skip_blanks s;
          u = (if t \<noteq> [] \<and> (hd t = CHR ''-'' \<or> hd t = CHR ''+'') then tl t else t);
          ds = takeWhile c_isdigit u
      in if ds = [] then None else Some (atoi t, drop (length ds) u))"

definition scan_path :: "bytes \<Rightarrow> bytes \<Rightarrow> (bytes \<times> bytes) option" where
  "scan_path method buf = do {
     s \<leftarrow> scan_lit method buf;
     s \<leftarrow> scan_lit ''/'' (skip_blanks s);
     scan_word s
   }"

definition scan_version :: "bytes \<Rightarrow> (int \<times> int) option" where
  "scan_version s = do {
     s \<leftarrow> scan_lit ''HTTP/'' (skip_blanks s);
     (major, s) \<leftarrow> scan_int s;
     s \<leftarrow> scan_lit ''.'' s;
     (minor, s) \<leftarrow> scan_int s;
     Some (major, minor)
   }"

text \<open>
  \<open>sscanf(buf, "METHOD /%s HTTP/%u.%u", uri, ...)\<close>: the word that is stored at \<open>uri\<close>, if the scan
  comes that far, and whether the result is 3. The word is stored also when the version fails.
\<close>

definition scan_request :: "bytes \<Rightarrow> bytes \<Rightarrow> bytes option \<times> bool" where
  "scan_request method buf =
     (case scan_path method buf of
        None \<Rightarrow> (None, False)
      | Some (uri, s) \<Rightarrow> (Some uri, scan_version s \<noteq> None))"

definition scan_content_length :: "bytes \<Rightarrow> int option" where
  "scan_content_length buf = do {
     s \<leftarrow> scan_lit ''Content-Length:'' buf;
     (n, _) \<leftarrow> scan_int s;
     Some n
   }"

record worker =
  wheader :: bytes
  content_buf :: "bytes option"
  content_len :: int
  wresponse :: "http_response option"
  request_url :: bytes
  keep_alive :: bool

definition new_worker :: worker where
  "new_worker = \<lparr>wheader = [], content_buf = None, content_len = 0, wresponse = None, request_url = [], keep_alive = False\<rparr>"

text \<open>The branches of \<open>GetInfo\<close> on the method: the first of the four names that occurs anywhere.\<close>

definition request_uri :: "bytes \<Rightarrow> bytes option \<times> bool" where
  "request_uri header =
     (case find_sub header ''POST'' of
        Some i \<Rightarrow> scan_request ''POST'' (cstr (drop i header))
      | None \<Rightarrow>
         (case find_sub header ''GET'' of
            Some i \<Rightarrow> scan_request ''GET'' (cstr (drop i header))
          | None \<Rightarrow>
             (case find_sub header ''PUT'' of
                Some i \<Rightarrow> scan_request ''PUT'' (cstr (drop i header))
              | None \<Rightarrow>
                 (case find_sub header ''DELETE'' of
                    Some i \<Rightarrow> scan_request ''DELETE'' (cstr (drop i header))
                  | None \<Rightarrow> (None, False)))))"

text \<open>
  Without a Content-Length line the text scanned starts one byte before the string
  (\<open>c_str() + npos\<close>); \<open>before\<close> is that byte.
\<close>

definition header_content_len :: "char \<Rightarrow> bytes \<Rightarrow> int" where
  "header_content_len before header =
     (let buf = (case find_sub header ''Content-Length:'' of Some i \<Rightarrow> drop i header | None \<Rightarrow> before # header)
      in case scan_content_length (cstr buf) of Some n \<Rightarrow> n | None \<Rightarrow> 0)"

definition header_keep_alive :: "bytes \<Rightarrow> bool \<Rightarrow> bool" where
  "header_keep_alive header old =
     (if find_sub header ''Connection: close'' \<noteq> None then False
      else if find_sub header ''Connection: keep-alive'' \<noteq> None then True else old)"

text \<open>
  \<open>malloc\<close> is a parameter, from the size to the block with its contents, or \<open>None\<close> for NULL. A store
  at the start of a block faults behind its end. The path is copied with its NUL, and read back.
\<close>

definition write_block :: "bytes \<Rightarrow> bytes \<Rightarrow> server_fault + bytes" where
  "write_block new b = (if length new \<le> length b then Inr (new @ drop (length new) b) else Inl BlockOverrun)"

definition GetInfo :: "(nat \<Rightarrow> bytes option) \<Rightarrow> char \<Rightarrow> worker \<Rightarrow> server_fault + worker \<times> int" where
  "GetInfo malloc before w =
     (case request_uri (wheader w) of
        (None, _) \<Rightarrow> Inr (w, -1)
      | (Some word, ok) \<Rightarrow>
          (case malloc (length (wheader w)) of
             None \<Rightarrow> Inl NullWrite
           | Some b \<Rightarrow>
               (case write_block (word @ [NUL]) b of
                  Inl e \<Rightarrow> Inl e
                | Inr uri \<Rightarrow>
                    if \<not> ok then Inr (w, -1)
                    else Inr (w\<lparr>request_url := cstr uri, content_len := header_content_len before (wheader w),
                                keep_alive := header_keep_alive (wheader w) (keep_alive w)\<rparr>, 0))))"

section \<open>Answering a request\<close>

text \<open>
  \<open>generate_response\<close>: \<open>backend\<close> stands for the location search and the JSON printer, from the text
  of the request to the JSON text, or \<open>None\<close> when the search fails.
\<close>

definition generate_response :: "(bytes \<Rightarrow> bytes option) \<Rightarrow> bytes \<Rightarrow> worker \<Rightarrow> server_fault + worker \<times> int" where
  "generate_response backend junk w =
     (let r = (case wresponse w of None \<Rightarrow> new_http_response HTTP10 SC200 | Some r \<Rightarrow> r);
          w = w\<lparr>wresponse := Some r\<rparr>
      in case content_buf w of
           None \<Rightarrow> Inl NullWrite
         | Some content \<Rightarrow>
             (case backend (cstr content) of
                None \<Rightarrow> Inr (w, -1)
              | Some json_result \<Rightarrow>
                  (case fillContent junk (of_nat (length json_result)) json_result r of
                     Inl e \<Rightarrow> Inl (BadBuffer e)
                   | Inr r' \<Rightarrow> Inr (w\<lparr>wresponse := Some r'\<rparr>, 0))))"

text \<open>The buffer of \<open>retrieve_worker\<close> on the stack, with what it held before.\<close>

definition RESPONSE_BUF :: nat where
  "RESPONSE_BUF = 40960"

definition retrieve_worker :: "bytes \<Rightarrow> int \<Rightarrow> worker \<Rightarrow> nat \<Rightarrow> http_server \<Rightarrow> io \<Rightarrow> server_fault + http_server \<times> io" where
  "retrieve_worker stack len_init w h s k =
     (case wresponse w of
        None \<Rightarrow> Inl NullResponse
      | Some r \<Rightarrow>
          (case dump_to_buff r stack (int RESPONSE_BUF) len_init of
             Inl e \<Rightarrow> Inl (BadBuffer e)
           | Inr (_, response_buf, len) \<Rightarrow>
               (case send_result response_buf len (writes k) (wire k) of
                  Inl e \<Rightarrow> Inl e
                | Inr (_, out, wire') \<Rightarrow>
                    (case release_handle h (\<not> keep_alive w) s of
                       Inl e \<Rightarrow> Inl e
                     | Inr s' \<Rightarrow> Inr (s', k\<lparr>writes := out, wire := wire'\<rparr>)))))"

definition handle_worker :: "(bytes \<Rightarrow> bytes option) \<Rightarrow> bytes \<Rightarrow> bytes \<Rightarrow> int \<Rightarrow> worker \<Rightarrow> nat \<Rightarrow> http_server \<Rightarrow> io \<Rightarrow> server_fault + http_server \<times> io" where
  "handle_worker backend junk stack len_init w h s k =
     (case generate_response backend junk w of
        Inl e \<Rightarrow> Inl e
      | Inr (w', _) \<Rightarrow> retrieve_worker stack len_init w' h s k)"

text \<open>
  \<open>genContentBuf\<close> allocates \<open>content_len + 10\<close> bytes, and nothing for a length of 0. The sum is an
  \<open>int\<close>, which overflows for the ten largest lengths; a negative one becomes a huge \<open>size_t\<close>.
\<close>

definition genContentBuf :: "(nat \<Rightarrow> bytes option) \<Rightarrow> worker \<Rightarrow> server_fault + worker" where
  "genContentBuf malloc w =
     (if content_len w = 0 then Inr w
      else if content_len w + 10 \<ge> 2 ^ 31 then Inl SumOverflow
      else Inr (w\<lparr>content_buf := malloc (nat ((content_len w + 10) mod 2 ^ 64))\<rparr>))"

text \<open>
  The accesses of \<open>recv_request\<close> to the block: \<open>memset\<close> of \<open>content_len\<close> bytes, where a negative length
  is a huge \<open>size_t\<close>; the bytes of the body that \<open>readn_timeout\<close> copies; the terminating NUL.
\<close>

definition clear_content :: "worker \<Rightarrow> server_fault + worker" where
  "clear_content w =
     (if content_len w = 0 then Inr w
      else case content_buf w of
             None \<Rightarrow> Inl NullWrite
           | Some b \<Rightarrow>
               if content_len w < 0 then Inl BadSize
               else (case write_block (replicate (nat (content_len w)) NUL) b of
                       Inl e \<Rightarrow> Inl e | Inr b' \<Rightarrow> Inr (w\<lparr>content_buf := Some b'\<rparr>)))"

definition copy_content :: "bytes \<Rightarrow> worker \<Rightarrow> server_fault + worker" where
  "copy_content content w =
     (if content = [] then Inr w
      else case content_buf w of
             None \<Rightarrow> Inl NullWrite
           | Some b \<Rightarrow>
               (case write_block content b of
                  Inl e \<Rightarrow> Inl e | Inr b' \<Rightarrow> Inr (w\<lparr>content_buf := Some b'\<rparr>)))"

definition end_content :: "worker \<Rightarrow> server_fault + worker" where
  "end_content w =
     (case content_buf w of
        None \<Rightarrow> Inl NullWrite
      | Some b \<Rightarrow>
          if nat (content_len w) < length b then Inr (w\<lparr>content_buf := Some (b[nat (content_len w) := NUL])\<rparr>)
          else Inl BlockOverrun)"

definition set_read_buf :: "nat \<Rightarrow> bytes \<Rightarrow> http_server \<Rightarrow> http_server" where
  "set_read_buf h b s =
     s\<lparr>handles := (handles s)(h := map_option (\<lambda>hdl. hdl\<lparr>hread_buf := b\<rparr>) (handles s h))\<rparr>"

text \<open>
  \<open>recv_request\<close> from the header to the reply. A request that is answered ends in
  \<open>LogAfterDelete\<close>: the log line at the end reads the worker, which \<open>retrieve_worker\<close> has deleted.
\<close>

definition serve_content ::
    "(bytes \<Rightarrow> bytes option) \<Rightarrow> (nat \<Rightarrow> bytes option) \<Rightarrow> bytes \<Rightarrow> bytes \<Rightarrow> int \<Rightarrow> int \<Rightarrow> worker \<Rightarrow> nat \<Rightarrow> http_server \<Rightarrow> io \<Rightarrow>
     server_fault + int \<times> http_server \<times> io" where
  "serve_content backend malloc junk stack len_init fd w h s k =
     (case genContentBuf malloc w of
        Inl e \<Rightarrow> Inl e
      | Inr w1 \<Rightarrow>
     (case clear_content w1 of
        Inl e \<Rightarrow> Inl e
      | Inr w2 \<Rightarrow>
     (let (n, content, buffer', env') = readn_timeout (content_len w) (hread_buf (the (handles s h))) (reads k);
          s2 = set_read_buf h buffer' s; k2 = k\<lparr>reads := env'\<rparr>
      in case copy_content content w2 of
           Inl e \<Rightarrow> Inl e
         | Inr w3 \<Rightarrow>
             if n = content_len w then
               (case end_content w3 of
                  Inl e \<Rightarrow> Inl e
                | Inr w4 \<Rightarrow>
                    (case handle_worker backend junk stack len_init w4 h s2 k2 of
                       Inl e \<Rightarrow> Inl e
                     | Inr (s3, k3) \<Rightarrow> Inl (LogAfterDelete (add_input_fd fd s3) k3)))
             else
               (case release_handle h True s2 of
                  Inl e \<Rightarrow> Inl e
                | Inr s3 \<Rightarrow> Inr (-1, s3, k2)))))"

definition recv_request ::
    "(bytes \<Rightarrow> bytes option) \<Rightarrow> (nat \<Rightarrow> bytes option) \<Rightarrow> char \<Rightarrow> bytes \<Rightarrow> bytes \<Rightarrow> int \<Rightarrow> int \<Rightarrow> http_server \<Rightarrow> io \<Rightarrow>
     server_fault + int \<times> http_server \<times> io" where
  "recv_request backend malloc before junk stack len_init fd s k =
     (case get_handle fd s of
        Inl e \<Rightarrow> Inl e
      | Inr (_, None) \<Rightarrow> Inl NoHandle
      | Inr (s1, Some h) \<Rightarrow>
          (let (header, buffer, env) = read_http_header_timeout (hread_buf (the (handles s1 h))) (reads k);
               s2 = set_read_buf h buffer s1; k2 = k\<lparr>reads := env\<rparr>
           in case header of
                None \<Rightarrow>
                  (case release_handle h True s2 of
                     Inl e \<Rightarrow> Inl e
                   | Inr s3 \<Rightarrow> Inr (-1, s3, k2))
              | Some http \<Rightarrow>
                  (case GetInfo malloc before (new_worker\<lparr>wheader := http\<rparr>) of
                     Inl e \<Rightarrow> Inl e
                   | Inr (w, ret) \<Rightarrow>
                       if ret < 0 then
                         (case release_handle h True s2 of
                            Inl e \<Rightarrow> Inl e
                          | Inr s3 \<Rightarrow> Inr (-1, s3, k2))
                       else serve_content backend malloc junk stack len_init fd w h s2 k2)))"

section \<open>Reading does not depend on how the stream is cut\<close>

text \<open>The input is a sequence of chunks that are not empty.\<close>

definition chunks :: "read_event list \<Rightarrow> bool" where
  "chunks env \<longleftrightarrow> (\<forall>e \<in> set env. \<exists>d. e = Chunk d \<and> d \<noteq> [])"

lemma chunks_Cons [simp]: "chunks (e # env) \<longleftrightarrow> (\<exists>d. e = Chunk d \<and> d \<noteq> []) \<and> chunks env"
  by (auto simp: chunks_def)

lemma chunks_Nil [simp]: "chunks []"
  by (simp add: chunks_def)

lemma stream_simps [simp]: "stream [] = []" "stream (e # env) = event_bytes e @ stream env"
  by (simp_all add: stream_def)

lemma chunks_stream_Nil: "chunks env \<Longrightarrow> stream env = [] \<Longrightarrow> env = []"
  by (cases env) auto

lemma read_data_chunks:
  assumes "chunks env" and "stream env \<noteq> []" and "0 < n"
  shows "\<exists>d env'. read_data n env = (Some d, env') \<and> d \<noteq> [] \<and> length d \<le> n \<and> stream env = d @ stream env' \<and> chunks env'"
  using assms by (cases "(n, env)" rule: read_data.cases) auto

lemma occurs_at_iff_take: "occurs_at s pat i \<longleftrightarrow> i \<le> length s \<and> take (length pat) (drop i s) = pat"
  by (auto simp: occurs_at_def prefix_def) (metis append_take_drop_id)

lemma find_sub_append: "find_sub s pat = Some i \<Longrightarrow> find_sub (s @ t) pat = Some i"
proof -
  assume a: "find_sub s pat = Some i"
  then have "i + length pat \<le> length s" by (rule find_sub_bound)
  then have "occurs_at (s @ t) pat j \<longleftrightarrow> occurs_at s pat j" if "j \<le> i" for j
    using that by (simp add: occurs_at_iff_take)
  then show ?thesis using a by (simp add: find_sub_Some)
qed

lemma read_header_stream:
  assumes "chunks env" and "nul_free (stream env)" and "find_sub (buffer @ stream env) header_end = Some pos"
  shows "\<exists>buffer' env'. read_http_header_timeout buffer env =
      (Some (take pos (buffer @ stream env)), buffer', env') \<and> chunks env' \<and> nul_free (stream env') \<and>
    buffer' @ stream env' = drop (pos + 4) (buffer @ stream env)"
  using assms
proof (induction buffer env rule: read_http_header_timeout.induct)
  case (1 buffer env)
  show ?case
  proof (cases "find_sub buffer header_end")
    case (Some p)
    then have "pos = p" "p + 4 \<le> length buffer"
      using 1(4) find_sub_append [OF Some, of "stream env"] find_sub_bound [OF Some] by (auto simp: line_sep_def)
    then show ?thesis using 1 Some by (subst read_http_header_timeout.simps) simp
  next
    case None
    then have "stream env \<noteq> []" using 1(4) by auto
    from read_data_chunks [OF 1(2) this, of READ_BUF_SIZE] obtain d env' where
      d: "read_data READ_BUF_SIZE env = (Some d, env')" "d \<noteq> []" "stream env = d @ stream env'" "chunks env'"
      by (auto simp: READ_BUF_SIZE_def)
    have nf: "nul_free d" "nul_free (stream env')" using 1(3) d(3) by (auto simp: nul_free_def)
    have "find_sub ((buffer @ cstr d) @ stream env') header_end = Some pos"
      using 1(4) d(3) by (simp add: cstr_nul_free [OF nf(1)])
    from 1(1) [OF None d(1) [symmetric] refl d(2) d(4) nf(2) this] show ?thesis
      using None d by (subst read_http_header_timeout.simps) (simp add: cstr_nul_free [OF nf(1)])
  qed
qed

lemma readn_loop_stream:
  assumes "chunks env" and "left \<le> length (stream env)"
  shows "\<exists>env'. readn_loop left content env = (content @ take left (stream env), 0, env') \<and>
    chunks env' \<and> stream env' = drop left (stream env)"
  using assms
proof (induction left content env rule: readn_loop.induct)
  case (1 left content env)
  let ?n = "if left > READ_BUF_SIZE then READ_BUF_SIZE else left"
  show ?case
  proof (cases "left = 0")
    case True
    then show ?thesis using 1 by (subst readn_loop.simps) simp
  next
    case False
    then have "stream env \<noteq> []" "0 < ?n" using 1(3) by (auto simp: READ_BUF_SIZE_def)
    from read_data_chunks [OF 1(2) this] obtain d env' where
      d: "read_data ?n env = (Some d, env')" "d \<noteq> []" "length d \<le> ?n" "stream env = d @ stream env'" "chunks env'" by auto
    have "left - length d \<le> length (stream env')" "length d \<le> left" using 1(3) d(3,4) by (auto split: if_splits)
    with 1(1) [OF False d(1) [symmetric] refl d(2) d(5)] obtain env'' where
      "readn_loop (left - length d) (content @ d) env' = ((content @ d) @ take (left - length d) (stream env'), 0, env'')"
      "chunks env''" "stream env'' = drop (left - length d) (stream env')" by blast
    with False d \<open>length d \<le> left\<close> show ?thesis
      by (subst readn_loop.simps) (simp del: if_split)
  qed
qed

lemma readn_timeout_stream:
  assumes "chunks env" and "0 \<le> n" and "n \<le> int (length (buffer @ stream env))"
  shows "\<exists>buffer' env'. readn_timeout n buffer env = (n, take (nat n) (buffer @ stream env), buffer', env') \<and>
    chunks env' \<and> buffer' @ stream env' = drop (nat n) (buffer @ stream env)"
proof (cases "n \<le> int (length buffer)")
  case True
  then show ?thesis using assms by (simp add: readn_timeout_def)
next
  case False
  then have l: "nat (n - int (length buffer)) = nat n - length buffer" "length buffer \<le> nat n" using assms(2) by auto
  have "nat n - length buffer \<le> length (stream env)" using assms(3) by auto
  from readn_loop_stream [OF assms(1) this, of buffer] obtain env' where
    "readn_loop (nat n - length buffer) buffer env = (buffer @ take (nat n - length buffer) (stream env), 0, env')"
    "chunks env'" "stream env' = drop (nat n - length buffer) (stream env)" by blast
  then show ?thesis using False l by (simp add: readn_timeout_def Let_def)
qed

section \<open>Writing\<close>

definition progress :: "write_event list \<Rightarrow> bool" where
  "progress out \<longleftrightarrow> (\<forall>e \<in> set out. \<exists>n \<ge> 1. e = Wrote n)"

lemma writen_loop_all:
  assumes "progress out" and "left \<le> int (length out)" and "0 \<le> left" and "left \<le> len" and "len \<le> int (length buf)"
  shows "\<exists>out'. writen_loop buf len left out pre = Inr (len, out', pre @ take (nat left) (drop (nat (len - left)) buf))"
  using assms
proof (induction out arbitrary: left pre)
  case Nil
  then show ?case by (subst writen_loop.simps) simp
next
  case (Cons e out)
  show ?case
  proof (cases "left = 0")
    case True
    then show ?thesis by (subst writen_loop.simps) simp
  next
    case False
    obtain m where m: "e = Wrote m" "1 \<le> m" using Cons.prems(1) by (auto simp: progress_def)
    let ?n = "min m left"
    have n: "1 \<le> ?n" "?n \<le> left" using m False Cons.prems(3) by auto
    have p: "progress out" using Cons.prems(1) by (simp add: progress_def)
    have "nat left = nat ?n + nat (left - ?n)" "nat (len - (left - ?n)) = nat (len - left) + nat ?n"
      using n Cons.prems(4) by auto
    then have t: "take (nat left) (drop (nat (len - left)) buf) = take (nat ?n) (drop (nat (len - left)) buf) @
        take (nat (left - ?n)) (drop (nat (len - (left - ?n))) buf)"
      by (simp add: take_add add.commute)
    have "left - ?n \<le> int (length out)" "0 \<le> left - ?n" "left - ?n \<le> len" using n Cons.prems by auto
    from Cons.IH [OF p this Cons.prems(5)] obtain out' where
      "writen_loop buf len (left - ?n) out (pre @ take (nat ?n) (drop (nat (len - left)) buf)) =
        Inr (len, out', (pre @ take (nat ?n) (drop (nat (len - left)) buf)) @
          take (nat (left - ?n)) (drop (nat (len - (left - ?n))) buf))" by blast
    then show ?thesis using n m(1) False Cons.prems(3,4) t
      by (subst writen_loop.simps) (simp add: Let_def)
  qed
qed

lemma send_result_all:
  assumes "progress out" and "len \<le> int (length out)" and "0 \<le> len" and "len \<le> int (length buf)"
  shows "\<exists>out'. send_result buf len out pre = Inr (0, out', pre @ take (nat len) buf)"
  using writen_loop_all [OF assms(1,2,3) order_refl assms(4), of pre]
  by (auto simp: send_result_def writen_timeout_def)

section \<open>One request from the first byte to the last\<close>

text \<open>A connection that no thread is working on, with its handle.\<close>

definition idle_conn :: "http_server \<Rightarrow> int \<Rightarrow> nat \<Rightarrow> socket_handle \<Rightarrow> bool" where
  "idle_conn s fd h hdl \<longleftrightarrow> m_fd_set s fd = Some h \<and> handles s h = Some hdl \<and> hfd hdl = fd \<and> href hdl = 0"

text \<open>The input of the connection starts with a header, its end mark, a body and more.\<close>

definition request_on :: "bytes \<Rightarrow> read_event list \<Rightarrow> bytes \<Rightarrow> bytes \<Rightarrow> bytes \<Rightarrow> bool" where
  "request_on buffer env http body rest \<longleftrightarrow> chunks env \<and> nul_free (buffer @ stream env) \<and>
     buffer @ stream env = http @ header_end @ body @ rest \<and>
     find_sub (buffer @ stream env) header_end = Some (length http)"

lemma length_header_end: "length header_end = 4"
  by (simp add: line_sep_def)

lemma request_on_read:
  assumes "request_on buffer env http body rest"
  shows "\<exists>buffer1 env1 buffer2 env2. read_http_header_timeout buffer env = (Some http, buffer1, env1) \<and>
    readn_timeout (int (length body)) buffer1 env1 = (int (length body), body, buffer2, env2) \<and>
    chunks env2 \<and> buffer2 @ stream env2 = rest"
proof -
  note r = assms [unfolded request_on_def]
  have nf: "nul_free (stream env)" using r by (simp add: nul_free_def)
  from read_header_stream [of env buffer "length http"] r nf obtain buffer1 env1 where
    h: "read_http_header_timeout buffer env = (Some (take (length http) (buffer @ stream env)), buffer1, env1)"
      "chunks env1" "buffer1 @ stream env1 = drop (length http + 4) (buffer @ stream env)" by blast
  have e: "buffer1 @ stream env1 = body @ rest" "take (length http) (buffer @ stream env) = http"
    using h(3) r length_header_end by (simp_all add: line_sep_def)
  from readn_timeout_stream [OF h(2), of "int (length body)" buffer1] e(1) show ?thesis
    using h(1) e(2) by auto
qed

lemma get_handle_idle:
  "idle_conn s fd h hdl \<Longrightarrow>
   get_handle fd s = Inr (s\<lparr>handles := (handles s)(h \<mapsto> hdl\<lparr>href := 1\<rparr>)\<rparr>, Some h)"
  by (simp add: get_handle_def idle_conn_def)

lemma unat_of_nat_32: "n < 2 ^ 32 \<Longrightarrow> unat (of_nat n :: 32 word) = n"
  by (simp add: unat_of_nat)

lemma fillContent_json:
  assumes "length json < 2 ^ 31"
  shows "\<exists>r'. fillContent junk (of_nat (length json)) json r = Inr r'"
proof -
  have "unat (of_nat (length json) :: 32 word) = length json" using assms by (intro unat_of_nat_32) simp
  moreover have "(of_nat (length json) + 10 :: 32 word) = of_nat (length json + 10)" by simp
  then have "unat (of_nat (length json) + 10 :: 32 word) = length json + 10"
    using assms by (simp only:) (rule unat_of_nat_32, simp)
  ultimately show ?thesis by (simp add: fillContent_def)
qed


lemma length_scan_word: "scan_word s = Some (w, t) \<Longrightarrow> length w + length t \<le> length s"
  using length_dropWhile_le [of c_isspace s] length_takeWhile_le [of "\<lambda>c. \<not> c_isspace c" "skip_blanks s"]
  by (auto simp: scan_word_def Let_def skip_blanks_def split: if_splits)

lemma length_scan_lit: "scan_lit lit s = Some t \<Longrightarrow> length s = length lit + length t"
  by (auto simp: scan_lit_def split: if_splits dest: arg_cong [of _ _ length])

lemma length_skip_blanks: "length (skip_blanks s) \<le> length s"
  by (simp add: skip_blanks_def length_dropWhile_le)

text \<open>
  The path is a word after the method name and a slash, inside the header, so that it is shorter
  than the header by two bytes.
\<close>

definition path_in :: "bytes \<Rightarrow> bytes \<Rightarrow> bytes \<Rightarrow> bool" where
  "path_in header method uri \<longleftrightarrow>
     (\<exists>pre bl bl' post. header = pre @ method @ bl @ ''/'' @ bl' @ uri @ post \<and>
        (\<forall>c \<in> set (bl @ bl'). c_isspace c)) \<and> uri \<noteq> [] \<and> (\<forall>c \<in> set uri. \<not> c_isspace c)"

lemma skip_blanks_split: "\<exists>bl. s = bl @ skip_blanks s \<and> (\<forall>c \<in> set bl. c_isspace c)"
  unfolding skip_blanks_def
  by (intro exI [of _ "takeWhile c_isspace s"]) (auto dest: set_takeWhileD)

lemma scan_lit_split: "scan_lit lit s = Some t \<Longrightarrow> s = lit @ t"
  by (auto simp: scan_lit_def split: if_splits) (metis append_take_drop_id)

lemma scan_word_split:
  assumes "scan_word s = Some (w, t)"
  shows "\<exists>bl. s = bl @ w @ t \<and> (\<forall>c \<in> set bl. c_isspace c) \<and> w \<noteq> [] \<and> (\<forall>c \<in> set w. \<not> c_isspace c)"
proof -
  let ?k = "skip_blanks s"
  have w: "w = takeWhile (\<lambda>c. \<not> c_isspace c) ?k" "t = drop (length w) ?k" "w \<noteq> []"
    using assms by (auto simp: scan_word_def Let_def split: if_splits)
  have "?k = w @ t" using w by (metis takeWhile_eq_take append_take_drop_id length_takeWhile_le take_all_iff
        dropWhile_eq_drop takeWhile_dropWhile_id)
  moreover have "\<forall>c \<in> set w. \<not> c_isspace c" unfolding w(1) by (auto dest: set_takeWhileD)
  ultimately show ?thesis using skip_blanks_split [of s] w(3) by metis
qed

lemma scan_request_path:
  assumes "scan_request m (cstr (drop i header)) = (Some uri, ok)"
  shows "path_in header m uri \<and> nul_free uri"
proof -
  let ?s = "cstr (drop i header)"
  obtain t u v where tu: "scan_lit m ?s = Some t" "scan_lit ''/'' (skip_blanks t) = Some u" "scan_word u = Some (uri, v)"
    using assms by (auto simp: scan_request_def scan_path_def split: option.splits bind_splits)
  obtain bl where bl: "t = bl @ skip_blanks t" "\<forall>c \<in> set bl. c_isspace c" using skip_blanks_split by blast
  obtain bl' where bl': "u = bl' @ uri @ v" "\<forall>c \<in> set bl'. c_isspace c" "uri \<noteq> []" "\<forall>c \<in> set uri. \<not> c_isspace c"
    using scan_word_split [OF tu(3)] by blast
  have s: "?s = m @ bl @ ''/'' @ bl' @ uri @ v"
    using scan_lit_split [OF tu(1)] scan_lit_split [OF tu(2)] bl(1) bl'(1) by metis
  obtain z where "drop i header = ?s @ z"
    unfolding cstr_def by (metis takeWhile_dropWhile_id)
  then have "header = take i header @ ?s @ z" by (metis append_take_drop_id)
  then have "header = take i header @ m @ bl @ ''/'' @ bl' @ uri @ (v @ z)" using s by simp
  then have "path_in header m uri" unfolding path_in_def using bl(2) bl'(2-4) by (metis UnE set_append)
  moreover have "nul_free ?s" by (simp add: nul_free_cstr)
  then have "nul_free uri" unfolding s by (simp add: nul_free_def)
  ultimately show ?thesis ..
qed

lemma request_uri_path:
  assumes "request_uri s = (Some uri, ok)"
  shows "nul_free uri \<and> (\<exists>m \<in> {''POST'', ''GET'', ''PUT'', ''DELETE''}. path_in s m uri)"
  using assms unfolding request_uri_def
  by (auto split: option.splits dest!: scan_request_path)

lemma path_in_length: "path_in header m uri \<Longrightarrow> m \<noteq> [] \<Longrightarrow> length uri + 2 \<le> length header"
  by (cases m) (auto simp: path_in_def)

text \<open>\<open>malloc\<close> gives a block of the size asked for, or NULL.\<close>

definition malloc_ok :: "(nat \<Rightarrow> bytes option) \<Rightarrow> bool" where
  "malloc_ok malloc \<longleftrightarrow> (\<forall>n b. malloc n = Some b \<longrightarrow> length b = n)"

lemma GetInfo_total:
  assumes "malloc_ok malloc" and "malloc (length (wheader w)) \<noteq> None"
  shows "case request_uri (wheader w) of
      (Some uri, True) \<Rightarrow> GetInfo malloc before w = Inr (w\<lparr>request_url := uri,
        content_len := header_content_len before (wheader w),
        keep_alive := header_keep_alive (wheader w) (keep_alive w)\<rparr>, 0)
    | _ \<Rightarrow> GetInfo malloc before w = Inr (w, -1)"
proof (cases "request_uri (wheader w)")
  case (Pair word ok)
  show ?thesis
  proof (cases word)
    case None
    then show ?thesis using Pair by (simp add: GetInfo_def)
  next
    case (Some uri)
    with Pair have r: "request_uri (wheader w) = (Some uri, ok)" by simp
    obtain b where b: "malloc (length (wheader w)) = Some b" "length b = length (wheader w)"
      using assms by (auto simp: malloc_ok_def)
    have "length uri + 2 \<le> length b" and nf: "nul_free uri"
      using request_uri_path [OF r] b(2) by (auto dest: path_in_length)
    then have wb: "write_block (uri @ [NUL]) b = Inr (uri @ [NUL] @ drop (Suc (length uri)) b)"
      by (simp add: write_block_def)
    have "cstr (uri @ [NUL] @ drop (Suc (length uri)) b) = uri"
      using cstr_word_NUL [OF nf] by simp
    then show ?thesis using r b(1) wb by (simp add: GetInfo_def split: bool.splits)
  qed
qed

lemma set_read_buf_self:
  "set_read_buf h b (s\<lparr>handles := (handles s)(h \<mapsto> hdl)\<rparr>) = s\<lparr>handles := (handles s)(h \<mapsto> hdl\<lparr>hread_buf := b\<rparr>)\<rparr>"
  by (simp add: set_read_buf_def)

lemma GetInfo_fresh:
  assumes "GetInfo malloc before (new_worker\<lparr>wheader := http\<rparr>) = Inr (w, 0)"
  shows "wresponse w = None \<and> content_buf w = None"
proof -
  obtain word ok where "request_uri http = (word, ok)" by (cases "request_uri http")
  then show ?thesis using assms
    by (cases word) (auto simp: GetInfo_def new_worker_def split: option.splits sum.splits if_splits)
qed





section \<open>A concrete server and request\<close>

text \<open>One open connection, number 5, and a request of 39 bytes; the witnesses below run on it.\<close>

lemma line_sep_chars: "line_sep = [CHR 0x0D, CHR 0x0A]"
  by (simp add: line_sep_def char_of_def bit_Suc_0_iff)

definition one_conn :: http_server where
  "one_conn = \<lparr>handles = [0 \<mapsto> \<lparr>hfd = 5, href = 0, hflag = 1, hread_buf = []\<rparr>], next_handle = 1, m_fd_set = [5 \<mapsto> 0],
     now_connections = 1, open_fds = {5}, epoll_set = {}\<rparr>"

lemma idle_one_conn: "idle_conn one_conn 5 0 \<lparr>hfd = 5, href = 0, hflag = 1, hread_buf = []\<rparr>"
  by (simp add: idle_conn_def one_conn_def)

definition post_header :: bytes where
  "post_header = ''POST /x HTTP/1.0'' @ line_sep @ ''Content-Length: 2''"

lemmas scan_simps = scan_lit_def scan_word_def scan_int_def skip_blanks_def c_isspace_def c_isdigit_def uchar_def cstr_def

lemma atoi_2: "atoi ''2'' = 2"
  by (simp add: atoi_def strtol_def cstr_def c_isspace_def uchar_def c_isdigit_def digits_val_def digit_val_def)

text \<open>A \<open>malloc\<close> that never fails.\<close>

definition some_malloc :: "nat \<Rightarrow> bytes option" where
  "some_malloc n = Some (replicate n CHR ''?'')"

lemma some_malloc [simp]: "malloc_ok some_malloc" "some_malloc n \<noteq> None"
  by (auto simp: malloc_ok_def some_malloc_def)

lemma post_header_info:
  "\<exists>w. GetInfo some_malloc NUL (new_worker\<lparr>wheader := post_header\<rparr>) = Inr (w, 0) \<and> content_len w = 2 \<and> \<not> keep_alive w"
proof -
  have "request_uri post_header = (Some ''x'', True)"
    by (simp add: post_header_def request_uri_def line_sep_chars scan_request_def scan_path_def scan_version_def scan_simps)
  moreover have "header_content_len NUL post_header = 2"
    using atoi_2 by (simp add: post_header_def header_content_len_def line_sep_chars scan_content_length_def scan_simps)
  moreover have "\<not> header_keep_alive post_header False"
    by (simp add: post_header_def header_keep_alive_def line_sep_chars)
  ultimately show ?thesis
    using GetInfo_total [of some_malloc "new_worker\<lparr>wheader := post_header\<rparr>" NUL] by (simp add: new_worker_def)
qed


lemma get_header_info:
  "\<exists>w. GetInfo some_malloc NUL (new_worker\<lparr>wheader := ''GET /x HTTP/1.0''\<rparr>) = Inr (w, 0) \<and> content_len w = 0"
proof -
  have "request_uri ''GET /x HTTP/1.0'' = (Some ''x'', True)"
    by (simp add: request_uri_def scan_request_def scan_path_def scan_version_def scan_simps)
  moreover have "header_content_len NUL ''GET /x HTTP/1.0'' = 0"
    by (simp add: header_content_len_def scan_content_length_def scan_simps)
  ultimately show ?thesis
    using GetInfo_total [of some_malloc "new_worker\<lparr>wheader := ''GET /x HTTP/1.0''\<rparr>" NUL] by simp
qed

lemma progress_ones: "progress (replicate n (Wrote 1))"
  by (auto simp: progress_def)

text \<open>The method is looked for in the whole header: a GET request for a path with POST in it is refused.\<close>

lemma get_of_post_refused:
  "GetInfo malloc before (new_worker\<lparr>wheader := ''GET /POST HTTP/1.0''\<rparr>) = Inr (new_worker\<lparr>wheader := ''GET /POST HTTP/1.0''\<rparr>, -1)"
proof -
  have "request_uri ''GET /POST HTTP/1.0'' = (None, False)"
    by (simp add: request_uri_def scan_request_def scan_path_def scan_simps)
  then show ?thesis by (simp add: GetInfo_def)
qed

text \<open>
  A body whose length is one of the ten largest \<open>int\<close>s makes the sum of \<open>genContentBuf\<close> overflow, and
  a body for which \<open>malloc\<close> has no room makes \<open>memset\<close> write through NULL.
\<close>

lemma huge_content_overflows: "2 ^ 31 - 10 \<le> content_len w \<Longrightarrow> genContentBuf malloc w = Inl SumOverflow"
  by (simp add: genContentBuf_def)

lemma unserved_content_crashes:
  assumes "0 < content_len w" and "content_len w < 2 ^ 31 - 10" and "malloc (nat (content_len w) + 10) = None"
  shows "serve_content backend malloc junk stack len_init fd w h s k = Inl NullWrite"
proof -
  have "nat ((content_len w + 10) mod 2 ^ 64) = nat (content_len w) + 10" using assms(1,2) by (simp add: nat_add_distrib)
  then show ?thesis using assms by (simp add: serve_content_def genContentBuf_def clear_content_def)
qed

text \<open>Bytes after a NUL that arrive together with the header are lost.\<close>

lemma header_read_loses_bytes:
  "read_http_header_timeout [] [Chunk (''h'' @ header_end @ ''a'' @ [NUL] @ ''b'')] = (Some ''h'', ''a'', [])"
  by (simp add: read_http_header_timeout.simps line_sep_chars READ_BUF_SIZE_def cstr_def)

section \<open>Properties\<close>



text \<open>
  C37. A request without content stops the server: when the header gives no content length (every GET
  request of a browser), \<open>genContentBuf\<close> allocates nothing and the terminating NUL is stored through
  a NULL pointer, before the handler is called.
\<close>

theorem request_without_content_crashes:
  assumes "idle_conn s fd h hdl" and "request_on (hread_buf hdl) (reads k) http [] rest"
    and "GetInfo malloc before (new_worker\<lparr>wheader := http\<rparr>) = Inr (w, 0)" and "content_len w = 0"
  shows "recv_request backend malloc before junk stack len_init fd s k = Inl NullWrite"
proof -
  from request_on_read [OF assms(2)] obtain b1 e1 b2 e2 where
    rd: "read_http_header_timeout (hread_buf hdl) (reads k) = (Some http, b1, e1)"
      "readn_timeout 0 b1 e1 = (0, [], b2, e2)" by auto
  have "serve_content backend malloc junk stack len_init fd w h
      (s\<lparr>handles := (handles s)(h \<mapsto> hdl\<lparr>href := 1, hread_buf := b1\<rparr>)\<rparr>) (k\<lparr>reads := e1\<rparr>) = Inl NullWrite"
    using GetInfo_fresh [OF assms(3)] assms(4) rd(2)
    by (simp add: serve_content_def genContentBuf_def clear_content_def copy_content_def end_content_def)
  then show ?thesis using get_handle_idle [OF assms(1)] rd(1) assms(3) set_read_buf_self [of h b1 s "hdl\<lparr>href := 1\<rparr>"]
    by (simp add: recv_request_def)
qed

theorem request_without_content_crashes_witness:
  "recv_request (\<lambda>_. None) some_malloc NUL [] [] 0 5 one_conn
     \<lparr>reads = [Chunk (''GET /x HTTP/1.0'' @ header_end)], writes = [], wire = []\<rparr> = Inl NullWrite"
proof -
  obtain w where w: "GetInfo some_malloc NUL (new_worker\<lparr>wheader := ''GET /x HTTP/1.0''\<rparr>) = Inr (w, 0)" "content_len w = 0"
    using get_header_info by blast
  have "request_on [] [Chunk (''GET /x HTTP/1.0'' @ header_end)] ''GET /x HTTP/1.0'' [] []"
    by (simp add: request_on_def line_sep_chars nul_free_def)
  then show ?thesis
    by (intro request_without_content_crashes [OF idle_one_conn _ w]) simp
qed

text \<open>
  C38. The copy of the request path never overruns the block of \<open>header.length()\<close> bytes that
  \<open>GetInfo\<close> allocates for it, whatever the header is and also when the scan fails after the path: with
  that much room \<open>GetInfo\<close> ends without a fault, and a path that is accepted is a word that
  follows one of the four method names and a slash in the header.
\<close>

theorem request_url_fits:
  assumes "malloc_ok malloc" and "malloc (length (wheader w)) \<noteq> None"
  shows "GetInfo malloc before w = Inr (w, -1) \<or>
    (\<exists>w'. GetInfo malloc before w = Inr (w', 0) \<and> length (request_url w') + 1 < length (wheader w) \<and>
      (\<exists>m \<in> {''POST'', ''GET'', ''PUT'', ''DELETE''}. path_in (wheader w) m (request_url w')))"
proof -
  note total = GetInfo_total [OF assms, of before]
  show ?thesis
  proof (cases "\<exists>uri. request_uri (wheader w) = (Some uri, True)")
    case True
    then obtain uri where r: "request_uri (wheader w) = (Some uri, True)" by blast
    then show ?thesis using total request_uri_path [OF r] by (auto dest: path_in_length)
  next
    case False
    then show ?thesis using total by (auto split: prod.splits option.splits bool.splits)
  qed
qed

theorem request_url_fits_witness:
  "\<exists>w'. GetInfo some_malloc NUL (new_worker\<lparr>wheader := post_header\<rparr>) = Inr (w', 0) \<and> length (request_url w') + 1 < length post_header"
proof -
  obtain w where w: "GetInfo some_malloc NUL (new_worker\<lparr>wheader := post_header\<rparr>) = Inr (w, 0)" using post_header_info by blast
  with request_url_fits [of some_malloc "new_worker\<lparr>wheader := post_header\<rparr>" NUL] show ?thesis by auto
qed

text \<open>
  A failed \<open>write\<close> is not noticed: after an error in the middle of a message the last byte that
  went out is sent again, and the return value still reports a complete message; an error on the
  first \<open>write\<close> makes the next one read before the start of the buffer.
\<close>

theorem writen_timeout_ignores_errors:
  assumes "1 \<le> n" and "n < len" and "len \<le> int (length buf)"
  shows "writen_timeout buf len [Wrote n, Wrote (-1), Wrote len] pre =
      Inr (len, [], pre @ take (nat n) buf @ drop (nat n - 1) (take (nat len) buf)) \<and>
    writen_timeout buf len [Wrote (-1), Wrote len] pre = Inl ReadBeforeBuffer"
proof -
  have e: "nat (len - (len - n + 1)) = nat n - 1" "nat (len - n + 1) = nat len - (nat n - 1)"
    "nat (n - 1) = nat n - 1" using assms by auto
  have "drop (nat n - 1) (take (nat len) buf) = take (nat (len - n + 1)) (drop (nat (len - (len - n + 1))) buf)"
    by (simp add: e drop_take)
  then show ?thesis using assms unfolding writen_timeout_def
    by (simp add: writen_loop.simps Let_def)
qed

theorem writen_timeout_ignores_errors_witness:
  "writen_timeout ''abcd'' 4 [Wrote 2, Wrote (-1), Wrote 4] [] = Inr (4, [], ''abbcd'')"
  using writen_timeout_ignores_errors [of 2 4 "''abcd''" "[]"] by simp

text \<open>
  A JSON text that does not fit into the reply buffer is dropped: the client is sent the head,
  which announces the whole length, and not a byte of the content.
\<close>

theorem large_response_loses_content:
  assumes "fillContent junk (of_nat (length json)) json r0 = Inr r" and "wresponse w = Some r"
    and "length (head_bytes r) < RESPONSE_BUF" and "RESPONSE_BUF < length (head_bytes r) + length json"
    and "length (head_bytes r) + length json < 2 ^ 31"
    and "length stack = RESPONSE_BUF" and "progress (writes k)" and "RESPONSE_BUF \<le> length (writes k)"
    and "release_handle h (\<not> keep_alive w) s = Inr s'"
  shows "\<exists>k'. retrieve_worker stack len_init w h s k = Inr (s', k') \<and> wire k' = wire k @ head_bytes r \<and>
    field_line r Content_Length = ''Content-Length: '' @ dec (int (length json)) @ line_sep"
proof -
  let ?h = "head_bytes r"
  have u: "unat (of_nat (length json) :: 32 word) = length json" using assms(5) by (intro unat_of_nat_32) simp
  note f = fillContent_Inr(1) [OF assms(1), unfolded u]
  from dump_head_room [of r "int RESPONSE_BUF" stack len_init] assms(3,6) obtain d where
    d: "dump_to_buff r stack (int RESPONSE_BUF) len_init = dump_body r d (int RESPONSE_BUF) (length ?h)"
      "holds_prefix (length stack) ?h d" by auto
  have "dump_body r d (int RESPONSE_BUF) (length ?h) = Inr (-1, d, int (length ?h))"
    using f assms(4,5) signed_take_bit_31 [of "int (length ?h) + int (length json)"]
    by (simp add: dump_body_def strtol_dec_nat_word)
  moreover have "progress (writes k)" "int (length ?h) \<le> int (length (writes k))" "0 \<le> int (length ?h)" "int (length ?h) \<le> int (length d)"
    using assms(3,6,7,8) d(2) by (auto simp: holds_prefix_def)
  from send_result_all [OF this, of "wire k"] d(2) obtain out' where
    "send_result d (int (length ?h)) (writes k) (wire k) = Inr (0, out', wire k @ ?h)" by (auto simp: holds_prefix_def)
  ultimately show ?thesis using assms(2,9) d(1) f by (simp add: retrieve_worker_def field_line_def dec_def)
qed

theorem large_response_loses_content_witness:
  "\<exists>r s' k'. fillContent [] 50000 (replicate 50000 CHR ''a'') (new_http_response HTTP10 SC200) = Inr r \<and>
    retrieve_worker (replicate RESPONSE_BUF NUL) 0 (new_worker\<lparr>wresponse := Some r, keep_alive := True\<rparr>) 0 one_conn
      \<lparr>reads = [], writes = replicate RESPONSE_BUF (Wrote 1), wire = []\<rparr> = Inr (s', k') \<and> wire k' = head_bytes r"
proof -
  let ?k = "\<lparr>reads = [], writes = replicate RESPONSE_BUF (Wrote 1), wire = []\<rparr>"
  let ?j = "replicate 50000 CHR ''a''"
  obtain r where r: "fillContent [] (of_nat (length ?j)) ?j (new_http_response HTTP10 SC200) = Inr r"
    using fillContent_json [of ?j] by auto
  have d: "length (dec_nat 50000) = 5" by (simp add: dec_nat.simps)
  have h: "length (head_bytes r) = 42" using r
    by (auto simp: fillContent_def Let_def head_bytes_def status_line_def field_line_def http_response_fields_def
        new_http_response_def line_sep_def d split: if_splits)
  let ?w = "new_worker\<lparr>wresponse := Some r, keep_alive := True\<rparr>"
  obtain s' where s': "release_handle 0 (\<not> keep_alive ?w) one_conn = Inr s'" by (simp add: release_handle_def one_conn_def)
  from large_response_loses_content [OF r, of ?w "replicate RESPONSE_BUF NUL" ?k 0 one_conn s' 0] s' h progress_ones [of RESPONSE_BUF]
  obtain k' where "retrieve_worker (replicate RESPONSE_BUF NUL) 0 ?w 0 one_conn ?k = Inr (s', k')" "wire k' = head_bytes r"
    by (auto simp: RESPONSE_BUF_def)
  then show ?thesis using r by auto
qed

end
