(* ===== verification/HttpConn.thy ===== *)
theory HttpConn
  imports HttpServer
begin

text \<open>
  The threads of the server: the loop \<open>svc\<close> of \<open>src/http_server/http_server.cpp\<close> run by any number of
  threads on one table of connections. A step is what one thread does between two mutex operations;
  a run is any interleaving. The invariant says that a connection is served by one thread at a time
  and that the connection counter is exact. It holds as long as the kernel does not hand out the
  number of a closed connection while the thread that closed it is still on its way to
  \<open>add_input_fd\<close>, and a run is given that breaks it otherwise.
\<close>

section \<open>Threads\<close>

text \<open>
  Where a thread is: waiting for an event, between \<open>del_input_fd\<close> and \<open>get_handle\<close>, working on a
  handle, or after \<open>handle_worker\<close> and before \<open>add_input_fd\<close>.
\<close>

datatype pc = Waiting | Picked int | Serving int nat | Rearming int

text \<open>
  \<open>ready\<close> is the part of \<open>_epoll_ready_event\<close> below \<open>_epoll_ready_event_num\<close>, without the events of
  the listening socket and of the pipe.
\<close>

record conn_sys =
  srv :: http_server
  ready :: "int list"
  pcs :: "nat \<Rightarrow> pc"

datatype conn_action =
  EpollWait "int list" | Accept int | Pick nat int | GetHandle nat | Fail nat | Reply nat bool | Rearm nat

inductive conn_step :: "conn_sys \<Rightarrow> conn_action \<Rightarrow> conn_sys \<Rightarrow> bool" where
  epoll_wait: "ready s = [] \<Longrightarrow> distinct evs \<Longrightarrow> set evs \<subseteq> epoll_set (srv s) \<Longrightarrow>
    conn_step s (EpollWait evs) (s\<lparr>ready := evs\<rparr>)"
| accept: "fd \<notin> open_fds (srv s) \<Longrightarrow>
    conn_step s (Accept fd) (s\<lparr>srv := accept_fd fd (srv s\<lparr>open_fds := insert fd (open_fds (srv s))\<rparr>)\<rparr>)"
| pick: "pcs s t = Waiting \<Longrightarrow> ready s = evs @ [fd] \<Longrightarrow>
    conn_step s (Pick t fd) (s\<lparr>srv := del_input_fd fd (srv s), ready := evs, pcs := (pcs s)(t := Picked fd)\<rparr>)"
| get: "pcs s t = Picked fd \<Longrightarrow> get_handle fd (srv s) = Inr (v, Some h) \<Longrightarrow>
    conn_step s (GetHandle t) (s\<lparr>srv := v, pcs := (pcs s)(t := Serving fd h)\<rparr>)"
| fail: "pcs s t = Serving fd h \<Longrightarrow> release_handle h True (srv s) = Inr v \<Longrightarrow>
    conn_step s (Fail t) (s\<lparr>srv := v, pcs := (pcs s)(t := Waiting)\<rparr>)"
| reply: "pcs s t = Serving fd h \<Longrightarrow> release_handle h (\<not> keep) (srv s) = Inr v \<Longrightarrow>
    conn_step s (Reply t keep) (s\<lparr>srv := v, pcs := (pcs s)(t := Rearming fd)\<rparr>)"
| rearm: "pcs s t = Rearming fd \<Longrightarrow>
    conn_step s (Rearm t) (s\<lparr>srv := add_input_fd fd (srv s), pcs := (pcs s)(t := Waiting)\<rparr>)"

definition init_sys :: conn_sys where
  "init_sys = \<lparr>srv = \<lparr>handles = Map.empty, next_handle = 0, m_fd_set = Map.empty, now_connections = 0,
     open_fds = {}, epoll_set = {}\<rparr>, ready = [], pcs = (\<lambda>_. Waiting)\<rparr>"

inductive conn_run :: "conn_sys \<Rightarrow> conn_action list \<Rightarrow> conn_sys \<Rightarrow> bool" where
  conn_nil: "conn_run s [] s"
| conn_snoc: "conn_run s as s' \<Longrightarrow> conn_step s' a s'' \<Longrightarrow> conn_run s (as @ [a]) s''"

section \<open>The invariant\<close>

definition busy :: "conn_sys \<Rightarrow> nat \<Rightarrow> int \<Rightarrow> bool" where
  "busy s t fd \<longleftrightarrow> pcs s t = Picked fd \<or> (\<exists>h. pcs s t = Serving fd h) \<or> pcs s t = Rearming fd"

definition serving :: "conn_sys \<Rightarrow> int \<Rightarrow> bool" where
  "serving s fd \<longleftrightarrow> (\<exists>t h. pcs s t = Serving fd h)"

text \<open>The table of connections.\<close>

definition table_ok :: "http_server \<Rightarrow> bool" where
  "table_ok v \<longleftrightarrow> finite (dom (m_fd_set v)) \<and> now_connections v = int (card (dom (m_fd_set v))) \<and>
     now_connections v \<le> MAX_FD_NUM \<and>
     dom (m_fd_set v) = open_fds v \<and> epoll_set v \<subseteq> dom (m_fd_set v) \<and>
     (\<forall>fd h. m_fd_set v fd = Some h \<longrightarrow> h < next_handle v \<and> (\<exists>hdl. handles v h = Some hdl \<and> hfd hdl = fd)) \<and>
     (\<forall>h hdl. handles v h = Some hdl \<longrightarrow> m_fd_set v (hfd hdl) = Some h)"

text \<open>The threads: one per descriptor, and the reference counts.\<close>

definition threads_ok :: "conn_sys \<Rightarrow> bool" where
  "threads_ok s \<longleftrightarrow> distinct (ready s) \<and> set (ready s) \<subseteq> epoll_set (srv s) \<and>
     (\<forall>t t' fd. busy s t fd \<longrightarrow> busy s t' fd \<longrightarrow> t = t') \<and>
     (\<forall>t fd. busy s t fd \<longrightarrow> fd \<notin> epoll_set (srv s)) \<and>
     (\<forall>t fd. pcs s t = Picked fd \<longrightarrow> fd \<in> dom (m_fd_set (srv s))) \<and>
     (\<forall>t fd h. pcs s t = Serving fd h \<longrightarrow> m_fd_set (srv s) fd = Some h) \<and>
     (\<forall>h hdl. handles (srv s) h = Some hdl \<longrightarrow> href hdl = (if serving s (hfd hdl) then 1 else 0))"

definition conn_ok :: "conn_sys \<Rightarrow> bool" where
  "conn_ok s \<longleftrightarrow> table_ok (srv s) \<and> threads_ok s"

lemma threads_okD:
  assumes "threads_ok s"
  shows "distinct (ready s)" and "set (ready s) \<subseteq> epoll_set (srv s)"
    and "busy s t fd \<Longrightarrow> busy s t' fd \<Longrightarrow> t = t'" and "busy s t fd \<Longrightarrow> fd \<notin> epoll_set (srv s)"
    and "pcs s t = Picked fd \<Longrightarrow> fd \<in> dom (m_fd_set (srv s))"
    and "pcs s t = Serving fd h \<Longrightarrow> m_fd_set (srv s) fd = Some h"
    and "handles (srv s) h = Some hdl \<Longrightarrow> href hdl = (if serving s (hfd hdl) then 1 else 0)"
  using assms unfolding threads_ok_def by blast+

lemma threads_okI:
  assumes "distinct (ready s)" and "set (ready s) \<subseteq> epoll_set (srv s)"
    and "\<And>t t' fd. busy s t fd \<Longrightarrow> busy s t' fd \<Longrightarrow> t = t'" and "\<And>t fd. busy s t fd \<Longrightarrow> fd \<notin> epoll_set (srv s)"
    and "\<And>t fd. pcs s t = Picked fd \<Longrightarrow> fd \<in> dom (m_fd_set (srv s))"
    and "\<And>t fd h. pcs s t = Serving fd h \<Longrightarrow> m_fd_set (srv s) fd = Some h"
    and "\<And>h hdl. handles (srv s) h = Some hdl \<Longrightarrow> href hdl = (if serving s (hfd hdl) then 1 else 0)"
  shows "threads_ok s"
  using assms unfolding threads_ok_def by blast

lemma init_ok: "conn_ok init_sys"
  by (simp add: conn_ok_def table_ok_def threads_ok_def init_sys_def busy_def MAX_FD_NUM_def)

lemma table_ok_fresh: "table_ok v \<Longrightarrow> handles v (next_handle v) = None"
  by (auto simp: table_ok_def) (metis not_Some_eq order_less_irrefl)

lemma accept_fd_cases:
  assumes "table_ok v" and "fd \<notin> open_fds v"
  obtains (refused) "accept_fd fd (v\<lparr>open_fds := insert fd (open_fds v)\<rparr>) = v"
  | (accepted) "now_connections v < MAX_FD_NUM" and "accept_fd fd (v\<lparr>open_fds := insert fd (open_fds v)\<rparr>) =
    v\<lparr>handles := (handles v)(next_handle v \<mapsto> \<lparr>hfd = fd, href = 0, hflag = 1, hread_buf = []\<rparr>), next_handle := Suc (next_handle v),
      m_fd_set := (m_fd_set v)(fd \<mapsto> next_handle v), now_connections := now_connections v + 1,
      open_fds := insert fd (open_fds v), epoll_set := insert fd (epoll_set v)\<rparr>"
proof (cases "now_connections v \<ge> MAX_FD_NUM \<or> fd \<ge> 1024")
  case True
  then show ?thesis using assms(2) by (intro refused) (auto simp: accept_fd_def)
next
  case False
  have "m_fd_set v fd = None" using assms by (auto simp: table_ok_def)
  then show ?thesis using False
    by (intro accepted) (simp_all add: accept_fd_def create_handle_def insert_handle_def add_input_fd_def Let_def)
qed

lemma table_accept:
  assumes "table_ok v" and "fd \<notin> open_fds v"
  shows "table_ok (accept_fd fd (v\<lparr>open_fds := insert fd (open_fds v)\<rparr>))"
  using assms
proof (cases rule: accept_fd_cases)
  case refused
  then show ?thesis using assms by simp
next
  case accepted
  have "m_fd_set v fd = None" using assms by (auto simp: table_ok_def)
  then show ?thesis using assms accepted table_ok_fresh [OF assms(1)]
    by (auto simp: table_ok_def card_insert_if domIff less_Suc_eq)
qed

lemma threads_accept:
  assumes "conn_ok s" and "fd \<notin> open_fds (srv s)" and "\<forall>t. pcs s t \<noteq> Rearming fd"
  shows "threads_ok (s\<lparr>srv := accept_fd fd (srv s\<lparr>open_fds := insert fd (open_fds (srv s))\<rparr>)\<rparr>)"
proof -
  have tb: "table_ok (srv s)" and th: "threads_ok s" using assms(1) by (auto simp: conn_ok_def)
  have none: "m_fd_set (srv s) fd = None" using tb assms(2) by (auto simp: table_ok_def)
  have nb: "\<not> busy s t fd" for t
    using th assms(3) none by (fastforce simp: busy_def threads_ok_def)
  from tb assms(2) show ?thesis
  proof (cases rule: accept_fd_cases)
    case refused
    then show ?thesis using th by simp
  next
    case accepted
    have "\<not> serving s fd" using nb by (auto simp: serving_def busy_def)
    then show ?thesis using accepted(2) th nb none unfolding threads_ok_def busy_def serving_def by auto
  qed
qed

text \<open>Taking a handle, giving it back and closing it, for a thread that is the only one on its descriptor.\<close>

lemma table_hfd: "table_ok v \<Longrightarrow> m_fd_set v fd = Some h \<Longrightarrow> handles v h = Some hdl \<Longrightarrow> hfd hdl = fd"
  unfolding table_ok_def by (metis option.inject)

lemma table_upd:
  assumes "table_ok v" and "handles v h = Some hdl" and "hfd hdl' = hfd hdl"
  shows "table_ok (v\<lparr>handles := (handles v)(h \<mapsto> hdl')\<rparr>)"
  using assms unfolding table_ok_def by (auto split: if_splits) (metis option.inject)+

lemma table_get:
  assumes "table_ok v" and "get_handle fd v = Inr (v', Some h)"
  shows "table_ok v'"
  using assms by (auto simp: get_handle_def intro: table_upd split: option.splits)

lemma get_handle_total:
  assumes "table_ok v" and "fd \<in> dom (m_fd_set v)"
  shows "\<exists>v' h. get_handle fd v = Inr (v', Some h)"
  using assms by (fastforce simp: get_handle_def table_ok_def split: option.splits)

lemma table_hdl: "table_ok v \<Longrightarrow> m_fd_set v fd = Some h \<Longrightarrow> \<exists>hdl. handles v h = Some hdl"
  unfolding table_ok_def by blast

lemma serving_upd:
  assumes "\<forall>fd h. pcs s t \<noteq> Serving fd h"
  shows "serving (s\<lparr>srv := v, pcs := (pcs s)(t := Serving fd h)\<rparr>) fd' \<longleftrightarrow> fd' = fd \<or> serving s fd'"
proof -
  have "pcs s t' = Serving fd' h' \<Longrightarrow> t' \<noteq> t" for t' h' using assms by auto
  then show ?thesis by (auto simp: serving_def)
qed

lemma conn_step_get_ok:
  assumes ok: "conn_ok s" and at: "pcs s t = Picked fd" and g: "get_handle fd (srv s) = Inr (v, Some h)"
  shows "conn_ok (s\<lparr>srv := v, pcs := (pcs s)(t := Serving fd h)\<rparr>)"
proof -
  have tb: "table_ok (srv s)" and th: "threads_ok s" using ok by (auto simp: conn_ok_def)
  note thD = threads_okD [OF th]
  obtain hdl where h: "m_fd_set (srv s) fd = Some h" "handles (srv s) h = Some hdl"
    "v = srv s\<lparr>handles := (handles (srv s))(h \<mapsto> hdl\<lparr>href := href hdl + 1\<rparr>)\<rparr>"
    using g by (auto simp: get_handle_def split: option.splits)
  have hf: "hfd hdl = fd" by (rule table_hfd [OF tb h(1,2)])
  have "t' = t" if "pcs s t' = Serving fd h'" for t' h' using thD(3) [of t' fd t] that at by (simp add: busy_def)
  then have "\<not> serving s fd" using at by (force simp: serving_def)
  then have r: "href hdl = 0" using thD(7) [OF h(2)] hf by simp
  let ?s = "s\<lparr>srv := v, pcs := (pcs s)(t := Serving fd h)\<rparr>"
  have b: "busy ?s t' fd' \<longleftrightarrow> busy s t' fd'" for t' fd' using at by (auto simp: busy_def)
  have sv: "serving ?s fd' \<longleftrightarrow> fd' = fd \<or> serving s fd'" for fd' by (rule serving_upd) (simp add: at)
  have v: "epoll_set v = epoll_set (srv s)" "m_fd_set v = m_fd_set (srv s)"
    "handles v = (handles (srv s))(h \<mapsto> hdl\<lparr>href := 1\<rparr>)" using h(3) r by simp_all
  have "threads_ok ?s"
  proof (rule threads_okI)
    fix h' hdl'
    assume a: "handles (srv ?s) h' = Some hdl'"
    show "href hdl' = (if serving ?s (hfd hdl') then 1 else 0)"
    proof (cases "h' = h")
      case True
      then have "hdl' = hdl\<lparr>href := 1\<rparr>" using a v(3) by simp
      then show ?thesis using hf sv [of fd] by simp
    next
      case False
      then have s: "handles (srv s) h' = Some hdl'" using a v(3) by simp
      have "hfd hdl' \<noteq> fd" using s False h(1) tb unfolding table_ok_def by (metis option.inject)
      then show ?thesis using thD(7) [OF s] sv [of "hfd hdl'"] by simp
    qed
  next
    show "busy ?s t1 fd' \<Longrightarrow> busy ?s t2 fd' \<Longrightarrow> t1 = t2" for t1 t2 fd' unfolding b by (rule thD(3))
    show "busy ?s t1 fd' \<Longrightarrow> fd' \<notin> epoll_set (srv ?s)" for t1 fd' unfolding b using thD(4) v(1) by simp
    show "pcs ?s t1 = Picked fd' \<Longrightarrow> fd' \<in> dom (m_fd_set (srv ?s))" for t1 fd'
      using thD(5) v(2) by (simp split: if_splits)
    show "pcs ?s t1 = Serving fd' h' \<Longrightarrow> m_fd_set (srv ?s) fd' = Some h'" for t1 fd' h'
      using thD(6) v(2) h(1) by (simp split: if_splits)
  qed (use thD(1,2) v(1) in simp_all)
  then show ?thesis using table_get [OF tb g] by (simp add: conn_ok_def)
qed

lemma serving_facts:
  assumes "conn_ok s" and pc: "pcs s t = Serving fd h"
  shows "\<exists>hdl. m_fd_set (srv s) fd = Some h \<and> handles (srv s) h = Some hdl \<and> hfd hdl = fd \<and> href hdl = 1"
    and "\<And>t' h'. pcs s t' = Serving fd h' \<Longrightarrow> t' = t" and "\<And>t'. pcs s t' \<noteq> Picked fd" and "\<And>t'. pcs s t' \<noteq> Rearming fd"
    and "fd \<notin> epoll_set (srv s)"
proof -
  have tb: "table_ok (srv s)" and th: "threads_ok s" using assms(1) by (auto simp: conn_ok_def)
  have m: "m_fd_set (srv s) fd = Some h" using th pc by (auto simp: threads_ok_def)
  then obtain hdl where hd: "handles (srv s) h = Some hdl" using table_hdl [OF tb] by blast
  have "hfd hdl = fd" by (rule table_hfd [OF tb m hd])
  moreover have "serving s fd" using pc by (auto simp: serving_def)
  then have "href hdl = 1" using threads_okD(7) [OF th hd] calculation by simp
  ultimately show "\<exists>hdl. m_fd_set (srv s) fd = Some h \<and> handles (srv s) h = Some hdl \<and> hfd hdl = fd \<and> href hdl = 1"
    using m hd by blast
  have bt: "busy s t fd" using pc by (simp add: busy_def)
  have uniq: "busy s t' fd \<Longrightarrow> t' = t" for t' using threads_okD(3) [OF th _ bt] .
  then show "\<And>t' h'. pcs s t' = Serving fd h' \<Longrightarrow> t' = t" by (simp add: busy_def)
  show "pcs s t' \<noteq> Picked fd" "pcs s t' \<noteq> Rearming fd" for t' using uniq [of t'] pc by (auto simp: busy_def)
  show "fd \<notin> epoll_set (srv s)" by (rule threads_okD(4) [OF th bt])
qed

text \<open>The two results of \<open>release_handle\<close> for a thread that serves a connection; the error branch is not taken.\<close>

definition closed :: "http_server \<Rightarrow> int \<Rightarrow> nat \<Rightarrow> http_server" where
  "closed v fd h = v\<lparr>epoll_set := epoll_set v - {fd}, open_fds := open_fds v - {fd}, handles := (handles v)(h := None),
     m_fd_set := (m_fd_set v)(fd := None), now_connections := now_connections v - 1\<rparr>"

lemma release_serving:
  assumes "conn_ok s" and "pcs s t = Serving fd h" and "handles (srv s) h = Some hdl"
  shows "release_handle h True (srv s) = Inr (closed (srv s) fd h)"
    and "release_handle h False (srv s) = Inr (srv s\<lparr>handles := (handles (srv s))(h \<mapsto> hdl\<lparr>href := 0\<rparr>)\<rparr>)"
  using serving_facts(1) [OF assms(1,2)] assms(3)
  by (auto simp: release_handle_def del_input_fd_def closed_def Let_def)

lemma closed_sel [simp]:
  "epoll_set (closed v fd h) = epoll_set v - {fd}" "open_fds (closed v fd h) = open_fds v - {fd}"
  "handles (closed v fd h) = (handles v)(h := None)" "m_fd_set (closed v fd h) = (m_fd_set v)(fd := None)"
  "now_connections (closed v fd h) = now_connections v - 1" "next_handle (closed v fd h) = next_handle v"
  by (simp_all add: closed_def)

lemma table_okD:
  assumes "table_ok v"
  shows "finite (dom (m_fd_set v))" and "now_connections v = int (card (dom (m_fd_set v)))"
    and "now_connections v \<le> MAX_FD_NUM" and "dom (m_fd_set v) = open_fds v" and "epoll_set v \<subseteq> dom (m_fd_set v)"
    and "m_fd_set v fd = Some h \<Longrightarrow> h < next_handle v"
    and "m_fd_set v fd = Some h \<Longrightarrow> \<exists>hdl. handles v h = Some hdl \<and> hfd hdl = fd"
    and "handles v h = Some hdl \<Longrightarrow> m_fd_set v (hfd hdl) = Some h"
  using assms unfolding table_ok_def by blast+

lemma table_closed:
  assumes tb: "table_ok v" and m: "m_fd_set v fd = Some h"
  shows "table_ok (closed v fd h)"
proof -
  note tbD = table_okD [OF tb]
  have "fd \<in> dom (m_fd_set v)" using m by auto
  then have c: "int (card (dom (m_fd_set v) - {fd})) = now_connections v - 1"
    using card_Suc_Diff1 [OF tbD(1), of fd] tbD(2) by linarith
  have only: "fd' = fd" if "m_fd_set v fd' = Some h" for fd' using tbD(7) [OF that] tbD(7) [OF m] by auto
  have other: "hfd hdl \<noteq> fd" if "handles v h' = Some hdl" "h' \<noteq> h" for h' hdl using tbD(8) [OF that(1)] that(2) m by auto
  show ?thesis unfolding table_ok_def closed_sel dom_fun_upd
  proof (intro conjI allI impI)
    fix fd' h'
    assume a: "((m_fd_set v)(fd := None)) fd' = Some h'"
    then have s: "m_fd_set v fd' = Some h'" "fd' \<noteq> fd" by (auto split: if_splits)
    then show "h' < next_handle v" "\<exists>hdl. ((handles v)(h := None)) h' = Some hdl \<and> hfd hdl = fd'"
      using tbD(6,7) only by auto
  next
    fix h' hdl
    assume "((handles v)(h := None)) h' = Some hdl"
    then show "((m_fd_set v)(fd := None)) (hfd hdl) = Some h'" using tbD(8) other by (auto split: if_splits)
  qed (use tbD(1,2,3,4,5) c in auto)
qed

text \<open>After the release no thread serves the descriptor; the thread waits again or is about to rearm it.\<close>

lemma busy_release:
  assumes "pcs s t = Serving fd h" and "p = Waiting \<or> p = Rearming fd"
  shows "busy (s\<lparr>srv := v, pcs := (pcs s)(t := p)\<rparr>) t' fd' \<Longrightarrow> busy s t' fd'"
  using assms by (auto simp: busy_def split: if_splits)

lemma serving_release:
  assumes "conn_ok s" and "pcs s t = Serving fd h" and "p = Waiting \<or> p = Rearming fd"
  shows "serving (s\<lparr>srv := v, pcs := (pcs s)(t := p)\<rparr>) fd' \<longleftrightarrow> fd' \<noteq> fd \<and> serving s fd'"
proof -
  have u: "pcs s t' = Serving fd h' \<Longrightarrow> t' = t" for t' h' by (rule serving_facts(2) [OF assms(1,2)])
  have "pcs s t' = Serving fd' h' \<Longrightarrow> fd' \<noteq> fd \<Longrightarrow> t' \<noteq> t" for t' h' using assms(2) by auto
  then show ?thesis using u assms(3) by (auto simp: serving_def split: if_splits)
qed

lemma threads_release:
  assumes ok: "conn_ok s" and at: "pcs s t = Serving fd h" and p: "p = Waiting \<or> p = Rearming fd"
    and v: "epoll_set v = epoll_set (srv s)" "\<And>fd'. fd' \<noteq> fd \<Longrightarrow> m_fd_set v fd' = m_fd_set (srv s) fd'"
      "\<And>h' hdl. handles v h' = Some hdl \<Longrightarrow> hfd hdl = fd \<and> href hdl = 0 \<or> hfd hdl \<noteq> fd \<and> handles (srv s) h' = Some hdl"
  shows "threads_ok (s\<lparr>srv := v, pcs := (pcs s)(t := p)\<rparr>)"
proof -
  have th: "threads_ok s" using ok by (simp add: conn_ok_def)
  note thD = threads_okD [OF th] and sf = serving_facts [OF ok at]
  let ?s = "s\<lparr>srv := v, pcs := (pcs s)(t := p)\<rparr>"
  note b = busy_release [OF at p, of v] and sv = serving_release [OF ok at p, of v]
  show ?thesis
  proof (rule threads_okI)
    show "busy ?s t1 fd' \<Longrightarrow> busy ?s t2 fd' \<Longrightarrow> t1 = t2" for t1 t2 fd' using b thD(3) by blast
    show "busy ?s t1 fd' \<Longrightarrow> fd' \<notin> epoll_set (srv ?s)" for t1 fd' using thD(4) [OF b] v(1) by simp
    show "fd' \<in> dom (m_fd_set (srv ?s))" if "pcs ?s t1 = Picked fd'" for t1 fd'
    proof -
      have a: "pcs s t1 = Picked fd'" using that p by (auto split: if_splits)
      then have "fd' \<noteq> fd" using sf(3) by auto
      then show ?thesis using thD(5) [OF a] v(2) by (simp add: dom_def)
    qed
    show "m_fd_set (srv ?s) fd' = Some h'" if "pcs ?s t1 = Serving fd' h'" for t1 fd' h'
    proof -
      have a: "pcs s t1 = Serving fd' h'" "t1 \<noteq> t" using that p by (auto split: if_splits)
      then have "fd' \<noteq> fd" using sf(2) by auto
      then show ?thesis using thD(6) [OF a(1)] v(2) by simp
    qed
    show "href hdl = (if serving ?s (hfd hdl) then 1 else 0)" if "handles (srv ?s) h' = Some hdl" for h' hdl
    proof -
      have "handles v h' = Some hdl" using that by simp
      from v(3) [OF this] show ?thesis using thD(7) sv by auto
    qed
  qed (use thD(1,2) v(1) in simp_all)
qed

lemma conn_step_close_ok:
  assumes ok: "conn_ok s" and at: "pcs s t = Serving fd h" and p: "p = Waiting \<or> p = Rearming fd"
  shows "conn_ok (s\<lparr>srv := closed (srv s) fd h, pcs := (pcs s)(t := p)\<rparr>)"
proof -
  have tb: "table_ok (srv s)" using ok by (simp add: conn_ok_def)
  obtain hdl where h: "m_fd_set (srv s) fd = Some h" "handles (srv s) h = Some hdl" using serving_facts(1) [OF ok at] by blast
  have "threads_ok (s\<lparr>srv := closed (srv s) fd h, pcs := (pcs s)(t := p)\<rparr>)"
  proof (rule threads_release [OF ok at p])
    show "hfd hdl' = fd \<and> href hdl' = 0 \<or> hfd hdl' \<noteq> fd \<and> handles (srv s) h' = Some hdl'"
      if "handles (closed (srv s) fd h) h' = Some hdl'" for h' hdl'
      using that table_okD(8) [OF tb, of h' hdl'] h(1) by (auto split: if_splits)
  qed (use serving_facts(5) [OF ok at] in auto)
  then show ?thesis using table_closed [OF tb h(1)] by (simp add: conn_ok_def)
qed

lemma conn_step_keep_ok:
  assumes ok: "conn_ok s" and at: "pcs s t = Serving fd h" and hd: "handles (srv s) h = Some hdl" and p: "p = Waiting \<or> p = Rearming fd"
  shows "conn_ok (s\<lparr>srv := srv s\<lparr>handles := (handles (srv s))(h \<mapsto> hdl\<lparr>href := 0\<rparr>)\<rparr>, pcs := (pcs s)(t := p)\<rparr>)"
proof -
  have tb: "table_ok (srv s)" using ok by (simp add: conn_ok_def)
  have m: "m_fd_set (srv s) fd = Some h" "hfd hdl = fd" using serving_facts(1) [OF ok at] hd by auto
  let ?v = "srv s\<lparr>handles := (handles (srv s))(h \<mapsto> hdl\<lparr>href := 0\<rparr>)\<rparr>"
  have "threads_ok (s\<lparr>srv := ?v, pcs := (pcs s)(t := p)\<rparr>)"
  proof (rule threads_release [OF ok at p])
    show "hfd hdl' = fd \<and> href hdl' = 0 \<or> hfd hdl' \<noteq> fd \<and> handles (srv s) h' = Some hdl'"
      if "handles ?v h' = Some hdl'" for h' hdl'
      using that table_okD(8) [OF tb, of h' hdl'] m by (auto split: if_splits)
  qed simp_all
  then show ?thesis using table_upd [OF tb hd, of "hdl\<lparr>href := 0\<rparr>"] by (simp add: conn_ok_def)
qed

lemma conn_step_pick_ok:
  assumes ok: "conn_ok s" and at: "pcs s t = Waiting" and r: "ready s = evs @ [fd]"
  shows "conn_ok (s\<lparr>srv := del_input_fd fd (srv s), ready := evs, pcs := (pcs s)(t := Picked fd)\<rparr>)"
proof -
  have tb: "table_ok (srv s)" and th: "threads_ok s" using ok by (auto simp: conn_ok_def)
  note thD = threads_okD [OF th]
  have e: "fd \<in> epoll_set (srv s)" "set evs \<subseteq> epoll_set (srv s) - {fd}" "distinct evs" using thD(1,2) r by auto
  have nb: "\<not> busy s t' fd" for t' using thD(4) e(1) by blast
  let ?s = "s\<lparr>srv := del_input_fd fd (srv s), ready := evs, pcs := (pcs s)(t := Picked fd)\<rparr>"
  have b: "busy ?s t' fd' \<longleftrightarrow> t' = t \<and> fd' = fd \<or> t' \<noteq> t \<and> busy s t' fd'" for t' fd' by (auto simp: busy_def)
  have sv: "serving ?s fd' \<longleftrightarrow> serving s fd'" for fd' using at by (auto simp: serving_def) (metis pc.distinct(3))
  have "threads_ok ?s"
  proof (rule threads_okI)
    show "busy ?s t1 fd' \<Longrightarrow> busy ?s t2 fd' \<Longrightarrow> t1 = t2" for t1 t2 fd' unfolding b using nb thD(3) by blast
    show "busy ?s t1 fd' \<Longrightarrow> fd' \<notin> epoll_set (srv ?s)" for t1 fd' unfolding b using thD(4) by (auto simp: del_input_fd_def)
    show "pcs ?s t1 = Picked fd' \<Longrightarrow> fd' \<in> dom (m_fd_set (srv ?s))" for t1 fd'
      using thD(5) [of t1 fd'] e(1) table_okD(5) [OF tb] by (auto simp: del_input_fd_def split: if_splits)
    show "pcs ?s t1 = Serving fd' h' \<Longrightarrow> m_fd_set (srv ?s) fd' = Some h'" for t1 fd' h'
      using thD(6) [of t1 fd' h'] by (auto simp: del_input_fd_def split: if_splits)
    show "handles (srv ?s) h = Some hdl \<Longrightarrow> href hdl = (if serving ?s (hfd hdl) then 1 else 0)" for h hdl
      unfolding sv using thD(7) [of h hdl] by (simp add: del_input_fd_def)
  qed (use e in \<open>auto simp: del_input_fd_def\<close>)
  moreover have "table_ok (del_input_fd fd (srv s))" using tb unfolding table_ok_def del_input_fd_def by auto
  ultimately show ?thesis by (simp add: conn_ok_def)
qed

lemma conn_step_rearm_ok:
  assumes ok: "conn_ok s" and at: "pcs s t = Rearming fd"
  shows "conn_ok (s\<lparr>srv := add_input_fd fd (srv s), pcs := (pcs s)(t := Waiting)\<rparr>)"
proof -
  have tb: "table_ok (srv s)" and th: "threads_ok s" using ok by (auto simp: conn_ok_def)
  note thD = threads_okD [OF th]
  let ?s = "s\<lparr>srv := add_input_fd fd (srv s), pcs := (pcs s)(t := Waiting)\<rparr>"
  have bt: "busy s t fd" using at by (simp add: busy_def)
  have b: "busy ?s t' fd' \<longleftrightarrow> t' \<noteq> t \<and> busy s t' fd'" for t' fd' by (auto simp: busy_def)
  have sv: "serving ?s fd' \<longleftrightarrow> serving s fd'" for fd' using at by (auto simp: serving_def) (metis pc.distinct(11))
  have "threads_ok ?s"
  proof (rule threads_okI)
    show "busy ?s t1 fd' \<Longrightarrow> busy ?s t2 fd' \<Longrightarrow> t1 = t2" for t1 t2 fd' unfolding b using thD(3) by blast
    show "busy ?s t1 fd' \<Longrightarrow> fd' \<notin> epoll_set (srv ?s)" for t1 fd'
      unfolding b using thD(4) [of t1 fd'] thD(3) [OF bt, of t1] by (auto simp: add_input_fd_def)
    show "pcs ?s t1 = Picked fd' \<Longrightarrow> fd' \<in> dom (m_fd_set (srv ?s))" for t1 fd'
      using thD(5) [of t1 fd'] by (auto simp: add_input_fd_def split: if_splits)
    show "pcs ?s t1 = Serving fd' h' \<Longrightarrow> m_fd_set (srv ?s) fd' = Some h'" for t1 fd' h'
      using thD(6) [of t1 fd' h'] by (auto simp: add_input_fd_def split: if_splits)
    show "handles (srv ?s) h = Some hdl \<Longrightarrow> href hdl = (if serving ?s (hfd hdl) then 1 else 0)" for h hdl
      unfolding sv using thD(7) [of h hdl] by (simp add: add_input_fd_def split: if_splits)
  qed (use thD(1,2) in \<open>auto simp: add_input_fd_def\<close>)
  moreover have "table_ok (add_input_fd fd (srv s))" using tb unfolding table_ok_def add_input_fd_def by auto
  ultimately show ?thesis by (simp add: conn_ok_def)
qed

section \<open>Every step keeps the invariant\<close>

text \<open>\<open>accept\<close> does not give out the number of a connection that a thread is about to rearm.\<close>

definition no_reuse :: "conn_sys \<Rightarrow> conn_action \<Rightarrow> bool" where
  "no_reuse s a \<longleftrightarrow> (\<forall>fd t. a = Accept fd \<longrightarrow> pcs s t \<noteq> Rearming fd)"

lemma conn_step_ok:
  assumes "conn_step s a s'" and "conn_ok s" and "no_reuse s a"
  shows "conn_ok s'"
  using assms
proof (induction rule: conn_step.induct)
  case (epoll_wait s evs)
  then show ?case unfolding conn_ok_def threads_ok_def busy_def serving_def by simp
next
  case (accept fd s)
  then show ?case using threads_accept [of s fd] table_accept [of "srv s" fd]
    by (simp add: conn_ok_def no_reuse_def)
next
  case (pick s t evs fd)
  then show ?case by (intro conn_step_pick_ok)
next
  case (get s t fd v h)
  then show ?case by (intro conn_step_get_ok)
next
  case (fail s t fd h v)
  obtain hdl where "handles (srv s) h = Some hdl" using serving_facts(1) [OF fail(3,1)] by blast
  then show ?case using release_serving(1) [OF fail(3,1)] fail conn_step_close_ok [OF fail(3,1), of Waiting] by simp
next
  case (reply s t fd h keep v)
  obtain hdl where h: "handles (srv s) h = Some hdl" using serving_facts(1) [OF reply(3,1)] by blast
  then show ?case
    using release_serving [OF reply(3,1) h] reply(2) conn_step_close_ok [OF reply(3,1), of "Rearming fd"]
      conn_step_keep_ok [OF reply(3,1) h, of "Rearming fd"] by (cases keep) auto
next
  case (rearm s t fd)
  then show ?case by (intro conn_step_rearm_ok)
qed

text \<open>Runs in which no step reuses a descriptor too early.\<close>

inductive safe_run :: "conn_action list \<Rightarrow> conn_sys \<Rightarrow> bool" where
  safe_nil: "safe_run [] init_sys"
| safe_snoc: "safe_run as s \<Longrightarrow> conn_step s a s' \<Longrightarrow> no_reuse s a \<Longrightarrow> safe_run (as @ [a]) s'"

lemma safe_run_ok: "safe_run as s \<Longrightarrow> conn_ok s"
  by (induction rule: safe_run.induct) (auto intro: init_ok conn_step_ok)

section \<open>Running a schedule\<close>

text \<open>The step relation as a function from an action, to run given schedules.\<close>

fun conn_do :: "conn_action \<Rightarrow> conn_sys \<Rightarrow> conn_sys option" where
  "conn_do (EpollWait evs) s =
     (if ready s = [] \<and> distinct evs \<and> set evs \<subseteq> epoll_set (srv s) then Some (s\<lparr>ready := evs\<rparr>) else None)"
| "conn_do (Accept fd) s =
     (if fd \<notin> open_fds (srv s)
      then Some (s\<lparr>srv := accept_fd fd (srv s\<lparr>open_fds := insert fd (open_fds (srv s))\<rparr>)\<rparr>) else None)"
| "conn_do (Pick t fd) s =
     (if pcs s t = Waiting \<and> ready s \<noteq> [] \<and> last (ready s) = fd
      then Some (s\<lparr>srv := del_input_fd fd (srv s), ready := butlast (ready s), pcs := (pcs s)(t := Picked fd)\<rparr>) else None)"
| "conn_do (GetHandle t) s =
     (case pcs s t of
        Picked fd \<Rightarrow> (case get_handle fd (srv s) of
          Inr (v, Some h) \<Rightarrow> Some (s\<lparr>srv := v, pcs := (pcs s)(t := Serving fd h)\<rparr>) | _ \<Rightarrow> None)
      | _ \<Rightarrow> None)"
| "conn_do (Fail t) s =
     (case pcs s t of
        Serving fd h \<Rightarrow> (case release_handle h True (srv s) of
          Inr v \<Rightarrow> Some (s\<lparr>srv := v, pcs := (pcs s)(t := Waiting)\<rparr>) | Inl _ \<Rightarrow> None)
      | _ \<Rightarrow> None)"
| "conn_do (Reply t keep) s =
     (case pcs s t of
        Serving fd h \<Rightarrow> (case release_handle h (\<not> keep) (srv s) of
          Inr v \<Rightarrow> Some (s\<lparr>srv := v, pcs := (pcs s)(t := Rearming fd)\<rparr>) | Inl _ \<Rightarrow> None)
      | _ \<Rightarrow> None)"
| "conn_do (Rearm t) s =
     (case pcs s t of
        Rearming fd \<Rightarrow> Some (s\<lparr>srv := add_input_fd fd (srv s), pcs := (pcs s)(t := Waiting)\<rparr>)
      | _ \<Rightarrow> None)"

lemma conn_do_step: "conn_do a s = Some s' \<Longrightarrow> conn_step s a s'"
proof (cases a)
  case (Pick t fd)
  assume "conn_do a s = Some s'"
  then show ?thesis using Pick conn_step.pick [of s t "butlast (ready s)" fd]
    by (auto split: if_splits)
qed (auto intro: conn_step.intros split: if_splits pc.splits sum.splits option.splits)

fun conn_schedule :: "conn_action list \<Rightarrow> conn_sys \<Rightarrow> conn_sys option" where
  "conn_schedule [] s = Some s"
| "conn_schedule (a # as) s = (case conn_do a s of None \<Rightarrow> None | Some s' \<Rightarrow> conn_schedule as s')"

lemma conn_run_append: "conn_run s as s' \<Longrightarrow> conn_schedule bs s' = Some s'' \<Longrightarrow> conn_run s (as @ bs) s''"
proof (induction bs arbitrary: as s')
  case (Cons b bs)
  then obtain s1 where "conn_do b s' = Some s1" "conn_schedule bs s1 = Some s''" by (auto split: option.splits)
  then show ?case using Cons.IH [of "as @ [b]" s1] conn_snoc [OF Cons.prems(1) conn_do_step] by simp
qed simp

lemma conn_run_schedule: "conn_schedule as s = Some s' \<Longrightarrow> conn_run s as s'"
  using conn_run_append [OF conn_nil] by simp

lemmas conn_eval = init_sys_def accept_fd_def create_handle_def insert_handle_def add_input_fd_def del_input_fd_def
  get_handle_def release_handle_def MAX_FD_NUM_def

section \<open>Reuse of a descriptor\<close>

text \<open>The kernel opens \<open>fd\<close>, and the thread \<open>t\<close> takes its first request.\<close>

abbreviation fresh_handle :: "int \<Rightarrow> int \<Rightarrow> socket_handle" where
  "fresh_handle fd n \<equiv> \<lparr>hfd = fd, href = n, hflag = 1, hread_buf = []\<rparr>"

definition opened :: "int \<Rightarrow> int \<Rightarrow> http_server \<Rightarrow> http_server" where
  "opened fd n v = v\<lparr>handles := (handles v)(next_handle v \<mapsto> fresh_handle fd n), next_handle := Suc (next_handle v),
     m_fd_set := (m_fd_set v)(fd \<mapsto> next_handle v), now_connections := now_connections v + 1,
     open_fds := insert fd (open_fds v)\<rparr>"

lemma open_and_take:
  assumes "ready s = []" and "pcs s t = Waiting" and "fd \<notin> open_fds (srv s)" and "fd < 1024"
    and "now_connections (srv s) < MAX_FD_NUM" and "m_fd_set (srv s) fd = None" and "fd \<notin> epoll_set (srv s)"
  shows "conn_schedule [Accept fd, EpollWait [fd], Pick t fd, GetHandle t] s =
    Some (s\<lparr>srv := opened fd 1 (srv s), pcs := (pcs s)(t := Serving fd (next_handle (srv s)))\<rparr>)"
  using assms by (auto simp: conn_eval opened_def Let_def)

text \<open>Its reply closes the connection again.\<close>

lemma reply_closes:
  assumes "pcs s t = Serving fd (next_handle v)" and "srv s = opened fd 1 v"
    and "fd \<notin> open_fds v" and "m_fd_set v fd = None" and "fd \<notin> epoll_set v" and "handles v (next_handle v) = None"
  shows "conn_schedule [Reply t False] s =
    Some (s\<lparr>srv := v\<lparr>next_handle := Suc (next_handle v)\<rparr>, pcs := (pcs s)(t := Rearming fd)\<rparr>)"
  using assms by (auto simp: conn_eval opened_def Let_def fun_upd_idem)

text \<open>
  The number is used for a new connection, which \<open>t1\<close> serves. The late \<open>add_input_fd\<close> of \<open>t0\<close> makes
  epoll watch it, so that \<open>t2\<close> takes it as well; then both give it up.
\<close>

lemma rearm_and_take:
  assumes "srv s = opened fd 1 v" and "ready s = []" and "pcs s t0 = Rearming fd" and "pcs s t2 = Waiting" and "t0 \<noteq> t2"
    and "fd \<notin> epoll_set v"
  shows "conn_schedule [EpollWait [fd], Pick t2 fd, GetHandle t2] (s\<lparr>srv := add_input_fd fd (srv s), pcs := (pcs s)(t0 := Waiting)\<rparr>) =
    Some (s\<lparr>srv := opened fd 2 v, pcs := (pcs s)(t0 := Waiting, t2 := Serving fd (next_handle v))\<rparr>)"
  using assms by (auto simp: conn_eval opened_def Let_def)

lemma both_fail:
  assumes "srv s = opened fd 2 v" and "pcs s t1 = Serving fd (next_handle v)" and "pcs s t2 = Serving fd (next_handle v)"
    and "t1 \<noteq> t2"
  shows "conn_schedule [Fail t2, Fail t1] s =
    Some (s\<lparr>srv := opened fd (-2) v, pcs := (pcs s)(t2 := Waiting, t1 := Waiting)\<rparr>)"
  using assms by (auto simp: conn_eval opened_def Let_def)

text \<open>
  A connection that is open but not watched, not reported and not with any thread stays so: no step
  of any thread reaches it again. The handles keep their descriptors.
\<close>

definition names :: "http_server \<Rightarrow> int \<Rightarrow> nat \<Rightarrow> bool" where
  "names v f h \<longleftrightarrow> h < next_handle v \<and> (\<forall>hdl. handles v h = Some hdl \<longrightarrow> hfd hdl = f)"

definition handles_ok :: "conn_sys \<Rightarrow> bool" where
  "handles_ok s \<longleftrightarrow> (\<forall>f h. m_fd_set (srv s) f = Some h \<longrightarrow> names (srv s) f h) \<and>
     (\<forall>t f h. pcs s t = Serving f h \<longrightarrow> names (srv s) f h)"

text \<open>Old addresses keep their descriptor or are freed.\<close>

definition keeps_handles :: "http_server \<Rightarrow> http_server \<Rightarrow> bool" where
  "keeps_handles v v' \<longleftrightarrow> next_handle v \<le> next_handle v' \<and>
     (\<forall>h < next_handle v. \<forall>hdl'. handles v' h = Some hdl' \<longrightarrow> (\<exists>hdl. handles v h = Some hdl \<and> hfd hdl = hfd hdl'))"

lemma keeps_names: "keeps_handles v v' \<Longrightarrow> names v f h \<Longrightarrow> names v' f h"
  unfolding keeps_handles_def names_def by (metis order_less_le_trans)

lemma keeps_handles_refl: "handles v' = handles v \<Longrightarrow> next_handle v' = next_handle v \<Longrightarrow> keeps_handles v v'"
  by (simp add: keeps_handles_def)

lemma keeps_update: "handles v h = Some hdl \<Longrightarrow> hfd hdl' = hfd hdl \<Longrightarrow> handles v' = (handles v)(h \<mapsto> hdl') \<Longrightarrow>
    next_handle v' = next_handle v \<Longrightarrow> keeps_handles v v'"
  by (auto simp: keeps_handles_def)

lemma keeps_free: "handles v' = (handles v)(h := None) \<Longrightarrow> next_handle v' = next_handle v \<Longrightarrow> keeps_handles v v'"
  by (auto simp: keeps_handles_def split: if_splits)

lemma handles_ok_step:
  assumes "handles_ok s" and "keeps_handles (srv s) (srv s')"
    and "\<And>f h. m_fd_set (srv s') f = Some h \<Longrightarrow> m_fd_set (srv s) f = Some h \<or> names (srv s') f h"
    and "\<And>t f h. pcs s' t = Serving f h \<Longrightarrow> pcs s t = Serving f h \<or> m_fd_set (srv s) f = Some h"
  shows "handles_ok s'"
  unfolding handles_ok_def using assms keeps_names [OF assms(2)] unfolding handles_ok_def by blast

definition lost :: "int \<Rightarrow> conn_sys \<Rightarrow> bool" where
  "lost fd s \<longleftrightarrow> fd \<in> open_fds (srv s) \<and> fd \<notin> epoll_set (srv s) \<and> fd \<notin> set (ready s) \<and> (\<forall>t. \<not> busy s t fd) \<and> handles_ok s"

lemma accept_fd_frame:
  fixes v :: http_server and f :: int
  defines "v' \<equiv> accept_fd f (v\<lparr>open_fds := insert f (open_fds v)\<rparr>)"
  shows "keeps_handles v v'" and "m_fd_set v' g = Some h \<Longrightarrow> m_fd_set v g = Some h \<or> names v' g h"
    and "x \<noteq> f \<Longrightarrow> x \<in> open_fds v' \<longleftrightarrow> x \<in> open_fds v" and "x \<noteq> f \<Longrightarrow> x \<in> epoll_set v' \<longleftrightarrow> x \<in> epoll_set v"
  unfolding v'_def
  by (auto simp: accept_fd_def create_handle_def insert_handle_def add_input_fd_def Let_def keeps_handles_def names_def
      split: option.splits if_splits)

lemma lost_accept:
  assumes "lost fd s" and "f \<notin> open_fds (srv s)"
  shows "lost fd (s\<lparr>srv := accept_fd f (srv s\<lparr>open_fds := insert f (open_fds (srv s))\<rparr>)\<rparr>)"
proof -
  let ?s = "s\<lparr>srv := accept_fd f (srv s\<lparr>open_fds := insert f (open_fds (srv s))\<rparr>)\<rparr>"
  have ne: "fd \<noteq> f" using assms by (auto simp: lost_def)
  have "handles_ok s" using assms(1) by (simp add: lost_def)
  then have "handles_ok ?s"
    by (rule handles_ok_step) (simp_all add: accept_fd_frame(1), rule accept_fd_frame(2))
  then show ?thesis using assms(1) accept_fd_frame(3,4) [OF ne, of "srv s"] by (simp add: lost_def busy_def)
qed

lemma release_frame:
  assumes "release_handle h c v = Inr v'" and "names v f h"
  shows "keeps_handles v v'" and "m_fd_set v' g = Some k \<Longrightarrow> m_fd_set v g = Some k"
    and "x \<noteq> f \<Longrightarrow> x \<in> open_fds v' \<longleftrightarrow> x \<in> open_fds v" and "x \<noteq> f \<Longrightarrow> x \<in> epoll_set v' \<longleftrightarrow> x \<in> epoll_set v"
proof -
  obtain hdl where h: "handles v h = Some hdl" "hfd hdl = f"
    using assms by (auto simp: release_handle_def names_def split: option.splits)
  consider (close) "v' = (del_input_fd f v)\<lparr>open_fds := open_fds v - {f}, handles := (handles v)(h := None),
      m_fd_set := (m_fd_set v)(f := None), now_connections := now_connections v - 1\<rparr>"
    | (keep) n where "v' = v\<lparr>handles := (handles v)(h \<mapsto> hdl\<lparr>href := n\<rparr>)\<rparr>"
    using assms(1) h by (auto simp: release_handle_def del_input_fd_def Let_def split: if_splits)
  note cases = this
  from cases show "keeps_handles v v'"
  proof cases
    case close
    then show ?thesis by (intro keeps_free [of _ _ h]) (simp_all add: del_input_fd_def)
  next
    case keep
    then show ?thesis by (intro keeps_update [OF h(1), of "hdl\<lparr>href := n\<rparr>"]) simp_all
  qed
  from cases show "m_fd_set v' g = Some k \<Longrightarrow> m_fd_set v g = Some k"
    by cases (auto simp: del_input_fd_def split: if_splits)
  from cases show "x \<noteq> f \<Longrightarrow> x \<in> open_fds v' \<longleftrightarrow> x \<in> open_fds v" "x \<noteq> f \<Longrightarrow> x \<in> epoll_set v' \<longleftrightarrow> x \<in> epoll_set v"
    by (cases; simp add: del_input_fd_def)+
qed

lemma lost_release:
  assumes "lost fd s" and "pcs s t = Serving f h" and "release_handle h c (srv s) = Inr v" and "p = Waiting \<or> p = Rearming f"
  shows "lost fd (s\<lparr>srv := v, pcs := (pcs s)(t := p)\<rparr>)"
proof -
  have ne: "fd \<noteq> f" using assms(1,2) by (auto simp: lost_def busy_def)
  have "names (srv s) f h" using assms(1,2) by (auto simp: lost_def handles_ok_def)
  note frame = release_frame [OF assms(3) this]
  have "handles_ok s" using assms(1) by (simp add: lost_def)
  then have "handles_ok (s\<lparr>srv := v, pcs := (pcs s)(t := p)\<rparr>)"
    by (rule handles_ok_step) (use frame(1,2) assms(4) in \<open>auto split: if_splits\<close>)
  then show ?thesis using assms(1,4) ne frame(3,4) [OF ne] by (auto simp: lost_def busy_def)
qed

lemma lost_step: "conn_step s a s' \<Longrightarrow> lost fd s \<Longrightarrow> lost fd s'"
proof (induction rule: conn_step.induct)
  case (epoll_wait s evs)
  then show ?case by (auto simp: lost_def handles_ok_def busy_def)
next
  case (accept f s)
  then show ?case by (intro lost_accept)
next
  case (pick s t evs f)
  have "handles_ok s" using pick(3) by (simp add: lost_def)
  then have "handles_ok (s\<lparr>srv := del_input_fd f (srv s), ready := evs, pcs := (pcs s)(t := Picked f)\<rparr>)"
    by (rule handles_ok_step) (auto simp: del_input_fd_def intro: keeps_handles_refl split: if_splits)
  then show ?case using pick by (auto simp: lost_def busy_def del_input_fd_def)
next
  case (get s t f v h)
  have ne: "f \<noteq> fd" using get by (auto simp: lost_def busy_def)
  obtain hdl where h: "m_fd_set (srv s) f = Some h" "handles (srv s) h = Some hdl"
      "v = srv s\<lparr>handles := (handles (srv s))(h \<mapsto> hdl\<lparr>href := href hdl + 1\<rparr>)\<rparr>"
    using get(2) by (auto simp: get_handle_def split: option.splits)
  have k: "keeps_handles (srv s) v" by (rule keeps_update [OF h(2), of "hdl\<lparr>href := href hdl + 1\<rparr>"]) (simp_all add: h(3))
  have "handles_ok s" using get(3) by (simp add: lost_def)
  then have "handles_ok (s\<lparr>srv := v, pcs := (pcs s)(t := Serving f h)\<rparr>)"
    by (rule handles_ok_step) (use k h in \<open>auto split: if_splits\<close>)
  then show ?case using get(3) ne h(3) by (auto simp: lost_def busy_def)
next
  case (fail s t f h v)
  then show ?case using lost_release [of fd s t f h True v Waiting] by simp
next
  case (reply s t f h keep v)
  then show ?case using lost_release [of fd s t f h "\<not> keep" v "Rearming f"] by simp
next
  case (rearm s t f)
  have ne: "f \<noteq> fd" using rearm by (auto simp: lost_def busy_def)
  have "handles_ok s" using rearm(2) by (simp add: lost_def)
  then have "handles_ok (s\<lparr>srv := add_input_fd f (srv s), pcs := (pcs s)(t := Waiting)\<rparr>)"
    by (rule handles_ok_step) (auto simp: add_input_fd_def intro: keeps_handles_refl split: if_splits)
  then show ?case using rearm(2) ne by (auto simp: lost_def busy_def add_input_fd_def)
qed

lemma lost_forever: "conn_run s as s' \<Longrightarrow> lost fd s \<Longrightarrow> lost fd s'"
  by (induction rule: conn_run.induct) (auto intro: lost_step)

lemma conn_ok_handles:
  assumes "conn_ok s"
  shows "handles_ok s"
proof -
  have tb: "table_ok (srv s)" and th: "threads_ok s" using assms by (auto simp: conn_ok_def)
  have n: "names (srv s) f h" if "m_fd_set (srv s) f = Some h" for f h
  proof -
    from tb that have "h < next_handle (srv s) \<and> (\<exists>hdl. handles (srv s) h = Some hdl \<and> hfd hdl = f)"
      unfolding table_ok_def by blast
    then show ?thesis by (auto simp: names_def)
  qed
  then show ?thesis using threads_okD(6) [OF th] unfolding handles_ok_def by blast
qed

text \<open>The two halves of the run: up to the new connection, and what is left at the end.\<close>

lemma close_and_reuse:
  fixes s :: conn_sys
  defines "v1 \<equiv> srv s\<lparr>next_handle := Suc (next_handle (srv s))\<rparr>"
  assumes "table_ok (srv s)" and "ready s = []" and "pcs s t0 = Waiting" and "pcs s t1 = Waiting" and "t0 \<noteq> t1"
    and "fd \<notin> open_fds (srv s)" and "fd < 1024" and "now_connections (srv s) < MAX_FD_NUM"
  shows "conn_run s [Accept fd, EpollWait [fd], Pick t0 fd, GetHandle t0, Reply t0 False,
      Accept fd, EpollWait [fd], Pick t1 fd, GetHandle t1]
    (s\<lparr>srv := opened fd 1 v1, pcs := (pcs s)(t0 := Rearming fd, t1 := Serving fd (next_handle v1))\<rparr>)"
proof -
  let ?v = "srv s"
  have fd: "m_fd_set ?v fd = None" "fd \<notin> epoll_set ?v" using assms(2,7) by (auto simp: table_ok_def)
  let ?a = "s\<lparr>srv := opened fd 1 ?v, pcs := (pcs s)(t0 := Serving fd (next_handle ?v))\<rparr>"
  let ?b = "s\<lparr>srv := v1, pcs := (pcs s)(t0 := Rearming fd)\<rparr>"
  have 1: "conn_run s [Accept fd, EpollWait [fd], Pick t0 fd, GetHandle t0] ?a"
    by (rule conn_run_schedule [OF open_and_take]) (use assms(3-) fd in auto)
  have 2: "conn_schedule [Reply t0 False] ?a = Some ?b"
    using reply_closes [of ?a t0 fd ?v] table_ok_fresh [OF assms(2)] assms(7) fd by (simp add: v1_def)
  have "ready ?b = []" "pcs ?b t1 = Waiting" "fd \<notin> open_fds (srv ?b)" "fd < 1024" "now_connections (srv ?b) < MAX_FD_NUM"
    "m_fd_set (srv ?b) fd = None" "fd \<notin> epoll_set (srv ?b)"
    using assms(3-) fd by (simp_all add: v1_def)
  from open_and_take [OF this] have
    "conn_schedule [Accept fd, EpollWait [fd], Pick t1 fd, GetHandle t1] ?b =
      Some (s\<lparr>srv := opened fd 1 v1, pcs := (pcs s)(t0 := Rearming fd, t1 := Serving fd (next_handle v1))\<rparr>)" by simp
  from conn_run_append [OF conn_run_append [OF 1 2] this] show ?thesis by simp
qed

lemma lost_at_end:
  assumes "conn_ok s" and "ready s = []" and "fd \<notin> open_fds (srv s)" and "\<forall>t. pcs s t \<noteq> Rearming fd"
    and "ready s4 = ready s" and "pcs s4 = pcs s" and "srv s4 = opened fd n (srv s\<lparr>next_handle := Suc (next_handle (srv s))\<rparr>)"
  shows "lost fd s4"
proof -
  let ?v = "srv s" and ?h = "Suc (next_handle (srv s))"
  have tb: "table_ok ?v" and th: "threads_ok s" using assms(1) by (auto simp: conn_ok_def)
  have fd: "m_fd_set ?v fd = None" "fd \<notin> epoll_set ?v" using tb assms(3) by (auto simp: table_ok_def)
  have "\<not> busy s t fd" for t
    using assms(4) th fd(1) by (fastforce simp: busy_def threads_ok_def)
  then have nobody: "\<not> busy s4 t fd" for t by (simp add: busy_def assms(6))
  have "keeps_handles ?v (srv s4)" "names (srv s4) fd ?h"
    by (auto simp: keeps_handles_def names_def opened_def assms(7))
  with conn_ok_handles [OF assms(1)] have "handles_ok s4"
    by (intro handles_ok_step [of s s4]) (simp_all add: assms(6,7) opened_def split: if_splits)
  then show ?thesis using nobody fd(2) assms(2,5) by (simp add: lost_def assms(7) opened_def)
qed

section \<open>Properties\<close>

text \<open>
  C6. In every interleaving of any number of threads, as long as the kernel does not reuse the number
  of a connection that a thread is about to rearm: a connection is served by at most one thread, the
  connection counter is the number of open connections and at most 1024, a thread that picked a
  descriptor finds its handle, and \<open>release_handle\<close> never takes its error branch.
\<close>

theorem connections_exclusive:
  assumes "safe_run as s"
  shows "(\<forall>t t' fd h h'. pcs s t = Serving fd h \<longrightarrow> pcs s t' = Serving fd h' \<longrightarrow> t = t') \<and>
    now_connections (srv s) = int (card (open_fds (srv s))) \<and> now_connections (srv s) \<le> 1024 \<and>
    (\<forall>t fd. pcs s t = Picked fd \<longrightarrow> (\<exists>v h. get_handle fd (srv s) = Inr (v, Some h))) \<and>
    (\<forall>t fd h. pcs s t = Serving fd h \<longrightarrow>
       (\<exists>v. release_handle h True (srv s) = Inr v \<and> open_fds v = open_fds (srv s) - {fd} \<and> handles v h = None))"
proof -
  have ok: "conn_ok s" by (rule safe_run_ok [OF assms])
  then have tb: "table_ok (srv s)" and th: "threads_ok s" by (auto simp: conn_ok_def)
  have "\<exists>v h. get_handle fd (srv s) = Inr (v, Some h)" if "pcs s t = Picked fd" for t fd
    using get_handle_total [OF tb threads_okD(5) [OF th that]] .
  moreover have "\<exists>v. release_handle h True (srv s) = Inr v \<and> open_fds v = open_fds (srv s) - {fd} \<and> handles v h = None"
    if at: "pcs s t = Serving fd h" for t fd h
    using serving_facts(1) [OF ok at] release_serving(1) [OF ok at] by auto
  moreover have "t = t'" if "pcs s t = Serving fd h" "pcs s t' = Serving fd h'" for t t' fd h h'
    using serving_facts(2) [OF ok that(2), of t h] that(1) by simp
  ultimately show ?thesis using table_okD(2,3,4) [OF tb] by (simp add: MAX_FD_NUM_def)
qed

theorem connections_exclusive_witness:
  "\<exists>s. safe_run [Accept 5] s \<and> now_connections (srv s) = int (card (open_fds (srv s))) \<and> open_fds (srv s) = {5}"
proof -
  let ?v = "accept_fd 5 (srv init_sys\<lparr>open_fds := insert 5 (open_fds (srv init_sys))\<rparr>)"
  have "conn_step init_sys (Accept 5) (init_sys\<lparr>srv := ?v\<rparr>)" by (rule conn_step.accept) (simp add: init_sys_def)
  then have r: "safe_run ([] @ [Accept 5]) (init_sys\<lparr>srv := ?v\<rparr>)"
    by (rule safe_snoc [OF safe_nil]) (simp add: no_reuse_def init_sys_def)
  moreover have "open_fds ?v = {5}" by (simp add: conn_eval)
  ultimately show ?thesis using connections_exclusive [OF r] by auto
qed

text \<open>
  C36. The late \<open>add_input_fd\<close> of \<open>recv_request\<close> loses connections. Take any state that threads reach
  without reuse, with no event at hand, room in the table, three threads waiting and \<open>fd\<close> closed and
  with no thread. Then a run leads to a state in which \<open>t0\<close> has closed its connection \<open>fd\<close> and is about
  to rearm it while \<open>t1\<close> serves a new connection with the same number; the step of \<open>t0\<close> makes epoll
  watch \<open>fd\<close>; \<open>t2\<close> then takes it, so that two threads serve one connection with one handle; when both
  have given it up, every thread is where it was at the start, but the connection is open and counted,
  and in every continuation it stays open, unwatched and served by nobody.
\<close>

theorem late_rearm_leaks_connection:
  assumes "safe_run as0 s" and "ready s = []" and "distinct [t0, t1, t2]" and "\<forall>t \<in> {t0, t1, t2}. pcs s t = Waiting"
    and "fd \<notin> open_fds (srv s)" and "\<forall>t. pcs s t \<noteq> Rearming fd" and "fd < 1024" and "now_connections (srv s) < MAX_FD_NUM"
  shows "\<exists>s1 s2 s3 s4 h.
    conn_run s [Accept fd, EpollWait [fd], Pick t0 fd, GetHandle t0, Reply t0 False,
      Accept fd, EpollWait [fd], Pick t1 fd, GetHandle t1] s1 \<and>
    pcs s1 t0 = Rearming fd \<and> pcs s1 t1 = Serving fd h \<and> fd \<notin> epoll_set (srv s1) \<and>
    conn_step s1 (Rearm t0) s2 \<and> fd \<in> epoll_set (srv s2) \<and>
    conn_run s2 [EpollWait [fd], Pick t2 fd, GetHandle t2] s3 \<and> pcs s3 t1 = Serving fd h \<and> pcs s3 t2 = Serving fd h \<and>
    conn_run s3 [Fail t2, Fail t1] s4 \<and> pcs s4 = pcs s \<and> now_connections (srv s4) = now_connections (srv s) + 1 \<and>
    (\<forall>as s'. conn_run s4 as s' \<longrightarrow>
      fd \<in> open_fds (srv s') \<and> fd \<notin> epoll_set (srv s') \<and> (\<forall>t h'. pcs s' t \<noteq> Serving fd h'))"
proof -
  let ?v1 = "srv s\<lparr>next_handle := Suc (next_handle (srv s))\<rparr>"
  let ?h = "next_handle ?v1"
  let ?s1 = "s\<lparr>srv := opened fd 1 ?v1, pcs := (pcs s)(t0 := Rearming fd, t1 := Serving fd ?h)\<rparr>"
  let ?s2 = "?s1\<lparr>srv := add_input_fd fd (srv ?s1), pcs := (pcs ?s1)(t0 := Waiting)\<rparr>"
  let ?s3 = "?s1\<lparr>srv := opened fd 2 ?v1, pcs := (pcs ?s1)(t0 := Waiting, t2 := Serving fd ?h)\<rparr>"
  let ?s4 = "?s3\<lparr>srv := opened fd (-2) ?v1, pcs := (pcs ?s3)(t2 := Waiting, t1 := Waiting)\<rparr>"
  have ok: "conn_ok s" by (rule safe_run_ok [OF assms(1)])
  then have tb: "table_ok (srv s)" by (simp add: conn_ok_def)
  have fd: "fd \<notin> epoll_set (srv s)" using tb assms(5) by (auto simp: table_ok_def)
  have w: "pcs s t0 = Waiting" "pcs s t1 = Waiting" "pcs s t2 = Waiting" "t0 \<noteq> t1" "t0 \<noteq> t2" "t1 \<noteq> t2"
    using assms(3,4) by auto
  note r1 = close_and_reuse [OF tb assms(2) w(1,2,4) assms(5,7,8)]
  have r2: "conn_step ?s1 (Rearm t0) ?s2" by (rule conn_step.rearm) (use w in simp)
  have r3: "conn_run ?s2 [EpollWait [fd], Pick t2 fd, GetHandle t2] ?s3"
    using conn_run_schedule [OF rearm_and_take [of ?s1 fd ?v1 t0 t2]] assms(2) w fd by simp
  have r4: "conn_run ?s3 [Fail t2, Fail t1] ?s4"
    using conn_run_schedule [OF both_fail [of ?s3 fd ?v1 t1 t2]] w by simp
  have p1: "pcs ?s1 t0 = Rearming fd" "pcs ?s1 t1 = Serving fd ?h" "fd \<notin> epoll_set (srv ?s1)"
    using w fd by (simp_all add: opened_def)
  have p2: "fd \<in> epoll_set (srv ?s2)" by (simp add: add_input_fd_def opened_def)
  have p3: "pcs ?s3 t1 = Serving fd ?h" "pcs ?s3 t2 = Serving fd ?h" using w by simp_all
  have p4: "pcs ?s4 = pcs s" "now_connections (srv ?s4) = now_connections (srv s) + 1"
    using w by (auto simp: fun_eq_iff opened_def)
  have "lost fd ?s4" using lost_at_end [OF ok assms(2,5,6) _ p4(1)] by simp
  then have forever: "\<forall>as s'. conn_run ?s4 as s' \<longrightarrow>
      fd \<in> open_fds (srv s') \<and> fd \<notin> epoll_set (srv s') \<and> (\<forall>t h'. pcs s' t \<noteq> Serving fd h')"
    using lost_forever [of ?s4 _ _ fd] unfolding lost_def busy_def by blast
  show ?thesis
    by (rule exI [of _ ?s1], rule exI [of _ ?s2], rule exI [of _ ?s3], rule exI [of _ ?s4], rule exI [of _ ?h])
      (intro conjI; (rule r1 p1 r2 p2 r3 p3 r4 p4 forever))
qed

theorem late_rearm_leaks_connection_witness:
  "\<exists>s1 s2 s3 s4 h.
    conn_run init_sys [Accept 5, EpollWait [5], Pick 0 5, GetHandle 0, Reply 0 False,
      Accept 5, EpollWait [5], Pick 1 5, GetHandle 1] s1 \<and>
    conn_step s1 (Rearm 0) s2 \<and> conn_run s2 [EpollWait [5], Pick 2 5, GetHandle 2] s3 \<and>
    pcs s3 1 = Serving 5 h \<and> pcs s3 2 = Serving 5 h \<and> conn_run s3 [Fail 2, Fail 1] s4 \<and>
    now_connections (srv s4) = now_connections (srv init_sys) + 1"
proof -
  have "distinct [0, 1, 2 :: nat]" "\<forall>t \<in> {0, 1, 2}. pcs init_sys t = Waiting" "\<forall>t. pcs init_sys t \<noteq> Rearming 5"
    "ready init_sys = []" "(5::int) \<notin> open_fds (srv init_sys)" "(5::int) < 1024" "now_connections (srv init_sys) < MAX_FD_NUM"
    by (simp_all add: init_sys_def MAX_FD_NUM_def)
  from late_rearm_leaks_connection [OF safe_nil this(4,1,2,5,3,6,7)] show ?thesis
    by (elim exE conjE) (intro exI conjI; assumption)
qed

end
