(* ===== verification/Location.thy ===== *)
theory Location
  imports HttpServer UrlCodec Complex_Main
begin

text \<open>
  The location search behind the HTTP handler: \<open>src/locate_getresult/locate_getresult.cpp\<close> loads
  records with a position from a file and returns those within a distance, the nearest first;
  \<open>generate_json_result\<close> and \<open>generate_response\<close> of \<open>src/http_server/HttpHandler.cpp\<close> answer every
  request with the ten nearest to one fixed position. A \<open>long double\<close> is a real number or not a
  number, and the rounding of the arithmetic and of the mathematical functions is a parameter; the
  JSON printer (jsoncpp) is a parameter from the list of items to the text.
\<close>

section \<open>Floating point\<close>

text \<open>
  \<open>None\<close> is NaN; an infinity also counts as \<open>None\<close>, because every computation below makes a NaN of it
  (sine and cosine of an infinite angle). \<open>rnd\<close> rounds the exact result of an operation, and has no
  value beyond the range; \<open>dbl\<close> is the value of a decimal literal; the functions of \<open>math.h\<close> return
  some approximation. Outside their domains \<open>asin\<close> and \<open>sqrt\<close> return NaN.
\<close>

type_synonym ldouble = "real option"

record fpu =
  rnd :: "real \<Rightarrow> ldouble"
  dbl :: "real \<Rightarrow> real"
  ld_max :: real
  fn_sin :: "real \<Rightarrow> real"
  fn_cos :: "real \<Rightarrow> real"
  fn_asin :: "real \<Rightarrow> real"
  fn_sqrt :: "real \<Rightarrow> real"

definition c_asin :: "fpu \<Rightarrow> real \<Rightarrow> ldouble" where
  "c_asin F x = (if -1 \<le> x \<and> x \<le> 1 then Some (fn_asin F x) else None)"

definition c_sqrt :: "fpu \<Rightarrow> real \<Rightarrow> ldouble" where
  "c_sqrt F x = (if 0 \<le> x then Some (fn_sqrt F x) else None)"

text \<open>Comparisons with NaN are false.\<close>

definition ld_ge :: "ldouble \<Rightarrow> ldouble \<Rightarrow> bool" where
  "ld_ge x y = (case (x, y) of (Some a, Some b) \<Rightarrow> a \<ge> b | _ \<Rightarrow> False)"

definition ld_gt :: "ldouble \<Rightarrow> ldouble \<Rightarrow> bool" where
  "ld_gt x y = (case (x, y) of (Some a, Some b) \<Rightarrow> a > b | _ \<Rightarrow> False)"

section \<open>Loading\<close>

record ResultData =
  longitude :: ldouble
  latitude :: ldouble
  lng :: bytes
  lat :: bytes
  title :: bytes
  url :: bytes
  source :: bytes
  datatime :: bytes

text \<open>
  Reading a \<open>long double\<close> from a stream: sign, digits, fraction, exponent; 0 when the text is no
  number, the largest number of its sign when it is too large. An empty field ends the stream before
  anything is read: the variable keeps what it held.
\<close>

definition signed_digits :: "bytes \<Rightarrow> int option" where
  "signed_digits s =
     (let neg = (s \<noteq> [] \<and> hd s = CHR ''-'');
          u = (if s \<noteq> [] \<and> (hd s = CHR ''-'' \<or> hd s = CHR ''+'') then tl s else s);
          ds = takeWhile c_isdigit u
      in if ds = [] then None else Some (if neg then - digits_val ds else digits_val ds))"

definition read_mantissa :: "bytes \<Rightarrow> real \<times> nat \<times> bytes" where
  "read_mantissa u =
     (let ds = takeWhile c_isdigit u; v = dropWhile c_isdigit u;
          fs = (if v \<noteq> [] \<and> hd v = CHR ''.'' then takeWhile c_isdigit (tl v) else []);
          rest = (if v \<noteq> [] \<and> hd v = CHR ''.'' then dropWhile c_isdigit (tl v) else v)
      in (of_int (digits_val (ds @ fs)) / 10 ^ length fs, length ds + length fs, rest))"

definition nearest_ld :: "fpu \<Rightarrow> real \<Rightarrow> ldouble" where
  "nearest_ld F x = (case rnd F x of Some y \<Rightarrow> Some y | None \<Rightarrow> Some (if x < 0 then - ld_max F else ld_max F))"

definition read_real :: "fpu \<Rightarrow> ldouble \<Rightarrow> bytes \<Rightarrow> ldouble" where
  "read_real F old s =
     (let t = dropWhile c_isspace (cstr s);
          neg = (t \<noteq> [] \<and> hd t = CHR ''-'');
          u = (if t \<noteq> [] \<and> (hd t = CHR ''-'' \<or> hd t = CHR ''+'') then tl t else t);
          (m, n, rest) = read_mantissa u;
          x = (if neg then - m else m)
      in if t = [] then old
         else if n = 0 then Some 0
         else if rest \<noteq> [] \<and> (hd rest = CHR ''e'' \<or> hd rest = CHR ''E'')
              then (case signed_digits (tl rest) of None \<Rightarrow> Some 0 | Some e \<Rightarrow> nearest_ld F (x * 10 powi e))
              else nearest_ld F x)"

text \<open>
  The fields up to each tabulator, empty ones included; a tabulator is appended to the line. The
  index \<open>j\<close> is an \<open>int\<close>: \<open>None\<close> when it would leave its range, in the narrowing of \<open>tmp_pos\<close> or in \<open>j++\<close>.
\<close>

definition tab :: char where
  "tab = CHR 0x09"

function fields_loop :: "bytes \<Rightarrow> nat \<Rightarrow> bytes list option" where
  "fields_loop q j =
     (if j < length q
      then (case find_from q [tab] j of
              Some p \<Rightarrow> if p + 1 \<ge> 2 ^ 31 then None
                        else map_option (Cons (take (p - j) (drop j q))) (fields_loop q (p + 1))
            | None \<Rightarrow> if j + 1 \<ge> 2 ^ 31 then None else fields_loop q (j + 1))
      else Some [])"
  by pat_completeness auto
termination
  by (relation "measure (\<lambda>(q, j). length q - j)") (auto simp: find_from_def split: if_splits)

declare fields_loop.simps [simp del]

definition trim_line :: "bytes \<Rightarrow> bytes" where
  "trim_line s = rev (dropWhile c_isspace (rev (dropWhile c_isspace s)))"

text \<open>
  The two numbers are members of an uninitialised local; \<open>junk n\<close> is what its memory holds when the
  record with the number \<open>n\<close> is read.
\<close>

definition load_line :: "fpu \<Rightarrow> (nat \<Rightarrow> ldouble) \<Rightarrow> bytes \<Rightarrow> ResultData list \<Rightarrow> ResultData list option" where
  "load_line F junk line0 locateInfoALL =
     (let line = trim_line line0; old = junk (length locateInfoALL)
      in case fields_loop (line @ [tab]) 0 of
           None \<Rightarrow> None
         | Some eles \<Rightarrow>
             if length eles \<noteq> 6 then Some locateInfoALL
             else Some (locateInfoALL @
               [\<lparr>longitude = read_real F old (eles ! 0), latitude = read_real F old (eles ! 1), lng = eles ! 0,
                 lat = eles ! 1, title = eles ! 2, url = eles ! 5, source = eles ! 3, datatime = eles ! 4\<rparr>]))"

fun load_lines :: "fpu \<Rightarrow> (nat \<Rightarrow> ldouble) \<Rightarrow> bytes list \<Rightarrow> ResultData list \<Rightarrow> ResultData list option" where
  "load_lines F junk [] locateInfoALL = Some locateInfoALL"
| "load_lines F junk (line # ls) locateInfoALL =
     (case load_line F junk line locateInfoALL of None \<Rightarrow> None | Some all \<Rightarrow> load_lines F junk ls all)"

definition loaddiclocate :: "fpu \<Rightarrow> (nat \<Rightarrow> ldouble) \<Rightarrow> bytes option \<Rightarrow> ResultData list \<Rightarrow> ResultData list option" where
  "loaddiclocate F junk file locateInfoALL =
     (case file of
        None \<Rightarrow> Some locateInfoALL
      | Some content \<Rightarrow> load_lines F junk (stream_lines content) locateInfoALL)"

section \<open>Distances\<close>

definition EARTH_RADIUS :: "fpu \<Rightarrow> real" where
  "EARTH_RADIUS F = dbl F 6370996.81"

definition rad :: "fpu \<Rightarrow> real \<Rightarrow> ldouble" where
  "rad F d = do { x \<leftarrow> rnd F (d * dbl F 3.1415926); rnd F (x / 180) }"

text \<open>\<open>round\<close> of C: half away from zero.\<close>

definition c_round :: "real \<Rightarrow> real" where
  "c_round x = (if x < 0 then - of_int \<lfloor>- x + 1 / 2\<rfloor> else of_int \<lfloor>x + 1 / 2\<rfloor>)"

text \<open>
  The great-circle distance. Rounding can bring the argument of \<open>asin\<close> above 1, or that of \<open>sqrt\<close>
  below 0: the result is NaN then, as it is for a coordinate that is no number.
\<close>

definition half_sine_square :: "fpu \<Rightarrow> real \<Rightarrow> ldouble" where
  "half_sine_square F x = do { h \<leftarrow> rnd F (x / 2); rnd F (fn_sin F h ^ 2) }"

definition GetDistance :: "fpu \<Rightarrow> ldouble \<Rightarrow> ldouble \<Rightarrow> ldouble \<Rightarrow> ldouble \<Rightarrow> ldouble" where
  "GetDistance F lat1 lng1 lat2 lng2 = do {
     lat1 \<leftarrow> lat1; lng1 \<leftarrow> lng1; lat2 \<leftarrow> lat2; lng2 \<leftarrow> lng2;
     radLat1 \<leftarrow> rad F lat1;
     radLat2 \<leftarrow> rad F lat2;
     a \<leftarrow> rnd F (radLat1 - radLat2);
     radLng1 \<leftarrow> rad F lng1;
     radLng2 \<leftarrow> rad F lng2;
     b \<leftarrow> rnd F (radLng1 - radLng2);
     p \<leftarrow> half_sine_square F a;
     q \<leftarrow> half_sine_square F b;
     c \<leftarrow> rnd F (fn_cos F radLat1 * fn_cos F radLat2);
     cq \<leftarrow> rnd F (c * q);
     u \<leftarrow> rnd F (p + cq);
     v \<leftarrow> c_sqrt F u;
     w \<leftarrow> c_asin F v;
     s \<leftarrow> rnd F (2 * w);
     s \<leftarrow> rnd F (s * EARTH_RADIUS F);
     m \<leftarrow> rnd F (s * 10000);
     rnd F (c_round m / 10000)
   }"

section \<open>The search\<close>

text \<open>\<open>None\<close> as the state of the search is an insertion outside a vector.\<close>

definition insert_at :: "nat \<Rightarrow> 'a \<Rightarrow> 'a list \<Rightarrow> 'a list option" where
  "insert_at i x xs = (if i \<le> length xs then Some (take i xs @ x # drop i xs) else None)"

text \<open>The first distance that is larger.\<close>

fun first_larger :: "ldouble list \<Rightarrow> ldouble \<Rightarrow> nat" where
  "first_larger [] t = 0"
| "first_larger (d # ds) t = (if ld_gt d t then 0 else Suc (first_larger ds t))"

definition add_result :: "ResultData \<Rightarrow> ldouble \<Rightarrow> ldouble list \<times> ResultData list \<Rightarrow> (ldouble list \<times> ResultData list) option" where
  "add_result r tmpDis = (\<lambda>(vecDistance, locateResult).
     let vit = first_larger vecDistance tmpDis
     in if vit = length vecDistance then Some (vecDistance @ [tmpDis], locateResult @ [r])
        else (case insert_at vit tmpDis vecDistance of None \<Rightarrow> None
              | Some vd \<Rightarrow> map_option (Pair vd) (insert_at vit r locateResult)))"

fun search_results :: "fpu \<Rightarrow> ldouble \<Rightarrow> ldouble \<Rightarrow> ldouble \<Rightarrow> ResultData list \<Rightarrow> ldouble list \<times> ResultData list
    \<Rightarrow> (ldouble list \<times> ResultData list) option" where
  "search_results F lo la distance [] st = Some st"
| "search_results F lo la distance (r # rs) st =
     (let tmpDis = GetDistance F la lo (latitude r) (longitude r)
      in if ld_ge tmpDis distance then search_results F lo la distance rs st
         else (case add_result r tmpDis st of None \<Rightarrow> None | Some st' \<Rightarrow> search_results F lo la distance rs st'))"

definition GetLocationResult :: "fpu \<Rightarrow> ldouble \<Rightarrow> ldouble \<Rightarrow> ResultData list \<Rightarrow> ResultData list \<Rightarrow> ldouble \<Rightarrow> ResultData list option" where
  "GetLocationResult F lo la locateInfoALL locateResult distance =
     map_option snd (search_results F lo la distance locateInfoALL ([], locateResult))"

section \<open>The answer of the handler\<close>

definition json_item :: "ResultData \<Rightarrow> (string \<times> bytes) list" where
  "json_item r =
     [(''longitude'', lng r), (''latitude'', lat r), (''title'', UrlEncode (title r)), (''url'', UrlEncode (url r)),
      (''source'', UrlEncode (source r)), (''datetime'', UrlEncode (datatime r))]"

definition generate_json_result :: "((string \<times> bytes) list list \<Rightarrow> bytes) \<Rightarrow> ResultData list \<Rightarrow> bytes" where
  "generate_json_result styled locateResult =
     (let returnLen = (if 10 > length locateResult then length locateResult else 10)
      in styled (map (\<lambda>i. json_item (locateResult ! i)) [0..<returnLen]))"

text \<open>
  What \<open>generate_response\<close> computes from the text of the request: the values that were read are
  overwritten by constants before the search.
\<close>

definition location_backend :: "fpu \<Rightarrow> ((string \<times> bytes) list list \<Rightarrow> bytes) \<Rightarrow> ResultData list \<Rightarrow> bytes \<Rightarrow> bytes option" where
  "location_backend F styled locateInfoALL request =
     map_option (generate_json_result styled)
       (GetLocationResult F (Some (dbl F 116.403133)) (Some (dbl F 39.947066)) locateInfoALL [] (Some 10000000000))"

text \<open>
  \<open>generate_response\<close> with this backend. The vendored jsoncpp raises an exception, which nothing
  catches, when the request is JSON text whose members are no numbers (\<open>raises\<close>); that is \<open>Inl None\<close>.
\<close>

definition generate_response_json :: "fpu \<Rightarrow> (bytes \<Rightarrow> bool) \<Rightarrow> ((string \<times> bytes) list list \<Rightarrow> bytes) \<Rightarrow> ResultData list
    \<Rightarrow> bytes \<Rightarrow> worker \<Rightarrow> server_fault option + worker \<times> int" where
  "generate_response_json F raises styled locateInfoALL junk w =
     (case content_buf w of
        None \<Rightarrow> Inl (Some NullWrite)
      | Some content \<Rightarrow>
          if raises (cstr content) then Inl None
          else (case generate_response (location_backend F styled locateInfoALL) junk w of
                  Inl e \<Rightarrow> Inl (Some e) | Inr r \<Rightarrow> Inr r))"

section \<open>What a file loads\<close>

lemma find_from_tab:
  assumes "tab \<notin> set f"
  shows "find_from (pre @ f @ tab # post) [tab] (length pre) = Some (length pre + length f)"
proof -
  have "find_sub (f @ tab # post) [tab] = Some (length f)" using assms by (induction f) auto
  then show ?thesis by (simp add: find_from_def)
qed

lemma fields_loop_fields:
  assumes "\<forall>f \<in> set fs. tab \<notin> set f" and "length pre + length (concat (map (\<lambda>f. f @ [tab]) fs)) < 2 ^ 31"
  shows "fields_loop (pre @ concat (map (\<lambda>f. f @ [tab]) fs)) (length pre) = Some fs"
  using assms
proof (induction fs arbitrary: pre)
  case Nil
  then show ?case by (subst fields_loop.simps) simp
next
  case (Cons f fs)
  let ?post = "concat (map (\<lambda>f. f @ [tab]) fs)"
  have "fields_loop ((pre @ f @ [tab]) @ ?post) (length (pre @ f @ [tab])) = Some fs"
    using Cons.prems by (intro Cons.IH) simp_all
  moreover have "find_from (pre @ f @ tab # ?post) [tab] (length pre) = Some (length pre + length f)"
    using Cons.prems by (intro find_from_tab) simp
  ultimately show ?case using Cons.prems(2) by (subst fields_loop.simps) (simp add: ac_simps)
qed

lemma stream_lines_lines:
  assumes "\<forall>l \<in> set ls. CHR 0x0A \<notin> set l"
  shows "stream_lines (concat (map (\<lambda>l. l @ [CHR 0x0A]) ls)) = ls"
  using assms
proof (induction ls)
  case (Cons l ls)
  then have "\<forall>c \<in> set l. c \<noteq> CHR 0x0A" by auto
  then have "takeWhile (\<lambda>c. c \<noteq> CHR 0x0A) (l @ CHR 0x0A # r) = l"
      "dropWhile (\<lambda>c. c \<noteq> CHR 0x0A) (l @ CHR 0x0A # r) = CHR 0x0A # r" for r
    by (simp_all add: takeWhile_append2 dropWhile_append2)
  then show ?case using Cons by (subst stream_lines.simps) simp
qed (simp add: stream_lines.simps)

lemma trim_line_id: "s \<noteq> [] \<Longrightarrow> \<not> c_isspace (hd s) \<Longrightarrow> \<not> c_isspace (last s) \<Longrightarrow> trim_line s = s"
proof -
  assume s: "s \<noteq> []" "\<not> c_isspace (hd s)" "\<not> c_isspace (last s)"
  then have "dropWhile c_isspace s = s" by (simp add: dropWhile_eq_self_iff)
  moreover have "dropWhile c_isspace (rev s) = rev s" using s by (simp add: dropWhile_eq_self_iff hd_rev)
  ultimately show ?thesis by (simp add: trim_line_def)
qed

text \<open>
  The text of a record, and the records that survive: no tabulator or line end inside a field, and
  a line whose positions fit an \<open>int\<close>.
\<close>

definition row_fields :: "ResultData \<Rightarrow> bytes list" where
  "row_fields r = [lng r, lat r, title r, source r, datatime r, url r]"

definition row_line :: "ResultData \<Rightarrow> bytes" where
  "row_line r = butlast (concat (map (\<lambda>f. f @ [tab]) (row_fields r)))"

definition row_ok :: "fpu \<Rightarrow> ResultData \<Rightarrow> bool" where
  "row_ok F r \<longleftrightarrow> (\<forall>f \<in> set (row_fields r). tab \<notin> set f \<and> CHR 0x0A \<notin> set f) \<and> length (row_line r) + 1 < 2 ^ 31 \<and>
     lng r \<noteq> [] \<and> \<not> c_isspace (hd (lng r)) \<and> lat r \<noteq> [] \<and> \<not> c_isspace (hd (lat r)) \<and>
     hd (lat r) \<noteq> NUL \<and> hd (lng r) \<noteq> NUL \<and> url r \<noteq> [] \<and> \<not> c_isspace (last (url r)) \<and>
     longitude r = read_real F None (lng r) \<and> latitude r = read_real F None (lat r)"

lemma read_real_old: "s \<noteq> [] \<Longrightarrow> \<not> c_isspace (hd s) \<Longrightarrow> hd s \<noteq> NUL \<Longrightarrow> read_real F old s = read_real F None s"
  by (cases s) (simp_all add: read_real_def cstr_def Let_def)

lemma load_line_row:
  assumes "row_ok F r"
  shows "load_line F junk (row_line r) all = Some (all @ [r])"
proof -
  have line: "row_line r @ [tab] = concat (map (\<lambda>f. f @ [tab]) (row_fields r))"
    by (simp add: row_line_def row_fields_def butlast_append)
  have ends: "row_line r = lng r @ tab # (lat r @ tab # title r @ tab # source r @ tab # datatime r @ [tab]) @ url r"
    by (simp add: row_line_def row_fields_def butlast_append)
  have "trim_line (row_line r) = row_line r"
    using assms by (intro trim_line_id) (auto simp: ends row_ok_def)
  moreover have "length (concat (map (\<lambda>f. f @ [tab]) (row_fields r))) < 2 ^ 31"
    using assms unfolding line [symmetric] by (simp add: row_ok_def)
  then have "fields_loop (row_line r @ [tab]) 0 = Some (row_fields r)"
    using fields_loop_fields [of "row_fields r" "[]"] assms by (simp add: line row_ok_def)
  moreover have "read_real F old (lng r) = longitude r" "read_real F old (lat r) = latitude r" for old
    using assms read_real_old [of "lng r" F old] read_real_old [of "lat r" F old] by (auto simp: row_ok_def)
  ultimately show ?thesis by (simp add: load_line_def row_fields_def)
qed

lemma loaddiclocate_rows:
  assumes "\<forall>r \<in> set rs. row_ok F r"
  shows "loaddiclocate F junk (Some (concat (map (\<lambda>r. row_line r @ [CHR 0x0A]) rs))) all = Some (all @ rs)"
proof -
  have "CHR 0x0A \<notin> set (row_line r)" if "row_ok F r" for r
    using that by (auto simp: row_ok_def row_line_def row_fields_def butlast_append tab_def)
  then have "stream_lines (concat (map (\<lambda>l. l @ [CHR 0x0A]) (map row_line rs))) = map row_line rs"
    using assms by (intro stream_lines_lines) auto
  moreover have "load_lines F junk (map row_line rs) all = Some (all @ rs)"
    using assms by (induction rs arbitrary: all) (simp_all add: load_line_row)
  ultimately show ?thesis by (simp add: loaddiclocate_def comp_def)
qed

section \<open>The search is a stable sort\<close>

definition insert_after :: "('b \<Rightarrow> real) \<Rightarrow> 'b \<Rightarrow> 'b list \<Rightarrow> 'b list" where
  "insert_after f x xs = takeWhile (\<lambda>y. f y \<le> f x) xs @ x # dropWhile (\<lambda>y. f y \<le> f x) xs"

lemma first_larger_takeWhile:
  "first_larger (map (\<lambda>y. Some (f y)) xs) (Some t) = length (takeWhile (\<lambda>y. f y \<le> t) xs)"
  by (induction xs) (auto simp: ld_gt_def)

lemma add_result_insert:
  "add_result r (Some (f r)) (map (\<lambda>y. Some (f y)) xs, xs) =
     Some (map (\<lambda>y. Some (f y)) (insert_after f r xs), insert_after f r xs)"
proof -
  let ?n = "length (takeWhile (\<lambda>y. f y \<le> f r) xs)"
  have t: "take ?n xs = takeWhile (\<lambda>y. f y \<le> f r) xs" and d: "drop ?n xs = dropWhile (\<lambda>y. f y \<le> f r) xs"
    by (metis append_eq_conv_conj takeWhile_dropWhile_id)+
  have le: "?n \<le> length xs" by (rule length_takeWhile_le)
  show ?thesis
  proof (cases "?n = length xs")
    case True
    then have e: "takeWhile (\<lambda>y. f y \<le> f r) xs = xs" "dropWhile (\<lambda>y. f y \<le> f r) xs = []" using t d by simp_all
    have "first_larger (map (\<lambda>y. Some (f y)) xs) (Some (f r)) = length xs"
      using first_larger_takeWhile [of f xs "f r"] True by simp
    moreover have "insert_after f r xs = xs @ [r]" unfolding insert_after_def e by simp
    ultimately show ?thesis by (simp add: add_result_def)
  next
    case False
    then show ?thesis using le t d
      by (simp add: add_result_def first_larger_takeWhile insert_after_def Let_def insert_at_def take_map drop_map)
  qed
qed

lemma insert_between:
  assumes "sorted (map f (A @ B))" and A: "\<forall>y \<in> set A. f y \<le> f x" and B: "\<forall>y \<in> set B. f x < f y"
  shows "sorted (map f (A @ x # B))"
    and "filter (\<lambda>y. f y = k) (A @ x # B) = filter (\<lambda>y. f y = k) (A @ B) @ (if f x = k then [x] else [])"
proof -
  have "sorted (map f A)" "sorted (map f B)" "\<forall>y \<in> set A. \<forall>z \<in> set B. f y \<le> f z"
    using assms(1) by (simp_all add: sorted_append)
  then show "sorted (map f (A @ x # B))" using A B by (simp add: sorted_append less_imp_le)
  have "filter (\<lambda>y. f y = f x) B = []" using B by (simp add: filter_empty_conv less_imp_neq [THEN not_sym])
  then show "filter (\<lambda>y. f y = k) (A @ x # B) = filter (\<lambda>y. f y = k) (A @ B) @ (if f x = k then [x] else [])"
    by (cases "f x = k") simp_all
qed

lemma dropWhile_sorted:
  "sorted (map f xs) \<Longrightarrow> y \<in> set (dropWhile (\<lambda>y. f y \<le> t) xs) \<Longrightarrow> t < (f y :: real)"
  by (induction xs) (force split: if_splits)+

lemma insert_after_sorted:
  assumes "sorted (map f xs)"
  shows "sorted (map f (insert_after f x xs))"
    and "filter (\<lambda>y. f y = k) (insert_after f x xs) = filter (\<lambda>y. f y = k) xs @ (if f x = k then [x] else [])"
    and "mset (insert_after f x xs) = add_mset x (mset xs)"
proof -
  define A B where AB: "A = takeWhile (\<lambda>y. f y \<le> f x) xs" "B = dropWhile (\<lambda>y. f y \<le> f x) xs"
  have xs: "A @ B = xs" by (simp add: AB)
  have B: "\<forall>y \<in> set B. f x < f y" using dropWhile_sorted [OF assms] by (simp add: AB)
  have A: "\<forall>y \<in> set A. f y \<le> f x" using set_takeWhileD [of _ "\<lambda>y. f y \<le> f x" xs] by (auto simp: AB)
  have i: "insert_after f x xs = A @ x # B" by (simp add: insert_after_def AB)
  have s: "sorted (map f (A @ B))" using assms xs by simp
  show "sorted (map f (insert_after f x xs))" unfolding i by (rule insert_between(1) [OF s A B])
  show "filter (\<lambda>y. f y = k) (insert_after f x xs) = filter (\<lambda>y. f y = k) xs @ (if f x = k then [x] else [])"
    unfolding i insert_between(2) [OF s A B] xs ..
  have "mset xs = mset A + mset B" using xs by (metis mset_append)
  then show "mset (insert_after f x xs) = add_mset x (mset xs)" unfolding i by simp
qed

text \<open>From the left to the right, every record goes behind those that are not farther away.\<close>

lemma search_results_sort:
  fixes f :: "ResultData \<Rightarrow> real"
  assumes "\<forall>r \<in> set rs. GetDistance F la lo (latitude r) (longitude r) = Some (f r)" and "sorted (map f xs)"
  shows "\<exists>ys. search_results F lo la (Some distance) rs (map (\<lambda>y. Some (f y)) xs, xs) = Some (map (\<lambda>y. Some (f y)) ys, ys) \<and>
    sorted (map f ys) \<and> mset ys = mset xs + mset (filter (\<lambda>r. f r < distance) rs) \<and>
    (\<forall>k. filter (\<lambda>y. f y = k) ys = filter (\<lambda>y. f y = k) xs @ filter (\<lambda>y. f y = k) (filter (\<lambda>r. f r < distance) rs))"
  using assms
proof (induction rs arbitrary: xs)
  case Nil
  then show ?case by auto
next
  case (Cons r rs)
  have d: "GetDistance F la lo (latitude r) (longitude r) = Some (f r)" using Cons.prems(1) by simp
  show ?case
  proof (cases "f r < distance")
    case True
    let ?xs = "insert_after f r xs"
    note I = insert_after_sorted [OF Cons.prems(2), where x = r]
    have run: "search_results F lo la (Some distance) (r # rs) (map (\<lambda>y. Some (f y)) xs, xs) =
        search_results F lo la (Some distance) rs (map (\<lambda>y. Some (f y)) ?xs, ?xs)"
      using True add_result_insert [of r f xs] by (simp add: d Let_def ld_ge_def)
    obtain ys where ys: "search_results F lo la (Some distance) rs (map (\<lambda>y. Some (f y)) ?xs, ?xs) = Some (map (\<lambda>y. Some (f y)) ys, ys)"
        "sorted (map f ys)" "mset ys = mset ?xs + mset (filter (\<lambda>r. f r < distance) rs)"
        "\<forall>k. filter (\<lambda>y. f y = k) ys = filter (\<lambda>y. f y = k) ?xs @ filter (\<lambda>y. f y = k) (filter (\<lambda>r. f r < distance) rs)"
      using Cons.IH [OF _ I(1)] Cons.prems(1) by auto
    then show ?thesis unfolding run using True I(2,3) by (intro exI [of _ ys]) simp
  next
    case False
    then have "search_results F lo la (Some distance) (r # rs) (map (\<lambda>y. Some (f y)) xs, xs) =
        search_results F lo la (Some distance) rs (map (\<lambda>y. Some (f y)) xs, xs)"
      by (simp add: d Let_def ld_ge_def)
    then show ?thesis using Cons.IH [OF _ Cons.prems(2)] Cons.prems(1) False by simp
  qed
qed

lemma GetLocationResult_sort_key:
  assumes "\<forall>r \<in> set all. GetDistance F la lo (latitude r) (longitude r) = Some (f r)"
  shows "GetLocationResult F lo la all [] (Some distance) = Some (sort_key f (filter (\<lambda>r. f r < distance) all))"
proof -
  obtain ys where ys: "search_results F lo la (Some distance) all ([], []) = Some (map (\<lambda>y. Some (f y)) ys, ys)" "sorted (map f ys)"
      "mset ys = mset [] + mset (filter (\<lambda>r. f r < distance) all)"
      "\<forall>k. filter (\<lambda>y. f y = k) ys = filter (\<lambda>y. f y = k) [] @ filter (\<lambda>y. f y = k) (filter (\<lambda>r. f r < distance) all)"
    using search_results_sort [OF assms, of "[]" distance] by auto
  have "filter (\<lambda>y. f k = f y) ys = filter (\<lambda>y. f k = f y) (filter (\<lambda>r. f r < distance) all)" for k
    using ys(4) [rule_format, of "f k"] by (simp only: eq_commute [of "f k"] filter.simps append_Nil)
  then have "sort_key f (filter (\<lambda>r. f r < distance) all) = ys"
    using ys(2,3) by (intro properties_for_sort_key) simp_all
  then show ?thesis using ys(1) by (simp add: GetLocationResult_def)
qed

text \<open>With or without distances that are no numbers, the search never inserts outside a vector, and
  it returns each record whose distance is not known to reach the limit.\<close>

lemma first_larger_le: "first_larger ds t \<le> length ds"
  by (induction ds) auto

lemma add_result_mset:
  assumes "length vd = length xs"
  shows "\<exists>vd' xs'. add_result r t (vd, xs) = Some (vd', xs') \<and> length vd' = length xs' \<and> mset xs' = add_mset r (mset xs)"
proof -
  let ?n = "first_larger vd t"
  have "mset (take ?n xs @ r # drop ?n xs) = add_mset r (mset xs)"
    by (metis append_take_drop_id mset_append mset.simps(2) union_mset_add_mset_right)
  then show ?thesis using assms first_larger_le [of vd t]
    by (auto simp: add_result_def Let_def insert_at_def)
qed

lemma search_results_mset:
  assumes "length vd = length xs"
  shows "\<exists>vd' ys. search_results F lo la distance rs (vd, xs) = Some (vd', ys) \<and>
    mset ys = mset xs + mset (filter (\<lambda>r. \<not> ld_ge (GetDistance F la lo (latitude r) (longitude r)) distance) rs)"
  using assms
proof (induction rs arbitrary: vd xs)
  case (Cons r rs)
  let ?d = "GetDistance F la lo (latitude r) (longitude r)"
  show ?case
  proof (cases "ld_ge ?d distance")
    case True
    then show ?thesis using Cons by (simp add: Let_def)
  next
    case False
    obtain vd' xs' where a: "add_result r ?d (vd, xs) = Some (vd', xs')" "length vd' = length xs'" "mset xs' = add_mset r (mset xs)"
      using add_result_mset [OF Cons.prems] by blast
    with Cons.IH [OF a(2)] False show ?thesis by (auto simp: Let_def)
  qed
qed simp

text \<open>
  A record whose distance is NaN, by rounding or by a coordinate that is no number, is returned
  whatever the limit is: the test \<open>tmpDis >= distance\<close> is false.
\<close>

theorem nan_distance_is_returned:
  assumes "r \<in> set all" and "GetDistance F la lo (latitude r) (longitude r) = None"
  shows "\<exists>ys. GetLocationResult F lo la all [] distance = Some ys \<and> r \<in> set ys"
proof -
  obtain vd ys where ys: "search_results F lo la distance all ([], []) = Some (vd, ys)"
      "mset ys = mset (filter (\<lambda>r. \<not> ld_ge (GetDistance F la lo (latitude r) (longitude r)) distance) all)"
    using search_results_mset [of "[]" "[]" F lo la distance all] by auto
  have "r \<in> set (filter (\<lambda>r. \<not> ld_ge (GetDistance F la lo (latitude r) (longitude r)) distance) all)"
    using assms by (simp add: ld_ge_def)
  then have "r \<in> set ys" using ys(2) by (metis set_mset_mset)
  then show ?thesis using ys(1) by (simp add: GetLocationResult_def)
qed

theorem nan_distance_is_returned_witness:
  "\<exists>ys. GetLocationResult \<lparr>rnd = Some, dbl = id, ld_max = 0, fn_sin = sin, fn_cos = cos, fn_asin = arcsin, fn_sqrt = sqrt\<rparr>
      (Some 1) (Some 2) [\<lparr>longitude = Some 3, latitude = None, lng = ''3'', lat = [], title = [], url = ''u'', source = [], datatime = []\<rparr>]
      [] (Some 0) = Some ys \<and>
    \<lparr>longitude = Some 3, latitude = None, lng = ''3'', lat = [], title = [], url = ''u'', source = [], datatime = []\<rparr> \<in> set ys"
  by (rule nan_distance_is_returned) (simp_all add: GetDistance_def)

section \<open>What the handler answers\<close>

lemma GetLocationResult_total: "\<exists>ys. GetLocationResult F lo la all [] distance = Some ys"
  using search_results_mset [of "[]" "[]" F lo la distance all] by (auto simp: GetLocationResult_def)

text \<open>
  Every request gets the same answer: whatever a request says that jsoncpp can read,
  \<open>generate_response\<close> returns 0 and fills the response with the JSON text of the first ten results
  for the position 39.947066, 116.403133, with its length as the content length (below 4 GB).
\<close>

theorem response_ignores_request:
  assumes "GetLocationResult F (Some (dbl F 116.403133)) (Some (dbl F 39.947066)) all [] (Some 10000000000) = Some near"
    and "wresponse w = None" and "length (styled (map json_item (take 10 near))) + 10 < 2 ^ 32"
  shows "\<exists>r. (\<forall>request. \<not> raises (cstr request) \<longrightarrow>
      generate_response_json F raises styled all junk (w\<lparr>content_buf := Some request\<rparr>)
        = Inr (w\<lparr>content_buf := Some request, wresponse := Some r\<rparr>, 0)) \<and>
    field_vals r Content_Length = Some (dec_nat (length (styled (map json_item (take 10 near))))) \<and>
    (\<exists>buf. content_buff r = Some buf \<and> prefix (styled (map json_item (take 10 near))) buf)"
proof -
  let ?j = "styled (map json_item (take 10 near))"
  have n: "unat (of_nat (length ?j) :: 32 word) = length ?j" "unat (of_nat (length ?j) + 10 :: 32 word) = length ?j + 10"
    using assms(3) by (simp_all add: unat_of_nat unat_word_ariths)
  have "map (\<lambda>i. json_item (near ! i)) [0..<if 10 > length near then length near else 10] = map json_item (take 10 near)"
    by (cases "length near < 10") (auto intro!: nth_equalityI)
  then have b: "location_backend F styled all request = Some ?j" for request
    using assms(1) by (simp only: location_backend_def generate_json_result_def Let_def option.map)
  define r where "r = (new_http_response HTTP10 SC200)\<lparr>field_vals := (field_vals (new_http_response HTTP10 SC200))(Content_Length := Some (dec_nat (length ?j))),
      content_buff := Some (take (length ?j + 10) (?j @ junk))\<rparr>"
  have f: "fillContent junk (of_nat (length ?j)) ?j (new_http_response HTTP10 SC200) = Inr r"
    using n by (simp add: fillContent_def r_def)
  have "generate_response (location_backend F styled all) junk (w\<lparr>content_buf := Some request\<rparr>)
      = Inr (w\<lparr>content_buf := Some request, wresponse := Some r\<rparr>, 0)" for request
    using b f assms(2) by (simp add: generate_response_def)
  moreover have "prefix ?j (take (length ?j + 10) (?j @ junk))" by simp
  ultimately show ?thesis by (intro exI [of _ r]) (simp add: r_def generate_response_json_def)
qed

text \<open>Arithmetic without rounding, for the examples.\<close>

definition exact_fpu :: fpu where
  "exact_fpu = \<lparr>rnd = Some, dbl = id, ld_max = 0, fn_sin = sin, fn_cos = cos, fn_asin = arcsin, fn_sqrt = sqrt\<rparr>"

theorem response_ignores_request_witness:
  "\<exists>r. \<forall>request. generate_response_json exact_fpu (\<lambda>_. False) (\<lambda>_. ''{}'') [] ''x'' (new_worker\<lparr>content_buf := Some request\<rparr>)
      = Inr (new_worker\<lparr>content_buf := Some request, wresponse := Some r\<rparr>, 0)"
proof -
  have "GetLocationResult exact_fpu (Some (dbl exact_fpu 116.403133)) (Some (dbl exact_fpu 39.947066)) [] [] (Some 10000000000) = Some []"
    by (simp add: GetLocationResult_def)
  from response_ignores_request [OF this, of new_worker "\<lambda>_. ''{}''" "\<lambda>_. False" "''x''"] show ?thesis
    by (auto simp: new_worker_def)
qed

text \<open>
  C16. Loading a file that was written one record per line, with tabulators between the fields, and
  searching it returns the records of the file that are nearer than the limit, the nearest first, for
  fields without tabulators and line ends whose first two and last are not blank at the outer ends,
  lines shorter than 2 GB, and a position from which every record has a distance (none is NaN). The
  rounding of the arithmetic is arbitrary.
\<close>

theorem loaded_search:
  assumes "\<forall>r \<in> set rs. row_ok F r"
    and "\<forall>r \<in> set rs. GetDistance F la lo (latitude r) (longitude r) \<noteq> None"
  shows "\<exists>all. loaddiclocate F junk (Some (concat (map (\<lambda>r. row_line r @ [CHR 0x0A]) rs))) [] = Some all \<and>
    GetLocationResult F lo la all [] (Some distance) =
     Some (sort_key (\<lambda>r. the (GetDistance F la lo (latitude r) (longitude r)))
       (filter (\<lambda>r. the (GetDistance F la lo (latitude r) (longitude r)) < distance) rs))"
  using loaddiclocate_rows [OF assms(1), of junk "[]"] assms(2)
  by (auto intro!: GetLocationResult_sort_key)

definition sample_row :: ResultData where
  "sample_row = \<lparr>longitude = read_real exact_fpu None ''116.4'', latitude = read_real exact_fpu None ''39.9'',
     lng = ''116.4'', lat = ''39.9'', title = ''a'', url = ''u'', source = [], datatime = ''2014''\<rparr>"

lemma exact_here: "GetDistance exact_fpu (Some x) (Some y) (Some x) (Some y) = Some 0"
  by (simp add: GetDistance_def exact_fpu_def rad_def half_sine_square_def c_sqrt_def c_asin_def c_round_def)

theorem loaded_search_witness:
  "\<exists>lo la all. row_ok exact_fpu sample_row \<and> longitude sample_row = lo \<and> latitude sample_row = la \<and>
   loaddiclocate exact_fpu (\<lambda>_. None) (Some (row_line sample_row @ [CHR 0x0A])) [] = Some all \<and>
   GetLocationResult exact_fpu lo la all [] (Some 5) = Some [sample_row]"
proof -
  have ok: "row_ok exact_fpu sample_row"
    by (simp add: row_ok_def row_fields_def row_line_def sample_row_def tab_def c_isspace_def uchar_def)
  have "longitude sample_row \<noteq> None" "latitude sample_row \<noteq> None"
    by (simp_all add: sample_row_def read_real_def read_mantissa_def nearest_ld_def exact_fpu_def cstr_def c_isspace_def
        uchar_def c_isdigit_def)
  then obtain x y where xy: "longitude sample_row = Some x" "latitude sample_row = Some y" by blast
  from loaded_search [of "[sample_row]" exact_fpu "Some y" "Some x" "\<lambda>_. None" 5] ok show ?thesis
    by (auto simp: xy exact_here)
qed

end
