(* ===== verification/Darts.thy ===== *)
theory Darts
  imports Prelude
begin

text \<open>
  The double-array trie of \<open>src/index/index_da/darts-clone.h\<close> (darts-clone 0.32e), on which the
  dictionaries of the search rest: the packed units, the exact search, saving to and loading from a
  file. Suffixes that belong to one key only are bytes behind the trie (\<open>tail\<close>), followed by the
  values of the keys that end with them. \<open>DartsBuild\<close> holds the builder.

  Positions in the array are natural numbers: \<open>set_offset\<close> throws before they reach 2 to the 29.
  The result type is an option: \<open>None\<close> is an exception of the class or an access outside a vector.
\<close>

unbundle bit_operations_syntax

section \<open>Units\<close>

type_synonym da_unit = "32 word"

definition unit_get :: "nat \<Rightarrow> nat \<Rightarrow> da_unit \<Rightarrow> nat" where
  "unit_get off n v = unat (drop_bit off (v AND push_bit off (mask n)))"

definition unit_set :: "nat \<Rightarrow> nat \<Rightarrow> nat \<Rightarrow> da_unit \<Rightarrow> da_unit" where
  "unit_set off n x v = (v AND NOT (push_bit off (mask n))) OR push_bit off (of_nat x)"

definition is_leaf :: "da_unit \<Rightarrow> bool" where
  "is_leaf v \<longleftrightarrow> v AND 1 = 1"

definition is_end :: "da_unit \<Rightarrow> bool" where
  "is_end v \<longleftrightarrow> v AND 2 = 2"

definition set_is_leaf :: "da_unit \<Rightarrow> da_unit" where
  "set_is_leaf v = v OR 1"

definition set_is_end :: "da_unit \<Rightarrow> da_unit" where
  "set_is_end v = v OR 2"

definition label :: "da_unit \<Rightarrow> nat" where
  "label v = unit_get 2 8 v"

definition set_label :: "nat \<Rightarrow> da_unit \<Rightarrow> da_unit" where
  "set_label c v = unit_set 2 8 c v"

definition OFFSET_MAX :: nat where
  "OFFSET_MAX = 2 ^ 21"

definition da_offset :: "da_unit \<Rightarrow> nat" where
  "da_offset v = (let off = unit_get 10 22 v in if off < OFFSET_MAX then off else (off - OFFSET_MAX) * 256)"

definition set_offset :: "nat \<Rightarrow> da_unit \<Rightarrow> da_unit option" where
  "set_offset off v =
     (if off \<ge> OFFSET_MAX * 256 then None
      else Some (unit_set 10 22 (if off < OFFSET_MAX then off else 2 ^ 21 + off div 256) v))"

text \<open>\<open>DoubleArray\<close> is the instance with three bits for the number of a value.\<close>

definition VALUE_ID_BITS :: nat where
  "VALUE_ID_BITS = 3"

definition value_id :: "da_unit \<Rightarrow> nat" where
  "value_id v = unit_get 1 VALUE_ID_BITS v"

definition set_value_id :: "nat \<Rightarrow> da_unit \<Rightarrow> da_unit" where
  "set_value_id k v = unit_set 1 VALUE_ID_BITS k v"

definition link :: "da_unit \<Rightarrow> nat" where
  "link v = unit_get (1 + VALUE_ID_BITS) 28 v"

definition set_link :: "nat \<Rightarrow> da_unit \<Rightarrow> da_unit option" where
  "set_link l v = (if l \<ge> 2 ^ 28 then None else Some (unit_set (1 + VALUE_ID_BITS) 28 l v))"

section \<open>Searching\<close>

text \<open>The array seen as bytes, and the tail, which starts at the unit whose number unit 1 holds.\<close>

definition unit_bytes :: "da_unit list \<Rightarrow> bytes" where
  "unit_bytes us = concat (map (\<lambda>u. le_bytes 4 (unat u)) us)"

definition tail_bytes :: "da_unit list \<Rightarrow> bytes" where
  "tail_bytes us = drop (4 * da_offset (us ! 1)) (unit_bytes us)"

text \<open>
  \<open>exact_match_search\<close>: the walk to a leaf. The query is the text with its terminator; \<open>Some None\<close> is
  a mismatch, and the query that is left starts with the character that led to the leaf.
\<close>

fun search_leaf :: "da_unit list \<Rightarrow> nat \<Rightarrow> bytes \<Rightarrow> (da_unit \<times> bytes) option option" where
  "search_leaf us i [] = None"
| "search_leaf us i (c # query) =
     (if i \<ge> length us then None
      else let j = i XOR (da_offset (us ! i) XOR uchar c)
           in if j \<ge> length us then None
              else if is_leaf (us ! j) then Some (Some (us ! j, c # query))
              else if label (us ! j) \<noteq> uchar c then Some None
              else search_leaf us j query)"

text \<open>Comparing the suffix; the result is what follows the terminator in the tail.\<close>

fun match_tail :: "bytes \<Rightarrow> bytes \<Rightarrow> bytes option option" where
  "match_tail (t # tail) (c # query) =
     (if t \<noteq> c then Some None else if t = NUL then Some (Some tail) else match_tail tail query)"
| "match_tail _ _ = None"

definition set_result :: "bytes \<Rightarrow> nat \<Rightarrow> int option" where
  "set_result tail k =
     (if 4 * k + 4 \<le> length tail
      then Some (sint (word_of_nat (le_val (take 4 (drop (4 * k) tail))) :: 32 word)) else None)"

definition exactMatchSearch :: "da_unit list \<Rightarrow> bytes \<Rightarrow> int option" where
  "exactMatchSearch us key =
     (case search_leaf us 0 (key @ [NUL]) of
        None \<Rightarrow> None
      | Some None \<Rightarrow> Some (- 1)
      | Some (Some (agent, query)) \<Rightarrow>
          (case match_tail (drop (link agent) (tail_bytes us)) query of
             None \<Rightarrow> None
           | Some None \<Rightarrow> Some (- 1)
           | Some (Some tail) \<Rightarrow> set_result tail (value_id agent)))"

section \<open>Files\<close>

definition save :: "da_unit list \<Rightarrow> bytes" where
  "save us = unit_bytes us"

text \<open>
  \<open>open\<close> from an offset of a file (\<open>None\<close>: there is none) with a size, 0 meaning the rest of it; the
  inner \<open>None\<close> is the result -1. \<open>set_array\<close> reads unit 1.
\<close>

fun read_units :: "nat \<Rightarrow> bytes \<Rightarrow> da_unit list" where
  "read_units 0 f = []"
| "read_units (Suc n) f = word_of_nat (le_val (take 4 f)) # read_units n (drop 4 f)"

definition open_da :: "bytes option \<Rightarrow> nat \<Rightarrow> nat \<Rightarrow> da_unit list option option" where
  "open_da file offset size0 =
     (case file of
        None \<Rightarrow> Some None
      | Some f \<Rightarrow>
          if size0 = 0 \<and> length f \<le> offset then Some None
          else let sz = (if size0 = 0 then length f - offset else size0) in
            if sz mod 4 \<noteq> 0 then Some None
            else if length f < offset + sz then Some None
            else let us = read_units (sz div 4) (drop offset f)
                 in if length us < 2 then None else Some (Some us))"

section \<open>Laws of the units\<close>

lemma bit_one_word [simp]: "bit (1 :: 'a::len word) n \<longleftrightarrow> n = 0"
  by (simp add: bit_1_iff)

lemma bit_two_word: "bit (2 :: 32 word) n \<longleftrightarrow> n = 1"
  using bit_exp_iff [where ?'a = "32 word", of 1 n] by auto

lemma bit_unit_set:
  "bit (unit_set off n x v) j \<longleftrightarrow> j < 32 \<and>
     (if off \<le> j \<and> j < off + n then bit x (j - off)
      else bit v j \<or> (off \<le> j \<and> bit x (j - off)))"
  by (auto simp: unit_set_def bit_or_iff bit_and_iff bit_not_iff bit_push_bit_iff bit_mask_iff bit_of_nat_iff dest: bit_imp_le_length)

lemma bit_unit_set_small:
  assumes "x < 2 ^ n"
  shows "bit (unit_set off n x v) j \<longleftrightarrow> j < 32 \<and> (if off \<le> j \<and> j < off + n then bit x (j - off) else bit v j)"
proof -
  have "\<not> bit x k" if "n \<le> k" for k
    using assms that by (metis bit_take_bit_iff linorder_not_less take_bit_nat_eq_self_iff)
  then show ?thesis by (auto simp: bit_unit_set)
qed

lemma bit_unit_get: "off + n \<le> 32 \<Longrightarrow> bit (unit_get off n v) j \<longleftrightarrow> j < n \<and> bit v (off + j)"
  by (auto simp: unit_get_def bit_unsigned_iff bit_drop_bit_eq bit_and_iff bit_push_bit_iff bit_mask_iff dest: bit_imp_le_length)

lemma unit_get_less: "off + n \<le> 32 \<Longrightarrow> unit_get off n v < 2 ^ n"
  by (metis bit_unit_get bit_take_bit_iff bit_eqI take_bit_nat_less_exp)

lemma unit_get_set:
  "off + n \<le> 32 \<Longrightarrow> x < 2 ^ n \<Longrightarrow> unit_get off n (unit_set off n x v) = x"
  by (rule bit_eqI) (auto simp: bit_unit_get bit_unit_set_small,
    metis bit_take_bit_iff take_bit_nat_eq_self_iff)

lemma unit_get_other:
  "off + n \<le> 32 \<Longrightarrow> off' + n' \<le> 32 \<Longrightarrow> x < 2 ^ n \<Longrightarrow> off + n \<le> off' \<or> off' + n' \<le> off \<Longrightarrow>
   unit_get off' n' (unit_set off n x v) = unit_get off' n' v"
  by (rule bit_eqI) (auto simp: bit_unit_get bit_unit_set_small)

named_theorems unit_simps "what the setters of a unit change"

lemma is_leaf_bit: "is_leaf v \<longleftrightarrow> bit v 0"
  unfolding is_leaf_def by (metis and_one_eq bit_0 one_and_eq odd_iff_mod_2_eq_one mod_0_imp_dvd not_mod_2_eq_0_eq_1 zero_neq_one)

lemma is_end_bit: "is_end v \<longleftrightarrow> bit v 1"
proof -
  have "v AND 2 = (if bit v 1 then 2 else 0)"
    by (rule bit_eqI) (simp only: bit_and_iff bit_two_word if_distrib [of bit] if_distribR bit_0_eq bot_apply, auto)
  then show ?thesis by (simp add: is_end_def)
qed

lemma is_leaf_setters [unit_simps]:
  "is_leaf (set_is_leaf v)" "is_leaf (set_is_end v) = is_leaf v" "is_leaf (set_label c v) = is_leaf v"
  "is_leaf (set_value_id k v) = is_leaf v" "set_offset off v = Some w \<Longrightarrow> is_leaf w = is_leaf v"
  "set_link l v = Some w \<Longrightarrow> is_leaf w = is_leaf v"
  by (auto simp: is_leaf_bit set_is_leaf_def set_is_end_def bit_or_iff set_label_def bit_unit_set set_value_id_def
    set_offset_def set_link_def split: if_splits)

lemma unit_get_set_is [unit_simps]:
  "2 \<le> off \<Longrightarrow> unit_get off n (set_is_end v) = unit_get off n v"
  "1 \<le> off \<Longrightarrow> unit_get off n (set_is_leaf v) = unit_get off n v"
proof -
  have "drop_bit off (set_is_end v AND push_bit off (mask n)) = drop_bit off (v AND push_bit off (mask n))" if "2 \<le> off"
    using that by (intro bit_eqI) (simp only: bit_drop_bit_eq comp_def bit_and_iff bit_or_iff set_is_end_def bit_two_word, auto)
  then show "2 \<le> off \<Longrightarrow> unit_get off n (set_is_end v) = unit_get off n v" by (simp add: unit_get_def)
  have "drop_bit off (set_is_leaf v AND push_bit off (mask n)) = drop_bit off (v AND push_bit off (mask n))" if "1 \<le> off"
    using that by (intro bit_eqI) (auto simp: bit_drop_bit_eq bit_and_iff bit_or_iff set_is_leaf_def)
  then show "1 \<le> off \<Longrightarrow> unit_get off n (set_is_leaf v) = unit_get off n v" by (simp add: unit_get_def)
qed

lemma label_setters [unit_simps]:
  "label (set_is_leaf v) = label v" "label (set_is_end v) = label v" "c < 256 \<Longrightarrow> label (set_label c v) = c"
  by (simp_all add: label_def unit_simps set_label_def unit_get_set)

lemma offset_field: "off < OFFSET_MAX * 256 \<Longrightarrow> (if off < OFFSET_MAX then off else 2 ^ 21 + off div 256) < 2 ^ 22"
  by (auto simp: OFFSET_MAX_def)

lemma label_set_offset [unit_simps]: "set_offset off v = Some w \<Longrightarrow> label w = label v"
  using offset_field [of off] by (auto simp: label_def set_offset_def unit_get_other split: if_splits)

lemma da_offset_setters [unit_simps]:
  "da_offset (set_is_leaf v) = da_offset v" "da_offset (set_is_end v) = da_offset v"
  "c < 256 \<Longrightarrow> da_offset (set_label c v) = da_offset v"
  by (simp_all add: da_offset_def unit_simps set_label_def unit_get_other)

lemma da_offset_set_offset [unit_simps]:
  assumes "set_offset off v = Some w" and "off < OFFSET_MAX \<or> off mod 256 = 0"
  shows "da_offset w = off"
proof -
  have "off < OFFSET_MAX * 256" "w = unit_set 10 22 (if off < OFFSET_MAX then off else 2 ^ 21 + off div 256) v"
    using assms(1) by (auto simp: set_offset_def split: if_splits)
  then have "unit_get 10 22 w = (if off < OFFSET_MAX then off else 2 ^ 21 + off div 256)"
    using offset_field [of off] by (simp add: unit_get_set)
  then show ?thesis using assms(2) by (auto simp: da_offset_def OFFSET_MAX_def Let_def)
qed

lemma set_offset_Some: "off < 2 ^ 29 \<Longrightarrow> \<exists>w. set_offset off v = Some w"
  by (simp add: set_offset_def OFFSET_MAX_def)

lemma value_id_setters [unit_simps]:
  "k < 8 \<Longrightarrow> value_id (set_value_id k v) = k" "set_link l v = Some w \<Longrightarrow> value_id w = value_id v"
  "set_link l v = Some w \<Longrightarrow> link w = l"
  by (auto simp: value_id_def set_value_id_def VALUE_ID_BITS_def unit_get_set unit_get_other set_link_def link_def split: if_splits)

lemma label_less: "label v < 256"
  using unit_get_less [of 2 8 v] by (simp add: label_def)

lemma unit_zero [unit_simps]: "label 0 = 0" "da_offset 0 = 0" "\<not> is_leaf 0"
  by (simp_all add: label_def da_offset_def unit_get_def is_leaf_def OFFSET_MAX_def)

section \<open>Files and bytes\<close>

lemma length_unit_bytes [simp]: "length (unit_bytes us) = 4 * length us"
  by (induction us) (auto simp: unit_bytes_def)

lemma unit_bytes_append: "unit_bytes (us @ vs) = unit_bytes us @ unit_bytes vs"
  by (simp add: unit_bytes_def)

lemma read_units_bytes: "read_units (length us) (unit_bytes us @ rest) = us"
proof (induction us)
  case (Cons u us)
  have "unat u mod 2 ^ 32 = unat u" using unsigned_less [where ?'a = nat, of u] by simp
  then have "(word_of_nat (le_val (le_bytes 4 (unat u))) :: 32 word) = u"
    by (simp add: le_val_le_bytes)
  then show ?case using Cons by (simp add: unit_bytes_def)
qed (simp add: unit_bytes_def)

text \<open>An array saved inside a file is opened again.\<close>

lemma open_save:
  assumes "2 \<le> length us"
  shows "open_da (Some (pre @ save us @ post)) (length pre) (4 * length us) = Some (Some us)"
  using assms by (auto simp: open_da_def save_def read_units_bytes Let_def)

section \<open>Properties\<close>

text \<open>The fields as digits of the number that the word is.\<close>

lemma unit_get_div:
  assumes "off + n \<le> 32"
  shows "unit_get off n u = unat u div 2 ^ off mod 2 ^ n"
proof -
  have "unit_get off n u = take_bit n (drop_bit off (unat u))"
    using assms by (intro bit_eqI) (auto simp: bit_unit_get bit_take_bit_iff bit_drop_bit_eq bit_unsigned_iff)
  then show ?thesis by (simp add: take_bit_eq_mod drop_bit_eq_div)
qed

lemma unit_flags: "is_leaf u \<longleftrightarrow> unat u mod 2 = 1" "is_end u \<longleftrightarrow> unat u div 2 mod 2 = 1"
proof -
  have b: "bit u k \<longleftrightarrow> unat u div 2 ^ k mod 2 = 1" for k
  proof -
    have "bit u k = bit (unat u) k" by (simp add: bit_unsigned_iff)
    then show ?thesis by (simp add: bit_iff_odd odd_iff_mod_2_eq_one)
  qed
  show "is_leaf u \<longleftrightarrow> unat u mod 2 = 1" using b [of 0] by (simp add: is_leaf_bit)
  show "is_end u \<longleftrightarrow> unat u div 2 mod 2 = 1" using b [of 1] by (simp add: is_end_bit)
qed

text \<open>
  C40. The two readings of a word of the array. As an inner unit it is bit 0 for \<open>is_leaf\<close>, bit 1 for
  \<open>is_end\<close>, eight bits of label and 22 bits of offset, which mean themselves below 2 to the 21 and 256
  times the rest above; as a leaf it is bit 0, three bits for the number of a value and 28 bits of link.
  In both readings the fields make up the whole word, and each is in its range: a label is a
  byte, and an offset is below 2 to the 21 or a multiple of the block size below 2 to the 29.
\<close>

theorem unit_fields_ranges:
  "unat u = of_bool (is_leaf u) + 2 * of_bool (is_end u) + 4 * label u + 1024 * (unat u div 1024) \<and>
   da_offset u = (if unat u div 1024 < 2 ^ 21 then unat u div 1024 else 256 * (unat u div 1024 - 2 ^ 21)) \<and>
   unat u = of_bool (is_leaf u) + 2 * value_id u + 16 * link u \<and>
   label u < 256 \<and> value_id u < 8 \<and> link u < 2 ^ 28 \<and>
   da_offset u < OFFSET_MAX * 256 \<and> (da_offset u < OFFSET_MAX \<or> 256 dvd da_offset u)"
proof -
  let ?n = "unat u"
  have n: "?n < 2 ^ 32" using unsigned_less [of u] by simp
  have leaf: "of_bool (is_leaf u) = ?n mod 2" and endb: "of_bool (is_end u) = ?n div 2 mod 2"
    by (auto simp: unit_flags)
  have l: "label u = ?n div 4 mod 256" and v: "value_id u = ?n div 2 mod 8" and k: "link u = ?n div 16 mod 2 ^ 28"
    and o: "unit_get 10 22 u = ?n div 1024 mod 2 ^ 22"
    unfolding label_def value_id_def link_def by (simp_all add: unit_get_div VALUE_ID_BITS_def)
  have "?n div 16 < 2 ^ 28" "?n div 1024 < 2 ^ 22" using n by (simp_all add: less_mult_imp_div_less)
  then have k': "link u = ?n div 16" and o': "unit_get 10 22 u = ?n div 1024" by (simp_all add: k o)
  have q: "?n div 2 div 2 = ?n div 4" "?n div 4 div 256 = ?n div 1024" "?n div 2 div 8 = ?n div 16"
    by (simp_all flip: div_mult2_eq)
  have "?n = ?n mod 2 + 2 * (?n div 2)" "?n div 2 = ?n div 2 mod 2 + 2 * (?n div 2 div 2)"
    "?n div 4 = ?n div 4 mod 256 + 256 * (?n div 4 div 256)" "?n div 2 = ?n div 2 mod 8 + 8 * (?n div 2 div 8)"
    by simp_all
  then have "?n = ?n mod 2 + 2 * (?n div 2 mod 2) + 4 * (?n div 4 mod 256) + 1024 * (?n div 1024)"
    "?n = ?n mod 2 + 2 * (?n div 2 mod 8) + 16 * (?n div 16)" unfolding q by linarith+
  moreover have "da_offset u = (if ?n div 1024 < 2 ^ 21 then ?n div 1024 else 256 * (?n div 1024 - 2 ^ 21))"
    by (simp add: da_offset_def o' OFFSET_MAX_def)
  moreover have "da_offset u < OFFSET_MAX * 256" "da_offset u < OFFSET_MAX \<or> 256 dvd da_offset u"
    using \<open>?n div 1024 < 2 ^ 22\<close> by (auto simp: da_offset_def OFFSET_MAX_def Let_def o')
  moreover have "label u < 256" "value_id u < 8" unfolding l v by simp_all
  ultimately show ?thesis unfolding leaf endb l [symmetric] v [symmetric] k' [symmetric]
    using \<open>?n div 16 < 2 ^ 28\<close> k' by (intro conjI) simp_all
qed

end
