(* ===== verification/DartsBuild.thy ===== *)
theory DartsBuild
  imports Darts "HOL-Library.Monad_Syntax"
begin

text \<open>
  The builder of \<open>src/index/index_da/darts-clone.h\<close>: sorted keys become a double-array trie, unique
  suffixes become its tail. The unused slots of the array form a circular list inside the words of
  \<open>DoubleArrayExtra\<close>, kept for the last 16 blocks of 256 slots only.

  The iterators of a range are positions in the vector of keys, a key is its text with the number of
  characters that were stepped over. \<open>None\<close> is an exception of the class, an access outside a vector
  or a loop that does not end.
\<close>

unbundle bit_operations_syntax

section \<open>Extra information of a slot\<close>

record da_extra =
  lo_values :: "32 word"
  hi_values :: "32 word"

text \<open>The 31 bits above the flag.\<close>

definition put_link :: "nat \<Rightarrow> 32 word \<Rightarrow> 32 word" where
  "put_link n w = (w AND 1) OR push_bit 1 (of_nat n)"

definition new_extra :: da_extra where
  "new_extra = \<lparr>lo_values = 0, hi_values = 0\<rparr>"

definition is_fixed :: "da_extra \<Rightarrow> bool" where
  "is_fixed e \<longleftrightarrow> lo_values e AND 1 = 1"

definition set_is_fixed :: "da_extra \<Rightarrow> da_extra" where
  "set_is_fixed e = e\<lparr>lo_values := lo_values e OR 1\<rparr>"

definition ex_next :: "da_extra \<Rightarrow> nat" where
  "ex_next e = unat (drop_bit 1 (lo_values e))"

definition set_ex_next :: "nat \<Rightarrow> da_extra \<Rightarrow> da_extra" where
  "set_ex_next n e = e\<lparr>lo_values := put_link n (lo_values e)\<rparr>"

definition is_used :: "da_extra \<Rightarrow> bool" where
  "is_used e \<longleftrightarrow> hi_values e AND 1 = 1"

definition set_is_used :: "da_extra \<Rightarrow> da_extra" where
  "set_is_used e = e\<lparr>hi_values := hi_values e OR 1\<rparr>"

definition ex_prev :: "da_extra \<Rightarrow> nat" where
  "ex_prev e = unat (drop_bit 1 (hi_values e))"

definition set_ex_prev :: "nat \<Rightarrow> da_extra \<Rightarrow> da_extra" where
  "set_ex_prev n e = e\<lparr>hi_values := put_link n (hi_values e)\<rparr>"

section \<open>Keys\<close>

record da_key =
  ktext :: bytes
  kpos :: nat
  kindex :: nat
  kvalue :: "32 word"

text \<open>
  \<open>key[i]\<close> and the length that is left. The text is a C string; a key is never read behind its
  terminator, because no two keys are equal.
\<close>

definition kchar :: "da_key \<Rightarrow> nat \<Rightarrow> char" where
  "kchar k i = (if kpos k + i < length (ktext k) then ktext k ! (kpos k + i) else NUL)"

definition ksuffix :: "da_key \<Rightarrow> bytes" where
  "ksuffix k = drop (kpos k) (ktext k)"

text \<open>The characters from the last one on, then 0: \<open>rkey(0)\<close>, \<open>rkey(1)\<close>, ...\<close>

definition rkeys :: "da_key \<Rightarrow> bytes" where
  "rkeys k = rev (ksuffix k) @ [NUL]"

fun rev_greater :: "bytes \<Rightarrow> bytes \<Rightarrow> bool" where
  "rev_greater (a # as) (b # bs) = (if a \<noteq> NUL \<and> a = b then rev_greater as bs else uchar a > uchar b)"
| "rev_greater _ _ = False"

fun rev_suffix :: "bytes \<Rightarrow> bytes \<Rightarrow> bool" where
  "rev_suffix (a # as) (b # bs) = (if a \<noteq> NUL \<and> a = b then rev_suffix as bs else a = NUL)"
| "rev_suffix _ _ = False"

definition ReversedComparison :: "da_key \<Rightarrow> da_key \<Rightarrow> bool" where
  "ReversedComparison lhs rhs = rev_greater (rkeys lhs) (rkeys rhs)"

definition is_suffix_of :: "da_key \<Rightarrow> da_key \<Rightarrow> bool" where
  "is_suffix_of k prev = rev_suffix (rkeys k) (rkeys prev)"

text \<open>\<open>std::stable_sort\<close>: the one stable arrangement.\<close>

fun stable_insert :: "('a \<Rightarrow> 'a \<Rightarrow> bool) \<Rightarrow> 'a \<Rightarrow> 'a list \<Rightarrow> 'a list" where
  "stable_insert lt x [] = [x]"
| "stable_insert lt x (y # ys) = (if lt y x then y # stable_insert lt x ys else x # y # ys)"

definition stable_sort :: "('a \<Rightarrow> 'a \<Rightarrow> bool) \<Rightarrow> 'a list \<Rightarrow> 'a list" where
  "stable_sort lt xs = foldr (stable_insert lt) xs []"

section \<open>The builder\<close>

record da_builder =
  bkeys :: "da_key list"
  bunits :: "da_unit list"
  bextras :: "da_extra list option list"
  unfixed_index :: nat
  num_of_unused_indices :: nat
  tail_index :: nat

definition num_of_units :: "da_builder \<Rightarrow> nat" where
  "num_of_units b = length (bunits b)"

definition num_of_blocks :: "da_builder \<Rightarrow> nat" where
  "num_of_blocks b = length (bextras b)"

text \<open>\<open>extras(index)\<close>; the pointer of a block that was given up is null.\<close>

definition extras :: "da_builder \<Rightarrow> nat \<Rightarrow> da_extra option" where
  "extras b i =
     (if i div 256 < length (bextras b)
      then (case bextras b ! (i div 256) of
              None \<Rightarrow> None
            | Some blk \<Rightarrow> if i mod 256 < length blk then Some (blk ! (i mod 256)) else None)
      else None)"

definition upd_extra :: "nat \<Rightarrow> (da_extra \<Rightarrow> da_extra) \<Rightarrow> da_builder \<Rightarrow> da_builder option" where
  "upd_extra i f b =
     (case extras b i of
        None \<Rightarrow> None
      | Some e \<Rightarrow> Some (b\<lparr>bextras := (bextras b)[i div 256 :=
          map_option (\<lambda>blk. blk[i mod 256 := f e]) (bextras b ! (i div 256))]\<rparr>))"

fun upd_extras :: "(nat \<times> (da_extra \<Rightarrow> da_extra)) list \<Rightarrow> da_builder \<Rightarrow> da_builder option" where
  "upd_extras [] b = Some b"
| "upd_extras ((i, f) # ups) b = do { b' \<leftarrow> upd_extra i f b; upd_extras ups b' }"

definition upd_unit :: "nat \<Rightarrow> (da_unit \<Rightarrow> da_unit option) \<Rightarrow> da_builder \<Rightarrow> da_builder option" where
  "upd_unit i f b =
     (if i < length (bunits b)
      then map_option (\<lambda>u. b\<lparr>bunits := (bunits b)[i := u]\<rparr>) (f (bunits b ! i)) else None)"

text \<open>\<open>reserve_index\<close> behind its test for a new block: the slot leaves the circular list.\<close>

definition take_index :: "nat \<Rightarrow> da_builder \<Rightarrow> da_builder option" where
  "take_index i b =
     do {
       e \<leftarrow> extras b i;
       let b1 = (if i = unfixed_index b
                 then b\<lparr>unfixed_index := (if ex_next e = i then num_of_units b else ex_next e)\<rparr> else b);
       b2 \<leftarrow> upd_extra (ex_prev e) (set_ex_next (ex_next e)) b1;
       e2 \<leftarrow> extras b2 i;
       b3 \<leftarrow> upd_extra (ex_next e2) (set_ex_prev (ex_prev e2)) b2;
       upd_extra i set_is_fixed b3
     }"

fun first_unused :: "da_builder \<Rightarrow> nat list \<Rightarrow> nat option" where
  "first_unused b [] = Some 0"
| "first_unused b (off # offs) = do { e \<leftarrow> extras b off; if is_used e then first_unused b offs else Some off }"

partial_function (option) fix_slots :: "nat \<Rightarrow> nat \<Rightarrow> da_builder \<Rightarrow> da_builder option" where
  "fix_slots end_index unused_offset b =
     (if unfixed_index b < end_index
      then do {
        b1 \<leftarrow> (if unfixed_index b \<ge> num_of_units b then None else take_index (unfixed_index b) b);
        b2 \<leftarrow> upd_unit (unfixed_index b) (\<lambda>u. Some (set_label ((unfixed_index b XOR unused_offset) mod 256) u)) b1;
        fix_slots end_index unused_offset (b2\<lparr>num_of_unused_indices := Suc (num_of_unused_indices b2)\<rparr>)
      }
      else Some b)"

definition fix_block :: "nat \<Rightarrow> da_builder \<Rightarrow> da_builder option" where
  "fix_block block_id b =
     (if unfixed_index b \<ge> block_id * 256 + 256 then Some b
      else do {
        unused_offset \<leftarrow> first_unused b [block_id * 256 ..< block_id * 256 + 256];
        fix_slots (block_id * 256 + 256) unused_offset b
      })"

definition NUM_OF_UNFIXED_BLOCKS :: nat where
  "NUM_OF_UNFIXED_BLOCKS = 16"

text \<open>The new block: a fresh one, or the one of the oldest block that still has extra information.\<close>

definition new_block :: "nat \<Rightarrow> da_builder \<Rightarrow> da_builder option" where
  "new_block src b0 =
     (let b = b0\<lparr>bunits := bunits b0 @ replicate 256 0, bextras := bextras b0 @ [None]\<rparr>;
          src_blocks = num_of_blocks b0
      in if src_blocks + 1 > NUM_OF_UNFIXED_BLOCKS
         then upd_extras (map (\<lambda>i. (i, \<lambda>_. new_extra)) [src..<src + 256])
                (b\<lparr>bextras := list_swap (bextras b) (src_blocks - NUM_OF_UNFIXED_BLOCKS) src_blocks\<rparr>)
         else Some (b\<lparr>bextras := (bextras b)[src_blocks := Some (replicate 256 new_extra)]\<rparr>))"

text \<open>The slots of the new block become a circular list, which is then merged with the old one.\<close>

definition chain_block :: "nat \<Rightarrow> da_builder \<Rightarrow> da_builder option" where
  "chain_block src b =
     upd_extras (concat (map (\<lambda>i. [(i - 1, set_ex_next i), (i, set_ex_prev (i - 1))]) [src + 1..<src + 256])
       @ [(src, set_ex_prev (src + 256 - 1)), (src + 256 - 1, set_ex_next src)]) b"

definition merge_lists :: "nat \<Rightarrow> da_builder \<Rightarrow> da_builder option" where
  "merge_lists src b =
     do {
       e \<leftarrow> extras b (unfixed_index b);
       b1 \<leftarrow> upd_extras [(src, set_ex_prev (ex_prev e)), (src + 256 - 1, set_ex_next (unfixed_index b))] b;
       e1 \<leftarrow> extras b1 (unfixed_index b1);
       upd_extras [(ex_prev e1, set_ex_next src), (unfixed_index b1, set_ex_prev (src + 256 - 1))] b1
     }"

definition expand_trie :: "da_builder \<Rightarrow> da_builder option" where
  "expand_trie b =
     do {
       b1 \<leftarrow> (if num_of_blocks b + 1 > NUM_OF_UNFIXED_BLOCKS
              then fix_block (num_of_blocks b - NUM_OF_UNFIXED_BLOCKS) b else Some b);
       b2 \<leftarrow> new_block (num_of_units b) b1;
       b3 \<leftarrow> chain_block (num_of_units b) b2;
       merge_lists (num_of_units b) b3
     }"

definition reserve_index :: "nat \<Rightarrow> da_builder \<Rightarrow> da_builder option" where
  "reserve_index i b = do { b' \<leftarrow> (if i \<ge> num_of_units b then expand_trie b else Some b); take_index i b' }"

section \<open>Finding an offset\<close>

fun no_collision :: "da_builder \<Rightarrow> nat \<Rightarrow> nat list \<Rightarrow> bool option" where
  "no_collision b oi [] = Some True"
| "no_collision b oi (c # cs) =
     do { e \<leftarrow> extras b (oi XOR c); if is_fixed e then Some False else no_collision b oi cs }"

text \<open>The last resort: a slot of the block that comes next.\<close>

definition new_offset_index :: "nat \<Rightarrow> da_builder \<Rightarrow> nat" where
  "new_offset_index index b = num_of_units b OR (index mod 256)"

partial_function (option) scan_offsets :: "nat \<Rightarrow> nat list \<Rightarrow> da_builder \<Rightarrow> nat \<Rightarrow> nat option" where
  "scan_offsets index labels b unfixed =
     do {
       let oi = unfixed XOR hd labels;
       let off = index XOR oi;
       e \<leftarrow> extras b oi;
       good \<leftarrow> (if \<not> is_used e \<and> (off mod OFFSET_MAX = 0 \<or> off < OFFSET_MAX)
                 then no_collision b oi (tl labels) else Some False);
       if good then Some oi
       else do {
         e' \<leftarrow> extras b unfixed;
         if ex_next e' \<noteq> unfixed_index b then scan_offsets index labels b (ex_next e')
         else Some (new_offset_index index b)
       }
     }"

definition find_offset_index :: "nat \<Rightarrow> nat list \<Rightarrow> da_builder \<Rightarrow> nat option" where
  "find_offset_index index labels b =
     (if unfixed_index b < num_of_units b then scan_offsets index labels b (unfixed_index b)
      else Some (new_offset_index index b))"

section \<open>Building the trie\<close>

text \<open>Listing the labels and the ranges of the children; every key of the range steps one character.\<close>

definition step_key :: "nat \<Rightarrow> da_key list \<Rightarrow> da_key list" where
  "step_key i keys = keys[i := (keys ! i)\<lparr>kpos := kpos (keys ! i) + 1\<rparr>]"

fun split_range :: "nat list \<Rightarrow> da_key list \<Rightarrow> nat list \<Rightarrow> (nat \<times> nat) list \<Rightarrow> nat
    \<Rightarrow> da_key list \<times> nat list \<times> (nat \<times> nat) list \<times> nat" where
  "split_range [] keys labels next_ranges next_begin = (keys, labels, next_ranges, next_begin)"
| "split_range (it # its) keys labels next_ranges next_begin =
     (let c = uchar (kchar (keys ! it) 0)
      in if c \<noteq> last labels
         then split_range its (step_key it keys) (labels @ [c]) (next_ranges @ [(next_begin, it)]) it
         else split_range its (step_key it keys) labels next_ranges next_begin)"

type_synonym da_range = "nat \<times> nat \<times> nat"

fun push_children :: "nat \<Rightarrow> (nat \<times> nat \<times> nat) list \<Rightarrow> da_range list \<Rightarrow> da_builder
    \<Rightarrow> (da_range list \<times> da_builder) option" where
  "push_children oi [] stack b = Some (stack, b)"
| "push_children oi ((c, rb, re) # rest) stack b =
     do {
       b1 \<leftarrow> reserve_index (oi XOR c) b;
       b2 \<leftarrow> upd_unit (oi XOR c) (\<lambda>u. Some (set_label c u)) b1;
       push_children oi rest ((rb, re, oi XOR c) # stack) b2
     }"

text \<open>The two cases of the loop: a range of one key, and a range that is split.\<close>

definition mark_leaf :: "nat \<Rightarrow> nat \<Rightarrow> da_builder \<Rightarrow> da_builder option" where
  "mark_leaf rb index b =
     upd_unit index (\<lambda>u. Some (set_is_leaf u))
       (b\<lparr>bkeys := (bkeys b)[rb := (bkeys b ! rb)\<lparr>kpos := kpos (bkeys b ! rb) - 1, kindex := index\<rparr>]\<rparr>)"

definition split_node :: "da_range \<Rightarrow> da_range list \<Rightarrow> da_builder \<Rightarrow> (da_range list \<times> da_builder) option" where
  "split_node r stack b =
     (case r of (rb, re, index) \<Rightarrow>
      do {
        let first_label = uchar (kchar (bkeys b ! rb) 0);
        b1 \<leftarrow> (if first_label = 0 then upd_unit index (\<lambda>u. Some (set_is_end u)) b else Some b);
        let (keys, labels, ranges, next_begin) = split_range [rb..<re] (bkeys b1) [first_label] [] rb;
        let b2 = b1\<lparr>bkeys := keys\<rparr>;
        oi \<leftarrow> find_offset_index index labels b2;
        b3 \<leftarrow> upd_unit index (set_offset (index XOR oi)) b2;
        (stack', b4) \<leftarrow> push_children oi (rev (zip labels (ranges @ [(next_begin, re)]))) stack b3;
        b5 \<leftarrow> upd_extra oi set_is_used b4;
        Some (stack', b5)
      })"

partial_function (option) build_loop :: "da_range list \<Rightarrow> da_builder \<Rightarrow> da_builder option" where
  "build_loop stack b =
     (case stack of
        [] \<Rightarrow> Some b
      | (rb, re, index) # rest \<Rightarrow>
          if index \<noteq> 0 \<and> re - rb = 1
          then do { b' \<leftarrow> mark_leaf rb index b; build_loop rest b' }
          else do { sb \<leftarrow> split_node (rb, re, index) rest b; build_loop (fst sb) (snd sb) })"

fun fix_blocks :: "nat list \<Rightarrow> da_builder \<Rightarrow> da_builder option" where
  "fix_blocks [] b = Some b"
| "fix_blocks (k # ks) b = do { b' \<leftarrow> fix_block k b; fix_blocks ks b' }"

definition fix_all_blocks :: "da_builder \<Rightarrow> da_builder option" where
  "fix_all_blocks b =
     fix_blocks [(if num_of_blocks b > NUM_OF_UNFIXED_BLOCKS then num_of_blocks b - NUM_OF_UNFIXED_BLOCKS else 0)
                 ..< num_of_blocks b] b"

definition build_trie :: "da_builder \<Rightarrow> da_builder option" where
  "build_trie b =
     do {
       b1 \<leftarrow> reserve_index 0 b;
       b2 \<leftarrow> reserve_index 1 b1;
       b3 \<leftarrow> upd_extra 0 set_is_used b2;
       b4 \<leftarrow> upd_unit 0 (set_offset 1) b3;
       b5 \<leftarrow> upd_unit 0 (\<lambda>u. Some (set_label 0 u)) b4;
       b6 \<leftarrow> upd_unit 1 (\<lambda>u. Some (set_label 1 u)) b5;
       b7 \<leftarrow> (if bkeys b6 \<noteq> [] then build_loop [(0, length (bkeys b6), 0)] b6 else Some b6);
       b8 \<leftarrow> fix_all_blocks b7;
       upd_unit 1 (set_offset (num_of_units b8)) b8
     }"

declare fix_slots.simps [code] scan_offsets.simps [code] build_loop.simps [code]

section \<open>Arranging the suffixes\<close>

definition poke_byte :: "nat \<Rightarrow> char \<Rightarrow> da_unit list \<Rightarrow> da_unit list" where
  "poke_byte i c us = us[i div 4 := word_of_nat (le_val ((le_bytes 4 (unat (us ! (i div 4))))[i mod 4 := c]))]"

definition append_byte :: "char \<Rightarrow> da_builder \<Rightarrow> da_builder" where
  "append_byte c b =
     (let us = (if tail_index b \<ge> 4 * num_of_units b then bunits b @ [0] else bunits b)
      in b\<lparr>bunits := poke_byte (tail_index b) c us, tail_index := Suc (tail_index b)\<rparr>)"

definition append_suffix :: "da_key \<Rightarrow> da_builder \<Rightarrow> da_builder" where
  "append_suffix k b = fold append_byte (ksuffix k @ [NUL]) b"

definition append_value :: "32 word \<Rightarrow> da_builder \<Rightarrow> da_builder" where
  "append_value v b = fold append_byte (le_bytes 4 (unat v)) b"

fun find_value :: "32 word \<Rightarrow> 32 word list \<Rightarrow> nat" where
  "find_value v [] = 0"
| "find_value v (w # ws) = (if w = v then 0 else Suc (find_value v ws))"

fun arrange_loop :: "da_key option \<Rightarrow> da_key list \<Rightarrow> nat \<Rightarrow> 32 word list \<Rightarrow> da_builder \<Rightarrow> da_builder option" where
  "arrange_loop prev [] base_link vals b = Some b"
| "arrange_loop prev (k # ks) base_link vals b =
     (let suffix = (case prev of None \<Rightarrow> False | Some p \<Rightarrow> is_suffix_of k p);
          vid = (if suffix then find_value (kvalue k) vals else 0);
          fresh = (\<not> suffix \<or> vid \<ge> 2 ^ VALUE_ID_BITS);
          base_link' = (if fresh then base_link + 4 * length vals + length (ksuffix k) + 1 else base_link);
          vals' = (if fresh then [] else vals);
          vid' = (if fresh then 0 else vid);
          b1 = (if fresh then append_suffix k b else b)
      in do {
           b2 \<leftarrow> upd_unit (kindex k) (\<lambda>u. Some (set_value_id vid' u)) b1;
           b3 \<leftarrow> upd_unit (kindex k) (set_link (base_link' - length (ksuffix k) - 1)) b2;
           if vid' = length vals'
           then arrange_loop (Some k) ks base_link' (vals' @ [kvalue k]) (append_value (kvalue k) b3)
           else arrange_loop (Some k) ks base_link' vals' b3
         })"

definition arrange_suffixes :: "da_builder \<Rightarrow> da_builder option" where
  "arrange_suffixes b0 =
     (let b = b0\<lparr>tail_index := 4 * num_of_units b0\<rparr>
      in if bkeys b = [] then Some b
         else let keys = stable_sort ReversedComparison (bkeys b)
              in arrange_loop None keys 0 [] (b\<lparr>bkeys := keys\<rparr>))"

section \<open>From keys to an array\<close>

text \<open>\<open>build_double_array\<close>: a repeated key is skipped, a key that is too small is an exception.\<close>

fun internal_keys :: "(bytes \<times> 32 word) list \<Rightarrow> da_key list \<Rightarrow> da_key list option" where
  "internal_keys [] ks = Some ks"
| "internal_keys ((t, v) # kvs) ks =
     (let k = \<lparr>ktext = cstr t, kpos = 0, kindex = 0, kvalue = v\<rparr>
      in if ks \<noteq> [] \<and> strcmp (ktext (last ks)) (ktext k) = 0 then internal_keys kvs ks
         else if ks \<noteq> [] \<and> strcmp (ktext (last ks)) (ktext k) > 0 then None
         else internal_keys kvs (ks @ [k]))"

definition new_builder :: "da_key list \<Rightarrow> da_builder" where
  "new_builder ks = \<lparr>bkeys = ks, bunits = [], bextras = [], unfixed_index = 0, num_of_unused_indices = 0, tail_index = 0\<rparr>"

definition build_da :: "(bytes \<times> 32 word) list \<Rightarrow> da_unit list option" where
  "build_da kvs =
     do {
       ks \<leftarrow> internal_keys kvs [];
       b \<leftarrow> build_trie (new_builder ks);
       b' \<leftarrow> arrange_suffixes b;
       Some (bunits b')
     }"

end
