(* ===== verification/DartsFree.thy ===== *)
theory DartsFree
  imports DartsBuild
begin

text \<open>
  The circular list of unused slots in the builder of \<open>darts-clone.h\<close>: \<open>free_ok b U\<close> says that the
  list of the builder \<open>b\<close> runs through exactly the slots of the set \<open>U\<close> in ascending order, starting
  at \<open>unfixed_index\<close>. Taking a slot, giving up an old block and adding a block keep it; every access
  to the extra information succeeds.
\<close>

unbundle bit_operations_syntax

section \<open>Fields of the extra information\<close>

named_theorems extra_simps "what the setters of extra information change"

lemma bit_link:
  "bit (put_link n w) i \<longleftrightarrow> i < 32 \<and> (if i = 0 then bit w 0 else bit n (i - 1))"
  unfolding put_link_def
  by (cases i) (auto simp: bit_or_iff bit_and_iff bit_push_bit_iff bit_of_nat_iff simp del: push_bit_of_nat push_bit_Suc)

lemma is_odd_bit: "w AND 1 = 1 \<longleftrightarrow> bit w 0" for w :: "32 word"
  using is_leaf_bit [of w] by (simp add: is_leaf_def)

lemma unat_link: "n < 2 ^ 31 \<Longrightarrow> unat (drop_bit 1 (put_link n w)) = n"
proof (rule bit_eqI)
  fix i assume n: "n < 2 ^ 31"
  have "i < 31" if "bit n i"
    using n that by (metis bit_take_bit_iff take_bit_nat_eq_self_iff)
  then show "bit (unat (drop_bit 1 (put_link n w))) i = bit n i"
    by (simp only: bit_unsigned_iff bit_drop_bit_eq comp_def bit_link) auto
qed

lemma drop_or_one: "drop_bit 1 (w OR 1) = drop_bit 1 w" for w :: "32 word"
  by (rule bit_eqI) (simp add: bit_drop_bit_eq bit_or_iff)

lemma fixed_setters [extra_simps]:
  "is_fixed (set_is_fixed e)" "is_fixed (set_ex_next n e) = is_fixed e" "is_fixed (set_ex_prev n e) = is_fixed e"
  "is_fixed (set_is_used e) = is_fixed e" "\<not> is_fixed new_extra"
  by (simp_all add: is_fixed_def set_is_fixed_def set_ex_next_def set_ex_prev_def set_is_used_def new_extra_def
    is_odd_bit bit_or_iff bit_link)

lemma used_setters [extra_simps]:
  "is_used (set_is_used e)" "is_used (set_ex_next n e) = is_used e" "is_used (set_ex_prev n e) = is_used e"
  "is_used (set_is_fixed e) = is_used e" "\<not> is_used new_extra"
  by (simp_all add: is_used_def set_is_fixed_def set_ex_next_def set_ex_prev_def set_is_used_def new_extra_def
    is_odd_bit bit_or_iff bit_link)

lemma next_setters [extra_simps]:
  "n < 2 ^ 31 \<Longrightarrow> ex_next (set_ex_next n e) = n" "ex_next (set_ex_prev n e) = ex_next e"
  "ex_next (set_is_used e) = ex_next e" "ex_next (set_is_fixed e) = ex_next e"
  by (simp_all add: ex_next_def set_ex_next_def set_ex_prev_def set_is_used_def set_is_fixed_def unat_link [unfolded One_nat_def]
    drop_or_one del: drop_bit_Suc)

lemma prev_setters [extra_simps]:
  "n < 2 ^ 31 \<Longrightarrow> ex_prev (set_ex_prev n e) = n" "ex_prev (set_ex_next n e) = ex_prev e"
  "ex_prev (set_is_used e) = ex_prev e" "ex_prev (set_is_fixed e) = ex_prev e"
  by (simp_all add: ex_prev_def set_ex_next_def set_ex_prev_def set_is_used_def set_is_fixed_def unat_link [unfolded One_nat_def]
    drop_or_one del: drop_bit_Suc)

section \<open>Access to the extra information\<close>

lemma extras_upd:
  assumes "extras b i = Some e"
  shows "\<exists>b'. upd_extra i f b = Some b' \<and> bunits b' = bunits b \<and> bkeys b' = bkeys b \<and>
    unfixed_index b' = unfixed_index b \<and> tail_index b' = tail_index b \<and>
    map (map_option length) (bextras b') = map (map_option length) (bextras b) \<and>
    extras b' = (extras b)(i := Some (f e))"
proof -
  obtain blk where blk: "i div 256 < length (bextras b)" "bextras b ! (i div 256) = Some blk" "i mod 256 < length blk" "e = blk ! (i mod 256)"
    using assms by (auto simp: extras_def split: if_splits option.splits)
  let ?b = "b\<lparr>bextras := (bextras b)[i div 256 := Some (blk[i mod 256 := f e])]\<rparr>"
  have "upd_extra i f b = Some ?b" using assms blk by (simp add: upd_extra_def)
  moreover have "extras ?b = (extras b)(i := Some (f e))"
  proof
    fix j
    show "extras ?b j = ((extras b)(i := Some (f e))) j"
    proof (cases "j div 256 = i div 256")
      case True
      then have "j = i \<longleftrightarrow> j mod 256 = i mod 256" by (metis div_mult_mod_eq)
      then show ?thesis using True blk by (auto simp: extras_def)
    next
      case False
      then have "j \<noteq> i" by blast
      then show ?thesis using False by (simp add: extras_def)
    qed
  qed
  moreover have "map (map_option length) (bextras ?b) = map (map_option length) (bextras b)"
    using blk by (intro nth_equalityI) (auto simp: nth_list_update)
  ultimately show ?thesis by (intro exI [of _ ?b]) simp
qed

section \<open>The circular order of a set\<close>

definition succ_in :: "nat set \<Rightarrow> nat \<Rightarrow> nat \<Rightarrow> bool" where
  "succ_in U x y \<longleftrightarrow> y \<in> U \<and> (if \<exists>z \<in> U. x < z then x < y \<and> (\<forall>z \<in> U. x < z \<longrightarrow> y \<le> z) else \<forall>z \<in> U. y \<le> z)"

lemma succ_in_unique: "succ_in U x y \<Longrightarrow> succ_in U x z \<Longrightarrow> y = z"
  by (auto simp: succ_in_def split: if_splits) (meson order_antisym)+

lemma pred_in_unique_less:
  assumes "succ_in U p x" and "succ_in U q x" and "p \<in> U" and "q \<in> U"
  shows "\<not> p < q"
proof
  assume "p < q"
  then have "p < x" "x \<le> q" using assms(1,4) by (auto simp: succ_in_def split: if_splits)
  moreover have "q < x \<or> x \<le> p" using assms(2,3) by (auto simp: succ_in_def split: if_splits)
  ultimately show False by linarith
qed

lemma pred_in_unique:
  "succ_in U p x \<Longrightarrow> succ_in U q x \<Longrightarrow> p \<in> U \<Longrightarrow> q \<in> U \<Longrightarrow> p = q"
  using pred_in_unique_less [of U p x q] pred_in_unique_less [of U q x p] by linarith

lemma succ_in_remove: "succ_in U x y \<Longrightarrow> y \<noteq> i \<Longrightarrow> succ_in (U - {i}) x y"
  by (auto simp: succ_in_def split: if_splits)

lemma succ_in_bridge:
  assumes "succ_in U p i" and "succ_in U i n" and "p \<in> U" and "p \<noteq> i"
  shows "succ_in (U - {i}) p n" and "n \<noteq> i"
proof -
  show n: "n \<noteq> i"
  proof
    assume "n = i"
    then have "\<forall>z \<in> U. i \<le> z \<and> z \<le> i" using assms(2) by (auto simp: succ_in_def split: if_splits)
    then show False using assms(3,4) by auto
  qed
  show "succ_in (U - {i}) p n"
  proof (cases "\<exists>z \<in> U. p < z")
    case True
    then have i: "p < i" "\<forall>z \<in> U. p < z \<longrightarrow> i \<le> z" using assms(1) by (auto simp: succ_in_def)
    show ?thesis
    proof (cases "\<exists>z \<in> U. i < z")
      case True
      then have "i < n" "\<forall>z \<in> U. i < z \<longrightarrow> n \<le> z" "n \<in> U" using assms(2) by (auto simp: succ_in_def)
      moreover have "p < n" using i(1) calculation(1) by linarith
      moreover have "n \<le> z" if "z \<in> U - {i}" "p < z" for z
        using that i(2) calculation(2) by (metis DiffD1 DiffD2 insertI1 order_le_imp_less_or_eq)
      ultimately show ?thesis using n by (auto simp: succ_in_def)
    next
      case False
      then have "\<forall>z \<in> U. n \<le> z" "n \<in> U" using assms(2) by (auto simp: succ_in_def)
      moreover have "\<not> (\<exists>z \<in> U - {i}. p < z)" using False i by (metis DiffD1 DiffD2 insertI1 order_le_imp_less_or_eq)
      ultimately show ?thesis using n by (auto simp: succ_in_def)
    qed
  next
    case False
    then have i: "\<forall>z \<in> U. i \<le> z" "\<forall>z \<in> U. z \<le> p" using assms(1) by (auto simp: succ_in_def not_less)
    then have "i < p" using assms(3,4) by (simp add: order_less_le)
    then have "i < n" "\<forall>z \<in> U. i < z \<longrightarrow> n \<le> z" "n \<in> U" using assms(2,3) by (auto simp: succ_in_def split: if_splits)
    then show ?thesis using i n by (auto simp: succ_in_def dest: leD) (metis order_less_le)+
  qed
qed

section \<open>The free list\<close>

definition shape_ok :: "da_builder \<Rightarrow> bool" where
  "shape_ok b \<longleftrightarrow> num_of_units b = 256 * num_of_blocks b \<and> num_of_units b \<le> 2 ^ 31 \<and>
     map (map_option length) (bextras b) =
       map (\<lambda>k. if k + 16 < num_of_blocks b then None else Some 256) [0..<num_of_blocks b]"

definition live :: "da_builder \<Rightarrow> nat \<Rightarrow> bool" where
  "live b i \<longleftrightarrow> i < num_of_units b \<and> num_of_units b \<le> 256 * (i div 256 + 16)"

definition ring_at :: "(nat \<Rightarrow> da_extra option) \<Rightarrow> nat set \<Rightarrow> nat \<Rightarrow> bool" where
  "ring_at X U x \<longleftrightarrow> (\<exists>e. X x = Some e \<and> succ_in U x (ex_next e) \<and> ex_prev e \<in> U \<and> succ_in U (ex_prev e) x)"

definition start_ok :: "nat \<Rightarrow> nat \<Rightarrow> nat set \<Rightarrow> bool" where
  "start_ok n u U \<longleftrightarrow> (if U = {} then u = n else u \<in> U \<and> (\<forall>z \<in> U. u \<le> z))"

definition free_ok :: "da_builder \<Rightarrow> nat set \<Rightarrow> bool" where
  "free_ok b U \<longleftrightarrow> shape_ok b \<and> (\<forall>i e. extras b i = Some e \<longrightarrow> (is_fixed e \<longleftrightarrow> i \<notin> U)) \<and>
     (\<forall>x \<in> U. ring_at (extras b) U x) \<and> start_ok (num_of_units b) (unfixed_index b) U"

lemma extras_live: "shape_ok b \<Longrightarrow> extras b i \<noteq> None \<longleftrightarrow> live b i"
proof -
  assume s: "shape_ok b"
  let ?n = "num_of_blocks b"
  have n: "length (bextras b) = ?n" "num_of_units b = 256 * ?n" using s by (simp_all add: shape_ok_def num_of_blocks_def)
  show ?thesis
  proof (cases "i div 256 < ?n")
    case True
    have "map (map_option length) (bextras b) ! (i div 256) = (if i div 256 + 16 < ?n then None else Some 256)"
      using s True by (simp add: shape_ok_def)
    then have "map_option length (bextras b ! (i div 256)) = (if i div 256 + 16 < ?n then None else Some 256)"
      using True n by simp
    moreover have "i < num_of_units b" using True n(2) by (simp add: div_less_iff_less_mult mult.commute)
    moreover have "num_of_units b \<le> 256 * (i div 256 + 16) \<longleftrightarrow> \<not> i div 256 + 16 < ?n" using n(2) by auto
    ultimately show ?thesis using True n(1) by (auto simp: extras_def live_def split: if_splits option.splits)
  next
    case False
    then have "\<not> i < num_of_units b" using n(2) by (simp add: div_less_iff_less_mult mult.commute)
    then show ?thesis using False n(1) by (simp add: extras_def live_def)
  qed
qed

lemma ring_live: "free_ok b U \<Longrightarrow> x \<in> U \<Longrightarrow> live b x"
  using extras_live [of b x] by (auto simp: free_ok_def ring_at_def)

text \<open>What an operation on the list leaves alone.\<close>

definition keeps :: "da_builder \<Rightarrow> da_builder \<Rightarrow> bool" where
  "keeps b b' \<longleftrightarrow> bkeys b' = bkeys b \<and> tail_index b' = tail_index b \<and>
     (\<forall>j. map_option is_used (extras b' j) = map_option is_used (extras b j))"

lemma keeps_refl [simp]: "keeps b b"
  by (simp add: keeps_def)

lemma keeps_trans [trans]: "keeps b b1 \<Longrightarrow> keeps b1 b2 \<Longrightarrow> keeps b b2"
  by (simp add: keeps_def)

section \<open>Taking a slot\<close>

lemma shape_upd:
  assumes "shape_ok b" and "bunits b' = bunits b" and "map (map_option length) (bextras b') = map (map_option length) (bextras b)"
  shows "shape_ok b'"
proof -
  have "num_of_blocks b' = num_of_blocks b" using assms(3) by (metis length_map num_of_blocks_def)
  then show ?thesis using assms by (simp add: shape_ok_def num_of_units_def)
qed

text \<open>The list after the two links around a slot were changed and the slot was marked.\<close>

lemma ring_take:
  assumes ring: "\<forall>x \<in> U. ring_at X U x" and i: "i \<in> U" "X i = Some e"
    and Y: "\<And>y f. Y y = Some f \<longleftrightarrow> (\<exists>g. X y = Some g \<and> ex_next f = (if y = ex_prev e then ex_next e else ex_next g)
       \<and> ex_prev f = (if y = ex_next e then ex_prev e else ex_prev g) \<and> G y f g)"
    and G: "\<And>y g. X y = Some g \<Longrightarrow> \<exists>f. Y y = Some f"
  shows "\<forall>x \<in> U - {i}. ring_at Y (U - {i}) x"
proof
  fix x assume x: "x \<in> U - {i}"
  have e: "succ_in U i (ex_next e)" "ex_prev e \<in> U" "succ_in U (ex_prev e) i"
    using ring i by (auto simp: ring_at_def)
  obtain g where g: "X x = Some g" "succ_in U x (ex_next g)" "ex_prev g \<in> U" "succ_in U (ex_prev g) x"
    using ring x by (auto simp: ring_at_def)
  obtain f where f: "Y x = Some f" using G [OF g(1)] by blast
  then have fn: "ex_next f = (if x = ex_prev e then ex_next e else ex_next g)"
    and fp: "ex_prev f = (if x = ex_next e then ex_prev e else ex_prev g)"
    using Y [of x f] g(1) by auto
  have "succ_in (U - {i}) x (ex_next f)"
  proof (cases "x = ex_prev e")
    case True
    then show ?thesis using succ_in_bridge(1) [OF e(3,1,2)] x fn by auto
  next
    case False
    then have "ex_next g \<noteq> i" using pred_in_unique [OF _ e(3) _ e(2)] g(2) x by auto
    then show ?thesis using succ_in_remove g(2) False fn by simp
  qed
  moreover have "ex_prev f \<in> U - {i} \<and> succ_in (U - {i}) (ex_prev f) x"
  proof (cases "x = ex_next e")
    case True
    then have "ex_prev e \<noteq> i" using succ_in_unique [OF e(1)] e(3) x by auto
    then show ?thesis using succ_in_bridge(1) [OF e(3,1,2)] True e(2) fp by auto
  next
    case False
    then have "ex_prev g \<noteq> i" using succ_in_unique [OF e(1)] g(4) by auto
    then show ?thesis using succ_in_remove [OF g(4)] x g(3) False fp by auto
  qed
  ultimately show "ring_at Y (U - {i}) x" using f by (auto simp: ring_at_def)
qed

lemma start_take:
  assumes "start_ok n u U" and "i \<in> U" and "succ_in U i nx"
  shows "start_ok n (if i = u then (if nx = i then n else nx) else u) (U - {i})"
proof (cases "i = u")
  case True
  then have u: "\<forall>z \<in> U. i \<le> z" using assms by (auto simp: start_ok_def split: if_splits)
  have nx: "nx \<in> U" using assms(3) by (simp add: succ_in_def)
  show ?thesis
  proof (cases "nx = i")
    case True
    then have "\<not> (\<exists>z \<in> U. i < z)" using assms(3) by (auto simp: succ_in_def split: if_splits)
    then have "U - {i} = {}" using u by (auto simp: order_less_le)
    then show ?thesis using \<open>i = u\<close> True by (simp add: start_ok_def)
  next
    case False
    then have "i < nx" using u nx by (simp add: order_less_le)
    then have "\<forall>z \<in> U. i < z \<longrightarrow> nx \<le> z" using assms(3) nx by (auto simp: succ_in_def split: if_splits)
    then have "\<forall>z \<in> U - {i}. nx \<le> z" using u by (auto simp: order_less_le)
    then show ?thesis using \<open>i = u\<close> False nx by (auto simp: start_ok_def)
  qed
next
  case False
  then show ?thesis using assms(1,2) by (auto simp: start_ok_def split: if_splits)
qed

lemma take_index_ok:
  assumes ok: "free_ok b U" and i: "i \<in> U"
  shows "\<exists>b'. take_index i b = Some b' \<and> free_ok b' (U - {i}) \<and> bunits b' = bunits b \<and> keeps b b'"
proof -
  have sh: "shape_ok b" and ring: "\<forall>x \<in> U. ring_at (extras b) U x" using ok by (auto simp: free_ok_def)
  have small: "x < 2 ^ 31" if "x \<in> U" for x
    using ring_live [OF ok that] sh by (simp add: live_def shape_ok_def)
  obtain e where e: "extras b i = Some e" "succ_in U i (ex_next e)" "ex_prev e \<in> U" "succ_in U (ex_prev e) i"
    using ring i by (auto simp: ring_at_def)
  let ?p = "ex_prev e" and ?n = "ex_next e"
  have pn: "?p < 2 ^ 31" "?n < 2 ^ 31" "?n \<in> U" using small e(2,3) by (auto simp: succ_in_def)
  define b1 where "b1 = (if i = unfixed_index b
    then b\<lparr>unfixed_index := (if ?n = i then num_of_units b else ?n)\<rparr> else b)"
  have b1: "extras b1 = extras b" "bextras b1 = bextras b" "bunits b1 = bunits b" "bkeys b1 = bkeys b" "tail_index b1 = tail_index b"
    by (auto simp: b1_def extras_def fun_eq_iff)
  obtain ep where ep: "extras b1 ?p = Some ep" using ring e(3) b1 by (auto simp: ring_at_def)
  obtain b2 where b2: "upd_extra ?p (set_ex_next ?n) b1 = Some b2" "bunits b2 = bunits b1" "bkeys b2 = bkeys b1"
      "unfixed_index b2 = unfixed_index b1" "tail_index b2 = tail_index b1"
      "map (map_option length) (bextras b2) = map (map_option length) (bextras b1)"
      "extras b2 = (extras b1)(?p := Some (set_ex_next ?n ep))"
    using extras_upd [OF ep] by blast
  obtain e2 where e2: "extras b2 i = Some e2" "ex_next e2 = ?n" "ex_prev e2 = ?p"
    using b2(7) e(1) ep b1(1) pn by (cases "?p = i") (auto simp: extra_simps)
  have "extras b1 ?n \<noteq> None" using ring pn(3) by (auto simp: ring_at_def b1(1))
  then have "extras b2 ?n \<noteq> None" unfolding b2(7) by simp
  then obtain en where en: "extras b2 ?n = Some en" by blast
  obtain b3 where b3: "upd_extra ?n (set_ex_prev ?p) b2 = Some b3" "bunits b3 = bunits b2" "bkeys b3 = bkeys b2"
      "unfixed_index b3 = unfixed_index b2" "tail_index b3 = tail_index b2"
      "map (map_option length) (bextras b3) = map (map_option length) (bextras b2)"
      "extras b3 = (extras b2)(?n := Some (set_ex_prev ?p en))"
    using extras_upd [OF en] by blast
  obtain e3 where e3: "extras b3 i = Some e3" using b3(7) e2 by (cases "?n = i") auto
  obtain b4 where b4: "upd_extra i set_is_fixed b3 = Some b4" "bunits b4 = bunits b3" "bkeys b4 = bkeys b3"
      "unfixed_index b4 = unfixed_index b3" "tail_index b4 = tail_index b3"
      "map (map_option length) (bextras b4) = map (map_option length) (bextras b3)"
      "extras b4 = (extras b3)(i := Some (set_is_fixed e3))"
    using extras_upd [OF e3] by blast
  have "take_index i b = Some b4" using e(1) b1_def b2(1) e2 b3(1) b4(1) by (simp add: take_index_def)
  have X: "extras b4 y = (case extras b y of None \<Rightarrow> None | Some g \<Rightarrow> Some
      ((if y = i then set_is_fixed else id) ((if y = ?n then set_ex_prev ?p else id) ((if y = ?p then set_ex_next ?n else id) g))))" for y
    using b4(7) b3(7) b2(7) b1(1) ep en e3 e2 e(1) by (auto split: option.splits)
  have Y: "extras b4 y = Some f \<longleftrightarrow> (\<exists>g. extras b y = Some g \<and> ex_next f = (if y = ?p then ?n else ex_next g) \<and>
      ex_prev f = (if y = ?n then ?p else ex_prev g) \<and>
      f = (if y = i then set_is_fixed else id) ((if y = ?n then set_ex_prev ?p else id) ((if y = ?p then set_ex_next ?n else id) g)))" for y f
    unfolding X using pn by (auto simp: extra_simps split: option.splits)
  have ring': "\<forall>x \<in> U - {i}. ring_at (extras b4) (U - {i}) x"
    using Y X by (intro ring_take [OF ring i e(1), where G = "\<lambda>y f g. f = (if y = i then set_is_fixed else id) ((if y = ?n then set_ex_prev ?p else id) ((if y = ?p then set_ex_next ?n else id) g))"]) auto
  have flags: "is_fixed f \<longleftrightarrow> y \<notin> U - {i}" if "extras b4 y = Some f" for y f
    using that ok unfolding X by (auto simp: free_ok_def extra_simps split: option.splits if_splits)
  have "shape_ok b4" using shape_upd [OF sh, of b4] b4 b3 b2 b1 by simp
  moreover have "start_ok (num_of_units b4) (unfixed_index b4) (U - {i})"
  proof -
    have "unfixed_index b4 = (if i = unfixed_index b then (if ?n = i then num_of_units b else ?n) else unfixed_index b)"
      unfolding b4(4) b3(4) b2(4) b1_def by simp
    moreover have "num_of_units b4 = num_of_units b" by (simp add: num_of_units_def b4(2) b3(2) b2(2) b1(3))
    ultimately show ?thesis using start_take [OF _ i e(2)] ok by (simp only: free_ok_def)
  qed
  moreover have "keeps b b4"
    using b4(3,5) b3(3,5) b2(3,5) b1(4,5) by (auto simp: keeps_def X extra_simps split: option.splits)
  ultimately show ?thesis
    using \<open>take_index i b = Some b4\<close> ring' flags b4(2) b3(2) b2(2) b1(3) by (auto simp: free_ok_def)
qed

section \<open>Giving up a block\<close>

lemma free_ok_cong:
  assumes "length (bunits b') = length (bunits b)" and "bextras b' = bextras b" and "unfixed_index b' = unfixed_index b"
  shows "free_ok b' U \<longleftrightarrow> free_ok b U"
proof -
  have "extras b' = extras b" "num_of_units b' = num_of_units b" "num_of_blocks b' = num_of_blocks b"
    using assms by (simp_all add: extras_def fun_eq_iff num_of_units_def num_of_blocks_def)
  then show ?thesis using assms by (simp add: free_ok_def shape_ok_def)
qed

lemma keeps_cong:
  assumes "bkeys b' = bkeys b" and "tail_index b' = tail_index b" and "bextras b' = bextras b"
  shows "keeps b b'"
  using assms by (simp add: keeps_def extras_def)

lemma upd_unit_ok:
  assumes "i < num_of_units b" and "f (bunits b ! i) = Some u"
  shows "\<exists>b'. upd_unit i f b = Some b' \<and> bunits b' = (bunits b)[i := u] \<and> bextras b' = bextras b \<and>
    bkeys b' = bkeys b \<and> unfixed_index b' = unfixed_index b \<and> tail_index b' = tail_index b \<and> keeps b b' \<and>
    (\<forall>U. free_ok b' U \<longleftrightarrow> free_ok b U)"
proof -
  let ?b = "b\<lparr>bunits := (bunits b)[i := u]\<rparr>"
  have "upd_unit i f b = Some ?b" using assms by (simp add: upd_unit_def num_of_units_def)
  moreover have "keeps b ?b" by (rule keeps_cong) simp_all
  moreover have "free_ok ?b U \<longleftrightarrow> free_ok b U" for U by (rule free_ok_cong) simp_all
  ultimately show ?thesis by (intro exI [of _ ?b]) simp
qed

definition relabel :: "nat set \<Rightarrow> nat \<Rightarrow> nat \<Rightarrow> da_unit list \<Rightarrow> da_unit list \<Rightarrow> bool" where
  "relabel U en off us vs \<longleftrightarrow> length vs = length us \<and>
     (\<forall>j < length us. vs ! j = (if j \<in> U \<and> j < en then set_label ((j XOR off) mod 256) (us ! j) else us ! j))"

lemma finite_free: "free_ok b U \<Longrightarrow> finite U"
  using ring_live [of b U] by (intro finite_subset [of U "{..<num_of_units b}"]) (auto simp: live_def)

lemma fix_slots_ok:
  assumes "free_ok b U" and "en \<le> num_of_units b"
  shows "\<exists>b'. fix_slots en off b = Some b' \<and> free_ok b' {u \<in> U. en \<le> u} \<and> keeps b b' \<and>
    relabel U en off (bunits b) (bunits b')"
  using assms
proof (induction "card {u \<in> U. u < en}" arbitrary: b U rule: less_induct)
  case (less U b)
  have fin: "finite U" by (rule finite_free [OF less.prems(1)])
  have start: "start_ok (num_of_units b) (unfixed_index b) U" using less.prems(1) by (simp add: free_ok_def)
  show ?case
  proof (cases "unfixed_index b < en")
    case True
    let ?i = "unfixed_index b"
    have i: "?i \<in> U" using start True less.prems(2) by (auto simp: start_ok_def split: if_splits)
    have n: "?i < num_of_units b" using ring_live [OF less.prems(1) i] by (simp add: live_def)
    obtain b1 where b1: "take_index ?i b = Some b1" "free_ok b1 (U - {?i})" "bunits b1 = bunits b" "keeps b b1"
      using take_index_ok [OF less.prems(1) i] by blast
    let ?u = "set_label ((?i XOR off) mod 256) (bunits b1 ! ?i)"
    obtain b2 where b2: "upd_unit ?i (\<lambda>u. Some (set_label ((?i XOR off) mod 256) u)) b1 = Some b2"
        "bunits b2 = (bunits b1)[?i := ?u]" "keeps b1 b2" "\<And>V. free_ok b2 V \<longleftrightarrow> free_ok b1 V"
      using upd_unit_ok [of ?i b1 "\<lambda>u. Some (set_label ((?i XOR off) mod 256) u)" ?u] n b1(3) by (auto simp: num_of_units_def)
    let ?b = "b2\<lparr>num_of_unused_indices := Suc (num_of_unused_indices b2)\<rparr>"
    have ok: "free_ok ?b (U - {?i})" using free_ok_cong [of ?b b2] b1(2) b2(4) by simp
    have k: "keeps b ?b" using keeps_trans [OF keeps_trans [OF b1(4) b2(3)] keeps_cong] by simp
    have nu: "num_of_units ?b = num_of_units b" using b2(2) b1(3) by (simp add: num_of_units_def)
    have "{u \<in> U - {?i}. u < en} \<subset> {u \<in> U. u < en}" using i True by auto
    then have "card {u \<in> U - {?i}. u < en} < card {u \<in> U. u < en}" using fin by (intro psubset_card_mono) auto
    then obtain b' where b': "fix_slots en off ?b = Some b'" "free_ok b' {u \<in> U - {?i}. en \<le> u}"
        "keeps ?b b'" "relabel (U - {?i}) en off (bunits ?b) (bunits b')"
      using less.hyps [OF _ ok] less.prems(2) nu by auto
    have "fix_slots en off b = Some b'"
      using True n b1(1) b2(1) b'(1) by (subst fix_slots.simps) simp
    moreover have "{u \<in> U - {?i}. en \<le> u} = {u \<in> U. en \<le> u}" using True by auto
    moreover have "relabel U en off (bunits b) (bunits b')"
      using b'(4) b2(2) b1(3) i True n by (auto simp: relabel_def nth_list_update num_of_units_def)
    ultimately show ?thesis using b'(2) keeps_trans [OF k b'(3)] by auto
  next
    case False
    have "fix_slots en off b = Some b" using False by (subst fix_slots.simps) simp
    moreover have "en \<le> u" if "u \<in> U" for u using start False that by (force simp: start_ok_def split: if_splits)
    then have "{u \<in> U. en \<le> u} = U" "relabel U en off (bunits b) (bunits b)" by (auto simp: relabel_def) (metis leD)
    ultimately show ?thesis using less.prems(1) by auto
  qed
qed

definition unused :: "da_builder \<Rightarrow> nat \<Rightarrow> bool" where
  "unused b i \<longleftrightarrow> (\<exists>e. extras b i = Some e \<and> \<not> is_used e)"

lemma unused_keeps: "keeps b b' \<Longrightarrow> unused b' i \<longleftrightarrow> unused b i"
proof -
  assume "keeps b b'"
  then have "map_option is_used (extras b' i) = map_option is_used (extras b i)" by (simp add: keeps_def)
  then show ?thesis by (cases "extras b i"; cases "extras b' i") (auto simp: unused_def)
qed

lemma first_unused_ok:
  "\<forall>off \<in> set offs. extras b off \<noteq> None \<Longrightarrow>
   \<exists>r. first_unused b offs = Some r \<and> ((\<exists>off \<in> set offs. unused b off) \<longrightarrow> r \<in> set offs \<and> unused b r)"
proof (induction offs)
  case (Cons off offs)
  then obtain e where "extras b off = Some e" by auto
  then show ?case using Cons by (auto simp: unused_def)
qed simp

lemma relabel_none: "\<forall>u \<in> U. en \<le> u \<Longrightarrow> relabel U en off us us"
  by (auto simp: relabel_def)

lemma fix_block_ok:
  assumes ok: "free_ok b U" and k: "k < num_of_blocks b" "num_of_blocks b \<le> k + 16" and lo: "\<forall>u \<in> U. k * 256 \<le> u"
    and some: "\<exists>u \<in> U. u < k * 256 + 256 \<Longrightarrow> \<exists>off. off div 256 = k \<and> unused b off"
  shows "\<exists>b' r. fix_block k b = Some b' \<and> free_ok b' {u \<in> U. k * 256 + 256 \<le> u} \<and> keeps b b' \<and>
    relabel U (k * 256 + 256) r (bunits b) (bunits b') \<and>
    ((\<exists>u \<in> U. u < k * 256 + 256) \<longrightarrow> r div 256 = k \<and> unused b r)"
proof (cases "unfixed_index b \<ge> k * 256 + 256")
  case True
  have "start_ok (num_of_units b) (unfixed_index b) U" using ok by (simp add: free_ok_def)
  then have "\<forall>u \<in> U. k * 256 + 256 \<le> u" using True by (force simp: start_ok_def split: if_splits)
  then have "{u \<in> U. k * 256 + 256 \<le> u} = U" "\<not> (\<exists>u \<in> U. u < k * 256 + 256)" "relabel U (k * 256 + 256) 0 (bunits b) (bunits b)"
    by (auto simp: relabel_none)
  then show ?thesis using True ok by (auto simp: fix_block_def)
next
  case False
  have sh: "num_of_units b = 256 * num_of_blocks b" using ok by (simp add: free_ok_def shape_ok_def)
  have "live b off" if "off \<in> set [k * 256..<k * 256 + 256]" for off
  proof -
    have "off div 256 = k" using that by auto
    then show ?thesis using that k sh by (auto simp: live_def)
  qed
  then have "\<forall>off \<in> set [k * 256..<k * 256 + 256]. extras b off \<noteq> None"
    using extras_live [of b] ok by (auto simp: free_ok_def)
  then obtain r where r: "first_unused b [k * 256..<k * 256 + 256] = Some r"
      "(\<exists>off \<in> set [k * 256..<k * 256 + 256]. unused b off) \<longrightarrow> r \<in> set [k * 256..<k * 256 + 256] \<and> unused b r"
    using first_unused_ok by blast
  have r': "r div 256 = k \<and> unused b r" if low: "\<exists>u \<in> U. u < k * 256 + 256"
  proof -
    obtain off where off: "off div 256 = k" "unused b off" using some [OF low] by blast
    have "off mod 256 < 256" by simp
    then have "off \<in> set [k * 256..<k * 256 + 256]" using off(1) div_mult_mod_eq [of off 256] by (auto simp: mult.commute)
    then have "r \<in> set [k * 256..<k * 256 + 256] \<and> unused b r" using r(2) off(2) by blast
    then show ?thesis by auto
  qed
  have "k * 256 + 256 \<le> num_of_units b" using k(1) sh by simp
  then obtain b' where "fix_slots (k * 256 + 256) r b = Some b'" "free_ok b' {u \<in> U. k * 256 + 256 \<le> u}" "keeps b b'"
      "relabel U (k * 256 + 256) r (bunits b) (bunits b')"
    using fix_slots_ok [OF ok] by blast
  then show ?thesis using False r(1) r' by (intro exI [of _ b'] exI [of _ r]) (simp add: fix_block_def)
qed

section \<open>Adding a block\<close>

definition apply_ups :: "(nat \<times> (da_extra \<Rightarrow> da_extra)) list \<Rightarrow> (nat \<Rightarrow> da_extra option) \<Rightarrow> nat \<Rightarrow> da_extra option" where
  "apply_ups ups X = foldl (\<lambda>X (i, f). X(i := map_option f (X i))) X ups"

lemma apply_ups_simps [simp]:
  "apply_ups [] X = X" "apply_ups ((i, f) # ups) X = apply_ups ups (X(i := map_option f (X i)))"
  "apply_ups (ups @ ups') X = apply_ups ups' (apply_ups ups X)"
  by (simp_all add: apply_ups_def)

lemma upd_extras_ok:
  assumes "\<forall>(i, f) \<in> set ups. extras b i \<noteq> None"
  shows "\<exists>b'. upd_extras ups b = Some b' \<and> bunits b' = bunits b \<and> bkeys b' = bkeys b \<and>
    unfixed_index b' = unfixed_index b \<and> tail_index b' = tail_index b \<and>
    map (map_option length) (bextras b') = map (map_option length) (bextras b) \<and>
    extras b' = apply_ups ups (extras b)"
  using assms
proof (induction ups arbitrary: b)
  case (Cons u ups)
  obtain i f where u: "u = (i, f)" by (cases u)
  then obtain e where e: "extras b i = Some e" using Cons.prems by auto
  obtain b1 where b1: "upd_extra i f b = Some b1" "bunits b1 = bunits b" "bkeys b1 = bkeys b"
      "unfixed_index b1 = unfixed_index b" "tail_index b1 = tail_index b"
      "map (map_option length) (bextras b1) = map (map_option length) (bextras b)"
      "extras b1 = (extras b)(i := Some (f e))"
    using extras_upd [OF e] by blast
  have "\<forall>(i, f) \<in> set ups. extras b1 i \<noteq> None" using Cons.prems b1(7) by auto
  from Cons.IH [OF this] show ?case using b1 e u by (auto simp: fun_upd_def)
qed simp

lemma apply_ups_const:
  "distinct is \<Longrightarrow> apply_ups (map (\<lambda>i. (i, g i)) is) X j = (if j \<in> set is then map_option (g j) (X j) else X j)"
  by (induction "is" arbitrary: X) auto

lemma apply_ups_None: "apply_ups ups X j = None \<longleftrightarrow> X j = None"
proof (induction ups arbitrary: X)
  case (Cons u ups)
  then show ?case by (cases u) (auto simp: fun_upd_def)
qed simp

text \<open>The chain of a new block: next and previous slot, the flags as they were.\<close>

definition chain_ups :: "nat \<Rightarrow> nat \<Rightarrow> (nat \<times> (da_extra \<Rightarrow> da_extra)) list" where
  "chain_ups src m = concat (map (\<lambda>i. [(i - 1, set_ex_next i), (i, set_ex_prev (i - 1))]) [src + 1..<m])"

lemma chain_ups_ok:
  assumes "src < m" and "m \<le> 2 ^ 31" and "X j = Some e"
  shows "\<exists>f. apply_ups (chain_ups src m) X j = Some f \<and>
    ex_next f = (if src \<le> j \<and> j < m - 1 then j + 1 else ex_next e) \<and>
    ex_prev f = (if src < j \<and> j < m then j - 1 else ex_prev e) \<and>
    is_fixed f = is_fixed e \<and> is_used f = is_used e"
  using assms(1,2)
proof (induction m)
  case (Suc m)
  show ?case
  proof (cases "src = m")
    case True
    then show ?thesis using assms(3) by (simp add: chain_ups_def)
  next
    case False
  with Suc.prems have 2: "Suc src \<le> m" "Suc m \<le> 2 ^ 31" by auto
  then obtain f where f: "apply_ups (chain_ups src m) X j = Some f" "ex_next f = (if src \<le> j \<and> j < m - 1 then j + 1 else ex_next e)"
      "ex_prev f = (if src < j \<and> j < m then j - 1 else ex_prev e)" "is_fixed f = is_fixed e" "is_used f = is_used e"
    using Suc.IH by auto
  have c: "chain_ups src (Suc m) = chain_ups src m @ [(m - 1, set_ex_next m), (m, set_ex_prev (m - 1))]"
    using 2 by (simp add: chain_ups_def)
  have m: "m \<noteq> m - 1" "src \<le> m - 1" "m < 2 ^ 31" using 2 by auto
  consider "j = m - 1" | "j = m" | "j \<noteq> m - 1" "j \<noteq> m" by blast
  then show ?thesis
  proof cases
    case 1
    then show ?thesis using f 2 m unfolding c by (auto simp: extra_simps)
  next
    case 2
    then show ?thesis using f \<open>Suc src \<le> m\<close> m unfolding c by (auto simp: extra_simps)
  next
    case 3
    then show ?thesis using f 2 unfolding c by auto
  qed
  qed
qed simp

lemma new_block_ok:
  assumes sh: "shape_ok b0" and small: "num_of_units b0 + 256 \<le> 2 ^ 31"
  defines "src \<equiv> num_of_units b0"
  shows "\<exists>b. new_block src b0 = Some b \<and> bunits b = bunits b0 @ replicate 256 0 \<and> bkeys b = bkeys b0 \<and>
    unfixed_index b = unfixed_index b0 \<and> tail_index b = tail_index b0 \<and> shape_ok b \<and>
    extras b = (\<lambda>i. if src \<le> i \<and> i < src + 256 then Some new_extra
      else if i < src \<and> src + 256 \<le> 256 * (i div 256 + 16) then extras b0 i else None)"
proof -
  let ?n = "num_of_blocks b0"
  have n: "src = 256 * ?n" "length (bextras b0) = ?n" using sh by (simp_all add: shape_ok_def src_def num_of_blocks_def)
  have len: "map_option length (bextras b0 ! k) = (if k + 16 < ?n then None else Some 256)" if "k < ?n" for k
  proof -
    have "map (map_option length) (bextras b0) ! k = (if k + 16 < ?n then None else Some 256)"
      using sh that by (simp add: shape_ok_def)
    then show ?thesis using that n by simp
  qed
  define b where "b = b0\<lparr>bunits := bunits b0 @ replicate 256 0, bextras := bextras b0 @ [None]\<rparr>"
  show ?thesis
  proof (cases "?n + 1 > NUM_OF_UNFIXED_BLOCKS")
    case True
    then have n16: "16 \<le> ?n" by (simp add: NUM_OF_UNFIXED_BLOCKS_def)
    obtain blk where blk: "bextras b0 ! (?n - 16) = Some blk" "length blk = 256"
      using len [of "?n - 16"] n16 by auto
    define b1 where "b1 = b\<lparr>bextras := list_swap (bextras b) (?n - 16) ?n\<rparr>"
    have nth: "bextras b1 ! k = (if k = ?n then Some blk else if k = ?n - 16 then None else bextras b0 ! k)" if "k < ?n + 1" for k
      using that n16 n blk by (auto simp: b1_def b_def nth_list_swap nth_append)
    have l1: "length (bextras b1) = ?n + 1" using n by (simp add: b1_def b_def)
    have ex: "extras b1 i = (if src \<le> i \<and> i < src + 256 then Some (blk ! (i mod 256))
      else if i < src \<and> src + 256 \<le> 256 * (i div 256 + 16) then extras b0 i else None)" for i
    proof -
      consider "i div 256 = ?n" | "i div 256 < ?n" | "i div 256 > ?n" by linarith
      then show ?thesis
      proof cases
        case 1
        then have "src \<le> i" "i < src + 256" using n(1) by auto
        then show ?thesis using 1 nth [of ?n] l1 blk(2) by (simp add: extras_def)
      next
        case 2
        then have i: "i < src" "src + 256 \<le> 256 * (i div 256 + 16) \<longleftrightarrow> ?n \<le> i div 256 + 15" using n(1) by auto
        have "extras b1 i = (if i div 256 = ?n - 16 then None else extras b0 i)"
          using 2 nth [of "i div 256"] l1 n(2) by (auto simp: extras_def)
        moreover have "extras b0 i = None" if "i div 256 + 16 < ?n"
          using len [of "i div 256"] 2 that by (auto simp: extras_def)
        ultimately show ?thesis using i n16 by auto
      next
        case 3
        then have "\<not> i < src + 256" using n(1) by auto
        then show ?thesis using 3 l1 by (simp add: extras_def)
      qed
    qed
    have "\<forall>(i, f) \<in> set (map (\<lambda>i. (i, \<lambda>_. new_extra)) [src..<src + 256]). extras b1 i \<noteq> None" by (auto simp: ex)
    from upd_extras_ok [OF this] obtain b2 where b2:
        "upd_extras (map (\<lambda>i. (i, \<lambda>_. new_extra)) [src..<src + 256]) b1 = Some b2" "bunits b2 = bunits b1" "bkeys b2 = bkeys b1"
        "unfixed_index b2 = unfixed_index b1" "tail_index b2 = tail_index b1"
        "map (map_option length) (bextras b2) = map (map_option length) (bextras b1)"
        "extras b2 = apply_ups (map (\<lambda>i. (i, \<lambda>_. new_extra)) [src..<src + 256]) (extras b1)" by blast
    have "new_block src b0 = Some b2" using True b2(1) by (simp add: new_block_def b1_def b_def Let_def NUM_OF_UNFIXED_BLOCKS_def)
    moreover have "extras b2 = (\<lambda>i. if src \<le> i \<and> i < src + 256 then Some new_extra
        else if i < src \<and> src + 256 \<le> 256 * (i div 256 + 16) then extras b0 i else None)"
      unfolding b2(7) by (rule ext) (simp add: apply_ups_const ex)
    moreover have "shape_ok b2"
    proof -
      have l2: "length (bextras b2) = ?n + 1" using b2(6) l1 by (metis length_map)
      have "map (map_option length) (bextras b2) = map (\<lambda>k. if k + 16 < ?n + 1 then None else Some 256) [0..<?n + 1]"
        unfolding b2(6)
      proof (rule nth_equalityI)
        fix k assume "k < length (map (map_option length) (bextras b1))"
        then have k: "k < ?n + 1" using l1 by simp
        then have "map (map_option length) (bextras b1) ! k = (if k + 16 < ?n + 1 then None else Some 256)"
        proof -
          have l: "map (map_option length) (bextras b1) ! k = map_option length (bextras b1 ! k)" using k l1 by simp
          consider "k = ?n" | "k = ?n - 16" "k \<noteq> ?n" | "k + 16 < ?n" "k < ?n" "k \<noteq> ?n - 16" | "\<not> k + 16 < ?n + 1" "k < ?n" "k \<noteq> ?n - 16"
            using k by linarith
          then show ?thesis
          proof cases
            case 1
            then show ?thesis unfolding l nth [OF k] using blk by simp
          next
            case 2
            then show ?thesis unfolding l nth [OF k] using n16 by simp
          next
            case 3
            then show ?thesis unfolding l nth [OF k] using len [of k] by simp
          next
            case 4
            then show ?thesis unfolding l nth [OF k] using len [of k] by simp
          qed
        qed
        then show "map (map_option length) (bextras b1) ! k = map (\<lambda>k. if k + 16 < ?n + 1 then None else Some 256) [0..<?n + 1] ! k"
          using k by (simp del: upt_Suc)
      qed (simp add: l1)
      moreover have "num_of_blocks b2 = ?n + 1" using l2 by (simp only: num_of_blocks_def)
      moreover have "num_of_units b2 = src + 256" using b2(2) by (simp add: num_of_units_def b1_def b_def src_def)
      moreover have "src + 256 = 256 * (?n + 1)" using n(1) by simp
      ultimately show ?thesis using small src_def by (simp only: shape_ok_def simp_thms)
    qed
    ultimately show ?thesis using b2(2-5) by (intro exI [of _ b2]) (simp add: b1_def b_def)
  next
    case False
    then have n16: "?n < 16" by (simp add: NUM_OF_UNFIXED_BLOCKS_def)
    define b2 where "b2 = b\<lparr>bextras := (bextras b)[?n := Some (replicate 256 new_extra)]\<rparr>"
    have be: "bextras b2 = bextras b0 @ [Some (replicate 256 new_extra)]"
      unfolding b2_def b_def using n(2) by (simp add: list_update_append)
    have "extras b2 i = (if src \<le> i \<and> i < src + 256 then Some new_extra
        else if i < src \<and> src + 256 \<le> 256 * (i div 256 + 16) then extras b0 i else None)" for i
    proof -
      consider "i div 256 = ?n" | "i div 256 < ?n" | "i div 256 > ?n" by linarith
      then show ?thesis
      proof cases
        case 1
        then have "src \<le> i" "i < src + 256" using n(1) by auto
        then show ?thesis using 1 be n(2) by (simp add: extras_def nth_append)
      next
        case 2
        then have i: "i < src" "src + 256 \<le> 256 * (i div 256 + 16)" using n(1) n16 by auto
        then show ?thesis using 2 be n(2) by (simp add: extras_def nth_append)
      next
        case 3
        then have "\<not> i < src + 256" using n(1) by auto
        then show ?thesis using 3 be n(2) by (simp add: extras_def)
      qed
    qed
    moreover have "new_block src b0 = Some b2"
      using False by (simp add: new_block_def b2_def b_def Let_def)
    moreover have "shape_ok b2"
    proof -
      have bl: "num_of_blocks b2 = ?n + 1" using be n(2) by (simp add: num_of_blocks_def)
      moreover have un: "num_of_units b2 = src + 256" by (simp add: num_of_units_def b2_def b_def src_def)
      moreover have "src + 256 = 256 * (?n + 1)" using n(1) by simp
      moreover have "map (map_option length) (bextras b2) = map (\<lambda>k. if k + 16 < ?n + 1 then None else Some 256) [0..<?n + 1]"
      proof (rule nth_equalityI)
        fix k assume "k < length (map (map_option length) (bextras b2))"
        then have k: "k < ?n + 1" using be n(2) by simp
        then show "map (map_option length) (bextras b2) ! k = map (\<lambda>k. if k + 16 < ?n + 1 then None else Some 256) [0..<?n + 1] ! k"
          using len [of k] be n(2) n16 by (cases "k = ?n") (simp_all add: nth_append del: upt_Suc)
      qed (simp add: be n(2))
      ultimately show ?thesis using small src_def by (simp only: shape_ok_def simp_thms)
    qed
    ultimately show ?thesis by (intro exI [of _ b2]) (simp add: b2_def b_def fun_eq_iff)
  qed
qed

lemma ring_extend:
  fixes src :: nat
  defines "dst \<equiv> src + 256"
  defines "W V \<equiv> V \<union> {src..<dst}"
  assumes V: "\<forall>x \<in> V. ring_at X V x" "start_ok src u V" "\<forall>x \<in> V. x < src"
    and p: "if V = {} then p = dst - 1 else X u = Some eu \<and> p = ex_prev eu"
    and Y: "\<And>j. j \<in> W V \<Longrightarrow> \<exists>f. Y j = Some f \<and>
        ex_next f = (if j = p then src else if j = dst - 1 then u else if j \<in> V then ex_next (the (X j)) else j + 1) \<and>
        ex_prev f = (if j = u then dst - 1 else if j = src then p else if j \<in> V then ex_prev (the (X j)) else j - 1)"
  shows "\<forall>x \<in> W V. ring_at Y (W V) x"
proof
  fix x assume x: "x \<in> W V"
  obtain f where f: "Y x = Some f"
      "ex_next f = (if x = p then src else if x = dst - 1 then u else if x \<in> V then ex_next (the (X x)) else x + 1)"
      "ex_prev f = (if x = u then dst - 1 else if x = src then p else if x \<in> V then ex_prev (the (X x)) else x - 1)"
    using Y [OF x] by blast
  have d: "src < dst" "src \<le> dst - 1" by (simp_all add: dst_def)
  have u: "if V = {} then u = src else u \<in> V \<and> (\<forall>z \<in> V. u \<le> z)" using V(2) by (simp add: start_ok_def)
  have least: "\<forall>z \<in> W V. u \<le> z" "u \<in> W V"
    using u V(3) d by (auto simp: W_def split: if_splits)
  have p_max: "p \<in> V \<and> succ_in V p u \<and> (\<forall>z \<in> V. z \<le> p)" if "V \<noteq> {}"
  proof -
    have "ring_at X V u" using V(1) u that by auto
    then have s: "p \<in> V" "succ_in V p u" using p that by (auto simp: ring_at_def)
    moreover have "\<not> p < u" using u that s(1) by (auto dest: leD)
    then have "\<forall>z \<in> V. z \<le> p" using s(2) by (auto simp: succ_in_def not_less split: if_splits)
    ultimately show ?thesis by blast
  qed
  have p_succ: "succ_in (W V) p src" if "V \<noteq> {}"
    using p_max [OF that] V(3) d by (auto simp: succ_in_def W_def)
  have top: "succ_in (W V) (dst - 1) u"
    using least V(3) d by (auto simp: succ_in_def W_def)
  have inner: "succ_in (W V) j (j + 1)" if "src \<le> j" "j < dst - 1" for j
    using that V(3) by (auto simp: succ_in_def W_def)
  have old: "succ_in (W V) j k" if "succ_in V j k" "j \<in> V" "j \<noteq> p" for j k
  proof -
    have "j < p" using p_max that(2,3) by (metis empty_iff order_le_imp_less_or_eq)
    moreover have "p \<in> V" using p_max that(2) by blast
    ultimately have "j < k \<and> k \<le> p \<and> (\<forall>z \<in> V. j < z \<longrightarrow> k \<le> z) \<and> k \<in> V" using that(1) by (auto simp: succ_in_def split: if_splits)
    then show ?thesis using V(3) \<open>p \<in> V\<close> by (auto simp: succ_in_def W_def)
  qed
  have "succ_in (W V) x (ex_next f) \<and> ex_prev f \<in> W V \<and> succ_in (W V) (ex_prev f) x"
  proof (cases "x \<in> V")
    case True
    then have nV: "V \<noteq> {}" by blast
    have xs: "x < src" "x \<noteq> dst - 1" "x \<noteq> src" using V(3) True d by auto
    obtain g where g: "X x = Some g" "succ_in V x (ex_next g)" "ex_prev g \<in> V" "succ_in V (ex_prev g) x"
      using V(1) True by (auto simp: ring_at_def)
    have "succ_in (W V) x (ex_next f)"
      using f(2) xs g True p_succ [OF nV] old [OF g(2) True] by auto
    moreover have "ex_prev f \<in> W V \<and> succ_in (W V) (ex_prev f) x"
    proof (cases "x = u")
      case True
      then show ?thesis using f(3) top d by (simp add: W_def)
    next
      case False
      then have "ex_prev g \<noteq> p" using succ_in_unique [OF _ g(4)] p_max [OF nV] by auto
      then show ?thesis using f(3) False True xs g old [OF g(4,3)] by (simp add: W_def)
    qed
    ultimately show ?thesis by blast
  next
    case False
    then have xs: "src \<le> x" "x \<le> dst - 1" using x d by (auto simp: W_def)
    have xp: "V \<noteq> {} \<Longrightarrow> x \<noteq> p \<and> x \<noteq> u" using p_max False u by auto
    have "succ_in (W V) x (ex_next f)"
    proof (cases "x = dst - 1")
      case True
      then have "ex_next f = u" using f(2) xp u by (cases "V = {}") simp_all
      then show ?thesis using top True by simp
    next
      case False
      then show ?thesis using f(2) inner [of x] xs xp p \<open>x \<notin> V\<close> by (auto split: if_splits)
    qed
    moreover have "ex_prev f \<in> W V \<and> succ_in (W V) (ex_prev f) x"
    proof (cases "x = src")
      case True
      then show ?thesis using f(3) top xp p u d p_max p_succ by (cases "V = {}") (auto simp: W_def)
    next
      case False
      then have "x \<noteq> u" using xp u by (auto split: if_splits)
      then show ?thesis using f(3) False \<open>x \<notin> V\<close> inner [of "x - 1"] xs d by (auto simp: W_def)
    qed
    ultimately show ?thesis by blast
  qed
  then show "ring_at Y (W V) x" using f(1) by (auto simp: ring_at_def)
qed

lemma apply_ups_notin: "j \<notin> fst ` set ups \<Longrightarrow> apply_ups ups X j = X j"
proof (induction ups arbitrary: X)
  case (Cons u ups)
  then show ?case by (cases u) auto
qed simp

lemma chain_ups_idx: "fst ` set (chain_ups src m) \<subseteq> {src..<m}"
  by (auto simp: chain_ups_def)

text \<open>The end of the slots of the block that is given up when a block is added.\<close>

definition old_end :: "da_builder \<Rightarrow> nat" where
  "old_end b = (if num_of_blocks b < 16 then 0 else (num_of_blocks b - 16) * 256 + 256)"

definition can_expand :: "da_builder \<Rightarrow> nat set \<Rightarrow> bool" where
  "can_expand b U \<longleftrightarrow> num_of_units b + 256 \<le> 2 ^ 31 \<and>
     ((\<exists>u \<in> U. u < old_end b) \<longrightarrow> (\<exists>off. off div 256 = num_of_blocks b - 16 \<and> unused b off))"

lemma give_up_ok:
  assumes ok: "free_ok b U" and ex: "can_expand b U"
  shows "\<exists>b' r. (if num_of_blocks b + 1 > NUM_OF_UNFIXED_BLOCKS then fix_block (num_of_blocks b - NUM_OF_UNFIXED_BLOCKS) b else Some b) = Some b' \<and>
    free_ok b' {u \<in> U. old_end b \<le> u} \<and> keeps b b' \<and> relabel U (old_end b) r (bunits b) (bunits b') \<and>
    ((\<exists>u \<in> U. u < old_end b) \<longrightarrow> r div 256 = num_of_blocks b - 16 \<and> unused b r)"
proof (cases "num_of_blocks b < 16")
  case True
  then have "old_end b = 0" by (simp add: old_end_def)
  then show ?thesis using True ok by (intro exI [of _ b] exI [of _ 0]) (simp add: NUM_OF_UNFIXED_BLOCKS_def relabel_none)
next
  case False
  let ?k = "num_of_blocks b - 16"
  have e: "old_end b = ?k * 256 + 256" using False by (simp add: old_end_def)
  have sh: "num_of_units b = 256 * num_of_blocks b" using ok by (simp add: free_ok_def shape_ok_def)
  have "?k * 256 \<le> u" if "u \<in> U" for u
  proof -
    have "256 * num_of_blocks b \<le> 256 * (u div 256 + 16)" using ring_live [OF ok that] sh by (simp add: live_def)
    then have "?k \<le> u div 256" by simp
    then show ?thesis by (metis div_times_less_eq_dividend le_trans mult_le_mono1)
  qed
  then obtain b' r where "fix_block ?k b = Some b' \<and> free_ok b' {u \<in> U. ?k * 256 + 256 \<le> u} \<and> keeps b b' \<and>
      relabel U (?k * 256 + 256) r (bunits b) (bunits b') \<and> ((\<exists>u \<in> U. u < ?k * 256 + 256) \<longrightarrow> r div 256 = ?k \<and> unused b r)"
    using fix_block_ok [OF ok, of ?k] ex False by (auto simp: can_expand_def e)
  then show ?thesis using False by (intro exI [of _ b'] exI [of _ r]) (simp add: NUM_OF_UNFIXED_BLOCKS_def e)
qed

lemma chain_block_ok:
  assumes small: "src + 256 \<le> 2 ^ 31" and new: "\<And>j. src \<le> j \<Longrightarrow> j < src + 256 \<Longrightarrow> extras b j = Some new_extra"
  shows "\<exists>b'. chain_block src b = Some b' \<and> bunits b' = bunits b \<and> bkeys b' = bkeys b \<and>
    unfixed_index b' = unfixed_index b \<and> tail_index b' = tail_index b \<and>
    map (map_option length) (bextras b') = map (map_option length) (bextras b) \<and>
    (\<forall>j. \<not> (src \<le> j \<and> j < src + 256) \<longrightarrow> extras b' j = extras b j) \<and>
    (\<forall>j. src \<le> j \<longrightarrow> j < src + 256 \<longrightarrow> (\<exists>f. extras b' j = Some f \<and> ex_next f = (if j = src + 256 - 1 then src else j + 1) \<and>
      ex_prev f = (if j = src then src + 256 - 1 else j - 1) \<and> \<not> is_fixed f \<and> \<not> is_used f))"
proof -
  let ?d = "src + 256"
  define ups where "ups = chain_ups src ?d @ [(src, set_ex_prev (?d - 1)), (?d - 1, set_ex_next src)]"
  have idx: "fst ` set ups \<subseteq> {src..<?d}" using chain_ups_idx [of src ?d] by (auto simp: ups_def)
  have "extras b i \<noteq> None" if "(i, f) \<in> set ups" for i f
    using subsetD [OF idx, of i] that new [of i] by force
  then have "\<forall>(i, f) \<in> set ups. extras b i \<noteq> None" by blast
  from upd_extras_ok [OF this] obtain b' where b': "upd_extras ups b = Some b'" "bunits b' = bunits b" "bkeys b' = bkeys b"
      "unfixed_index b' = unfixed_index b" "tail_index b' = tail_index b"
      "map (map_option length) (bextras b') = map (map_option length) (bextras b)" "extras b' = apply_ups ups (extras b)" by blast
  have old: "extras b' j = extras b j" if "\<not> (src \<le> j \<and> j < ?d)" for j
  proof -
    have "j \<notin> fst ` set ups" using subsetD [OF idx, of j] that by auto
    then show ?thesis unfolding b'(7) by (rule apply_ups_notin)
  qed
  have "\<exists>f. extras b' j = Some f \<and> ex_next f = (if j = ?d - 1 then src else j + 1) \<and>
      ex_prev f = (if j = src then ?d - 1 else j - 1) \<and> \<not> is_fixed f \<and> \<not> is_used f" if j: "src \<le> j" "j < ?d" for j
  proof -
    obtain f where f: "apply_ups (chain_ups src ?d) (extras b) j = Some f"
        "ex_next f = (if src \<le> j \<and> j < ?d - 1 then j + 1 else ex_next new_extra)"
        "ex_prev f = (if src < j \<and> j < ?d then j - 1 else ex_prev new_extra)" "is_fixed f = is_fixed new_extra" "is_used f = is_used new_extra"
      using chain_ups_ok [of src ?d "extras b" j new_extra] small j new by auto
    have lt: "?d - 1 < 2 ^ 31" "src < 2 ^ 31" "src \<noteq> ?d - 1" using small by auto
    consider "j = src" | "j = ?d - 1" | "j \<noteq> src" "j \<noteq> ?d - 1" by blast
    then show ?thesis using f j lt unfolding b'(7) ups_def by cases (auto simp: extra_simps)
  qed
  moreover have "chain_block src b = Some b'" using b'(1) by (simp only: chain_block_def ups_def chain_ups_def)
  ultimately show ?thesis using b'(2-6) old by (intro exI [of _ b']) blast
qed

lemma merge_lists_ok:
  fixes src :: nat
  defines "dst \<equiv> src + 256"
  assumes small: "dst \<le> 2 ^ 31" and V: "\<forall>x \<in> V. ring_at (extras b) V x" "start_ok src (unfixed_index b) V" "\<forall>x \<in> V. x < src"
    and new: "\<And>j. src \<le> j \<Longrightarrow> j < dst \<Longrightarrow> \<exists>f. extras b j = Some f \<and> ex_next f = (if j = dst - 1 then src else j + 1) \<and>
      ex_prev f = (if j = src then dst - 1 else j - 1)"
  shows "\<exists>b'. merge_lists src b = Some b' \<and> bunits b' = bunits b \<and> bkeys b' = bkeys b \<and>
    unfixed_index b' = unfixed_index b \<and> tail_index b' = tail_index b \<and>
    map (map_option length) (bextras b') = map (map_option length) (bextras b) \<and>
    (\<forall>j. map_option (\<lambda>e. (is_fixed e, is_used e)) (extras b' j) = map_option (\<lambda>e. (is_fixed e, is_used e)) (extras b j)) \<and>
    (\<forall>x \<in> V \<union> {src..<dst}. ring_at (extras b') (V \<union> {src..<dst}) x)"
proof -
  let ?u = "unfixed_index b" and ?W = "V \<union> {src..<dst}"
  have u: "if V = {} then ?u = src else ?u \<in> V" using V(2) by (auto simp: start_ok_def)
  have in3: "extras b j \<noteq> None" if "j \<in> ?W" for j
    using that new [of j] V(1) by (auto simp: ring_at_def)
  have d: "src < dst" "src \<noteq> dst - 1" "src \<in> ?W" "dst - 1 \<in> ?W" by (auto simp: dst_def)
  have uW: "?u \<in> ?W" using u d by (auto split: if_splits)
  then obtain e where e: "extras b ?u = Some e" using in3 by blast
  define p where "p = ex_prev e"
  have p: "if V = {} then p = dst - 1 else extras b ?u = Some e \<and> p = ex_prev e"
    using e new [of src] u d by (auto simp: p_def split: if_splits)
  have pW: "p \<in> ?W" using V(1) u p d by (auto simp: ring_at_def split: if_splits)
  have lt: "p < 2 ^ 31" "?u < 2 ^ 31" "src < 2 ^ 31" "dst - 1 < 2 ^ 31"
    using pW uW V(3) small d by (auto simp: dst_def)
  have "\<forall>(i, f) \<in> set [(src, set_ex_prev p), (dst - 1, set_ex_next ?u)]. extras b i \<noteq> None" using in3 d by auto
  from upd_extras_ok [OF this] obtain b4 where b4: "upd_extras [(src, set_ex_prev p), (dst - 1, set_ex_next ?u)] b = Some b4"
      "bunits b4 = bunits b" "bkeys b4 = bkeys b" "unfixed_index b4 = unfixed_index b" "tail_index b4 = tail_index b"
      "map (map_option length) (bextras b4) = map (map_option length) (bextras b)"
      "extras b4 = apply_ups [(src, set_ex_prev p), (dst - 1, set_ex_next ?u)] (extras b)" by blast
  have u4: "?u \<noteq> dst - 1" using u V(3) d by (auto split: if_splits)
  then have e4: "extras b4 ?u = Some (if ?u = src then set_ex_prev p e else e)" using e unfolding b4(7) by auto
  then obtain e' where e': "extras b4 ?u = Some e'" "ex_prev e' = p" using lt(1) by (auto simp: extra_simps p_def)
  have "\<forall>(i, f) \<in> set [(p, set_ex_next src), (?u, set_ex_prev (dst - 1))]. extras b4 i \<noteq> None"
    using in3 [OF pW] in3 [OF uW] unfolding b4(7) by auto
  from upd_extras_ok [OF this] obtain b5 where b5: "upd_extras [(p, set_ex_next src), (?u, set_ex_prev (dst - 1))] b4 = Some b5"
      "bunits b5 = bunits b4" "bkeys b5 = bkeys b4" "unfixed_index b5 = unfixed_index b4" "tail_index b5 = tail_index b4"
      "map (map_option length) (bextras b5) = map (map_option length) (bextras b4)"
      "extras b5 = apply_ups [(p, set_ex_next src), (?u, set_ex_prev (dst - 1))] (extras b4)" by blast
  have run: "merge_lists src b = Some b5"
    using e b4(1,4) e' b5(1) by (simp add: merge_lists_def p_def dst_def del: upd_extras.simps)
  let ?ups = "[(src, set_ex_prev p), (dst - 1, set_ex_next ?u), (p, set_ex_next src), (?u, set_ex_prev (dst - 1))]"
  have X5: "extras b5 = apply_ups ?ups (extras b)" unfolding b5(7) b4(7) by simp
  have fields: "ex_next f = (if j = p then src else if j = dst - 1 then ?u else ex_next g) \<and>
      ex_prev f = (if j = ?u then dst - 1 else if j = src then p else ex_prev g) \<and> is_fixed f = is_fixed g \<and> is_used f = is_used g"
    if "extras b j = Some g" "extras b5 j = Some f" for j f g
    using that lt unfolding X5 by (auto simp: extra_simps split: if_splits)
  have dom: "extras b5 j = None \<longleftrightarrow> extras b j = None" for j unfolding X5 by (rule apply_ups_None)
  have Y: "\<exists>f. extras b5 j = Some f \<and>
      ex_next f = (if j = p then src else if j = dst - 1 then ?u else if j \<in> V then ex_next (the (extras b j)) else j + 1) \<and>
      ex_prev f = (if j = ?u then dst - 1 else if j = src then p else if j \<in> V then ex_prev (the (extras b j)) else j - 1)"
    if j: "j \<in> ?W" for j
  proof -
    obtain g where g: "extras b j = Some g" using in3 [OF j] by blast
    then obtain f where f: "extras b5 j = Some f" using dom [of j] by (cases "extras b5 j") simp_all
    have "j \<notin> V \<Longrightarrow> ex_next g = (if j = dst - 1 then src else j + 1) \<and> ex_prev g = (if j = src then dst - 1 else j - 1)"
      using new [of j] g j by auto
    then show ?thesis using fields [OF g f] f g by auto
  qed
  have A: "\<forall>x \<in> ?W. ring_at (extras b5) ?W x"
    unfolding dst_def by (rule ring_extend [OF V p [unfolded dst_def]]) (rule Y [unfolded dst_def])
  have B: "map_option (\<lambda>e. (is_fixed e, is_used e)) (extras b5 j) = map_option (\<lambda>e. (is_fixed e, is_used e)) (extras b j)" for j
  proof (cases "extras b j")
    case None
    then show ?thesis using dom [of j] by simp
  next
    case (Some g)
    then obtain f where "extras b5 j = Some f" using dom [of j] by (cases "extras b5 j") simp_all
    then show ?thesis using fields [OF Some] Some by simp
  qed
  have C: "bunits b5 = bunits b" "bkeys b5 = bkeys b" "unfixed_index b5 = unfixed_index b" "tail_index b5 = tail_index b"
      "map (map_option length) (bextras b5) = map (map_option length) (bextras b)"
    using b5(2-6) b4(2-6) by simp_all
  show ?thesis by (intro exI [of _ b5] conjI allI run C A B)
qed

lemma expand_trie_ok:
  fixes U b
  defines "src \<equiv> num_of_units b"
  assumes ok: "free_ok b U" and ex: "can_expand b U"
  shows "\<exists>b' r vs. expand_trie b = Some b' \<and> free_ok b' ({u \<in> U. old_end b \<le> u} \<union> {src..<src + 256}) \<and>
    bkeys b' = bkeys b \<and> tail_index b' = tail_index b \<and>
    bunits b' = vs @ replicate 256 0 \<and> relabel U (old_end b) r (bunits b) vs \<and>
    ((\<exists>u \<in> U. u < old_end b) \<longrightarrow> r div 256 = num_of_blocks b - 16 \<and> unused b r) \<and>
    (\<forall>i. live b' i \<longrightarrow> (unused b' i \<longleftrightarrow> src \<le> i \<or> unused b i))"
proof -
  define V where "V = {u \<in> U. old_end b \<le> u}"
  let ?d = "src + 256"
  obtain b1 r where b1: "(if num_of_blocks b + 1 > NUM_OF_UNFIXED_BLOCKS then fix_block (num_of_blocks b - NUM_OF_UNFIXED_BLOCKS) b else Some b) = Some b1"
    and okV: "free_ok b1 V" and k1: "keeps b b1" and rl: "relabel U (old_end b) r (bunits b) (bunits b1)"
    and r: "(\<exists>u \<in> U. u < old_end b) \<longrightarrow> r div 256 = num_of_blocks b - 16 \<and> unused b r"
    unfolding V_def using give_up_ok [OF ok ex] by blast
  have n1: "num_of_units b1 = src" using rl by (simp add: relabel_def num_of_units_def src_def)
  have small: "?d \<le> 2 ^ 31" using ex by (simp add: can_expand_def src_def)
  have nb: "src = 256 * num_of_blocks b" using ok by (simp add: free_ok_def shape_ok_def src_def)
  have sh1: "shape_ok b1" and ring1: "\<forall>x \<in> V. ring_at (extras b1) V x" and st1: "start_ok src (unfixed_index b1) V"
    and fl1: "\<And>i e. extras b1 i = Some e \<Longrightarrow> (is_fixed e \<longleftrightarrow> i \<notin> V)"
    using okV n1 by (auto simp: free_ok_def)
  have V_live: "x < src \<and> ?d \<le> 256 * (x div 256 + 16)" if "x \<in> V" for x
  proof -
    have "old_end b \<le> x" using that by (simp add: V_def)
    then have "num_of_blocks b - 16 + 1 \<le> x div 256 \<or> num_of_blocks b < 16" by (auto simp: old_end_def split: if_splits)
    then show ?thesis using ring_live [OF okV that] n1 nb by (auto simp: live_def)
  qed
  obtain b2 where b2: "new_block src b1 = Some b2" "bunits b2 = bunits b1 @ replicate 256 0" "bkeys b2 = bkeys b1"
      "unfixed_index b2 = unfixed_index b1" "tail_index b2 = tail_index b1" "shape_ok b2"
      "extras b2 = (\<lambda>i. if src \<le> i \<and> i < ?d then Some new_extra
         else if i < src \<and> ?d \<le> 256 * (i div 256 + 16) then extras b1 i else None)"
    using new_block_ok [OF sh1] small n1 by auto
  have new2: "extras b2 j = Some new_extra" if "src \<le> j" "j < ?d" for j using that by (simp add: b2(7))
  obtain b3 where b3: "chain_block src b2 = Some b3" "bunits b3 = bunits b2" "bkeys b3 = bkeys b2"
      "unfixed_index b3 = unfixed_index b2" "tail_index b3 = tail_index b2"
      "map (map_option length) (bextras b3) = map (map_option length) (bextras b2)"
      "\<forall>j. \<not> (src \<le> j \<and> j < ?d) \<longrightarrow> extras b3 j = extras b2 j"
      "\<forall>j. src \<le> j \<longrightarrow> j < ?d \<longrightarrow> (\<exists>f. extras b3 j = Some f \<and> ex_next f = (if j = ?d - 1 then src else j + 1) \<and>
        ex_prev f = (if j = src then ?d - 1 else j - 1) \<and> \<not> is_fixed f \<and> \<not> is_used f)"
    using chain_block_ok [OF small new2] by blast
  have V3: "extras b3 x = extras b1 x" if "x \<in> V" for x
    using V_live [OF that] b3(7) b2(7) by simp
  have "\<forall>x \<in> V. ring_at (extras b3) V x" using ring1 V3 by (simp add: ring_at_def)
  moreover have "start_ok src (unfixed_index b3) V" using st1 b3(4) b2(4) by simp
  moreover have "\<forall>x \<in> V. x < src" using V_live by blast
  moreover have "\<exists>f. extras b3 j = Some f \<and> ex_next f = (if j = ?d - 1 then src else j + 1) \<and>
      ex_prev f = (if j = src then ?d - 1 else j - 1)" if "src \<le> j" "j < ?d" for j using b3(8) that by blast
  ultimately obtain b4 where b4: "merge_lists src b3 = Some b4" "bunits b4 = bunits b3" "bkeys b4 = bkeys b3"
      "unfixed_index b4 = unfixed_index b3" "tail_index b4 = tail_index b3"
      "map (map_option length) (bextras b4) = map (map_option length) (bextras b3)"
      "\<forall>j. map_option (\<lambda>e. (is_fixed e, is_used e)) (extras b4 j) = map_option (\<lambda>e. (is_fixed e, is_used e)) (extras b3 j)"
      "\<forall>x \<in> V \<union> {src..<?d}. ring_at (extras b4) (V \<union> {src..<?d}) x"
    using merge_lists_ok [OF small] by blast
  have flags: "(is_fixed e \<longleftrightarrow> i \<notin> V \<union> {src..<?d}) \<and> (is_used e \<longleftrightarrow> \<not> (src \<le> i \<or> unused b1 i))"
    if e: "extras b4 i = Some e" for i e
  proof (cases "src \<le> i \<and> i < ?d")
    case True
    then obtain f where "extras b3 i = Some f" "\<not> is_fixed f" "\<not> is_used f" using b3(8) by blast
    then show ?thesis using b4(7) [rule_format, of i] e True by simp
  next
    case False
    obtain f where f: "extras b3 i = Some f" "is_fixed e = is_fixed f" "is_used e = is_used f"
      using b4(7) [rule_format, of i] e by (cases "extras b3 i") auto
    then have "extras b1 i = Some f" "i < src" using False b3(7) b2(7) by (auto split: if_splits)
    then show ?thesis using fl1 [of i f] f by (auto simp: unused_def)
  qed
  have sh4: "shape_ok b4" using shape_upd [OF b2(6), of b4] b4(2,6) b3(2,6) by simp
  have "unfixed_index b4 = unfixed_index b1" using b4(4) b3(4) b2(4) by simp
  have "start_ok (num_of_units b4) (unfixed_index b4) (V \<union> {src..<?d})"
  proof (cases "V = {}")
    case False
    then have "unfixed_index b1 \<in> V" "\<forall>z \<in> V. unfixed_index b1 \<le> z" using st1 by (simp_all add: start_ok_def)
    moreover from this(1) have "unfixed_index b1 < src" using V_live by blast
    ultimately show ?thesis using \<open>unfixed_index b4 = unfixed_index b1\<close> by (auto simp: start_ok_def)
  qed (use st1 \<open>unfixed_index b4 = unfixed_index b1\<close> in \<open>auto simp: start_ok_def\<close>)
  then have "free_ok b4 (V \<union> {src..<?d})" using sh4 flags b4(8) by (simp add: free_ok_def)
  moreover have "expand_trie b = Some b4"
    using b1 b2(1) b3(1) b4(1) by (simp add: expand_trie_def src_def)
  moreover have "unused b4 i \<longleftrightarrow> src \<le> i \<or> unused b i" if "live b4 i" for i
  proof -
    have "extras b4 i \<noteq> None" using extras_live [OF sh4, of i] \<open>live b4 i\<close> by blast
    then obtain e where "extras b4 i = Some e" by blast
    then show ?thesis using flags [of i e] unused_keeps [OF k1, of i] by (auto simp: unused_def)
  qed
  moreover have "bunits b4 = bunits b1 @ replicate 256 0" "bkeys b4 = bkeys b" "tail_index b4 = tail_index b"
    using b4(2,3,5) b3(2,3,5) b2(2,3,5) k1 by (simp_all add: keeps_def)
  ultimately show ?thesis using rl r unfolding V_def by (intro exI conjI) (assumption | blast)+
qed

end
