(* ===== verification/DartsTrie.thy ===== *)
theory DartsTrie
  imports DartsFree
begin

text \<open>
  The trie that the builder of \<open>darts-clone.h\<close> makes. A node of the trie stands for a prefix of the
  keys (with their terminators) and the range of the keys that have it; \<open>T\<close> maps the index of a node
  to both, \<open>Q\<close> the index of a node whose children were placed to the slot their labels are counted
  from. The invariant says how the array, the free list, the keys and the stack of the loop relate to
  these two maps; \<open>build_trie\<close> ends with every slot accounted for.
\<close>

unbundle bit_operations_syntax

section \<open>Keys with terminators\<close>

abbreviation tx :: "bytes list \<Rightarrow> nat \<Rightarrow> bytes" where
  "tx K i \<equiv> K ! i @ [NUL]"

definition keys_ok :: "bytes list \<Rightarrow> bool" where
  "keys_ok K \<longleftrightarrow> sorted_wrt (<) K \<and> (\<forall>t \<in> set K. nul_free t)"

definition node_ok :: "bytes list \<Rightarrow> bytes \<Rightarrow> nat \<Rightarrow> nat \<Rightarrow> bool" where
  "node_ok K p rb re \<longleftrightarrow> rb < re \<and> re \<le> length K \<and> (\<forall>i < length K. prefix p (tx K i) \<longleftrightarrow> rb \<le> i \<and> i < re)"

lemma prefix_take: "prefix p s \<longleftrightarrow> length p \<le> length s \<and> take (length p) s = p"
  by (auto simp: prefix_def) (metis append_take_drop_id)

lemma nul_free_prefix_end:
  assumes "nul_free s" and "nul_free t" and "prefix (s @ [NUL]) (t @ [NUL])"
  shows "s = t"
proof -
  obtain r where r: "t @ [NUL] = s @ NUL # r" using assms(3) by (auto simp: prefix_def)
  then have "cstr (t @ [NUL]) = cstr (s @ NUL # r)" by simp
  then show ?thesis using assms(1,2) cstr_word_NUL [of t "[]"] cstr_word_NUL [of s r] by simp
qed

lemma keys_ok_distinct: "keys_ok K \<Longrightarrow> i < length K \<Longrightarrow> j < length K \<Longrightarrow> K ! i = K ! j \<Longrightarrow> i = j"
  unfolding keys_ok_def by (metis linorder_neqE_nat order_less_irrefl sorted_wrt_nth_less)

text \<open>A prefix that two keys share ends before their terminators.\<close>

lemma shared_prefix_short:
  assumes K: "keys_ok K" and i: "i < length K" "j < length K" "i \<noteq> j" and p: "prefix p (tx K i)" "prefix p (tx K j)"
  shows "length p \<le> length (K ! i)"
proof (rule ccontr)
  assume "\<not> length p \<le> length (K ! i)"
  then have "length p = length (tx K i)" using prefix_length_le [OF p(1)] by simp
  then have "p = tx K i" using p(1) by (simp add: prefix_take)
  then have "K ! i = K ! j" using p(2) K i by (intro nul_free_prefix_end) (auto simp: keys_ok_def)
  then show False using keys_ok_distinct [OF K i(1,2)] i(3) by simp
qed

lemma prefix_snoc_iff: "prefix (p @ [c]) s \<longleftrightarrow> prefix p s \<and> length p < length s \<and> s ! length p = c"
  by (auto simp: prefix_take take_Suc_conv_app_nth Suc_le_eq)

lemma upt_split: "i \<le> j \<Longrightarrow> j \<le> k \<Longrightarrow> [i..<k] = [i..<j] @ [j..<k]" for k :: nat
  using upt_add_eq_append [of i j "k - j"] by simp

lemma uchar_le: "uchar a \<le> uchar b \<longleftrightarrow> a \<le> b"
  by (simp add: uchar_def less_eq_char_def)

text \<open>Behind a shared prefix the next characters of sorted keys ascend; the terminator is the least.\<close>

lemma next_char_mono:
  assumes K: "keys_ok K" and ij: "i \<le> j" "j < length K" and p: "prefix p (tx K i)" "prefix p (tx K j)"
    and len: "length p \<le> length (K ! i)" "length p \<le> length (K ! j)"
  shows "uchar (tx K i ! length p) \<le> uchar (tx K j ! length p)"
proof (cases "i = j")
  case False
  obtain u v where u: "K ! i = p @ u" "K ! j = p @ v"
    using prefix_length_prefix [OF p(1) _ len(1)] prefix_length_prefix [OF p(2) _ len(2)] by (auto simp: prefix_def)
  have "K ! i < K ! j" using K ij False by (auto simp: keys_ok_def intro: sorted_wrt_nth_less)
  then have "p @ u < p @ v" by (simp add: u)
  then have "u < v" by (induction p) simp_all
  then show ?thesis by (cases u; cases v) (auto simp: u uchar_le nth_append)
qed simp

section \<open>Splitting a range\<close>

type_synonym da_group = "nat \<times> nat \<times> nat"

abbreviation group_keys :: "da_group list \<Rightarrow> nat list" where
  "group_keys gs \<equiv> concat (map (\<lambda>(c, x, y). [x..<y]) gs)"

definition groups_ok :: "(nat \<Rightarrow> nat) \<Rightarrow> nat \<Rightarrow> nat \<Rightarrow> da_group list \<Rightarrow> bool" where
  "groups_ok ch rb re gs \<longleftrightarrow> group_keys gs = [rb..<re] \<and> sorted_wrt (<) (map fst gs) \<and>
     (\<forall>(c, x, y) \<in> set gs. x < y \<and> (\<forall>i. x \<le> i \<longrightarrow> i < y \<longrightarrow> ch i = c))"

definition step_keys :: "nat \<Rightarrow> nat \<Rightarrow> da_key list \<Rightarrow> da_key list" where
  "step_keys x y keys = map (\<lambda>i. (keys ! i)\<lparr>kpos := kpos (keys ! i) + (if x \<le> i \<and> i < y then 1 else 0)\<rparr>) [0..<length keys]"

lemma step_keys_Suc: "x < y \<Longrightarrow> step_keys x y keys = step_keys (Suc x) y (step_key x keys)"
proof (rule nth_equalityI)
  fix i assume "x < y" "i < length (step_keys x y keys)"
  then show "step_keys x y keys ! i = step_keys (Suc x) y (step_key x keys) ! i"
    by (cases "i = x") (auto simp: step_keys_def step_key_def)
qed (simp add: step_keys_def step_key_def)

lemma step_keys_empty: "step_keys x x keys = keys"
  by (auto simp: step_keys_def intro!: nth_equalityI)

lemma split_range_ok:
  assumes "length ls = length rs" and "groups_ok ch rb nb (zip ls rs)" and "sorted_wrt (<) (ls @ [l])"
    and "nb \<le> it" and "nb = it \<longrightarrow> it < re \<and> ch it = l" and "\<forall>i. nb \<le> i \<longrightarrow> i < it \<longrightarrow> ch i = l" and "it \<le> re"
    and "re \<le> length keys" and "\<forall>i. it \<le> i \<longrightarrow> i < re \<longrightarrow> uchar (kchar (keys ! i) 0) = ch i"
    and "\<forall>i j. rb \<le> i \<longrightarrow> i \<le> j \<longrightarrow> j < re \<longrightarrow> ch i \<le> ch j" and "rb \<le> nb"
  shows "\<exists>labels ranges nb'. split_range [it..<re] keys (ls @ [l]) rs nb = (step_keys it re keys, labels, ranges, nb') \<and>
    length labels = Suc (length ranges) \<and> groups_ok ch rb re (zip labels (ranges @ [(nb', re)]))"
  using assms
proof (induction "re - it" arbitrary: it ls rs l nb keys)
  case 0
  then have e: "it = re" "nb < re" by auto
  have z: "zip (ls @ [l]) (rs @ [(nb, re)]) = zip ls rs @ [(l, nb, re)]" using 0(2) by simp
  have u: "[rb..<re] = [rb..<nb] @ [nb..<re]" using e(2) 0 by (intro upt_split) simp_all
  have g: "map fst (zip ls rs) = ls" using 0(2) by simp
  have "groups_ok ch rb re (zip (ls @ [l]) (rs @ [(nb, re)]))"
    unfolding z groups_ok_def using 0 e g by (simp add: groups_ok_def u)
  then show ?case using e 0(2) by (simp add: step_keys_empty)
next
  case (Suc k)
  then have it: "it < re" "k = re - Suc it" by auto
  let ?c = "uchar (kchar (keys ! it) 0)" and ?keys = "step_key it keys"
  have c: "?c = ch it" using Suc.prems(9) it by simp
  have keys: "re \<le> length ?keys" "\<forall>i. Suc it \<le> i \<longrightarrow> i < re \<longrightarrow> uchar (kchar (?keys ! i) 0) = ch i"
    using Suc.prems(8,9) by (auto simp: step_key_def)
  have upt: "[it..<re] = it # [Suc it..<re]" using it(1) by (simp add: upt_conv_Cons)
  show ?case
  proof (cases "?c = l")
    case True
    have inner: "\<forall>i. nb \<le> i \<longrightarrow> i < Suc it \<longrightarrow> ch i = l" using Suc.prems(6) True c by (auto simp: less_Suc_eq)
    have "\<exists>labels ranges nb'. split_range [Suc it..<re] ?keys (ls @ [l]) rs nb = (step_keys (Suc it) re ?keys, labels, ranges, nb') \<and>
        length labels = Suc (length ranges) \<and> groups_ok ch rb re (zip labels (ranges @ [(nb', re)]))"
      by (rule Suc.hyps(1) [OF it(2) Suc.prems(1-3) _ _ inner _ keys Suc.prems(10,11)]) (use Suc.prems(4) it in auto)
    then show ?thesis using True by (simp add: upt step_keys_Suc [OF it(1)])
  next
    case False
    then have nb: "nb < it" using Suc.prems(4,5) c by (cases "nb = it") auto
    have "l \<le> ch it" using Suc.prems(6,10,11) nb it(1) by (metis le_refl nat_less_le)
    then have lt: "l < ch it" using False c by simp
    have z: "zip (ls @ [l]) (rs @ [(nb, it)]) = zip ls rs @ [(l, nb, it)]" using Suc.prems(1) by simp
    have u: "[rb..<it] = [rb..<nb] @ [nb..<it]" using nb Suc.prems(11) by (intro upt_split) simp_all
    have g: "map fst (zip ls rs) = ls" using Suc.prems(1) by simp
    have 1: "length (ls @ [l]) = length (rs @ [(nb, it)])" using Suc.prems(1) by simp
    have 2: "groups_ok ch rb it (zip (ls @ [l]) (rs @ [(nb, it)]))"
      unfolding z groups_ok_def using Suc.prems(2,3,6) nb g by (simp add: groups_ok_def u)
    have 3: "sorted_wrt (<) ((ls @ [l]) @ [ch it])" using Suc.prems(3) lt by (auto simp: sorted_wrt_append)
    have "\<exists>labels ranges nb'. split_range [Suc it..<re] ?keys ((ls @ [l]) @ [ch it]) (rs @ [(nb, it)]) it =
        (step_keys (Suc it) re ?keys, labels, ranges, nb') \<and>
        length labels = Suc (length ranges) \<and> groups_ok ch rb re (zip labels (ranges @ [(nb', re)]))"
      by (rule Suc.hyps(1) [OF it(2) 1 2 3 _ _ _ _ keys Suc.prems(10)]) (use it nb Suc.prems(11) in \<open>auto simp: less_Suc_eq\<close>)
    then show ?thesis using False c by (simp add: upt step_keys_Suc [OF it(1)])
  qed
qed

lemma group_key_in: "groups_ok ch rb re gs \<Longrightarrow> rb \<le> i \<Longrightarrow> i < re \<Longrightarrow> \<exists>(c, x, y) \<in> set gs. c = ch i \<and> x \<le> i \<and> i < y"
proof -
  assume g: "groups_ok ch rb re gs" and i: "rb \<le> i" "i < re"
  then have "i \<in> set (group_keys gs)" by (simp add: groups_ok_def)
  then obtain c x y where "(c, x, y) \<in> set gs" "x \<le> i" "i < y" by auto
  moreover from this have "ch i = c" using g by (auto simp: groups_ok_def)
  ultimately show ?thesis by blast
qed

lemma group_unique: "groups_ok ch rb re gs \<Longrightarrow> (c, x, y) \<in> set gs \<Longrightarrow> (c, x', y') \<in> set gs \<Longrightarrow> x = x' \<and> y = y'"
proof -
  assume "groups_ok ch rb re gs" and m: "(c, x, y) \<in> set gs" "(c, x', y') \<in> set gs"
  then have "distinct (map fst gs)" by (simp add: groups_ok_def strict_sorted_iff)
  then show ?thesis using m eq_key_imp_eq_value [of gs c "(x, y)" "(x', y')"] by simp
qed

lemma group_range: "groups_ok ch rb re gs \<Longrightarrow> (c, x, y) \<in> set gs \<Longrightarrow> rb \<le> x \<and> x < y \<and> y \<le> re"
proof -
  assume g: "groups_ok ch rb re gs" and m: "(c, x, y) \<in> set gs"
  then have xy: "x < y" by (auto simp: groups_ok_def)
  have e: "group_keys gs = [rb..<re]" using g by (simp only: groups_ok_def)
  have "set [x..<y] \<subseteq> set (group_keys gs)" using m by force
  then have "set [x..<y] \<subseteq> {rb..<re}" unfolding e by simp
  then have "x \<in> {rb..<re}" "y - 1 \<in> {rb..<re}" using xy by auto
  then show ?thesis using xy by auto
qed

text \<open>What the keys of a node say about the groups of its children.\<close>

definition next_char :: "bytes list \<Rightarrow> bytes \<Rightarrow> nat \<Rightarrow> nat" where
  "next_char K p i = uchar (tx K i ! length p)"

lemma group_node:
  assumes nd: "node_ok K p rb re" and len: "\<forall>i. rb \<le> i \<longrightarrow> i < re \<longrightarrow> length p \<le> length (K ! i)"
    and g: "groups_ok (next_char K p) rb re gs" and m: "(c, x, y) \<in> set gs"
  shows "c < 256 \<and> node_ok K (p @ [char_of c]) x y"
proof -
  have xy: "rb \<le> x" "x < y" "y \<le> re" using group_range [OF g m] by auto
  have c: "next_char K p i = c" if "x \<le> i" "i < y" for i using g m that by (auto simp: groups_ok_def)
  have c256: "c < 256" using c [of x] xy(2) uchar_less by (auto simp: next_char_def)
  have "prefix (p @ [char_of c]) (tx K i) \<longleftrightarrow> x \<le> i \<and> i < y" if i: "i < length K" for i
  proof -
    have "prefix (p @ [char_of c]) (tx K i) \<longleftrightarrow> rb \<le> i \<and> i < re \<and> next_char K p i = c"
      using nd len i c256 uchar_char_of [of c] unfolding prefix_snoc_iff node_ok_def next_char_def
      by (metis char_of_uchar length_append_singleton less_Suc_eq_le mod_less)
    also have "\<dots> \<longleftrightarrow> x \<le> i \<and> i < y"
    proof
      assume a: "rb \<le> i \<and> i < re \<and> next_char K p i = c"
      then obtain x' y' where "(c, x', y') \<in> set gs" "x' \<le> i" "i < y'" using group_key_in [OF g, of i] by auto
      then show "x \<le> i \<and> i < y" using group_unique [OF g m] by blast
    qed (use xy c in auto)
    finally show ?thesis .
  qed
  then show ?thesis using c256 xy nd by (auto simp: node_ok_def)
qed

section \<open>The tree of nodes\<close>

type_synonym da_nodes = "nat \<Rightarrow> (bytes \<times> nat \<times> nat) option"

definition tree_ok :: "bytes list \<Rightarrow> da_nodes \<Rightarrow> (nat \<Rightarrow> nat option) \<Rightarrow> bool" where
  "tree_ok K T Q \<longleftrightarrow> T 0 = Some ([], 0, length K) \<and>
     (\<forall>x p rb re. T x = Some (p, rb, re) \<longrightarrow> node_ok K p rb re) \<and>
     (\<forall>x p rb re. T x = Some (p, rb, re) \<longrightarrow> x \<noteq> 0 \<longrightarrow>
        (\<exists>m oi q c r. T m = Some (q, r) \<and> Q m = Some oi \<and> p = q @ [c] \<and> x = oi XOR uchar c)) \<and>
     dom Q \<subseteq> dom T \<and> inj_on Q (dom Q) \<and> 0 \<notin> ran Q \<and>
     (\<forall>x oi p rb re i. Q x = Some oi \<longrightarrow> T x = Some (p, rb, re) \<longrightarrow> rb \<le> i \<longrightarrow> i < re \<longrightarrow>
        length p \<le> length (K ! i) \<and>
        (\<exists>r. T (oi XOR next_char K p i) = Some (p @ [tx K i ! length p], r)))"

lemma tree_okD:
  assumes "tree_ok K T Q"
  shows tree_root: "T 0 = Some ([], 0, length K)"
    and tree_node: "\<And>x p rb re. T x = Some (p, rb, re) \<Longrightarrow> node_ok K p rb re"
    and tree_owner: "\<And>x p rb re. T x = Some (p, rb, re) \<Longrightarrow> x \<noteq> 0 \<Longrightarrow>
        \<exists>m oi q c r. T m = Some (q, r) \<and> Q m = Some oi \<and> p = q @ [c] \<and> x = oi XOR uchar c"
    and tree_dom: "dom Q \<subseteq> dom T" "inj_on Q (dom Q)" "0 \<notin> ran Q"
    and tree_child: "\<And>x oi p rb re i. Q x = Some oi \<Longrightarrow> T x = Some (p, rb, re) \<Longrightarrow> rb \<le> i \<Longrightarrow> i < re \<Longrightarrow>
        length p \<le> length (K ! i) \<and> (\<exists>r. T (oi XOR next_char K p i) = Some (p @ [tx K i ! length p], r))"
proof -
  note a = assms [unfolded tree_ok_def]
  show "T 0 = Some ([], 0, length K)" by (rule a [THEN conjunct1])
  note b = a [THEN conjunct2, THEN conjunct2, THEN conjunct2]
  show "dom Q \<subseteq> dom T" "inj_on Q (dom Q)" "0 \<notin> ran Q"
    using b [THEN conjunct1] b [THEN conjunct2, THEN conjunct1] b [THEN conjunct2, THEN conjunct2, THEN conjunct1] by simp_all
  show "\<And>x p rb re. T x = Some (p, rb, re) \<Longrightarrow> node_ok K p rb re"
    by (rule a [THEN conjunct2, THEN conjunct1, rule_format])
  show "\<And>x p rb re. T x = Some (p, rb, re) \<Longrightarrow> x \<noteq> 0 \<Longrightarrow>
        \<exists>m oi q c r. T m = Some (q, r) \<and> Q m = Some oi \<and> p = q @ [c] \<and> x = oi XOR uchar c"
    by (rule a [THEN conjunct2, THEN conjunct2, THEN conjunct1, rule_format])
  show "\<And>x oi p rb re i. Q x = Some oi \<Longrightarrow> T x = Some (p, rb, re) \<Longrightarrow> rb \<le> i \<Longrightarrow> i < re \<Longrightarrow>
        length p \<le> length (K ! i) \<and> (\<exists>r. T (oi XOR next_char K p i) = Some (p @ [tx K i ! length p], r))"
    by (rule a [THEN conjunct2, THEN conjunct2, THEN conjunct2, THEN conjunct2, THEN conjunct2, THEN conjunct2, rule_format])
qed

lemma tree_okI:
  assumes "T 0 = Some ([], 0, length K)"
    and "\<And>x p rb re. T x = Some (p, rb, re) \<Longrightarrow> node_ok K p rb re"
    and "\<And>x p rb re. T x = Some (p, rb, re) \<Longrightarrow> x \<noteq> 0 \<Longrightarrow>
        \<exists>m oi q c r. T m = Some (q, r) \<and> Q m = Some oi \<and> p = q @ [c] \<and> x = oi XOR uchar c"
    and "dom Q \<subseteq> dom T" and "inj_on Q (dom Q)" and "0 \<notin> ran Q"
    and "\<And>x oi p rb re i. Q x = Some oi \<Longrightarrow> T x = Some (p, rb, re) \<Longrightarrow> rb \<le> i \<Longrightarrow> i < re \<Longrightarrow>
        length p \<le> length (K ! i) \<and> (\<exists>r. T (oi XOR next_char K p i) = Some (p @ [tx K i ! length p], r))"
  shows "tree_ok K T Q"
  unfolding tree_ok_def by (intro conjI allI impI assms; assumption)

text \<open>The table with the children of one more node.\<close>

definition add_nodes :: "da_nodes \<Rightarrow> bytes \<Rightarrow> nat \<Rightarrow> da_group list \<Rightarrow> da_nodes" where
  "add_nodes T p oi gs = T ++ map_of (map (\<lambda>(c, x, y). (oi XOR c, (p @ [char_of c], x, y))) gs)"

lemma xor_inject: "oi XOR a = oi XOR b \<longleftrightarrow> a = b" for oi a b :: nat
proof
  assume "oi XOR a = oi XOR b"
  then have "oi XOR (oi XOR a) = oi XOR (oi XOR b)" by simp
  then show "a = b" by (simp flip: xor.assoc)
qed simp

lemma add_nodes_Some:
  assumes "distinct (map fst gs)" and "\<forall>(c, x, y) \<in> set gs. T (oi XOR c) = None"
  shows "add_nodes T p oi gs z = Some nd \<longleftrightarrow>
    T z = Some nd \<or> (\<exists>(c, x, y) \<in> set gs. z = oi XOR c \<and> nd = (p @ [char_of c], x, y))"
proof -
  let ?l = "map (\<lambda>(c, x, y). (oi XOR c, (p @ [char_of c], x, y))) gs"
  have "map fst ?l = map (\<lambda>c. oi XOR c) (map fst gs)" by (induction gs) auto
  moreover have "distinct (map (\<lambda>c. oi XOR c) (map fst gs))" using assms(1) by (auto simp: distinct_map inj_on_def xor_inject)
  ultimately have d: "distinct (map fst ?l)" by (simp only:)
  have n: "map_of ?l z = None" if "T z = Some nd" for nd
    using assms(2) that by (auto simp: map_of_eq_None_iff)
  have M: "map_of ?l z = Some nd \<longleftrightarrow> (\<exists>(c, x, y) \<in> set gs. z = oi XOR c \<and> nd = (p @ [char_of c], x, y))"
    unfolding map_of_eq_Some_iff [OF d] by force
  show ?thesis unfolding add_nodes_def map_add_Some_iff M using n by blast
qed

lemma tree_ok_add:
  assumes t: "tree_ok K T Q" and x: "T x = Some (p, rb, re)" "Q x = None" and oi: "oi \<noteq> 0" "oi \<notin> ran Q"
    and len: "\<forall>i. rb \<le> i \<longrightarrow> i < re \<longrightarrow> length p \<le> length (K ! i)"
    and g: "groups_ok (next_char K p) rb re gs" and new: "\<forall>(c, u, v) \<in> set gs. T (oi XOR c) = None"
  shows "tree_ok K (add_nodes T p oi gs) (Q(x \<mapsto> oi))"
proof -
  let ?T = "add_nodes T p oi gs"
  have nd: "node_ok K p rb re" by (rule tree_node [OF t x(1)])
  have d: "distinct (map fst gs)" using g by (simp add: groups_ok_def strict_sorted_iff)
  note S = add_nodes_Some [OF d new]
  have old: "T z = Some nd \<Longrightarrow> ?T z = Some nd" for z nd by (simp add: S)
  have 1: "?T 0 = Some ([], 0, length K)" using tree_root [OF t] old by simp
  have 2: "node_ok K q r s" if "?T z = Some (q, r, s)" for z q r s
    using that tree_node [OF t] group_node [OF nd len g] by (auto simp: S)
  have 3: "\<exists>m oi' q c r. ?T m = Some (q, r) \<and> (Q(x \<mapsto> oi)) m = Some oi' \<and> s = q @ [c] \<and> z = oi' XOR uchar c"
    if z: "?T z = Some (s, u, v)" "z \<noteq> 0" for z s u v
  proof (cases "T z = Some (s, u, v)")
    case True
    then obtain m oi' q c r where m: "T m = Some (q, r)" "Q m = Some oi'" "s = q @ [c]" "z = oi' XOR uchar c"
      using tree_owner [OF t True z(2)] by blast
    moreover have "m \<noteq> x" using m(2) x(2) by auto
    ultimately show ?thesis using old by (intro exI [of _ m] exI [of _ oi'] exI [of _ q] exI [of _ c] exI [of _ r]) simp
  next
    case False
    then obtain c where c: "(c, u, v) \<in> set gs" "z = oi XOR c" "s = p @ [char_of c]" using z(1) by (auto simp: S)
    then have "uchar (char_of c) = c" using group_node [OF nd len g c(1)] by simp
    then show ?thesis using c old [OF x(1)]
      by (intro exI [of _ x] exI [of _ oi] exI [of _ p] exI [of _ "char_of c"] exI [of _ "(rb, re)"]) simp
  qed
  have 4: "dom (Q(x \<mapsto> oi)) \<subseteq> dom ?T"
  proof
    fix z assume "z \<in> dom (Q(x \<mapsto> oi))"
    then have "z \<in> dom T" using tree_dom(1) [OF t] x(1) by (auto split: if_splits)
    then show "z \<in> dom ?T" using old by blast
  qed
  have 5: "inj_on (Q(x \<mapsto> oi)) (dom (Q(x \<mapsto> oi)))"
    using tree_dom(2) [OF t] oi(2) x(2) by (auto simp: inj_on_def ran_def)
  have 6: "0 \<notin> ran (Q(x \<mapsto> oi))" using tree_dom(3) [OF t] oi(1) x(2) by auto
  have 7: "length q \<le> length (K ! i) \<and> (\<exists>r. ?T (oi' XOR next_char K q i) = Some (q @ [tx K i ! length q], r))"
    if a: "(Q(x \<mapsto> oi)) z = Some oi'" "?T z = Some (q, r, s)" "r \<le> i" "i < s" for z oi' q r s i
  proof (cases "z = x")
    case True
    then have e: "oi' = oi" "q = p" "r = rb" "s = re" using a(1,2) old [OF x(1)] by auto
    obtain c u v where c: "(c, u, v) \<in> set gs" "c = next_char K p i" using group_key_in [OF g, of i] a(3,4) e by auto
    then have "char_of c = tx K i ! length p" by (simp add: next_char_def)
    moreover have "?T (oi XOR c) = Some (p @ [char_of c], u, v)" unfolding S using c(1) by blast
    ultimately show ?thesis using c(2) len a(3,4) e by auto
  next
    case False
    then have Oz: "Q z = Some oi'" using a(1) by simp
    then have "z \<in> dom T" using tree_dom(1) [OF t] by auto
    then have "T z = Some (q, r, s)" using a(2) old by fastforce
    from tree_child [OF t Oz this a(3,4)] show ?thesis using old by blast
  qed
  show ?thesis by (rule tree_okI [OF 1 2 3 4 5 6 7])
qed

section \<open>Slots\<close>

lemma block_xor: "c < 256 \<Longrightarrow> (x XOR c) div 256 = x div 256" for x c :: nat
proof -
  assume c: "c < 256"
  have d: "n div 256 = drop_bit 8 n" for n :: nat by (simp add: drop_bit_eq_div)
  have "drop_bit 8 c = 0" using c by (simp flip: d)
  then show ?thesis unfolding d by (simp only: drop_bit_xor xor.right_neutral)
qed

lemma xor_cancel: "x XOR (x XOR y) = y" for x y :: nat
  by (simp flip: xor.assoc)

text \<open>
  A slot that was given up carries a label that leads to it only from an offset nobody has; its block
  has no free slot left, so nobody will.
\<close>

definition dead :: "da_builder \<Rightarrow> nat set \<Rightarrow> (nat \<Rightarrow> nat option) \<Rightarrow> nat \<Rightarrow> bool" where
  "dead b U Q u \<longleftrightarrow> \<not> is_leaf (bunits b ! u) \<and> (\<forall>v \<in> U. v div 256 \<noteq> u div 256) \<and>
     (\<exists>x. x div 256 = u div 256 \<and> x \<noteq> 0 \<and> x \<notin> ran Q \<and> label (bunits b ! u) = (u XOR x) mod 256)"

definition slots_ok :: "da_builder \<Rightarrow> nat set \<Rightarrow> da_nodes \<Rightarrow> (nat \<Rightarrow> nat option) \<Rightarrow> bool" where
  "slots_ok b U T Q \<longleftrightarrow> free_ok b U \<and>
     (dom T \<subseteq> {..<num_of_units b} \<and> dom T \<inter> U = {} \<and> 0 \<notin> U \<and> 1 \<notin> U \<and> 1 \<notin> dom T \<and> 1 < num_of_units b) \<and>
     (\<forall>u \<in> U. \<not> is_leaf (bunits b ! u)) \<and>
     (\<forall>u < num_of_units b. u \<notin> U \<longrightarrow> u = 0 \<or> u = 1 \<or> u \<in> dom T \<or> dead b U Q u) \<and>
     (\<forall>x. live b x \<longrightarrow> (unused b x \<longleftrightarrow> x \<noteq> 0 \<and> x \<notin> ran Q))"

definition units_ok :: "da_builder \<Rightarrow> da_nodes \<Rightarrow> (nat \<Rightarrow> nat option) \<Rightarrow> bool" where
  "units_ok b T Q \<longleftrightarrow>
     (label (bunits b ! 0) = 0 \<and> \<not> is_leaf (bunits b ! 0) \<and> label (bunits b ! 1) = 1 \<and> \<not> is_leaf (bunits b ! 1)) \<and>
     (\<forall>x oi. Q x = Some oi \<longrightarrow> oi < num_of_units b \<and> \<not> is_leaf (bunits b ! x) \<and> da_offset (bunits b ! x) = x XOR oi) \<and>
     (\<forall>x p r. T x = Some (p, r) \<longrightarrow> x \<noteq> 0 \<longrightarrow> \<not> is_leaf (bunits b ! x) \<longrightarrow> label (bunits b ! x) = uchar (last p)) \<and>
     (\<forall>x < num_of_units b. is_leaf (bunits b ! x) \<longrightarrow>
        (\<exists>p i. T x = Some (p, i, Suc i) \<and> kindex (bkeys b ! i) = x \<and> Suc (kpos (bkeys b ! i)) = length p))"

lemma slots_okD:
  assumes "slots_ok b U T Q"
  shows slots_free: "free_ok b U"
    and slots_dom: "x \<in> dom T \<Longrightarrow> x < num_of_units b" "x \<in> dom T \<Longrightarrow> x \<notin> U" "0 \<notin> U" "1 \<notin> U" "1 \<notin> dom T" "1 < num_of_units b"
    and slots_leaf: "u \<in> U \<Longrightarrow> \<not> is_leaf (bunits b ! u)"
    and slots_fixed: "u < num_of_units b \<Longrightarrow> u \<notin> U \<Longrightarrow> u = 0 \<or> u = 1 \<or> u \<in> dom T \<or> dead b U Q u"
    and slots_used: "live b x \<Longrightarrow> unused b x \<longleftrightarrow> x \<noteq> 0 \<and> x \<notin> ran Q"
  using assms unfolding slots_ok_def by blast+

lemma units_okD:
  assumes "units_ok b T Q"
  shows units_01: "label (bunits b ! 0) = 0" "\<not> is_leaf (bunits b ! 0)" "label (bunits b ! 1) = 1" "\<not> is_leaf (bunits b ! 1)"
    and units_off: "Q x = Some oi \<Longrightarrow> oi < num_of_units b" "Q x = Some oi \<Longrightarrow> \<not> is_leaf (bunits b ! x)"
      "Q x = Some oi \<Longrightarrow> da_offset (bunits b ! x) = x XOR oi"
    and units_label: "T x = Some (p, r) \<Longrightarrow> x \<noteq> 0 \<Longrightarrow> \<not> is_leaf (bunits b ! x) \<Longrightarrow> label (bunits b ! x) = uchar (last p)"
    and units_leaf: "x < num_of_units b \<Longrightarrow> is_leaf (bunits b ! x) \<Longrightarrow>
        \<exists>p i. T x = Some (p, i, Suc i) \<and> kindex (bkeys b ! i) = x \<and> Suc (kpos (bkeys b ! i)) = length p"
  using assms unfolding units_ok_def by blast+

lemma live_block: "shape_ok b \<Longrightarrow> live b u \<Longrightarrow> x div 256 = u div 256 \<Longrightarrow> live b x"
proof -
  assume "shape_ok b" and u: "live b u" and x: "x div 256 = u div 256"
  then have n: "num_of_units b = 256 * num_of_blocks b" by (simp add: shape_ok_def)
  have "z < num_of_units b \<longleftrightarrow> z div 256 < num_of_blocks b" for z
    using n by (simp add: div_less_iff_less_mult mult.commute)
  then show ?thesis using u unfolding live_def by (simp only: x)
qed

lemma finite_block: "finite {x :: nat. x div 256 = k}"
  by (rule finite_subset [of _ "{..<256 * Suc k}"]) auto

text \<open>A block with a free slot has an unused offset: every used one has a child of its own in the block.\<close>

lemma unused_exists:
  assumes s: "slots_ok b U T Q" and t: "tree_ok K T Q" and u: "u \<in> U"
  shows "\<exists>off. off div 256 = u div 256 \<and> unused b off"
proof (rule ccontr)
  assume none: "\<not> ?thesis"
  let ?B = "{x. x div 256 = u div 256}"
  have lv: "live b x" if "x \<in> ?B" for x
    using live_block [OF _ ring_live [OF slots_free [OF s] u]] that slots_free [OF s] by (simp add: free_ok_def)
  have "\<exists>c p r. T (off XOR uchar c) = Some (p @ [c], r)" if off: "off \<in> ?B" "off \<noteq> 0" for off
  proof -
    have "off \<in> ran Q" using slots_used [OF s lv [OF off(1)]] none off by auto
    then obtain m where m: "Q m = Some off" by (auto simp: ran_def)
    then obtain p rb re where T: "T m = Some (p, rb, re)" using tree_dom(1) [OF t] by auto
    then have "rb < re" using tree_node [OF t T] by (simp add: node_ok_def)
    then show ?thesis using tree_child [OF t m T, of rb] unfolding next_char_def by blast
  qed
  then have "\<forall>off. \<exists>c. off \<in> ?B \<longrightarrow> off \<noteq> 0 \<longrightarrow> (\<exists>p r. T (off XOR uchar c) = Some (p @ [c], r))" by blast
  from choice [OF this] obtain f where f: "\<And>off. off \<in> ?B \<Longrightarrow> off \<noteq> 0 \<Longrightarrow> \<exists>p r. T (off XOR uchar (f off)) = Some (p @ [f off], r)"
    by blast
  define g where "g off = (if off = 0 then 0 else off XOR uchar (f off))" for off
  have into: "g ` ?B \<subseteq> ?B - {u}"
  proof
    fix y assume "y \<in> g ` ?B"
    then obtain off where off: "off \<in> ?B" "y = g off" by blast
    show "y \<in> ?B - {u}"
    proof (cases "off = 0")
      case True
      moreover have "u \<noteq> 0" using slots_dom(3) [OF s] u by metis
      ultimately show ?thesis using off by (auto simp: g_def)
    next
      case False
      then have "y \<in> dom T" using f [OF off(1)] off(2) by (auto simp: g_def)
      then show ?thesis using False off block_xor [OF uchar_less, of off] slots_dom(2) [OF s] u by (auto simp: g_def)
    qed
  qed
  have "inj_on g ?B"
  proof (rule inj_onI)
    fix x y assume xy: "x \<in> ?B" "y \<in> ?B" "g x = g y"
    have nz: "off XOR uchar (f off) \<noteq> 0" if B: "off \<in> ?B" "off \<noteq> 0" for off
    proof
      assume z: "off XOR uchar (f off) = 0"
      obtain p r where "T (off XOR uchar (f off)) = Some (p @ [f off], r)" using f [OF B] by blast
      then show False unfolding z using tree_root [OF t] by simp
    qed
    show "x = y"
    proof (cases "x = 0 \<or> y = 0")
      case True
      then show ?thesis using xy nz [of x] nz [of y] by (auto simp: g_def split: if_splits)
    next
      case False
      then have e: "x XOR uchar (f x) = y XOR uchar (f y)" using xy(3) by (simp add: g_def)
      then have "f x = f y" using f [OF xy(1)] f [OF xy(2)] False by auto
      then show ?thesis using e by (metis xor_inject xor.commute)
    qed
  qed
  then have "card ?B \<le> card (?B - {u})" using card_inj_on_le into finite_block by blast
  moreover have "card (?B - {u}) < card ?B" using finite_block by (intro card_Diff1_less) auto
  ultimately show False by simp
qed

lemma can_expand_slots:
  assumes "slots_ok b U T Q" and "tree_ok K T Q" and "num_of_units b + 256 \<le> 2 ^ 31"
  shows "can_expand b U"
proof -
  have "\<exists>off. off div 256 = num_of_blocks b - 16 \<and> unused b off" if u: "u \<in> U" "u < old_end b" for u
  proof -
    have nb: "num_of_units b = 256 * num_of_blocks b" using slots_free [OF assms(1)] by (simp add: free_ok_def shape_ok_def)
    have "u div 256 = num_of_blocks b - 16"
      using u(2) ring_live [OF slots_free [OF assms(1)] u(1)] nb by (auto simp: old_end_def live_def split: if_splits)
    then show ?thesis using unused_exists [OF assms(1,2) u(1)] by simp
  qed
  then show ?thesis using assms(3) by (auto simp: can_expand_def)
qed

section \<open>Giving up and adding blocks keeps the invariants\<close>

lemma give_up_units:
  assumes s: "slots_ok b U T Q" and t: "tree_ok K T Q" and un: "units_ok b T Q" and rl: "relabel U en r (bunits b) vs"
    and b': "bunits b' = vs @ zs" "\<forall>z \<in> set zs. z = 0" "bkeys b' = bkeys b"
  shows "units_ok b' T Q"
proof -
  have len: "length vs = num_of_units b" using rl by (simp add: relabel_def num_of_units_def)
  have old: "bunits b' ! x = bunits b ! x" if "x < num_of_units b" "x \<notin> U" for x
    using that rl len b'(1) by (simp add: relabel_def nth_append num_of_units_def)
  have 01: "0 < num_of_units b" "1 < num_of_units b" "0 \<notin> U" "1 \<notin> U" using slots_dom [OF s] by auto
  have dom: "x < num_of_units b \<and> x \<notin> U" if "T x = Some nd" for x nd
    using that slots_dom(1,2) [OF s] by blast
  have leaf: "is_leaf (bunits b' ! x) \<Longrightarrow> x < num_of_units b' \<Longrightarrow> x < num_of_units b \<and> x \<notin> U" for x
  proof (rule ccontr)
    assume lf: "is_leaf (bunits b' ! x)" "x < num_of_units b'" and n: "\<not> (x < num_of_units b \<and> x \<notin> U)"
    show False
    proof (cases "x < num_of_units b")
      case True
      then have u: "x \<in> U" using n by blast
      have "is_leaf (bunits b' ! x) = is_leaf (bunits b ! x)"
        using True rl len b'(1) by (auto simp: relabel_def nth_append num_of_units_def unit_simps)
      then show False using lf(1) slots_leaf [OF s u] by simp
    next
      case False
      then have "bunits b' ! x \<in> set zs" using lf(2) len b'(1) by (auto simp: nth_append num_of_units_def)
      then have "bunits b' ! x = 0" using b'(2) by blast
      then show False using lf(1) by (simp add: unit_simps)
    qed
  qed
  have n': "num_of_units b \<le> num_of_units b'" using len b'(1) by (simp add: num_of_units_def)
  have Q: "x < num_of_units b \<and> x \<notin> U" if "Q x = Some oi" for x oi
    using that tree_dom(1) [OF t] dom by blast
  show ?thesis
    unfolding units_ok_def b'(3)
  proof (intro conjI allI impI)
    show "label (bunits b' ! 0) = 0" "\<not> is_leaf (bunits b' ! 0)" "label (bunits b' ! 1) = 1" "\<not> is_leaf (bunits b' ! 1)"
      using units_01 [OF un] old 01 by simp_all
    fix x oi assume q: "Q x = Some oi"
    show "oi < num_of_units b'" "\<not> is_leaf (bunits b' ! x)" "da_offset (bunits b' ! x) = x XOR oi"
      using units_off [OF un q] old Q [OF q] n' by simp_all
  next
    fix x p r assume "T x = Some (p, r)" "x \<noteq> 0" "\<not> is_leaf (bunits b' ! x)"
    then show "label (bunits b' ! x) = uchar (last p)" using units_label [OF un] old dom by simp
  next
    fix x assume a: "x < num_of_units b'" "is_leaf (bunits b' ! x)"
    have x: "x < num_of_units b" "x \<notin> U" using leaf [OF a(2,1)] by auto
    then have "is_leaf (bunits b ! x)" using old a(2) by simp
    then show "\<exists>p i. T x = Some (p, i, Suc i) \<and> kindex (bkeys b ! i) = x \<and> Suc (kpos (bkeys b ! i)) = length p"
      using units_leaf [OF un x(1)] by blast
  qed
qed

lemma slots_okI:
  assumes "free_ok b U" and "dom T \<subseteq> {..<num_of_units b}" and "dom T \<inter> U = {}" and "0 \<notin> U" and "1 \<notin> U"
    and "1 \<notin> dom T" and "1 < num_of_units b" and "\<And>u. u \<in> U \<Longrightarrow> \<not> is_leaf (bunits b ! u)"
    and "\<And>u. u < num_of_units b \<Longrightarrow> u \<notin> U \<Longrightarrow> u \<noteq> 0 \<Longrightarrow> u \<noteq> 1 \<Longrightarrow> u \<notin> dom T \<Longrightarrow> dead b U Q u"
    and "\<And>x. live b x \<Longrightarrow> unused b x \<longleftrightarrow> x \<noteq> 0 \<and> x \<notin> ran Q"
  shows "slots_ok b U T Q"
  unfolding slots_ok_def using assms by blast
lemma give_up_slots:
  assumes s: "slots_ok b U T Q" and un: "units_ok b T Q" and rl: "relabel U en r (bunits b) vs"
    and k: "\<And>u. u \<in> U \<Longrightarrow> u < en \<Longrightarrow> u div 256 = k \<and> r div 256 = k \<and> unused b r"
      "\<And>u. u \<in> U \<Longrightarrow> en \<le> u \<Longrightarrow> (\<exists>v \<in> U. v < en) \<Longrightarrow> u div 256 \<noteq> k"
    and b': "bunits b' = vs @ zs" "free_ok b' ({u \<in> U. en \<le> u} \<union> {num_of_units b..<num_of_units b + length zs})"
      "\<forall>z \<in> set zs. z = 0" "\<And>i. live b' i \<Longrightarrow> unused b' i \<longleftrightarrow> num_of_units b \<le> i \<or> unused b i"
  shows "slots_ok b' ({u \<in> U. en \<le> u} \<union> {num_of_units b..<num_of_units b + length zs}) T Q"
proof -
  let ?n = "num_of_units b" and ?V = "{u \<in> U. en \<le> u}"
  let ?W = "?V \<union> {?n..<?n + length zs}"
  have len: "length vs = ?n" using rl by (simp add: relabel_def num_of_units_def)
  have n': "num_of_units b' = ?n + length zs" using len b'(1) by (simp add: num_of_units_def)
  have nth: "bunits b' ! x = (if x \<in> U \<and> x < en then set_label ((x XOR r) mod 256) (bunits b ! x) else bunits b ! x)" if "x < ?n" for x
    using that rl len b'(1) by (simp add: relabel_def nth_append num_of_units_def)
  have nb: "?n = 256 * num_of_blocks b" using slots_free [OF s] by (simp add: free_ok_def shape_ok_def)
  have apart: "v div 256 \<noteq> u div 256" if "u < ?n" "?n \<le> v" for u v
    using that nb by (metis div_less_iff_less_mult leD mult.commute zero_less_numeral)
  have leaf: "is_leaf (bunits b' ! x) = is_leaf (bunits b ! x)" if "x < ?n" for x using nth [OF that] by (simp add: unit_simps)
  have UL: "x < ?n" if "x \<in> U" for x using ring_live [OF slots_free [OF s] that] by (simp add: live_def)
  have D: "dead b' ?W Q u" if u: "u < ?n" "u \<notin> ?V" "u \<noteq> 0" "u \<noteq> 1" "u \<notin> dom T" for u
  proof (cases "u \<in> U")
    case True
    then have low: "u < en" using u(2) by simp
    note kr = k(1) [OF True low]
    have lr: "live b r"
      using live_block [OF _ ring_live [OF slots_free [OF s] True], of r] kr slots_free [OF s] by (simp add: free_ok_def)
    have "label (bunits b' ! u) = (u XOR r) mod 256" using nth [OF u(1)] True low by (simp add: unit_simps)
    moreover have "v div 256 \<noteq> u div 256" if "v \<in> ?W" for v
      using that k(2) [of v] True low kr apart [OF u(1), of v] by auto
    moreover have "\<not> is_leaf (bunits b' ! u)" using leaf [OF u(1)] slots_leaf [OF s True] by simp
    ultimately show ?thesis using slots_used [OF s lr] kr by (auto simp: dead_def intro!: exI [of _ r])
  next
    case False
    then have "dead b U Q u" using slots_fixed [OF s u(1)] u by blast
    moreover have "bunits b' ! u = bunits b ! u" using nth [OF u(1)] False by simp
    ultimately show ?thesis using apart [OF u(1)] unfolding dead_def by auto
  qed
  have used: "unused b' x \<longleftrightarrow> x \<noteq> 0 \<and> x \<notin> ran Q" if lv: "live b' x" for x
  proof (cases "?n \<le> x")
    case True
    moreover have "x \<notin> ran Q" using units_off(1) [OF un] True by (fastforce simp: ran_def)
    moreover have "x \<noteq> 0" using True slots_dom(6) [OF s] by simp
    ultimately show ?thesis using b'(4) [OF lv] by simp
  next
    case False
    then have "live b x" using lv n' by (simp add: live_def)
    then show ?thesis using b'(4) [OF lv] slots_used [OF s] False by simp
  qed
  have leafW: "\<not> is_leaf (bunits b' ! u)" if "u \<in> ?W" for u
  proof (cases "u < ?n")
    case True
    then show ?thesis using that leaf [OF True] slots_leaf [OF s] by auto
  next
    case False
    then have "bunits b' ! u \<in> set zs" using that len b'(1) UL by (auto simp: nth_append)
    then show ?thesis using b'(3) by (metis unit_zero(3))
  qed
  have d: "dom T \<subseteq> {..<num_of_units b'}" "dom T \<inter> ?W = {}" "0 \<notin> ?W" "1 \<notin> ?W" "1 \<notin> dom T" "1 < num_of_units b'"
    using slots_dom [OF s] n' by force+
  show ?thesis
  proof (rule slots_okI [OF b'(2) d leafW _ used])
    fix u assume "u < num_of_units b'" "u \<notin> ?W" "u \<noteq> 0" "u \<noteq> 1" "u \<notin> dom T"
    then show "dead b' ?W Q u" using D [of u] n' by simp
  qed
qed

lemma expand_slots:
  assumes s: "slots_ok b U T Q" and t: "tree_ok K T Q" and un: "units_ok b T Q" and small: "num_of_units b + 256 \<le> 2 ^ 31"
  shows "\<exists>b' U'. expand_trie b = Some b' \<and> slots_ok b' U' T Q \<and> units_ok b' T Q \<and> bkeys b' = bkeys b \<and>
    num_of_units b' = num_of_units b + 256 \<and> {num_of_units b..<num_of_units b + 256} \<subseteq> U' \<and>
    (\<forall>x < num_of_units b. x \<notin> U \<longrightarrow> bunits b' ! x = bunits b ! x)"
proof -
  obtain b' r vs where b': "expand_trie b = Some b'" "free_ok b' ({u \<in> U. old_end b \<le> u} \<union> {num_of_units b..<num_of_units b + 256})"
      "bkeys b' = bkeys b" "bunits b' = vs @ replicate 256 0" "relabel U (old_end b) r (bunits b) vs"
      "(\<exists>u \<in> U. u < old_end b) \<longrightarrow> r div 256 = num_of_blocks b - 16 \<and> unused b r"
      "\<forall>i. live b' i \<longrightarrow> (unused b' i \<longleftrightarrow> num_of_units b \<le> i \<or> unused b i)"
    using expand_trie_ok [OF slots_free [OF s] can_expand_slots [OF s t small]] by auto
  have nb: "num_of_units b = 256 * num_of_blocks b" using slots_free [OF s] by (simp add: free_ok_def shape_ok_def)
  have low: "u div 256 = num_of_blocks b - 16 \<and> r div 256 = num_of_blocks b - 16 \<and> unused b r" if u: "u \<in> U" "u < old_end b" for u
    using u b'(6) ring_live [OF slots_free [OF s] u(1)] nb by (auto simp: old_end_def live_def split: if_splits)
  have high: "u div 256 \<noteq> num_of_blocks b - 16" if "u \<in> U" "old_end b \<le> u" "\<exists>v \<in> U. v < old_end b" for u
    using that by (auto simp: old_end_def split: if_splits)
  have "slots_ok b' ({u \<in> U. old_end b \<le> u} \<union> {num_of_units b..<num_of_units b + length (replicate 256 (0 :: da_unit))}) T Q"
    using b'(2,7) by (intro give_up_slots [OF s un b'(5) low high b'(4)]) simp_all
  moreover have "units_ok b' T Q" using give_up_units [OF s t un b'(5,4) _ b'(3)] by simp
  moreover have "length vs = num_of_units b" using b'(5) by (simp add: relabel_def num_of_units_def)
  moreover from this have "bunits b' ! x = bunits b ! x" if "x < num_of_units b" "x \<notin> U" for x
    using that b'(4,5) by (simp add: relabel_def nth_append num_of_units_def)
  ultimately show ?thesis using b'(1,3,4) by (intro exI [of _ b'] exI conjI) (auto simp: num_of_units_def)
qed

text \<open>Marking a leaf is not undone.\<close>

definition same_leaves :: "da_builder \<Rightarrow> da_builder \<Rightarrow> bool" where
  "same_leaves b b' \<longleftrightarrow> (\<forall>x < num_of_units b. is_leaf (bunits b' ! x) = is_leaf (bunits b ! x))"

lemma fix_block_slots:
  assumes s: "slots_ok b U T Q" and t: "tree_ok K T Q" and un: "units_ok b T Q"
    and k: "k < num_of_blocks b" "num_of_blocks b \<le> k + 16" "\<forall>u \<in> U. k * 256 \<le> u"
  shows "\<exists>b'. fix_block k b = Some b' \<and> slots_ok b' {u \<in> U. k * 256 + 256 \<le> u} T Q \<and> units_ok b' T Q \<and>
    bkeys b' = bkeys b \<and> num_of_units b' = num_of_units b \<and> same_leaves b b'"
proof -
  let ?en = "k * 256 + 256"
  have blk: "u div 256 = k" if "u \<in> U" "u < ?en" for u using that k(3) by (auto intro!: div_nat_eqI)
  have "\<exists>off. off div 256 = k \<and> unused b off" if low: "\<exists>u \<in> U. u < ?en"
    using unused_exists [OF s t] blk low by blast
  from fix_block_ok [OF slots_free [OF s] k this] obtain b' r where b': "fix_block k b = Some b'" "free_ok b' {u \<in> U. ?en \<le> u}"
      "keeps b b'" "relabel U ?en r (bunits b) (bunits b')" "(\<exists>u \<in> U. u < ?en) \<longrightarrow> r div 256 = k \<and> unused b r" by blast
  have low: "u div 256 = k \<and> r div 256 = k \<and> unused b r" if "u \<in> U" "u < ?en" for u using that blk b'(5) by blast
  have high: "u div 256 \<noteq> k" if "u \<in> U" "?en \<le> u" "\<exists>v \<in> U. v < ?en" for u using that by auto
  have n: "num_of_units b' = num_of_units b" using b'(4) by (simp add: relabel_def num_of_units_def)
  have "slots_ok b' ({u \<in> U. ?en \<le> u} \<union> {num_of_units b..<num_of_units b + length ([] :: da_unit list)}) T Q"
  proof (rule give_up_slots [OF s un b'(4) low high])
    fix i assume "live b' i"
    then have "i < num_of_units b" using n by (simp add: live_def)
    then show "unused b' i \<longleftrightarrow> num_of_units b \<le> i \<or> unused b i" using unused_keeps [OF b'(3)] by simp
  qed (use b'(2) in simp_all)
  moreover have "bkeys b' = bkeys b" using b'(3) by (simp add: keeps_def)
  moreover from this have "units_ok b' T Q" using give_up_units [OF s t un b'(4), of b' "[]"] by simp
  moreover have "same_leaves b b'" using b'(4) by (auto simp: same_leaves_def relabel_def num_of_units_def unit_simps)
  ultimately show ?thesis using b'(1) n by auto
qed

lemma fix_blocks_slots:
  assumes "slots_ok b U T Q" and "tree_ok K T Q" and "units_ok b T Q"
    and "k \<le> m" and "m \<le> num_of_blocks b" and "num_of_blocks b \<le> k + 16" and "\<forall>u \<in> U. k * 256 \<le> u"
  shows "\<exists>b'. fix_blocks [k..<m] b = Some b' \<and> slots_ok b' {u \<in> U. m * 256 \<le> u} T Q \<and> units_ok b' T Q \<and>
    bkeys b' = bkeys b \<and> num_of_units b' = num_of_units b \<and> same_leaves b b'"
  using assms(4,5)
proof (induction m rule: nat_induct_at_least)
  case base
  have "{u \<in> U. k * 256 \<le> u} = U" using assms(7) by auto
  then show ?case using assms(1,3) by (simp add: same_leaves_def)
next
  case (Suc m)
  then obtain b1 where b1: "fix_blocks [k..<m] b = Some b1" "slots_ok b1 {u \<in> U. m * 256 \<le> u} T Q" "units_ok b1 T Q"
      "bkeys b1 = bkeys b" "num_of_units b1 = num_of_units b" "same_leaves b b1" by auto
  have "num_of_units b = 256 * num_of_blocks b" using slots_free [OF assms(1)] by (simp add: free_ok_def shape_ok_def)
  moreover have "num_of_units b1 = 256 * num_of_blocks b1" using slots_free [OF b1(2)] by (simp add: free_ok_def shape_ok_def)
  ultimately have nb: "num_of_blocks b1 = num_of_blocks b" using b1(5) by simp
  obtain b2 where b2: "fix_block m b1 = Some b2" "slots_ok b2 {u \<in> {u \<in> U. m * 256 \<le> u}. m * 256 + 256 \<le> u} T Q" "units_ok b2 T Q"
      "bkeys b2 = bkeys b1" "num_of_units b2 = num_of_units b1" "same_leaves b1 b2"
  proof -
    have "m < num_of_blocks b1" "num_of_blocks b1 \<le> m + 16" "\<forall>u \<in> {u \<in> U. m * 256 \<le> u}. m * 256 \<le> u"
      using Suc.hyps Suc.prems assms(6) nb by auto
    from fix_block_slots [OF b1(2) assms(2) b1(3) this] show ?thesis using that by blast
  qed
  have app: "fix_blocks (ks @ [j]) c = (case fix_blocks ks c of None \<Rightarrow> None | Some d \<Rightarrow> fix_block j d)" for ks j c
    by (induction ks arbitrary: c) (auto split: option.splits Option.bind_splits)
  have "{u \<in> {u \<in> U. m * 256 \<le> u}. m * 256 + 256 \<le> u} = {u \<in> U. Suc m * 256 \<le> u}" by auto
  moreover have "same_leaves b b2" using b1(5,6) b2(6) by (simp add: same_leaves_def)
  ultimately show ?case using b1 b2 Suc.hyps by (auto simp: app)
qed

lemma fix_all_blocks_slots:
  assumes s: "slots_ok b U T Q" and t: "tree_ok K T Q" and un: "units_ok b T Q"
  shows "\<exists>b'. fix_all_blocks b = Some b' \<and> slots_ok b' {} T Q \<and> units_ok b' T Q \<and> bkeys b' = bkeys b \<and>
    num_of_units b' = num_of_units b \<and> same_leaves b b'"
proof -
  let ?k = "if num_of_blocks b > 16 then num_of_blocks b - 16 else 0"
  have nb: "num_of_units b = 256 * num_of_blocks b" using slots_free [OF s] by (simp add: free_ok_def shape_ok_def)
  have U: "u < num_of_units b \<and> num_of_blocks b \<le> u div 256 + 16" if "u \<in> U" for u
    using ring_live [OF slots_free [OF s] that] nb by (auto simp: live_def)
  have "?k * 256 \<le> u" if "u \<in> U" for u
  proof -
    have "?k \<le> u div 256" using U [OF that] by auto
    then show ?thesis by (metis div_times_less_eq_dividend le_trans mult_le_mono1)
  qed
  then obtain b' where b': "fix_blocks [?k..<num_of_blocks b] b = Some b'" "slots_ok b' {u \<in> U. num_of_blocks b * 256 \<le> u} T Q"
      "units_ok b' T Q" "bkeys b' = bkeys b" "num_of_units b' = num_of_units b" "same_leaves b b'"
  proof -
    assume lo: "\<And>u. u \<in> U \<Longrightarrow> ?k * 256 \<le> u" and that: "\<And>b'. fix_blocks [?k..<num_of_blocks b] b = Some b' \<Longrightarrow>
      slots_ok b' {u \<in> U. num_of_blocks b * 256 \<le> u} T Q \<Longrightarrow> units_ok b' T Q \<Longrightarrow> bkeys b' = bkeys b \<Longrightarrow>
      num_of_units b' = num_of_units b \<Longrightarrow> same_leaves b b' \<Longrightarrow> thesis"
    have "?k \<le> num_of_blocks b" "num_of_blocks b \<le> ?k + 16" "\<forall>u \<in> U. ?k * 256 \<le> u" using lo by auto
    from fix_blocks_slots [OF assms this(1) le_refl this(2,3)] show thesis using that by blast
  qed
  have "{u \<in> U. num_of_blocks b * 256 \<le> u} = {}" using U nb by (auto simp: mult.commute dest: leD)
  then have "slots_ok b' {} T Q" using b'(2) by (simp only:)
  then show ?thesis using b'(1,3-6) by (auto simp: fix_all_blocks_def NUM_OF_UNFIXED_BLOCKS_def)
qed

end
