(* ===== verification/DartsLoop.thy ===== *)
theory DartsLoop
  imports DartsTrie
begin

text \<open>
  The main loop of the builder of \<open>darts-clone.h\<close>: finding an offset for the children of a node,
  placing them, and the loop over the stack. \<open>build_trie_ok\<close>: for sorted keys of moderate total length
  the trie is built, every key has its leaf, and every other slot misleads no search.
\<close>

unbundle bit_operations_syntax

section \<open>Finding an offset\<close>

lemma no_collision_ok:
  assumes "free_ok b U" and "\<forall>c \<in> set cs. live b (oi XOR c)"
  shows "\<exists>r. no_collision b oi cs = Some r \<and> (r \<longleftrightarrow> (\<forall>c \<in> set cs. oi XOR c \<in> U))"
  using assms(2)
proof (induction cs)
  case (Cons c cs)
  have "extras b (oi XOR c) \<noteq> None" using extras_live [of b "oi XOR c"] Cons.prems assms(1) by (simp add: free_ok_def)
  then obtain e where e: "extras b (oi XOR c) = Some e" by blast
  then have "is_fixed e \<longleftrightarrow> oi XOR c \<notin> U" using assms(1) by (simp add: free_ok_def)
  then show ?case using Cons e by auto
qed (auto intro: exI [of _ True])

definition good_offset :: "da_builder \<Rightarrow> nat set \<Rightarrow> nat \<Rightarrow> nat list \<Rightarrow> nat \<Rightarrow> bool" where
  "good_offset b U index labels oi \<longleftrightarrow> live b oi \<and> unused b oi \<and>
     ((index XOR oi) mod 256 = 0 \<or> (index XOR oi) < OFFSET_MAX) \<and> (\<forall>c \<in> set labels. oi XOR c \<in> U)"

lemma scan_offsets_ok:
  assumes ok: "free_ok b U" and u: "u \<in> U" and l: "labels \<noteq> []" "\<forall>c \<in> set labels. c < 256"
  shows "\<exists>oi. scan_offsets index labels b u = Some oi \<and> (oi = new_offset_index index b \<or> good_offset b U index labels oi)"
  using u
proof (induction "card {z \<in> U. u < z}" arbitrary: u rule: less_induct)
  case (less u)
  let ?oi = "u XOR hd labels"
  have sh: "shape_ok b" using ok by (simp add: free_ok_def)
  have c256: "c < 256" if "c \<in> set labels" for c using l(2) that by blast
  have lu: "live b u" by (rule ring_live [OF ok less.prems])
  have lo: "live b ?oi" using live_block [OF sh lu] block_xor [OF c256 [OF hd_in_set [OF l(1)]]] by simp
  have lc: "live b (?oi XOR c)" if "c \<in> set labels" for c
    using live_block [OF sh lo] block_xor [OF c256 [OF that]] by simp
  obtain e where e: "extras b ?oi = Some e" using extras_live [OF sh, of ?oi] lo by (cases "extras b ?oi") auto
  let ?q = "\<not> is_used e \<and> ((index XOR ?oi) mod OFFSET_MAX = 0 \<or> index XOR ?oi < OFFSET_MAX)"
  have "\<forall>c \<in> set (tl labels). live b (?oi XOR c)" using lc l(1) by (simp add: list.set_sel(2))
  then obtain r where r: "no_collision b ?oi (tl labels) = Some r" "r \<longleftrightarrow> (\<forall>c \<in> set (tl labels). ?oi XOR c \<in> U)"
    using no_collision_ok [OF ok] by blast
  define good where "good = (if ?q then r else False)"
  have g: "(if ?q then no_collision b ?oi (tl labels) else Some False) = Some good" using r(1) by (simp add: good_def)
  obtain f where f: "extras b u = Some f" "succ_in U u (ex_next f)"
    using ok less.prems by (auto simp: free_ok_def ring_at_def)
  show ?case
  proof (cases good)
    case True
    then have q: "?q" "r" by (auto simp: good_def split: if_splits)
    have "?oi XOR hd labels \<in> U" using less.prems by (simp add: xor.assoc)
    then have "\<forall>c \<in> set labels. ?oi XOR c \<in> U" using q(2) r(2) l(1) by (metis list.collapse set_ConsD)
    moreover have "(index XOR ?oi) mod OFFSET_MAX = 0 \<Longrightarrow> (index XOR ?oi) mod 256 = 0"
      by (auto simp: OFFSET_MAX_def dvd_def mod_eq_0_iff_dvd)
    ultimately have "good_offset b U index labels ?oi" using lo e q(1) by (auto simp: good_offset_def unused_def)
    moreover have "scan_offsets index labels b u = Some ?oi"
      using e g True by (subst scan_offsets.simps) (simp add: Let_def)
    ultimately show ?thesis by blast
  next
    case False
    show ?thesis
    proof (cases "ex_next f = unfixed_index b")
      case True
      then have "scan_offsets index labels b u = Some (new_offset_index index b)"
        using e g False f(1) by (subst scan_offsets.simps) (simp add: Let_def)
      then show ?thesis by blast
    next
      case next_ne: False
      have start: "unfixed_index b \<in> U" "\<forall>z \<in> U. unfixed_index b \<le> z"
        using ok less.prems by (auto simp: free_ok_def start_ok_def split: if_splits)
      have up: "u < ex_next f" "ex_next f \<in> U"
      proof -
        show n: "ex_next f \<in> U" using f(2) by (simp add: succ_in_def)
        show "u < ex_next f"
        proof (rule ccontr)
          assume "\<not> u < ex_next f"
          then have "\<forall>z \<in> U. ex_next f \<le> z" using f(2) by (auto simp: succ_in_def split: if_splits)
          then show False using start n next_ne by (metis order_antisym)
        qed
      qed
      have "{z \<in> U. ex_next f < z} \<subset> {z \<in> U. u < z}" using up by auto
      then have "card {z \<in> U. ex_next f < z} < card {z \<in> U. u < z}"
        using finite_free [OF ok] by (intro psubset_card_mono) auto
      then obtain oi where "scan_offsets index labels b (ex_next f) = Some oi"
          "oi = new_offset_index index b \<or> good_offset b U index labels oi"
        using less.hyps up(2) by blast
      moreover have "scan_offsets index labels b u = scan_offsets index labels b (ex_next f)"
        using e g False f(1) next_ne by (subst scan_offsets.simps) (simp add: Let_def)
      ultimately show ?thesis by auto
    qed
  qed
qed

lemma find_offset_index_ok:
  assumes ok: "free_ok b U" and l: "labels \<noteq> []" "\<forall>c \<in> set labels. c < 256"
  shows "\<exists>oi. find_offset_index index labels b = Some oi \<and> (oi = new_offset_index index b \<or> good_offset b U index labels oi)"
proof (cases "unfixed_index b < num_of_units b")
  case True
  then have "unfixed_index b \<in> U" using ok by (auto simp: free_ok_def start_ok_def split: if_splits)
  then show ?thesis using scan_offsets_ok [OF ok _ l] True by (simp add: find_offset_index_def)
next
  case False
  then show ?thesis by (simp add: find_offset_index_def)
qed

lemma new_offset_index_eq:
  "num_of_units b mod 256 = 0 \<Longrightarrow> new_offset_index index b = num_of_units b + index mod 256"
proof -
  assume "num_of_units b mod 256 = 0"
  then obtain k where k: "num_of_units b = 256 * k" by auto
  have "256 * k = push_bit 8 k" by (simp add: push_bit_eq_mult)
  moreover have "index mod 256 = take_bit 8 index" by (simp add: take_bit_eq_mod)
  moreover have "push_bit 8 k OR take_bit 8 index = push_bit 8 k + take_bit 8 index"
    by (rule disjunctive_add [symmetric]) (auto simp: bit_push_bit_iff bit_take_bit_iff)
  ultimately show ?thesis using k by (simp add: new_offset_index_def)
qed

section \<open>Placing the children\<close>

definition child_slots :: "nat \<Rightarrow> da_group list \<Rightarrow> nat set" where
  "child_slots oi gs = (\<lambda>c. oi XOR c) ` set (map fst gs)"

lemma push_children_take:
  assumes "free_ok b U" and "\<forall>(c, x, y) \<in> set gs. c < 256" and "child_slots oi gs \<subseteq> U" and "distinct (map fst gs)"
  shows "\<exists>b'. push_children oi gs stack b = Some (rev (map (\<lambda>(c, x, y). (x, y, oi XOR c)) gs) @ stack, b') \<and>
    free_ok b' (U - child_slots oi gs) \<and> keeps b b' \<and> num_of_units b' = num_of_units b \<and>
    (\<forall>j < num_of_units b. bunits b' ! j =
      (if j \<in> child_slots oi gs then set_label (oi XOR j) (bunits b ! j) else bunits b ! j))"
  using assms
proof (induction gs arbitrary: b U stack)
  case (Cons g gs)
  obtain c x y where g: "g = (c, x, y)" by (cases g)
  let ?i = "oi XOR c"
  have i: "?i \<in> U" using Cons.prems(3) by (simp add: child_slots_def g)
  have lt: "?i < num_of_units b" using ring_live [OF Cons.prems(1) i] by (simp add: live_def)
  obtain b1 where b1: "take_index ?i b = Some b1" "free_ok b1 (U - {?i})" "bunits b1 = bunits b" "keeps b b1"
    using take_index_ok [OF Cons.prems(1) i] by blast
  obtain b2 where b2: "upd_unit ?i (\<lambda>u. Some (set_label c u)) b1 = Some b2" "bunits b2 = (bunits b1)[?i := set_label c (bunits b1 ! ?i)]"
      "keeps b1 b2" "\<forall>U. free_ok b2 U \<longleftrightarrow> free_ok b1 U"
    using upd_unit_ok [of ?i b1 "\<lambda>u. Some (set_label c u)"] lt b1(3) by (auto simp: num_of_units_def)
  have n2: "num_of_units b2 = num_of_units b" using b2(2) b1(3) by (simp add: num_of_units_def)
  have ni: "?i \<notin> child_slots oi gs" using Cons.prems(4) by (auto simp: child_slots_def g xor_inject image_iff)
  have cs: "child_slots oi (g # gs) = insert ?i (child_slots oi gs)" by (simp add: child_slots_def g)
  have "free_ok b2 (U - {?i})" "\<forall>(c, x, y) \<in> set gs. c < 256" "child_slots oi gs \<subseteq> U - {?i}" "distinct (map fst gs)"
    using b1(2) b2(4) Cons.prems ni by (auto simp: cs)
  from Cons.IH [OF this, of "(x, y, ?i) # stack"] obtain b' where b':
      "push_children oi gs ((x, y, ?i) # stack) b2 = Some (rev (map (\<lambda>(c, x, y). (x, y, oi XOR c)) gs) @ (x, y, ?i) # stack, b')"
      "free_ok b' (U - {?i} - child_slots oi gs)" "keeps b2 b'" "num_of_units b' = num_of_units b2"
      "\<forall>j < num_of_units b2. bunits b' ! j = (if j \<in> child_slots oi gs then set_label (oi XOR j) (bunits b2 ! j) else bunits b2 ! j)"
    by blast
  have "push_children oi (g # gs) stack b = Some (rev (map (\<lambda>(c, x, y). (x, y, oi XOR c)) (g # gs)) @ stack, b')"
    using lt b1(1) b2(1) b'(1) by (simp add: g reserve_index_def)
  moreover have "U - {?i} - child_slots oi gs = U - child_slots oi (g # gs)" by (auto simp: cs)
  moreover have "keeps b b'" by (rule keeps_trans [OF keeps_trans [OF b1(4) b2(3)] b'(3)])
  moreover have "bunits b' ! j = (if j \<in> child_slots oi (g # gs) then set_label (oi XOR j) (bunits b ! j) else bunits b ! j)"
    if "j < num_of_units b" for j
    using that b'(5) n2 b2(2) b1(3) ni by (cases "j = ?i") (auto simp: cs num_of_units_def xor_cancel)
  ultimately show ?case using b'(2,4) n2 by (intro exI [of _ b']) simp
qed (simp add: child_slots_def)

lemma push_children_expand:
  assumes "oi XOR c \<ge> num_of_units b" and "expand_trie b = Some b'" and "oi XOR c < num_of_units b'"
  shows "push_children oi ((c, x, y) # gs) stack b = push_children oi ((c, x, y) # gs) stack b'"
  using assms by (simp add: reserve_index_def)

lemma mark_used_ok:
  assumes ok: "free_ok b U" and "live b oi"
  shows "\<exists>b'. upd_extra oi set_is_used b = Some b' \<and> free_ok b' U \<and> bunits b' = bunits b \<and> bkeys b' = bkeys b \<and>
    (\<forall>j. live b j \<longrightarrow> (unused b' j \<longleftrightarrow> unused b j \<and> j \<noteq> oi))"
proof -
  have sh: "shape_ok b" using ok by (simp add: free_ok_def)
  obtain e where e: "extras b oi = Some e" using extras_live [OF sh, of oi] assms(2) by (cases "extras b oi") auto
  obtain b' where b': "upd_extra oi set_is_used b = Some b'" "bunits b' = bunits b" "bkeys b' = bkeys b"
      "unfixed_index b' = unfixed_index b" "map (map_option length) (bextras b') = map (map_option length) (bextras b)"
      "extras b' = (extras b)(oi := Some (set_is_used e))"
    using extras_upd [OF e] by blast
  have "ring_at (extras b') U x" if "x \<in> U" for x
    using that ok e unfolding b'(6) by (auto simp: free_ok_def ring_at_def extra_simps)
  moreover have "is_fixed f \<longleftrightarrow> i \<notin> U" if "extras b' i = Some f" for i f
    using that ok e unfolding b'(6) by (auto simp: free_ok_def extra_simps split: if_splits)
  ultimately have "free_ok b' U"
    using ok shape_upd [OF sh b'(2,5)] b'(2,4) by (simp add: free_ok_def num_of_units_def)
  moreover have "unused b' j \<longleftrightarrow> unused b j \<and> j \<noteq> oi" if "live b j" for j
    unfolding unused_def b'(6) by (auto simp: extra_simps)
  ultimately show ?thesis using b'(1-3) by blast
qed

text \<open>The slots of the children in the table and in the array.\<close>

definition placed :: "da_builder \<Rightarrow> da_builder \<Rightarrow> nat \<Rightarrow> da_group list \<Rightarrow> bool" where
  "placed b b' oi gs \<longleftrightarrow> bkeys b' = bkeys b \<and> num_of_units b' = num_of_units b \<and>
     (\<forall>j < num_of_units b. bunits b' ! j =
        (if j \<in> child_slots oi gs then set_label (oi XOR j) (bunits b ! j) else bunits b ! j))"

lemma placed_leaf: "placed b b' oi gs \<Longrightarrow> j < num_of_units b \<Longrightarrow> is_leaf (bunits b' ! j) = is_leaf (bunits b ! j)"
  by (simp add: placed_def unit_simps)

lemma child_slots_iff: "j \<in> child_slots oi gs \<longleftrightarrow> (\<exists>(c, u, v) \<in> set gs. j = oi XOR c)"
  unfolding child_slots_def by force

lemma dom_add_nodes: "dom (add_nodes T p oi gs) = dom T \<union> child_slots oi gs"
proof -
  have "fst ` set (map (\<lambda>(c, x, y). (oi XOR c, (p @ [char_of c], x, y))) gs) = child_slots oi gs"
    unfolding child_slots_def by force
  then show ?thesis unfolding add_nodes_def dom_map_add dom_map_of_conv_image_fst by blast
qed

lemma child_slots_new:
  assumes "child_slots oi gs \<subseteq> U" and "slots_ok b U T Q"
  shows "\<forall>(c, u, v) \<in> set gs. T (oi XOR c) = None"
proof clarify
  fix c u v assume "(c, u, v) \<in> set gs"
  then have "oi XOR c \<in> child_slots oi gs" unfolding child_slots_iff by blast
  then show "T (oi XOR c) = None" using slots_dom(2) [OF assms(2)] assms(1) by blast
qed

lemma placed_slots:
  assumes s: "slots_ok b U T Q" and x: "Q x = None" and oi: "live b oi"
    and gs: "gs \<noteq> []" "\<forall>(c, u, v) \<in> set gs. c < 256" and sub: "child_slots oi gs \<subseteq> U"
    and pl: "placed b b' oi gs" and ok: "free_ok b' (U - child_slots oi gs)"
    and un: "\<And>j. live b j \<Longrightarrow> unused b' j \<longleftrightarrow> unused b j \<and> j \<noteq> oi"
  shows "slots_ok b' (U - child_slots oi gs) (add_nodes T p oi gs) (Q(x \<mapsto> oi))"
proof (rule slots_okI [OF ok])
  let ?S = "child_slots oi gs" and ?T = "add_nodes T p oi gs" and ?Q = "Q(x \<mapsto> oi)"
  have n: "num_of_units b' = num_of_units b" using pl by (simp add: placed_def)
  have UL: "j < num_of_units b" if "j \<in> U" for j using ring_live [OF slots_free [OF s] that] by (simp add: live_def)
  have ranQ: "ran ?Q = insert oi (ran Q)" using x by (rule ran_map_upd)
  show "dom ?T \<subseteq> {..<num_of_units b'}" using dom_add_nodes [of T p oi gs] slots_dom(1) [OF s] UL sub n by auto
  show "dom ?T \<inter> (U - ?S) = {}" unfolding dom_add_nodes using slots_dom(2) [OF s] by blast
  show "0 \<notin> U - ?S" "1 \<notin> U - ?S" "1 < num_of_units b'" using slots_dom(3,4,6) [OF s] n by auto
  show "1 \<notin> dom ?T" unfolding dom_add_nodes using slots_dom(4,5) [OF s] sub by blast
  show "\<not> is_leaf (bunits b' ! u)" if "u \<in> U - ?S" for u
    using that placed_leaf [OF pl UL, of u] slots_leaf [OF s, of u] by simp
  show "unused b' y \<longleftrightarrow> y \<noteq> 0 \<and> y \<notin> ran ?Q" if lv: "live b' y" for y
  proof -
    have "live b y" using lv n by (simp add: live_def)
    then show ?thesis using un slots_used [OF s] by (auto simp: ranQ)
  qed
  fix u assume u: "u < num_of_units b'" "u \<notin> U - ?S" "u \<noteq> 0" "u \<noteq> 1" "u \<notin> dom ?T"
  then have u': "u < num_of_units b" "u \<notin> U" "u \<notin> dom T" "u \<notin> ?S" unfolding dom_add_nodes using n by auto
  then have dead: "dead b U Q u" using slots_fixed [OF s u'(1,2)] u(3,4) by blast
  obtain c v w where c: "(c, v, w) \<in> set gs" using gs(1) by (cases gs) auto
  then have "oi XOR c \<in> U" using sub child_slots_iff by blast
  then have "(oi XOR c) div 256 \<noteq> u div 256" using dead by (auto simp: dead_def)
  then have "oi div 256 \<noteq> u div 256" using block_xor [of c oi] c gs(2) by auto
  moreover have "bunits b' ! u = bunits b ! u" using pl u'(1,4) by (simp add: placed_def)
  ultimately show "dead b' (U - ?S) ?Q u" using dead unfolding dead_def ranQ by auto
qed

lemma placed_units:
  assumes s: "slots_ok b U T Q" and t: "tree_ok K T Q" and un: "units_ok b T Q"
    and x: "T x = Some (p, rb, re)" "\<not> is_leaf (bunits b ! x)" "da_offset (bunits b ! x) = x XOR oi" and oi: "oi < num_of_units b"
    and gs: "distinct (map fst gs)" "\<forall>(c, u, v) \<in> set gs. c < 256" and sub: "child_slots oi gs \<subseteq> U"
    and pl: "placed b b' oi gs"
  shows "units_ok b' (add_nodes T p oi gs) (Q(x \<mapsto> oi))"
proof -
  let ?S = "child_slots oi gs" and ?T = "add_nodes T p oi gs" and ?Q = "Q(x \<mapsto> oi)"
  note S = add_nodes_Some [OF gs(1) child_slots_new [OF sub s]]
  have n: "num_of_units b' = num_of_units b" and keys: "bkeys b' = bkeys b" using pl by (simp_all add: placed_def)
  have UL: "j < num_of_units b" if "j \<in> U" for j using ring_live [OF slots_free [OF s] that] by (simp add: live_def)
  have same: "bunits b' ! z = bunits b ! z" if "z < num_of_units b" "z \<notin> U" for z
    using pl that sub by (auto simp: placed_def)
  have old: "bunits b' ! z = bunits b ! z" if "z \<in> dom T" for z
    by (rule same [OF slots_dom(1,2) [OF s that]])
  show ?thesis
    unfolding units_ok_def keys
  proof (intro conjI allI impI)
    show "label (bunits b' ! 0) = 0" "\<not> is_leaf (bunits b' ! 0)" "label (bunits b' ! 1) = 1" "\<not> is_leaf (bunits b' ! 1)"
      using units_01 [OF un] same slots_dom [OF s] by simp_all
    fix z oi' assume z: "?Q z = Some oi'"
    then have "z \<in> dom T" using x(1) tree_dom(1) [OF t] by (auto split: if_splits)
    then show "oi' < num_of_units b'" "\<not> is_leaf (bunits b' ! z)" "da_offset (bunits b' ! z) = z XOR oi'"
      using z old units_off [OF un, of z oi'] x(2,3) oi n by (auto split: if_splits)
  next
    fix z q r assume z: "?T z = Some (q, r)" "z \<noteq> 0" "\<not> is_leaf (bunits b' ! z)"
    show "label (bunits b' ! z) = uchar (last q)"
    proof (cases "T z = Some (q, r)")
      case True
      then have "bunits b' ! z = bunits b ! z" by (intro old) auto
      then show ?thesis using units_label [OF un True z(2)] z(3) by simp
    next
      case False
      then obtain c v w where c: "(c, v, w) \<in> set gs" "z = oi XOR c" "q = p @ [char_of c]" using z(1) by (auto simp: S)
      then have "z \<in> ?S" unfolding child_slots_iff by blast
      moreover have "c < 256" using c(1) gs(2) by auto
      ultimately show ?thesis using pl UL [of z] sub c by (auto simp: placed_def xor_cancel unit_simps)
    qed
  next
    fix z assume "z < num_of_units b'" "is_leaf (bunits b' ! z)"
    then have "z < num_of_units b" "is_leaf (bunits b ! z)" using n placed_leaf [OF pl] by auto
    from units_leaf [OF un this] show "\<exists>q i. ?T z = Some (q, i, Suc i) \<and> kindex (bkeys b ! i) = z \<and> Suc (kpos (bkeys b ! i)) = length q"
      unfolding S by blast
  qed
qed

text \<open>The node \<open>x\<close> gets the children of its groups.\<close>

lemma place_children:
  assumes s: "slots_ok b U T Q" and t: "tree_ok K T Q" and un: "units_ok b T Q"
    and x: "T x = Some (p, rb, re)" "Q x = None" "\<not> is_leaf (bunits b ! x)" "da_offset (bunits b ! x) = x XOR oi"
    and oi: "live b oi" "unused b oi" and len: "\<forall>i. rb \<le> i \<longrightarrow> i < re \<longrightarrow> length p \<le> length (K ! i)"
    and g: "groups_ok (next_char K p) rb re gs" and sub: "child_slots oi gs \<subseteq> U"
  shows "\<exists>b4 b5. push_children oi (rev gs) stack b = Some (map (\<lambda>(c, x, y). (x, y, oi XOR c)) gs @ stack, b4) \<and>
    upd_extra oi set_is_used b4 = Some b5 \<and> slots_ok b5 (U - child_slots oi gs) (add_nodes T p oi gs) (Q(x \<mapsto> oi)) \<and>
    tree_ok K (add_nodes T p oi gs) (Q(x \<mapsto> oi)) \<and> units_ok b5 (add_nodes T p oi gs) (Q(x \<mapsto> oi)) \<and> placed b b5 oi gs"
proof -
  let ?S = "child_slots oi gs"
  have nd: "node_ok K p rb re" by (rule tree_node [OF t x(1)])
  have c256: "\<forall>(c, u, v) \<in> set gs. c < 256" using group_node [OF nd len g] by blast
  have d: "distinct (map fst gs)" using g by (simp add: groups_ok_def strict_sorted_iff)
  have ne: "gs \<noteq> []" using group_key_in [OF g, of rb] nd by (auto simp: node_ok_def)
  have r: "\<forall>(c, u, v) \<in> set (rev gs). c < 256" "child_slots oi (rev gs) \<subseteq> U" "distinct (map fst (rev gs))" "child_slots oi (rev gs) = ?S"
    using c256 sub d by (simp_all add: child_slots_def rev_map [symmetric])
  from push_children_take [OF slots_free [OF s] r(1-3), of stack] obtain b4 where b4:
      "push_children oi (rev gs) stack b = Some (rev (map (\<lambda>(c, x, y). (x, y, oi XOR c)) (rev gs)) @ stack, b4)"
      "free_ok b4 (U - ?S)" "keeps b b4" "num_of_units b4 = num_of_units b"
      "\<forall>j < num_of_units b. bunits b4 ! j = (if j \<in> ?S then set_label (oi XOR j) (bunits b ! j) else bunits b ! j)"
    unfolding r(4) by blast
  have lv: "live b4 j \<longleftrightarrow> live b j" for j using b4(4) by (simp add: live_def)
  from mark_used_ok [OF b4(2)] oi(1) obtain b5 where b5: "upd_extra oi set_is_used b4 = Some b5" "free_ok b5 (U - ?S)"
      "bunits b5 = bunits b4" "bkeys b5 = bkeys b4" "\<forall>j. live b4 j \<longrightarrow> (unused b5 j \<longleftrightarrow> unused b4 j \<and> j \<noteq> oi)"
    unfolding lv by blast
  have pl: "placed b b5 oi gs" using b4 b5(3,4) by (simp add: placed_def keeps_def num_of_units_def)
  have u5: "unused b5 j \<longleftrightarrow> unused b j \<and> j \<noteq> oi" if "live b j" for j
    using b5(5) lv that unused_keeps [OF b4(3)] by simp
  have "oi \<noteq> 0 \<and> oi \<notin> ran Q" using slots_used [OF s oi(1)] oi(2) by simp
  then have "tree_ok K (add_nodes T p oi gs) (Q(x \<mapsto> oi))"
    by (intro tree_ok_add [OF t x(1,2) _ _ len g child_slots_new [OF sub s]]) simp_all
  moreover have "oi < num_of_units b" using oi(1) by (simp add: live_def)
  ultimately show ?thesis
    using b4(1) b5(1) placed_slots [OF s x(2) oi(1) ne c256 sub pl b5(2) u5] placed_units [OF s t un x(1,3,4) _ d c256 sub pl] pl
    by (intro exI [of _ b4] exI [of _ b5]) (simp add: rev_map)
qed

section \<open>The stack\<close>

abbreviation stack_keys :: "da_range list \<Rightarrow> nat list" where
  "stack_keys stack \<equiv> concat (map (\<lambda>(rb, re, x). [rb..<re]) stack)"

definition entry_ok :: "da_builder \<Rightarrow> da_nodes \<Rightarrow> (nat \<Rightarrow> nat option) \<Rightarrow> da_range \<Rightarrow> bool" where
  "entry_ok b T Q r = (case r of (rb, re, x) \<Rightarrow>
     \<exists>p. T x = Some (p, rb, re) \<and> Q x = None \<and> \<not> is_leaf (bunits b ! x) \<and>
       (\<forall>i. rb \<le> i \<longrightarrow> i < re \<longrightarrow> kpos (bkeys b ! i) = length p))"

definition keys_inv :: "bytes list \<Rightarrow> 32 word list \<Rightarrow> da_key list \<Rightarrow> bool" where
  "keys_inv K V ks \<longleftrightarrow> length ks = length K \<and>
     (\<forall>i < length K. ktext (ks ! i) = K ! i \<and> kvalue (ks ! i) = V ! i)"

definition stack_ok :: "bytes list \<Rightarrow> da_builder \<Rightarrow> da_range list \<Rightarrow> da_nodes \<Rightarrow> (nat \<Rightarrow> nat option) \<Rightarrow> bool" where
  "stack_ok K b stack T Q \<longleftrightarrow> (\<forall>r \<in> set stack. entry_ok b T Q r) \<and>
     distinct (map (snd \<circ> snd) stack) \<and> distinct (stack_keys stack) \<and>
     (\<forall>x p rb re. T x = Some (p, rb, re) \<longrightarrow> Q x \<noteq> None \<or> (rb, re, x) \<in> set stack \<or> is_leaf (bunits b ! x)) \<and>
     (\<forall>i < length K. i \<in> set (stack_keys stack) \<or> (\<exists>x p. T x = Some (p, i, Suc i) \<and> is_leaf (bunits b ! x))) \<and>
     (\<forall>x p i. T x = Some (p, i, Suc i) \<longrightarrow> is_leaf (bunits b ! x) \<longrightarrow> i \<notin> set (stack_keys stack))"

lemma stack_okD:
  assumes "stack_ok K b stack T Q"
  shows stack_entry: "\<And>r. r \<in> set stack \<Longrightarrow> entry_ok b T Q r"
    and stack_distinct: "distinct (map (snd \<circ> snd) stack)" "distinct (stack_keys stack)"
    and stack_node: "\<And>x p rb re. T x = Some (p, rb, re) \<Longrightarrow> Q x \<noteq> None \<or> (rb, re, x) \<in> set stack \<or> is_leaf (bunits b ! x)"
    and stack_cover: "\<And>i. i < length K \<Longrightarrow> i \<in> set (stack_keys stack) \<or> (\<exists>x p. T x = Some (p, i, Suc i) \<and> is_leaf (bunits b ! x))"
    and stack_leaf: "\<And>x p i. T x = Some (p, i, Suc i) \<Longrightarrow> is_leaf (bunits b ! x) \<Longrightarrow> i \<notin> set (stack_keys stack)"
  using assms unfolding stack_ok_def by blast+

definition trie_inv :: "bytes list \<Rightarrow> 32 word list \<Rightarrow> da_range list \<Rightarrow> da_builder \<Rightarrow> nat set \<Rightarrow> da_nodes \<Rightarrow> (nat \<Rightarrow> nat option) \<Rightarrow> bool" where
  "trie_inv K V stack b U T Q \<longleftrightarrow> slots_ok b U T Q \<and> tree_ok K T Q \<and> units_ok b T Q \<and> stack_ok K b stack T Q \<and> keys_inv K V (bkeys b)"

text \<open>Changing the offset or the end mark of a node, and stepping keys that have no leaf yet.\<close>

lemma touch_node:
  assumes s: "slots_ok b U T Q" and un: "units_ok b T Q" and x: "x \<in> dom T" "Q x = None"
    and b': "bunits b' = (bunits b)[x := u]" "is_leaf u = is_leaf (bunits b ! x)" "label u = label (bunits b ! x)"
      "bextras b' = bextras b" "unfixed_index b' = unfixed_index b"
    and keys: "\<And>z p i. T z = Some (p, i, Suc i) \<Longrightarrow> is_leaf (bunits b ! z) \<Longrightarrow> bkeys b' ! i = bkeys b ! i"
  shows "slots_ok b' U T Q \<and> units_ok b' T Q"
proof -
  have n: "num_of_units b' = num_of_units b" using b'(1) by (simp add: num_of_units_def)
  have ex: "extras b' = extras b" using b'(4) by (simp add: extras_def fun_eq_iff)
  have same: "is_leaf (bunits b' ! z) = is_leaf (bunits b ! z)" "label (bunits b' ! z) = label (bunits b ! z)" for z
    using slots_dom(1) [OF s x(1)] by (cases "z = x"; simp add: b'(1-3) num_of_units_def)+
  have off: "bunits b' ! z = bunits b ! z" if "z \<noteq> x" for z using that b'(1) by simp
  have live: "live b' z \<longleftrightarrow> live b z" "unused b' z \<longleftrightarrow> unused b z" for z using n ex by (simp_all add: live_def unused_def)
  have "free_ok b' U" using free_ok_cong [of b' b U] b'(1,4,5) slots_free [OF s] by simp
  moreover have "dead b' U Q z = dead b U Q z" for z by (simp add: dead_def same)
  ultimately have slots: "slots_ok b' U T Q"
    using slots_dom [OF s] slots_leaf [OF s] slots_used [OF s] slots_fixed [OF s] 
    by (intro slots_okI) (simp_all add: n same live subset_iff, blast+)
  have "units_ok b' T Q"
    unfolding units_ok_def n same
  proof (intro conjI allI impI)
    show "label (bunits b ! 0) = 0" "\<not> is_leaf (bunits b ! 0)" "label (bunits b ! 1) = 1" "\<not> is_leaf (bunits b ! 1)"
      by (rule units_01 [OF un])+
    fix z oi assume z: "Q z = Some oi"
    then have "z \<noteq> x" using x(2) by auto
    then show "oi < num_of_units b" "\<not> is_leaf (bunits b ! z)" "da_offset (bunits b' ! z) = z XOR oi"
      using units_off [OF un z] off by simp_all
  next
    fix z assume z: "z < num_of_units b" "is_leaf (bunits b ! z)"
    obtain p i where "T z = Some (p, i, Suc i)" "kindex (bkeys b ! i) = z" "Suc (kpos (bkeys b ! i)) = length p"
      using units_leaf [OF un z] by blast
    then show "\<exists>p i. T z = Some (p, i, Suc i) \<and> kindex (bkeys b' ! i) = z \<and> Suc (kpos (bkeys b' ! i)) = length p"
      using keys [OF _ z(2)] by (intro exI [of _ p] exI [of _ i]) simp
  qed (rule units_label [OF un])
  then show ?thesis using slots by simp
qed

lemma mark_leaf_ok:
  assumes inv: "trie_inv K V ((rb, re, x) # rest) b U T Q" and leaf: "x \<noteq> 0" "re - rb = 1"
  shows "\<exists>b'. mark_leaf rb x b = Some b' \<and> trie_inv K V rest b' U T Q \<and> num_of_units b' = num_of_units b \<and>
    (\<forall>i. i \<noteq> rb \<longrightarrow> bkeys b' ! i = bkeys b ! i)"
proof -
  have s: "slots_ok b U T Q" and t: "tree_ok K T Q" and un: "units_ok b T Q" and st: "stack_ok K b ((rb, re, x) # rest) T Q"
    and kv: "keys_inv K V (bkeys b)" using inv by (auto simp: trie_inv_def)
  obtain p where p: "T x = Some (p, rb, re)" "Q x = None" "\<not> is_leaf (bunits b ! x)" "kpos (bkeys b ! rb) = length p"
    using stack_entry [OF st, of "(rb, re, x)"] leaf(2) by (auto simp: entry_ok_def)
  have re: "re = Suc rb" using leaf(2) by simp
  have nd: "node_ok K p rb re" by (rule tree_node [OF t p(1)])
  have rbK: "rb < length (bkeys b)" using nd kv by (simp add: node_ok_def keys_inv_def)
  obtain q c where q: "p = q @ [c]" using tree_owner [OF t p(1) leaf(1)] by blast
  have xn: "x < num_of_units b" "x \<notin> U" using slots_dom(1,2) [OF s] p(1) by auto
  let ?k = "(bkeys b ! rb)\<lparr>kpos := kpos (bkeys b ! rb) - 1, kindex := x\<rparr>"
  let ?b0 = "b\<lparr>bkeys := (bkeys b)[rb := ?k]\<rparr>"
  obtain b' where b': "mark_leaf rb x b = Some b'" "bunits b' = (bunits b)[x := set_is_leaf (bunits b ! x)]"
      "bextras b' = bextras b" "bkeys b' = (bkeys b)[rb := ?k]" "unfixed_index b' = unfixed_index b"
    using upd_unit_ok [of x ?b0 "\<lambda>u. Some (set_is_leaf u)"] xn(1) by (auto simp: mark_leaf_def num_of_units_def)
  have n: "num_of_units b' = num_of_units b" using b'(2) by (simp add: num_of_units_def)
  have other: "bunits b' ! z = bunits b ! z" if "z \<noteq> x" for z using that b'(2) by simp
  have lx: "is_leaf (bunits b' ! x)" using b'(2) xn(1) by (simp add: num_of_units_def unit_simps)
  have ex: "extras b' = extras b" using b'(3) by (simp add: extras_def fun_eq_iff)
  have live: "live b' z \<longleftrightarrow> live b z" "unused b' z \<longleftrightarrow> unused b z" for z using n ex by (simp_all add: live_def unused_def)
  have rest_i: "rb \<notin> set (stack_keys rest)" using stack_distinct(2) [OF st] re by simp
  have rest_x: "\<forall>r \<in> set rest. snd (snd r) \<noteq> x" using stack_distinct(1) [OF st] by (auto simp: image_iff)
  have leaf_i: "i \<noteq> rb" if "T z = Some (q', i, Suc i)" "is_leaf (bunits b ! z)" for z q' i
    using stack_leaf [OF st that] re by auto
  have slots: "slots_ok b' U T Q"
  proof (rule slots_okI)
    show "free_ok b' U" using free_ok_cong [of b' b U] b'(2,3,5) slots_free [OF s] by simp
    show "dom T \<subseteq> {..<num_of_units b'}" "dom T \<inter> U = {}" "0 \<notin> U" "1 \<notin> U" "1 \<notin> dom T" "1 < num_of_units b'"
      using slots_dom [OF s] n by auto
    show "\<not> is_leaf (bunits b' ! u)" if "u \<in> U" for u
      using other [of u] slots_leaf [OF s that] that xn(2) by (cases "u = x") auto
    show "unused b' z \<longleftrightarrow> z \<noteq> 0 \<and> z \<notin> ran Q" if "live b' z" for z using that slots_used [OF s] live by simp
    fix u assume u: "u < num_of_units b'" "u \<notin> U" "u \<noteq> 0" "u \<noteq> 1" "u \<notin> dom T"
    then have "dead b U Q u" using slots_fixed [OF s] n by auto
    moreover have "u \<noteq> x" using u(5) p(1) by auto
    ultimately show "dead b' U Q u" using other by (simp add: dead_def)
  qed
  have units: "units_ok b' T Q"
    unfolding units_ok_def n
  proof (intro conjI allI impI)
    have "1 \<noteq> x" using p(1) slots_dom(5) [OF s] by auto
    then show "label (bunits b' ! 0) = 0" "\<not> is_leaf (bunits b' ! 0)" "label (bunits b' ! 1) = 1" "\<not> is_leaf (bunits b' ! 1)"
      using units_01 [OF un] other leaf(1) by simp_all
    fix z oi assume z: "Q z = Some oi"
    then have "z \<noteq> x" using p(2) by auto
    then show "oi < num_of_units b" "\<not> is_leaf (bunits b' ! z)" "da_offset (bunits b' ! z) = z XOR oi"
      using units_off [OF un z] other by simp_all
  next
    fix z q' r assume z: "T z = Some (q', r)" "z \<noteq> 0" "\<not> is_leaf (bunits b' ! z)"
    then have "z \<noteq> x" using lx by auto
    then show "label (bunits b' ! z) = uchar (last q')" using z units_label [OF un z(1,2)] other by simp
  next
    fix z assume z: "z < num_of_units b" "is_leaf (bunits b' ! z)"
    show "\<exists>q i. T z = Some (q, i, Suc i) \<and> kindex (bkeys b' ! i) = z \<and> Suc (kpos (bkeys b' ! i)) = length q"
    proof (cases "z = x")
      case True
      then show ?thesis using p(1,4) re rbK q by (intro exI [of _ p] exI [of _ rb]) (simp add: b'(4))
    next
      case False
      then have zl: "is_leaf (bunits b ! z)" using z(2) other by simp
      obtain q' i where i: "T z = Some (q', i, Suc i)" "kindex (bkeys b ! i) = z" "Suc (kpos (bkeys b ! i)) = length q'"
        using units_leaf [OF un z(1) zl] by blast
      then show ?thesis using leaf_i [OF i(1) zl] by (intro exI [of _ q'] exI [of _ i]) (simp add: b'(4))
    qed
  qed
  have stack: "stack_ok K b' rest T Q"
    unfolding stack_ok_def
  proof (intro conjI allI impI ballI)
    show "distinct (map (snd \<circ> snd) rest)" "distinct (stack_keys rest)" using stack_distinct [OF st] by auto
    fix r assume r: "r \<in> set rest"
    obtain rb' re' z where z: "r = (rb', re', z)" by (cases r)
    then have "z \<noteq> x" using rest_x r by fastforce
    moreover have "i \<noteq> rb" if "rb' \<le> i" "i < re'" for i using rest_i r z that by force
    ultimately show "entry_ok b' T Q r" using stack_entry [OF st, of r] r z other by (fastforce simp: entry_ok_def b'(4))
  next
    fix z q' rb' re' assume z: "T z = Some (q', rb', re')"
    then show "Q z \<noteq> None \<or> (rb', re', z) \<in> set rest \<or> is_leaf (bunits b' ! z)"
      using stack_node [OF st z] lx other by (cases "z = x") auto
  next
    fix i assume i: "i < length K"
    show "i \<in> set (stack_keys rest) \<or> (\<exists>z q'. T z = Some (q', i, Suc i) \<and> is_leaf (bunits b' ! z))"
    proof (cases "i = rb")
      case True
      then show ?thesis using p(1) re lx by blast
    next
      case False
      then show ?thesis using stack_cover [OF st i] re lx other by (auto simp: less_Suc_eq) metis
    qed
  next
    fix z q' i assume z: "T z = Some (q', i, Suc i)" "is_leaf (bunits b' ! z)"
    show "i \<notin> set (stack_keys rest)"
    proof (cases "z = x")
      case True
      then show ?thesis using z(1) p(1) rest_i by simp
    next
      case False
      then show ?thesis using stack_leaf [OF st z(1)] z(2) other by auto
    qed
  qed
  have "ktext (bkeys b' ! i) = ktext (bkeys b ! i) \<and> kvalue (bkeys b' ! i) = kvalue (bkeys b ! i)" for i
    using rbK by (cases "i = rb") (simp_all add: b'(4))
  then have "keys_inv K V (bkeys b')" using kv b'(4) by (simp add: keys_inv_def)
  then show ?thesis using b'(1,4) slots t units stack n by (auto simp: trie_inv_def)
qed

section \<open>Splitting a node\<close>

lemma step_keys_nth:
  "i < length ks \<Longrightarrow> step_keys x y ks ! i = (if x \<le> i \<and> i < y then (ks ! i)\<lparr>kpos := Suc (kpos (ks ! i))\<rparr> else ks ! i)"
  by (simp add: step_keys_def)

lemma keys_inv_step: "keys_inv K V ks \<Longrightarrow> keys_inv K V (step_keys x y ks)"
  by (simp add: keys_inv_def step_keys_nth) (simp add: step_keys_def)

lemma entry_len:
  assumes K: "keys_ok K" and t: "tree_ok K T Q" and x: "T x = Some (p, rb, re)" and split: "\<not> (x \<noteq> 0 \<and> re - rb = 1)"
  shows "\<forall>i. rb \<le> i \<longrightarrow> i < re \<longrightarrow> length p \<le> length (K ! i)"
proof (intro allI impI)
  fix i assume i: "rb \<le> i" "i < re"
  have nd: "node_ok K p rb re" by (rule tree_node [OF t x])
  show "length p \<le> length (K ! i)"
  proof (cases "x = 0")
    case True
    then show ?thesis using x tree_root [OF t] by simp
  next
    case False
    then have "Suc rb < re" using split i by linarith
    define j where "j = (if i = rb then Suc rb else rb)"
    have j: "rb \<le> j" "j < re" "i \<noteq> j" using i \<open>Suc rb < re\<close> by (simp_all add: j_def)
    have "re \<le> length K" using nd by (simp add: node_ok_def)
    then have iK: "i < length K" "j < length K" using i(2) j(2) by simp_all
    have "prefix p (tx K i)" "prefix p (tx K j)" using nd i j iK by (simp_all add: node_ok_def)
    then show ?thesis using shared_prefix_short [OF K iK j(3)] by blast
  qed
qed

lemma entry_groups:
  assumes K: "keys_ok K" and inv: "trie_inv K V ((rb, re, x) # rest) b U T Q" and split: "\<not> (x \<noteq> 0 \<and> re - rb = 1)"
    and x: "T x = Some (p, rb, re)"
  defines "l \<equiv> uchar (kchar (bkeys b ! rb) 0)"
  shows "\<exists>labels ranges nb. split_range [rb..<re] (bkeys b) [l] [] rb = (step_keys rb re (bkeys b), labels, ranges, nb) \<and>
    length labels = Suc (length ranges) \<and> groups_ok (next_char K p) rb re (zip labels (ranges @ [(nb, re)]))"
proof -
  have t: "tree_ok K T Q" and st: "stack_ok K b ((rb, re, x) # rest) T Q" and kv: "keys_inv K V (bkeys b)"
    using inv by (auto simp: trie_inv_def)
  have nd: "node_ok K p rb re" by (rule tree_node [OF t x])
  then have r: "rb < re" "re \<le> length K" by (simp_all add: node_ok_def)
  note len = entry_len [OF K t x split]
  have pos: "kpos (bkeys b ! i) = length p" if "rb \<le> i" "i < re" for i
  proof -
    obtain p' where "T x = Some (p', rb, re)" "\<forall>i. rb \<le> i \<longrightarrow> i < re \<longrightarrow> kpos (bkeys b ! i) = length p'"
      using stack_entry [OF st list.set_intros(1)] unfolding entry_ok_def prod.case by blast
    then show ?thesis using x that by simp
  qed
  have ch: "uchar (kchar (bkeys b ! i) 0) = next_char K p i" if i: "rb \<le> i" "i < re" for i
  proof -
    have "ktext (bkeys b ! i) = K ! i" using kv i r by (simp add: keys_inv_def)
    moreover have "length p \<le> length (K ! i)" using len i by blast
    ultimately show ?thesis using pos [OF i] by (auto simp: kchar_def next_char_def nth_append)
  qed
  have mono: "next_char K p i \<le> next_char K p j" if ij: "rb \<le> i" "i \<le> j" "j < re" for i j
  proof -
    have iK: "i < length K" "j < length K" "rb \<le> j" "i < re" using ij r by simp_all
    then have "prefix p (tx K i)" "prefix p (tx K j)" using nd ij by (simp_all add: node_ok_def)
    moreover have "length p \<le> length (K ! i)" "length p \<le> length (K ! j)" using len ij iK by blast+
    ultimately show ?thesis using next_char_mono [OF K ij(2) iK(2)] by (simp add: next_char_def)
  qed
  have lb: "length (bkeys b) = length K" using kv by (simp add: keys_inv_def)
  have first: "next_char K p rb = l" using ch [of rb] r(1) by (simp add: l_def)
  have "\<exists>labels ranges nb'. split_range [rb..<re] (bkeys b) ([] @ [l]) [] rb = (step_keys rb re (bkeys b), labels, ranges, nb') \<and>
      length labels = Suc (length ranges) \<and> groups_ok (next_char K p) rb re (zip labels (ranges @ [(nb', re)]))"
    by (rule split_range_ok [where ls = "[]" and rs = "[]" and ch = "next_char K p" and l = l and nb = rb and it = rb])
      (use r lb first ch mono in \<open>simp_all add: groups_ok_def\<close>)
  then show ?thesis by (simp only: append_Nil)
qed

text \<open>What is left of the step once the labels are known.\<close>

definition split_rest :: "nat \<Rightarrow> da_group list \<Rightarrow> da_range list \<Rightarrow> da_builder \<Rightarrow> (da_range list \<times> da_builder) option" where
  "split_rest index gs stack b2 =
     do {
       oi \<leftarrow> find_offset_index index (map fst gs) b2;
       b3 \<leftarrow> upd_unit index (set_offset (index XOR oi)) b2;
       (stack', b4) \<leftarrow> push_children oi (rev gs) stack b3;
       b5 \<leftarrow> upd_extra oi set_is_used b4;
       Some (stack', b5)
     }"

lemma split_node_rest:
  assumes K: "keys_ok K" and inv: "trie_inv K V ((rb, re, x) # rest) b U T Q" and split: "\<not> (x \<noteq> 0 \<and> re - rb = 1)"
    and x: "T x = Some (p, rb, re)"
  shows "\<exists>gs u b2. split_node (rb, re, x) rest b = split_rest x gs rest b2 \<and> groups_ok (next_char K p) rb re gs \<and>
    bunits b2 = (bunits b)[x := u] \<and> is_leaf u = is_leaf (bunits b ! x) \<and> label u = label (bunits b ! x) \<and>
    bextras b2 = bextras b \<and> unfixed_index b2 = unfixed_index b \<and> bkeys b2 = step_keys rb re (bkeys b)"
proof -
  have xn: "x < num_of_units b" using inv x slots_dom(1) by (fastforce simp: trie_inv_def)
  let ?l = "uchar (kchar (bkeys b ! rb) 0)"
  obtain labels ranges nb where r: "split_range [rb..<re] (bkeys b) [?l] [] rb = (step_keys rb re (bkeys b), labels, ranges, nb)"
      "length labels = Suc (length ranges)" "groups_ok (next_char K p) rb re (zip labels (ranges @ [(nb, re)]))"
    using entry_groups [OF assms] by blast
  let ?gs = "zip labels (ranges @ [(nb, re)])"
  have l: "map fst ?gs = labels" using r(2) by simp
  define u where "u = (if ?l = 0 then set_is_end (bunits b ! x) else bunits b ! x)"
  obtain b1 where b1: "(if ?l = 0 then upd_unit x (\<lambda>u. Some (set_is_end u)) b else Some b) = Some b1"
      "bunits b1 = (bunits b)[x := u]" "bextras b1 = bextras b" "unfixed_index b1 = unfixed_index b" "bkeys b1 = bkeys b"
  proof (cases "?l = 0")
    case True
    obtain b1 where "upd_unit x (\<lambda>u. Some (set_is_end u)) b = Some b1" "bunits b1 = (bunits b)[x := set_is_end (bunits b ! x)]"
        "bextras b1 = bextras b" "unfixed_index b1 = unfixed_index b" "bkeys b1 = bkeys b"
      using upd_unit_ok [of x b "\<lambda>u. Some (set_is_end u)"] xn by auto
    then show ?thesis using that [of b1] True by (simp add: u_def)
  next
    case False
    then show ?thesis using that [of b] by (simp add: u_def)
  qed
  have "split_node (rb, re, x) rest b = split_rest x ?gs rest (b1\<lparr>bkeys := step_keys rb re (bkeys b)\<rparr>)"
    using b1(1,5) r(1) l by (simp add: split_node_def split_rest_def Let_def)
  moreover have "is_leaf u = is_leaf (bunits b ! x)" "label u = label (bunits b ! x)" by (simp_all add: u_def unit_simps)
  ultimately show ?thesis using r(3) b1
    by (intro exI [of _ ?gs] exI [of _ u] exI [of _ "b1\<lparr>bkeys := step_keys rb re (bkeys b)\<rparr>"]) simp
qed

lemma placed_stack:
  assumes st: "stack_ok K b ((rb, re, x) # rest) T Q" and t: "tree_ok K T Q" and x: "T x = Some (p, rb, re)"
    and lb: "length (bkeys b) = length K" and g: "groups_ok (next_char K p) rb re gs"
    and new: "\<forall>(c, u, v) \<in> set gs. T (oi XOR c) = None \<and> \<not> is_leaf (bunits b' ! (oi XOR c))"
    and keys: "bkeys b' = step_keys rb re (bkeys b)"
    and leaf: "\<And>z. z \<in> dom T \<Longrightarrow> is_leaf (bunits b' ! z) = is_leaf (bunits b ! z)"
  shows "stack_ok K b' (map (\<lambda>(c, x, y). (x, y, oi XOR c)) gs @ rest) (add_nodes T p oi gs) (Q(x \<mapsto> oi))"
proof -
  let ?T = "add_nodes T p oi gs" and ?Q = "Q(x \<mapsto> oi)" and ?new = "map (\<lambda>(c, x, y). (x, y, oi XOR c)) gs"
  have d: "distinct (map fst gs)" using g by (simp add: groups_ok_def strict_sorted_iff)
  have newT: "\<forall>(c, u, v) \<in> set gs. T (oi XOR c) = None" using new by blast
  note S = add_nodes_Some [OF d newT]
  have re: "re \<le> length K" using tree_node [OF t x] by (simp add: node_ok_def)
  have gk: "group_keys gs = [rb..<re]" using g by (simp only: groups_ok_def)
  have "stack_keys ?new = group_keys gs" by (induction gs) auto
  then have sk: "stack_keys (?new @ rest) = stack_keys ((rb, re, x) # rest)" using gk by simp
  have oldin: "z \<in> dom T" if "(u, v, z) \<in> set rest" for u v z
    using stack_entry [OF st, of "(u, v, z)"] that unfolding entry_ok_def prod.case by auto
  have newleaf: "\<not> is_leaf (bunits b' ! z)" "T z = None" if "(c, u, v) \<in> set gs" "z = oi XOR c" for c u v z
    using new that by auto
  have pos: "(rb', re', z) \<in> set rest \<Longrightarrow> rb' \<le> i \<Longrightarrow> i < re' \<Longrightarrow> bkeys b' ! i = bkeys b ! i" for rb' re' z i
  proof -
    assume a: "(rb', re', z) \<in> set rest" "rb' \<le> i" "i < re'"
    then have "i \<in> set (stack_keys rest)" by force
    moreover have "distinct ([rb..<re] @ stack_keys rest)" using stack_distinct(2) [OF st] by simp
    ultimately have "i \<notin> set [rb..<re]" unfolding distinct_append by blast
    then have out: "\<not> (rb \<le> i \<and> i < re)" by simp
    obtain q where "T z = Some (q, rb', re')"
      using stack_entry [OF st, of "(rb', re', z)"] a(1) unfolding entry_ok_def prod.case by auto
    then have "re' \<le> length K" using tree_node [OF t] by (simp add: node_ok_def)
    then show ?thesis using out a lb by (auto simp: keys step_keys_nth)
  qed
  have kp: "kpos (bkeys b' ! i) = Suc (length p)" if "rb \<le> i" "i < re" for i
  proof -
    have "kpos (bkeys b ! i) = length p"
      using stack_entry [OF st, of "(rb, re, x)"] x that unfolding entry_ok_def prod.case by auto
    then show ?thesis using that re lb by (simp add: keys step_keys_nth)
  qed
  show ?thesis
    unfolding stack_ok_def sk
  proof (intro conjI allI impI ballI)
    show "distinct (stack_keys ((rb, re, x) # rest))" by (rule stack_distinct(2) [OF st])
    have "map (snd \<circ> snd) ?new = map (\<lambda>c. oi XOR c) (map fst gs)" by (induction gs) auto
    moreover have "distinct (map (\<lambda>c. oi XOR c) (map fst gs))" using d by (auto simp: distinct_map inj_on_def xor_inject)
    moreover have "z \<notin> set (map (snd \<circ> snd) rest)" if "z \<in> set (map (snd \<circ> snd) ?new)" for z
      using that newleaf(2) oldin by fastforce
    ultimately show "distinct (map (snd \<circ> snd) (?new @ rest))"
      using stack_distinct(1) [OF st] by (auto simp only: map_append distinct_append list.map distinct.simps)
  next
    fix r assume r: "r \<in> set (?new @ rest)"
    show "entry_ok b' ?T ?Q r"
    proof (cases "r \<in> set rest")
      case True
      obtain rb' re' z where z: "r = (rb', re', z)" by (cases r)
      obtain q where q: "T z = Some (q, rb', re')" "Q z = None" "\<not> is_leaf (bunits b ! z)" 
          "\<forall>i. rb' \<le> i \<longrightarrow> i < re' \<longrightarrow> kpos (bkeys b ! i) = length q"
        using stack_entry [OF st, of r] True unfolding z entry_ok_def prod.case by auto
      have "z \<noteq> x" using stack_distinct(1) [OF st] True z by force
      moreover have "\<not> is_leaf (bunits b' ! z)" using q(1,3) leaf [of z] by auto
      moreover have "?T z = Some (q, rb', re')" unfolding S using q(1) by blast
      ultimately show ?thesis using q pos True unfolding z entry_ok_def prod.case by auto
    next
      case False
      then obtain c u v where c: "(c, u, v) \<in> set gs" "r = (u, v, oi XOR c)" using r by auto
      have "?T (oi XOR c) = Some (p @ [char_of c], u, v)" unfolding S using c(1) by blast
      moreover have "?Q (oi XOR c) = None" using newleaf(2) [OF c(1) refl] x tree_dom(1) [OF t] by auto
      moreover have "rb \<le> u" "v \<le> re" using group_range [OF g c(1)] by auto
      ultimately show ?thesis using newleaf(1) [OF c(1) refl] kp unfolding c(2) entry_ok_def prod.case by auto
    qed
  next
    fix z q rb' re' assume z: "?T z = Some (q, rb', re')"
    show "?Q z \<noteq> None \<or> (rb', re', z) \<in> set (?new @ rest) \<or> is_leaf (bunits b' ! z)"
    proof (cases "T z = Some (q, rb', re')")
      case True
      then show ?thesis using stack_node [OF st True] leaf [of z] by (cases "z = x") auto
    next
      case False
      then show ?thesis using z unfolding S by force
    qed
  next
    fix i assume "i < length K"
    from stack_cover [OF st this]
    show "i \<in> set (stack_keys ((rb, re, x) # rest)) \<or> (\<exists>z q. ?T z = Some (q, i, Suc i) \<and> is_leaf (bunits b' ! z))"
    proof
      assume "\<exists>z q. T z = Some (q, i, Suc i) \<and> is_leaf (bunits b ! z)"
      then obtain z q where "T z = Some (q, i, Suc i)" "is_leaf (bunits b ! z)" by blast
      moreover from this have "is_leaf (bunits b' ! z)" using leaf [of z] by auto
      ultimately show ?thesis unfolding S by blast
    qed blast
  next
    fix z q i assume z: "?T z = Some (q, i, Suc i)" "is_leaf (bunits b' ! z)"
    have old: "T z = Some (q, i, Suc i)" using z newleaf(1) unfolding S by blast
    then have "is_leaf (bunits b ! z)" using z(2) leaf [of z] by auto
    from stack_leaf [OF st old this] show "i \<notin> set (stack_keys ((rb, re, x) # rest))" .
  qed
qed

text \<open>A number below a power of two stays below it.\<close>

lemma xor_less: "a < 2 ^ n \<Longrightarrow> b < 2 ^ n \<Longrightarrow> a XOR b < 2 ^ n" for a b :: nat
  by (metis take_bit_nat_eq_self_iff take_bit_xor)

lemma xor_mod_block: "a mod 256 = b mod 256 \<Longrightarrow> (a XOR b) mod 256 = 0" for a b :: nat
proof -
  have m: "n mod 256 = take_bit 8 n" for n :: nat by (simp add: take_bit_eq_mod)
  show "a mod 256 = b mod 256 \<Longrightarrow> ?thesis" unfolding m take_bit_xor by simp
qed

text \<open>Finding an offset and writing it into the node.\<close>

lemma split_touch:
  assumes inv: "trie_inv K V ((rb, re, x) # rest) b U T Q" and x: "T x = Some (p, rb, re)"
    and b2: "bunits b2 = (bunits b)[x := u]" "is_leaf u = is_leaf (bunits b ! x)" "label u = label (bunits b ! x)"
      "bextras b2 = bextras b" "unfixed_index b2 = unfixed_index b" "bkeys b2 = step_keys rb re (bkeys b)"
    and l: "labels \<noteq> []" "\<forall>c \<in> set labels. c < 256" and small: "num_of_units b + 256 \<le> 2 ^ 29"
  shows "\<exists>oi b3. find_offset_index x labels b2 = Some oi \<and> upd_unit x (set_offset (x XOR oi)) b2 = Some b3 \<and>
    slots_ok b3 U T Q \<and> units_ok b3 T Q \<and> da_offset (bunits b3 ! x) = x XOR oi \<and> num_of_units b3 = num_of_units b \<and>
    bkeys b3 = step_keys rb re (bkeys b) \<and> (\<forall>z. is_leaf (bunits b3 ! z) = is_leaf (bunits b ! z)) \<and>
    (live b3 oi \<and> unused b3 oi \<and> (\<forall>c \<in> set labels. oi XOR c \<in> U) \<or>
     oi = num_of_units b + x mod 256)"
proof -
  have s: "slots_ok b U T Q" and t: "tree_ok K T Q" and un: "units_ok b T Q" and st: "stack_ok K b ((rb, re, x) # rest) T Q"
    and kv: "keys_inv K V (bkeys b)" using inv by (simp_all add: trie_inv_def)
  have Qx: "Q x = None" using stack_entry [OF st, of "(rb, re, x)"] unfolding entry_ok_def prod.case by auto
  have xd: "x \<in> dom T" "x < num_of_units b" using slots_dom(1) [OF s] x by auto
  have n2: "num_of_units b2 = num_of_units b" using b2(1) by (simp add: num_of_units_def)
  have free2: "free_ok b2 U" using free_ok_cong [of b2 b U] b2(1,4,5) slots_free [OF s] by simp
  have mod: "num_of_units b2 mod 256 = 0" using free2 by (simp add: free_ok_def shape_ok_def)
  obtain oi where oi: "find_offset_index x labels b2 = Some oi" "oi = new_offset_index x b2 \<or> good_offset b2 U x labels oi"
    using find_offset_index_ok [OF free2 l] by blast
  have cases: "oi = num_of_units b + x mod 256 \<or> good_offset b2 U x labels oi"
    using oi(2) new_offset_index_eq [OF mod] n2 by simp
  have valid: "x XOR oi < 2 ^ 29 \<and> (x XOR oi < OFFSET_MAX \<or> (x XOR oi) mod 256 = 0)"
  proof (intro conjI)
    have "oi < 2 ^ 29" using cases small n2 mod_less_divisor [of 256 x] by (auto simp: good_offset_def live_def)
    then show "x XOR oi < 2 ^ 29" using xd(2) small by (intro xor_less) simp_all
    show "x XOR oi < OFFSET_MAX \<or> (x XOR oi) mod 256 = 0"
      using cases
    proof
      assume "oi = num_of_units b + x mod 256"
      then have "x mod 256 = oi mod 256" using mod n2 by (metis mod_add_left_eq add_0 mod_mod_trivial)
      then show ?thesis using xor_mod_block [of x oi] by simp
    qed (auto simp: good_offset_def)
  qed
  obtain w where w: "set_offset (x XOR oi) (bunits b2 ! x) = Some w" using set_offset_Some valid by blast
  have u: "bunits b2 ! x = u" using b2(1) xd(2) by (simp add: num_of_units_def)
  obtain b3 where b3: "upd_unit x (set_offset (x XOR oi)) b2 = Some b3" "bunits b3 = (bunits b2)[x := w]"
      "bextras b3 = bextras b2" "bkeys b3 = bkeys b2" "unfixed_index b3 = unfixed_index b2"
    using upd_unit_ok [of x b2 "set_offset (x XOR oi)" w] w xd(2) n2 by auto
  have w': "is_leaf w = is_leaf (bunits b ! x)" "label w = label (bunits b ! x)"
    using w b2(2,3) u by (simp_all add: unit_simps)
  have us: "bunits b3 = (bunits b)[x := w]" using b3(2) b2(1) by simp
  have n3: "num_of_units b3 = num_of_units b" using us by (simp add: num_of_units_def)
  have keep: "bkeys b3 ! i = bkeys b ! i" if z: "T z = Some (q, i, Suc i)" "is_leaf (bunits b ! z)" for z q i
  proof -
    have "i < length (bkeys b)" using tree_node [OF t z(1)] kv by (simp add: node_ok_def keys_inv_def)
    moreover have "\<not> (rb \<le> i \<and> i < re)" using stack_leaf [OF st z] by auto
    ultimately show ?thesis using b3(4) b2(6) by (auto simp: step_keys_nth)
  qed
  have "slots_ok b3 U T Q \<and> units_ok b3 T Q"
    by (rule touch_node [OF s un xd(1) Qx us w' _ _ keep]) (simp_all add: b3 b2)
  moreover have "da_offset (bunits b3 ! x) = x XOR oi"
    using us xd(2) da_offset_set_offset [OF w] valid by (simp add: num_of_units_def)
  moreover have "is_leaf (bunits b3 ! z) = is_leaf (bunits b ! z)" for z
    using us w'(1) xd(2) by (cases "z = x") (simp_all add: num_of_units_def)
  moreover have "live b3 z = live b2 z" "unused b3 z = unused b2 z" for z
    using n3 n2 b3(3) by (simp_all add: live_def unused_def extras_def)
  ultimately show ?thesis using oi(1) b3(1,4) b2(6) n3 cases by (intro exI [of _ oi] exI [of _ b3]) (auto simp: good_offset_def)
qed

text \<open>Making room: in the blocks there are, or in a new one.\<close>

lemma push_place:
  assumes s: "slots_ok b U T Q" and t: "tree_ok K T Q" and un: "units_ok b T Q"
    and x: "T x = Some (p, rb, re)" "Q x = None" "\<not> is_leaf (bunits b ! x)" "da_offset (bunits b ! x) = x XOR oi"
    and len: "\<forall>i. rb \<le> i \<longrightarrow> i < re \<longrightarrow> length p \<le> length (K ! i)" and g: "groups_ok (next_char K p) rb re gs"
    and small: "num_of_units b + 256 \<le> 2 ^ 29"
    and oi: "live b oi \<and> unused b oi \<and> (\<forall>c \<in> set (map fst gs). oi XOR c \<in> U) \<or> oi = num_of_units b + x mod 256"
  shows "\<exists>b4 b5 U'. push_children oi (rev gs) stack b = Some (map (\<lambda>(c, x, y). (x, y, oi XOR c)) gs @ stack, b4) \<and>
    upd_extra oi set_is_used b4 = Some b5 \<and> slots_ok b5 U' (add_nodes T p oi gs) (Q(x \<mapsto> oi)) \<and>
    tree_ok K (add_nodes T p oi gs) (Q(x \<mapsto> oi)) \<and> units_ok b5 (add_nodes T p oi gs) (Q(x \<mapsto> oi)) \<and>
    bkeys b5 = bkeys b \<and> num_of_units b5 \<le> num_of_units b + 256 \<and>
    (\<forall>z \<in> dom T. is_leaf (bunits b5 ! z) = is_leaf (bunits b ! z)) \<and>
    (\<forall>(c, u, v) \<in> set gs. T (oi XOR c) = None \<and> \<not> is_leaf (bunits b5 ! (oi XOR c)))"
proof -
  have nd: "node_ok K p rb re" by (rule tree_node [OF t x(1)])
  have c256: "\<forall>(c, u, v) \<in> set gs. c < 256" using group_node [OF nd len g] by blast
  have dT: "z < num_of_units b \<and> z \<notin> U" if "z \<in> dom T" for z using slots_dom(1,2) [OF s that] by simp
  have fin: ?thesis
    if b': "slots_ok b' U' T Q" "units_ok b' T Q" "bkeys b' = bkeys b" "num_of_units b \<le> num_of_units b'" "num_of_units b' \<le> num_of_units b + 256"
      "\<forall>z < num_of_units b. z \<notin> U \<longrightarrow> bunits b' ! z = bunits b ! z" "live b' oi" "unused b' oi" "child_slots oi gs \<subseteq> U'"
      "push_children oi (rev gs) stack b = push_children oi (rev gs) stack b'" for b' U'
  proof -
    have xx: "bunits b' ! z = bunits b ! z" if "z \<in> dom T" for z using b'(6) dT [OF that] by blast
    have "bunits b' ! x = bunits b ! x" using x(1) by (intro xx) auto
    then have "\<not> is_leaf (bunits b' ! x)" "da_offset (bunits b' ! x) = x XOR oi" using x by simp_all
    from place_children [OF b'(1) t b'(2) x(1,2) \<open>\<not> is_leaf (bunits b' ! x)\<close> this(2) b'(7,8) len g b'(9), of stack]
    obtain b4 b5 where b5: "push_children oi (rev gs) stack b' = Some (map (\<lambda>(c, x, y). (x, y, oi XOR c)) gs @ stack, b4)"
        "upd_extra oi set_is_used b4 = Some b5" "slots_ok b5 (U' - child_slots oi gs) (add_nodes T p oi gs) (Q(x \<mapsto> oi))"
        "tree_ok K (add_nodes T p oi gs) (Q(x \<mapsto> oi))" "units_ok b5 (add_nodes T p oi gs) (Q(x \<mapsto> oi))" "placed b' b5 oi gs"
      by blast
    have n5: "num_of_units b5 = num_of_units b'" "bkeys b5 = bkeys b'" using b5(6) by (simp_all add: placed_def)
    have "is_leaf (bunits b5 ! z) = is_leaf (bunits b ! z)" if "z \<in> dom T" for z
      using placed_leaf [OF b5(6), of z] xx [OF that] dT [OF that] b'(4) by simp
    moreover have "T (oi XOR c) = None \<and> \<not> is_leaf (bunits b5 ! (oi XOR c))" if c: "(c, u, v) \<in> set gs" for c u v
    proof -
      have "oi XOR c \<in> child_slots oi gs" using c child_slots_iff by blast
      then have iU: "oi XOR c \<in> U'" using b'(9) by blast
      then have "\<not> is_leaf (bunits b' ! (oi XOR c))" "oi XOR c < num_of_units b'"
        using slots_leaf [OF b'(1)] ring_live [OF slots_free [OF b'(1)] iU] by (simp_all add: live_def)
      then show ?thesis using placed_leaf [OF b5(6)] child_slots_new [OF b'(9,1)] c by auto
    qed
    ultimately show ?thesis using b5 n5 b'(3,5,10)
      by (intro exI [of _ b4] exI [of _ b5] exI [of _ "U' - child_slots oi gs"]) auto
  qed
  show ?thesis
    using oi
  proof
    assume "live b oi \<and> unused b oi \<and> (\<forall>c \<in> set (map fst gs). oi XOR c \<in> U)"
    then show ?thesis using s un by (intro fin [of b U]) (auto simp: child_slots_def)
  next
    assume new: "oi = num_of_units b + x mod 256"
    obtain b' U' where b': "expand_trie b = Some b'" "slots_ok b' U' T Q" "units_ok b' T Q" "bkeys b' = bkeys b"
        "num_of_units b' = num_of_units b + 256" "{num_of_units b..<num_of_units b + 256} \<subseteq> U'"
        "\<forall>z < num_of_units b. z \<notin> U \<longrightarrow> bunits b' ! z = bunits b ! z"
      using expand_slots [OF s t un] small by auto
    have nb: "num_of_units b = 256 * num_of_blocks b" using slots_free [OF s] by (simp add: free_ok_def shape_ok_def)
    then have "oi div 256 = num_of_blocks b" using new by simp
    then have same: "(oi XOR c) div 256 = num_of_blocks b" if "c < 256" for c using block_xor [OF that] by simp
    have blk: "num_of_units b \<le> oi XOR c \<and> oi XOR c < num_of_units b + 256" if "c < 256" for c
    proof -
      have "oi XOR c = 256 * num_of_blocks b + (oi XOR c) mod 256" using same [OF that]
        by (metis mult_div_mod_eq)
      then show ?thesis using nb mod_less_divisor [of 256 "oi XOR c"] by linarith
    qed
    have oiU: "oi \<in> U'" using new b'(6) by (auto simp: subset_iff)
    have "live b' oi" by (rule ring_live [OF slots_free [OF b'(2)] oiU])
    moreover have "oi \<noteq> 0 \<and> oi \<notin> ran Q" using new slots_dom(6) [OF s] units_off(1) [OF un] by (fastforce simp: ran_def)
    ultimately have live: "live b' oi" "unused b' oi" using slots_used [OF b'(2)] by auto
    have sub: "child_slots oi gs \<subseteq> U'"
    proof
      fix z assume "z \<in> child_slots oi gs"
      then obtain c u v where "(c, u, v) \<in> set gs" "z = oi XOR c" using child_slots_iff by blast
      then show "z \<in> U'" using blk c256 b'(6) by fastforce
    qed
    have "gs \<noteq> []" using group_key_in [OF g, of rb] nd by (auto simp: node_ok_def)
    then obtain c u v gs' where gs: "rev gs = (c, u, v) # gs'" by (cases "rev gs") auto
    then have "(c, u, v) \<in> set gs" by (metis list.set_intros(1) set_rev)
    then have "c < 256" using c256 by blast
    then have "push_children oi (rev gs) stack b = push_children oi (rev gs) stack b'"
      unfolding gs using blk b'(1,5) by (intro push_children_expand) simp_all
    then show ?thesis using b' live sub by (intro fin [of b' U']) simp_all
  qed
qed

lemma split_node_ok:
  assumes K: "keys_ok K" and inv: "trie_inv K V ((rb, re, x) # rest) b U T Q" and split: "\<not> (x \<noteq> 0 \<and> re - rb = 1)"
    and small: "num_of_units b + 256 \<le> 2 ^ 29"
  shows "\<exists>stack' b' U' T' Q'. split_node (rb, re, x) rest b = Some (stack', b') \<and> trie_inv K V stack' b' U' T' Q' \<and>
    num_of_units b' \<le> num_of_units b + 256 \<and> bkeys b' = step_keys rb re (bkeys b) \<and>
    stack_keys stack' = stack_keys ((rb, re, x) # rest)"
proof -
  have t: "tree_ok K T Q" and st: "stack_ok K b ((rb, re, x) # rest) T Q" and kv: "keys_inv K V (bkeys b)"
    using inv by (simp_all add: trie_inv_def)
  obtain p where x: "T x = Some (p, rb, re)" "Q x = None" "\<not> is_leaf (bunits b ! x)"
    using stack_entry [OF st, of "(rb, re, x)"] unfolding entry_ok_def prod.case by auto
  obtain gs u b2 where b2: "split_node (rb, re, x) rest b = split_rest x gs rest b2" "groups_ok (next_char K p) rb re gs"
      "bunits b2 = (bunits b)[x := u]" "is_leaf u = is_leaf (bunits b ! x)" "label u = label (bunits b ! x)"
      "bextras b2 = bextras b" "unfixed_index b2 = unfixed_index b" "bkeys b2 = step_keys rb re (bkeys b)"
    using split_node_rest [OF K inv split x(1)] by blast
  note len = entry_len [OF K t x(1) split]
  have nd: "node_ok K p rb re" by (rule tree_node [OF t x(1)])
  have ls: "map fst gs \<noteq> []" "\<forall>c \<in> set (map fst gs). c < 256"
    using group_key_in [OF b2(2), of rb] nd group_node [OF nd len b2(2)] by (auto simp: node_ok_def)
  obtain oi b3 where b3: "find_offset_index x (map fst gs) b2 = Some oi" "upd_unit x (set_offset (x XOR oi)) b2 = Some b3"
      "slots_ok b3 U T Q" "units_ok b3 T Q" "da_offset (bunits b3 ! x) = x XOR oi" "num_of_units b3 = num_of_units b"
      "bkeys b3 = step_keys rb re (bkeys b)" "\<forall>z. is_leaf (bunits b3 ! z) = is_leaf (bunits b ! z)"
      "live b3 oi \<and> unused b3 oi \<and> (\<forall>c \<in> set (map fst gs). oi XOR c \<in> U) \<or> oi = num_of_units b + x mod 256"
    using split_touch [OF inv x(1) b2(3-8) ls small] by blast
  have "\<not> is_leaf (bunits b3 ! x)" "num_of_units b3 + 256 \<le> 2 ^ 29"
      "live b3 oi \<and> unused b3 oi \<and> (\<forall>c \<in> set (map fst gs). oi XOR c \<in> U) \<or> oi = num_of_units b3 + x mod 256"
    using b3(6,8,9) x(3) small by simp_all
  from push_place [OF b3(3) t b3(4) x(1,2) this(1) b3(5) len b2(2) this(2,3), of rest]
  obtain b4 b5 U' where b5: "push_children oi (rev gs) rest b3 = Some (map (\<lambda>(c, x, y). (x, y, oi XOR c)) gs @ rest, b4)"
      "upd_extra oi set_is_used b4 = Some b5" "slots_ok b5 U' (add_nodes T p oi gs) (Q(x \<mapsto> oi))"
      "tree_ok K (add_nodes T p oi gs) (Q(x \<mapsto> oi))" "units_ok b5 (add_nodes T p oi gs) (Q(x \<mapsto> oi))"
      "bkeys b5 = bkeys b3" "num_of_units b5 \<le> num_of_units b3 + 256"
      "\<forall>z \<in> dom T. is_leaf (bunits b5 ! z) = is_leaf (bunits b3 ! z)"
      "\<forall>(c, u, v) \<in> set gs. T (oi XOR c) = None \<and> \<not> is_leaf (bunits b5 ! (oi XOR c))"
    by blast
  let ?stack = "map (\<lambda>(c, x, y). (x, y, oi XOR c)) gs @ rest"
  have keys: "bkeys b5 = step_keys rb re (bkeys b)" using b5(6) b3(7) by simp
  have "length (bkeys b) = length K" using kv by (simp add: keys_inv_def)
  moreover have "is_leaf (bunits b5 ! z) = is_leaf (bunits b ! z)" if "z \<in> dom T" for z using b5(8) b3(8) that by simp
  ultimately have "stack_ok K b5 ?stack (add_nodes T p oi gs) (Q(x \<mapsto> oi))"
    by (rule placed_stack [OF st t x(1) _ b2(2) b5(9) keys])
  then have "trie_inv K V ?stack b5 U' (add_nodes T p oi gs) (Q(x \<mapsto> oi))"
    using b5(3-5) keys keys_inv_step [OF kv] by (simp add: trie_inv_def)
  moreover have "split_node (rb, re, x) rest b = Some (?stack, b5)"
    using b2(1) b3(1,2) b5(1,2) by (simp add: split_rest_def)
  moreover have "stack_keys ?stack = stack_keys ((rb, re, x) # rest)"
  proof -
    have "stack_keys (map (\<lambda>(c, x, y). (x, y, oi XOR c)) gs) = group_keys gs" by (induction gs) auto
    moreover have "group_keys gs = [rb..<re]" using b2(2) by (simp only: groups_ok_def)
    ultimately show ?thesis by (simp only: map_append concat_append list.map concat.simps prod.case)
  qed
  moreover have "num_of_units b5 \<le> num_of_units b + 256" using b5(7) b3(6) by simp
  ultimately show ?thesis using keys by blast
qed

section \<open>The loop\<close>

text \<open>The characters that are still to be read; every round of the loop reads one of them at least.\<close>

definition work :: "bytes list \<Rightarrow> da_key list \<Rightarrow> da_range list \<Rightarrow> nat" where
  "work K ks stack = (\<Sum>i\<leftarrow>stack_keys stack. length (K ! i) + 2 - kpos (ks ! i))"

lemma work_cong:
  "(\<And>i. i \<in> set (stack_keys stack) \<Longrightarrow> ks' ! i = ks ! i) \<Longrightarrow> work K ks' stack = work K ks stack"
  unfolding work_def by (intro arg_cong [where f = sum_list] map_cong) simp_all

lemma work_Cons: "work K ks ((rb, re, x) # rest) = (\<Sum>i\<leftarrow>[rb..<re]. length (K ! i) + 2 - kpos (ks ! i)) + work K ks rest"
  by (simp add: work_def)

lemma work_entry:
  assumes inv: "trie_inv K V ((rb, re, x) # rest) b U T Q"
  shows "rb < re \<and> re \<le> length K \<and> (\<forall>i. rb \<le> i \<longrightarrow> i < re \<longrightarrow> kpos (bkeys b ! i) < length (K ! i) + 2) \<and>
    set [rb..<re] \<inter> set (stack_keys rest) = {}"
proof -
  have t: "tree_ok K T Q" and st: "stack_ok K b ((rb, re, x) # rest) T Q" using inv by (simp_all add: trie_inv_def)
  obtain p where x: "T x = Some (p, rb, re)" "\<forall>i. rb \<le> i \<longrightarrow> i < re \<longrightarrow> kpos (bkeys b ! i) = length p"
    using stack_entry [OF st, of "(rb, re, x)"] unfolding entry_ok_def prod.case by auto
  have nd: "node_ok K p rb re" by (rule tree_node [OF t x(1)])
  have "length p < length (K ! i) + 2" if "rb \<le> i" "i < re" for i
  proof -
    have "prefix p (tx K i)" using nd that by (simp add: node_ok_def)
    then show ?thesis using prefix_length_le by fastforce
  qed
  moreover have "distinct ([rb..<re] @ stack_keys rest)" using stack_distinct(2) [OF st] by simp
  ultimately show ?thesis using nd x(2) unfolding distinct_append by (simp add: node_ok_def)
qed

lemma work_leaf:
  assumes inv: "trie_inv K V ((rb, re, x) # rest) b U T Q" and ks: "\<forall>i. i \<noteq> rb \<longrightarrow> ks ! i = bkeys b ! i"
  shows "work K ks rest < work K (bkeys b) ((rb, re, x) # rest)"
proof -
  note e = work_entry [OF inv]
  have up: "[rb..<re] = rb # [Suc rb..<re]" using e by (simp add: upt_conv_Cons)
  have "rb \<in> set [rb..<re]" using e by simp
  then have "rb \<notin> set (stack_keys rest)" using e by blast
  then have "work K ks rest = work K (bkeys b) rest" using ks by (intro work_cong) metis
  moreover have "kpos (bkeys b ! rb) < length (K ! rb) + 2" using e by simp
  ultimately show ?thesis unfolding work_Cons up by simp
qed

lemma work_split:
  assumes inv: "trie_inv K V ((rb, re, x) # rest) b U T Q" and "keys_inv K V (bkeys b)"
    and stack': "stack_keys stack' = stack_keys ((rb, re, x) # rest)"
  shows "work K (step_keys rb re (bkeys b)) stack' < work K (bkeys b) ((rb, re, x) # rest)"
proof -
  let ?ks = "step_keys rb re (bkeys b)"
  note e = work_entry [OF inv]
  have lb: "length (bkeys b) = length K" using assms(2) by (simp add: keys_inv_def)
  have "i < length K" if i: "i \<in> set (stack_keys rest)" for i
  proof -
    obtain rb' re' z where z: "(rb', re', z) \<in> set rest" "i < re'" using i by auto
    have st: "stack_ok K b ((rb, re, x) # rest) T Q" and t: "tree_ok K T Q" using inv by (simp_all add: trie_inv_def)
    obtain q where "T z = Some (q, rb', re')"
      using stack_entry [OF st, of "(rb', re', z)"] z(1) unfolding entry_ok_def prod.case by auto
    then show ?thesis using tree_node [OF t] z(2) by (fastforce simp: node_ok_def)
  qed
  then have "?ks ! i = bkeys b ! i" if i: "i \<in> set (stack_keys rest)" for i
  proof -
    have "i \<notin> set [rb..<re]" using e i by blast
    then have "\<not> (rb \<le> i \<and> i < re)" by simp
    then show ?thesis using \<open>\<And>i. i \<in> set (stack_keys rest) \<Longrightarrow> i < length K\<close> [OF i] lb by (simp add: step_keys_nth)
  qed
  then have "work K ?ks rest = work K (bkeys b) rest" by (rule work_cong)
  moreover have "(\<Sum>i\<leftarrow>[rb..<re]. length (K ! i) + 2 - kpos (?ks ! i)) < (\<Sum>i\<leftarrow>[rb..<re]. length (K ! i) + 2 - kpos (bkeys b ! i))"
    using e lb by (intro sum_list_strict_mono) (auto simp: step_keys_nth intro!: diff_less_mono2)
  moreover have "work K ?ks stack' = work K ?ks ((rb, re, x) # rest)" unfolding work_def stack' ..
  ultimately show ?thesis unfolding work_Cons by simp
qed

lemma build_loop_ok:
  assumes K: "keys_ok K"
  shows "trie_inv K V stack b U T Q \<Longrightarrow> num_of_units b + 256 * work K (bkeys b) stack \<le> 2 ^ 29 \<Longrightarrow>
    \<exists>b' U' T' Q'. build_loop stack b = Some b' \<and> trie_inv K V [] b' U' T' Q' \<and>
      num_of_units b' \<le> num_of_units b + 256 * work K (bkeys b) stack"
proof (induction "work K (bkeys b) stack" arbitrary: stack b U T Q rule: less_induct)
  case (less stack b U T Q)
  show ?case
  proof (cases stack)
    case Nil
    then show ?thesis using less.prems by (subst build_loop.simps) auto
  next
    case (Cons r rest)
    obtain rb re x where r: "stack = (rb, re, x) # rest" using Cons by (cases r) auto
    note inv = less.prems(1) [unfolded r] and big = less.prems(2) [unfolded r]
    show ?thesis
    proof (cases "x \<noteq> 0 \<and> re - rb = 1")
      case True
      obtain b1 where b1: "mark_leaf rb x b = Some b1" "trie_inv K V rest b1 U T Q" "num_of_units b1 = num_of_units b"
          "\<forall>i. i \<noteq> rb \<longrightarrow> bkeys b1 ! i = bkeys b ! i"
        using mark_leaf_ok [OF inv] True by blast
      have w: "work K (bkeys b1) rest < work K (bkeys b) stack" unfolding r by (rule work_leaf [OF inv b1(4)])
      then have "num_of_units b1 + 256 * work K (bkeys b1) rest \<le> 2 ^ 29" using less.prems(2) b1(3) by linarith
      from less.hyps [OF w b1(2) this] obtain b' U' T' Q' where b': "build_loop rest b1 = Some b'"
          "trie_inv K V [] b' U' T' Q'" "num_of_units b' \<le> num_of_units b1 + 256 * work K (bkeys b1) rest" by blast
      have "build_loop stack b = Some b'" using True b1(1) b'(1) unfolding r by (subst build_loop.simps) simp
      moreover have "num_of_units b' \<le> num_of_units b + 256 * work K (bkeys b) stack" using b'(3) b1(3) w by linarith
      ultimately show ?thesis using b'(2) by blast
    next
      case False
      have kv: "keys_inv K V (bkeys b)" using inv by (simp add: trie_inv_def)
      have pos: "0 < work K (bkeys b) stack" unfolding r by (rule order_le_less_trans [OF _ work_split [OF inv kv refl]]) simp
      then have "num_of_units b + 256 \<le> 2 ^ 29" using less.prems(2) by linarith
      from split_node_ok [OF K inv False this]
      obtain stack' b1 U1 T1 Q1 where b1: "split_node (rb, re, x) rest b = Some (stack', b1)" "trie_inv K V stack' b1 U1 T1 Q1"
          "num_of_units b1 \<le> num_of_units b + 256" "bkeys b1 = step_keys rb re (bkeys b)"
          "stack_keys stack' = stack_keys ((rb, re, x) # rest)" by blast
      have w: "work K (bkeys b1) stack' < work K (bkeys b) stack" unfolding r b1(4) by (rule work_split [OF inv kv b1(5)])
      then have sum: "num_of_units b1 + 256 * work K (bkeys b1) stack' \<le> num_of_units b + 256 * work K (bkeys b) stack"
        using b1(3) by linarith
      then have "num_of_units b1 + 256 * work K (bkeys b1) stack' \<le> 2 ^ 29" using less.prems(2) by linarith
      from less.hyps [OF w b1(2) this] obtain b' U' T' Q' where b': "build_loop stack' b1 = Some b'"
          "trie_inv K V [] b' U' T' Q'" "num_of_units b' \<le> num_of_units b1 + 256 * work K (bkeys b1) stack'" by blast
      have "build_loop stack b = Some b'"
        unfolding r by (subst build_loop.simps) (simp only: list.case prod.case False if_False b1(1) bind.bind_lunit fst_conv snd_conv b'(1))
      moreover have "num_of_units b' \<le> num_of_units b + 256 * work K (bkeys b) stack" using b'(3) sum by linarith
      ultimately show ?thesis using b'(2) by blast
    qed
  qed
qed

end
