(* ===== verification/DartsSearch.thy ===== *)
theory DartsSearch
  imports DartsLoop
begin

text \<open>
  From sorted keys to answers: \<open>build_trie\<close> of \<open>darts-clone.h\<close> makes the trie, \<open>arrange_suffixes\<close> the
  tail, and \<open>exactMatchSearch\<close> on the array that comes out finds the value of each key and nothing else.
\<close>

unbundle bit_operations_syntax

section \<open>The whole trie\<close>

definition leaf_of :: "da_builder \<Rightarrow> nat \<Rightarrow> nat" where
  "leaf_of b i = kindex (bkeys b ! i)"

text \<open>The state after the loop, once every block was closed.\<close>

definition trie_done :: "bytes list \<Rightarrow> 32 word list \<Rightarrow> da_builder \<Rightarrow> da_nodes \<Rightarrow> (nat \<Rightarrow> nat option) \<Rightarrow> bool" where
  "trie_done K V b T Q \<longleftrightarrow> trie_inv K V [] b {} T Q \<and> da_offset (bunits b ! 1) = num_of_units b"

lemma reserve_first:
  "\<exists>b. reserve_index 0 (new_builder ks) = Some b \<and> free_ok b {1..<256} \<and> bkeys b = ks \<and> bunits b = replicate 256 0 \<and>
    (\<forall>i < 256. unused b i)"
proof -
  let ?b0 = "new_builder ks"
  have n0: "num_of_units ?b0 = 0" "num_of_blocks ?b0 = 0" by (simp_all add: new_builder_def num_of_units_def num_of_blocks_def)
  have ok: "free_ok ?b0 {}" unfolding free_ok_def shape_ok_def n0 start_ok_def
    by (auto simp: new_builder_def extras_def)
  have ex: "can_expand ?b0 {}" by (simp add: can_expand_def n0)
  obtain b' r vs where b': "expand_trie ?b0 = Some b'" "free_ok b' {0..<256}" "bkeys b' = ks"
      "bunits b' = vs @ replicate 256 0" "relabel {} (old_end ?b0) r (bunits ?b0) vs" "\<forall>i. live b' i \<longrightarrow> unused b' i"
    using expand_trie_ok [OF ok ex] n0 by (auto simp: new_builder_def)
  have vs: "vs = []" using b'(5) by (simp add: relabel_def new_builder_def)
  obtain b1 where b1: "take_index 0 b' = Some b1" "free_ok b1 ({0..<256} - {0})" "bunits b1 = bunits b'" "keeps b' b1"
    using take_index_ok [OF b'(2), of 0] by auto
  have "{0..<256} - {0} = {1..<256 :: nat}" by auto
  moreover have "unused b1 i" if "i < 256" for i
    using b'(6) ring_live [OF b'(2), of i] that unused_keeps [OF b1(4)] by simp
  moreover have "reserve_index 0 ?b0 = Some b1" using b'(1) b1(1) n0 by (simp add: reserve_index_def)
  moreover have "bkeys b1 = ks" using b1(4) b'(3) by (simp add: keeps_def)
  ultimately show ?thesis using b1(2,3) b'(4) vs by auto
qed

lemma trie_start:
  assumes "ks = map2 (\<lambda>t v. \<lparr>ktext = t, kpos = 0, kindex = 0, kvalue = v\<rparr>) K V" and "length V = length K" and "K \<noteq> []"
  shows "\<exists>b. (do { b1 \<leftarrow> reserve_index 0 (new_builder ks); b2 \<leftarrow> reserve_index 1 b1; b3 \<leftarrow> upd_extra 0 set_is_used b2;
       b4 \<leftarrow> upd_unit 0 (set_offset 1) b3; b5 \<leftarrow> upd_unit 0 (\<lambda>u. Some (set_label 0 u)) b4;
       upd_unit 1 (\<lambda>u. Some (set_label 1 u)) b5 }) = Some b \<and> bkeys b = ks \<and> num_of_units b = 256 \<and>
    trie_inv K V [(0, length K, 0)] b {2..<256} [0 \<mapsto> ([], 0, length K)] Map.empty"
proof -
  obtain b1 where b1: "reserve_index 0 (new_builder ks) = Some b1" "free_ok b1 {1..<256}" "bkeys b1 = ks"
      "bunits b1 = replicate 256 0" "\<forall>i < 256. unused b1 i" using reserve_first by blast
  have n1: "num_of_units b1 = 256" using b1(4) by (simp add: num_of_units_def)
  obtain b2 where b2: "take_index 1 b1 = Some b2" "free_ok b2 ({1..<256} - {1})" "bunits b2 = bunits b1" "keeps b1 b2"
    using take_index_ok [OF b1(2), of 1] by auto
  have U: "{1..<256} - {1} = {2..<256 :: nat}" by auto
  have r1: "reserve_index 1 b1 = Some b2" using n1 b2(1) by (simp add: reserve_index_def)
  have sh: "shape_ok b2" using b2(2) by (simp add: free_ok_def)
  have n2: "num_of_units b2 = 256" using b2(3) n1 by (simp add: num_of_units_def)
  have lv: "live b2 i \<longleftrightarrow> i < 256" for i using n2 by (auto simp: live_def)
  obtain b3 where b3: "upd_extra 0 set_is_used b2 = Some b3" "free_ok b3 {2..<256}" "bunits b3 = bunits b2" "bkeys b3 = bkeys b2"
      "\<forall>j. live b2 j \<longrightarrow> (unused b3 j \<longleftrightarrow> unused b2 j \<and> j \<noteq> 0)"
    using mark_used_ok [OF b2(2), of 0] lv unfolding U by auto
  have us3: "bunits b3 = replicate 256 0" using b3(3) b2(3) b1(4) by simp
  obtain w where w: "set_offset 1 0 = Some w" using set_offset_Some [of 1 0] by auto
  obtain b4 where b4: "upd_unit 0 (set_offset 1) b3 = Some b4" "bunits b4 = (bunits b3)[0 := w]" "bkeys b4 = bkeys b3"
      "bextras b4 = bextras b3" "\<forall>U. free_ok b4 U \<longleftrightarrow> free_ok b3 U"
    using upd_unit_ok [of 0 b3 "set_offset 1" w] us3 w by (auto simp: num_of_units_def)
  obtain b5 where b5: "upd_unit 0 (\<lambda>u. Some (set_label 0 u)) b4 = Some b5" "bunits b5 = (bunits b4)[0 := set_label 0 w]"
      "bkeys b5 = bkeys b4" "bextras b5 = bextras b4" "\<forall>U. free_ok b5 U \<longleftrightarrow> free_ok b4 U"
    using upd_unit_ok [of 0 b4 "\<lambda>u. Some (set_label 0 u)"] us3 b4(2) by (auto simp: num_of_units_def)
  obtain b6 where b6: "upd_unit 1 (\<lambda>u. Some (set_label 1 u)) b5 = Some b6" "bunits b6 = (bunits b5)[1 := set_label 1 0]"
      "bkeys b6 = bkeys b5" "bextras b6 = bextras b5" "\<forall>U. free_ok b6 U \<longleftrightarrow> free_ok b5 U"
    using upd_unit_ok [of 1 b5 "\<lambda>u. Some (set_label 1 u)"] us3 b4(2) b5(2) by (auto simp: num_of_units_def)
  have us: "bunits b6 = (replicate 256 0)[0 := set_label 0 w, 1 := set_label 1 0]" using b6(2) b5(2) b4(2) us3 by simp
  have n6: "num_of_units b6 = 256" using us by (simp add: num_of_units_def)
  have free: "free_ok b6 {2..<256}" using b6(5) b5(5) b4(5) b3(2) by simp
  have ex: "extras b6 = extras b3" using b6(4) b5(4) b4(4) by (simp add: extras_def fun_eq_iff)
  have keys: "bkeys b6 = ks" using b6(3) b5(3) b4(3) b3(4) b2(4) b1(3) by (simp add: keeps_def)
  have lw: "\<not> is_leaf w" using w by (simp add: unit_simps)
  have u0: "bunits b6 ! 0 = set_label 0 w" "bunits b6 ! 1 = set_label 1 0" using us by simp_all
  have un: "bunits b6 ! j = 0" if "2 \<le> j" "j < 256" for j using us that by simp
  have nl: "\<not> is_leaf (bunits b6 ! j)" if "j < 256" for j
  proof -
    consider "j = 0" | "j = 1" | "2 \<le> j" by linarith
    then show ?thesis using u0 un [of j] lw that by cases (simp_all add: unit_simps)
  qed
  let ?T = "[0 \<mapsto> ([], 0, length K)] :: da_nodes" and ?Q = "Map.empty :: nat \<Rightarrow> nat option"
  have "slots_ok b6 {2..<256} ?T ?Q"
  proof (rule slots_okI [OF free])
    show "unused b6 x \<longleftrightarrow> x \<noteq> 0 \<and> x \<notin> ran ?Q" if "live b6 x" for x
    proof -
      have "x < 256" using that n6 by (simp add: live_def)
      then have "unused b3 x \<longleftrightarrow> x \<noteq> 0" using b3(5) lv b1(5) unused_keeps [OF b2(4)] by simp
      then show ?thesis by (simp add: unused_def ex)
    qed
  qed (use n6 nl in auto)
  moreover have "tree_ok K ?T ?Q"
    using assms(3) by (intro tree_okI) (auto simp: node_ok_def split: if_splits)
  moreover have "units_ok b6 ?T ?Q"
    unfolding units_ok_def n6 using u0 lw nl by (simp add: unit_simps)
  moreover have "keys_inv K V (bkeys b6)" using assms(1,2) keys by (simp add: keys_inv_def)
  moreover from this have "stack_ok K b6 [(0, length K, 0)] ?T ?Q"
    using nl [of 0] keys assms(1,2) by (simp add: stack_ok_def entry_ok_def split: if_splits)
  ultimately have "trie_inv K V [(0, length K, 0)] b6 {2..<256} ?T ?Q" by (simp add: trie_inv_def)
  then show ?thesis using b1(1) r1 b3(1) b4(1) b5(1) b6(1) keys n6 by (intro exI [of _ b6]) simp
qed

definition total_work :: "bytes list \<Rightarrow> nat" where
  "total_work K = (\<Sum>t\<leftarrow>K. length t + 2)"

lemma work_start:
  assumes "keys_inv K V ks" and "\<forall>k \<in> set ks. kpos k = 0"
  shows "work K ks [(0, length K, x)] = total_work K"
proof -
  have "length (K ! i) + 2 - kpos (ks ! i) = length (K ! i) + 2" if "i < length K" for i
    using assms that by (simp add: keys_inv_def)
  then have "work K ks [(0, length K, x)] = (\<Sum>i\<leftarrow>[0..<length K]. length (K ! i) + 2)"
    unfolding work_def by (intro arg_cong [where f = sum_list] map_cong) simp_all
  also have "(\<Sum>i\<leftarrow>[0..<length K]. length (K ! i) + 2) = total_work K"
    unfolding total_work_def by (metis (mono_tags, lifting) comp_apply map_nth map_map map_eq_conv)
  finally show ?thesis .
qed

text \<open>Unit 1 belongs to no node; its offset is free for the place of the tail.\<close>

lemma touch_one:
  assumes inv: "trie_inv K V [] b {} T Q" and b': "bunits b' = (bunits b)[1 := u]" "bextras b' = bextras b" "bkeys b' = bkeys b"
      "unfixed_index b' = unfixed_index b" and u: "is_leaf u = is_leaf (bunits b ! 1)" "label u = label (bunits b ! 1)"
  shows "trie_inv K V [] b' {} T Q"
proof -
  have s: "slots_ok b {} T Q" and t: "tree_ok K T Q" and un: "units_ok b T Q" and st: "stack_ok K b [] T Q"
    using inv by (simp_all add: trie_inv_def)
  have n: "num_of_units b' = num_of_units b" using b'(1) by (simp add: num_of_units_def)
  have ex: "extras b' = extras b" using b'(2) by (simp add: extras_def fun_eq_iff)
  have n1: "1 < length (bunits b)" using slots_dom(6) [OF s] by (simp add: num_of_units_def)
  have same: "is_leaf (bunits b' ! z) = is_leaf (bunits b ! z)" "label (bunits b' ! z) = label (bunits b ! z)" for z
    using n1 u b'(1) by (cases "z = 1"; simp)+
  have off: "bunits b' ! z = bunits b ! z" if "z \<in> dom T" for z
    using that slots_dom(5) [OF s] b'(1) by (cases "z = 1") auto
  have live: "live b' z \<longleftrightarrow> live b z" "unused b' z \<longleftrightarrow> unused b z" for z using n ex by (simp_all add: live_def unused_def)
  have free: "free_ok b' {}" using free_ok_cong [of b' b "{}"] b' slots_free [OF s] by simp
  have dead: "dead b' {} Q z = dead b {} Q z" for z by (simp add: dead_def same)
  have "slots_ok b' {} T Q"
    using slots_dom [OF s] slots_used [OF s] slots_fixed [OF s] free
    by (intro slots_okI) (simp_all add: n live dead subset_iff, blast+)
  moreover have "units_ok b' T Q"
    unfolding units_ok_def n same b'(3)
  proof (intro conjI allI impI)
    show "label (bunits b ! 0) = 0" "\<not> is_leaf (bunits b ! 0)" "label (bunits b ! 1) = 1" "\<not> is_leaf (bunits b ! 1)"
      by (rule units_01 [OF un])+
    fix z oi assume z: "Q z = Some oi"
    then have "z \<in> dom T" using tree_dom(1) [OF t] by auto
    then show "oi < num_of_units b" "\<not> is_leaf (bunits b ! z)" "da_offset (bunits b' ! z) = z XOR oi"
      using units_off [OF un z] off by simp_all
  qed (rule units_label [OF un] units_leaf [OF un], assumption+)+
  moreover have "stack_ok K b' [] T Q" using st unfolding stack_ok_def entry_ok_def same by simp
  ultimately show ?thesis using inv b'(3) by (simp add: trie_inv_def)
qed

lemma build_trie_ok:
  assumes K: "keys_ok K" "K \<noteq> []" and V: "length V = length K" and small: "256 + 256 * total_work K < 2 ^ 29"
    and ks: "ks = map2 (\<lambda>t v. \<lparr>ktext = t, kpos = 0, kindex = 0, kvalue = v\<rparr>) K V"
  shows "\<exists>b T Q. build_trie (new_builder ks) = Some b \<and> trie_done K V b T Q \<and> num_of_units b < 2 ^ 29"
proof -
  obtain b0 where b0: "(do { b1 \<leftarrow> reserve_index 0 (new_builder ks); b2 \<leftarrow> reserve_index 1 b1; b3 \<leftarrow> upd_extra 0 set_is_used b2;
       b4 \<leftarrow> upd_unit 0 (set_offset 1) b3; b5 \<leftarrow> upd_unit 0 (\<lambda>u. Some (set_label 0 u)) b4;
       upd_unit 1 (\<lambda>u. Some (set_label 1 u)) b5 }) = Some b0" "bkeys b0 = ks" "num_of_units b0 = 256"
    "trie_inv K V [(0, length K, 0)] b0 {2..<256} [0 \<mapsto> ([], 0, length K)] Map.empty"
    using trie_start [OF ks V K(2)] by blast
  have kv: "keys_inv K V (bkeys b0)" using b0(4) by (simp add: trie_inv_def)
  have w: "work K (bkeys b0) [(0, length K, 0)] = total_work K"
    by (rule work_start [OF kv]) (auto simp: b0(2) ks dest: set_zip_leftD)
  then have "num_of_units b0 + 256 * work K (bkeys b0) [(0, length K, 0)] \<le> 2 ^ 29" using b0(3) small by simp
  from build_loop_ok [OF K(1) b0(4) this] obtain b1 U T Q where b1: "build_loop [(0, length K, 0)] b0 = Some b1"
      "trie_inv K V [] b1 U T Q" "num_of_units b1 \<le> num_of_units b0 + 256 * work K (bkeys b0) [(0, length K, 0)]" by blast
  have parts: "slots_ok b1 U T Q" "tree_ok K T Q" "units_ok b1 T Q" "stack_ok K b1 [] T Q" "keys_inv K V (bkeys b1)"
    using b1(2) by (simp_all add: trie_inv_def)
  obtain b2 where b2: "fix_all_blocks b1 = Some b2" "slots_ok b2 {} T Q" "units_ok b2 T Q" "bkeys b2 = bkeys b1"
      "num_of_units b2 = num_of_units b1" "same_leaves b1 b2"
    using fix_all_blocks_slots [OF parts(1-3)] by blast
  have n: "num_of_units b2 mod 256 = 0" "1 < num_of_units b2" using slots_free [OF b2(2)] slots_dom(6) [OF b2(2)]
    by (simp_all add: free_ok_def shape_ok_def)
  have st1: "stack_ok K b1 [] T Q" by (rule parts(4))
  have leaf: "is_leaf (bunits b2 ! x) = is_leaf (bunits b1 ! x)" if "x \<in> dom T" for x
    using b2(6) slots_dom(1) [OF parts(1) that] by (simp add: same_leaves_def)
  have "stack_ok K b2 [] T Q"
    unfolding stack_ok_def
  proof (intro conjI allI impI ballI)
    fix x p rb re assume x: "T x = Some (p, rb, re)"
    then have "x \<in> dom T" by blast
    then show "Q x \<noteq> None \<or> (rb, re, x) \<in> set [] \<or> is_leaf (bunits b2 ! x)" using stack_node [OF st1 x] leaf by simp
  next
    fix i assume "i < length K"
    then obtain x p where x: "T x = Some (p, i, Suc i)" "is_leaf (bunits b1 ! x)" using stack_cover [OF st1, of i] by auto
    then have "x \<in> dom T" by blast
    then show "i \<in> set (stack_keys []) \<or> (\<exists>x p. T x = Some (p, i, Suc i) \<and> is_leaf (bunits b2 ! x))" using x leaf by auto
  qed simp_all
  then have inv2: "trie_inv K V [] b2 {} T Q" using b2(2-4) parts(2,5) by (simp add: trie_inv_def)
  have small2: "num_of_units b2 < 2 ^ 29"
  proof -
    have "num_of_units b2 \<le> 256 + 256 * total_work K" using b1(3) b2(5) b0(3) w by simp
    then show ?thesis using small by (rule order_le_less_trans)
  qed
  obtain w1 where w1: "set_offset (num_of_units b2) (bunits b2 ! 1) = Some w1" using set_offset_Some [OF small2] by blast
  obtain b3 where b3: "upd_unit 1 (set_offset (num_of_units b2)) b2 = Some b3" "bunits b3 = (bunits b2)[1 := w1]"
      "bextras b3 = bextras b2" "bkeys b3 = bkeys b2" "unfixed_index b3 = unfixed_index b2"
    using upd_unit_ok [of 1 b2 "set_offset (num_of_units b2)" w1] w1 n(2) by auto
  have n3: "num_of_units b3 = num_of_units b2" using b3(2) by (simp add: num_of_units_def)
  have "trie_inv K V [] b3 {} T Q"
    by (rule touch_one [OF inv2 b3(2-5)]) (use w1 in \<open>simp_all add: unit_simps\<close>)
  moreover have "da_offset (bunits b3 ! 1) = num_of_units b3"
    using b3(2) n n3 da_offset_set_offset [OF w1] by (simp add: num_of_units_def)
  moreover have "build_trie (new_builder ks) = Some b3"
  proof -
    have ne: "bkeys b0 \<noteq> []" "length (bkeys b0) = length K" using K(2) V by (auto simp: b0(2) ks)
    have "build_trie (new_builder ks) = Option.bind (Some b0)
        (\<lambda>b6. do { b7 \<leftarrow> (if bkeys b6 \<noteq> [] then build_loop [(0, length (bkeys b6), 0)] b6 else Some b6); b8 \<leftarrow> fix_all_blocks b7;
          upd_unit 1 (set_offset (num_of_units b8)) b8 })"
      unfolding b0(1) [symmetric] build_trie_def by (simp only: Option.bind_assoc)
    then show ?thesis using ne b1(1) b2(1) b3(1) by simp
  qed
  ultimately show ?thesis using small2 n3 by (auto simp: trie_done_def)
qed

section \<open>Walking down the trie\<close>

text \<open>The array once the leaves have their links: inner nodes are as the builder left them.\<close>

definition trie_in :: "da_builder \<Rightarrow> da_unit list \<Rightarrow> bool" where
  "trie_in b us \<longleftrightarrow> num_of_units b \<le> length us \<and>
     (\<forall>x < num_of_units b. is_leaf (us ! x) = is_leaf (bunits b ! x) \<and> (\<not> is_leaf (bunits b ! x) \<longrightarrow> us ! x = bunits b ! x))"

lemma inner_nul_free:
  assumes K: "keys_ok K" and t: "tree_ok K T Q" and x: "T x = Some (p, rb, re)" "Q x = Some oi"
  shows "nul_free p"
proof -
  have nd: "rb < re" "re \<le> length K" "\<forall>i < length K. prefix p (tx K i) \<longleftrightarrow> rb \<le> i \<and> i < re"
    using tree_node [OF t x(1)] by (simp_all add: node_ok_def)
  then have "prefix p (tx K rb)" by simp
  moreover have "length p \<le> length (K ! rb)" using tree_child [OF t x(2,1), of rb] nd by simp
  ultimately have "prefix p (K ! rb)" by (auto simp: prefix_take)
  moreover have "nul_free (K ! rb)" using K nd by (simp add: keys_ok_def)
  ultimately show ?thesis by (auto simp: nul_free_def dest: set_mono_prefix)
qed

lemma key_child:
  assumes t: "tree_ok K T Q" and x: "T x = Some (p, rb, re)" "Q x = Some oi" and k: "k < length K" "tx K k = p @ c # s"
  shows "\<exists>r. T (oi XOR uchar c) = Some (p @ [c], r)"
proof -
  have "prefix p (tx K k)" using k(2) by simp
  then have "rb \<le> k \<and> k < re" using tree_node [OF t x(1)] k(1) by (simp add: node_ok_def)
  moreover have "tx K k ! length p = c" using k(2) by simp
  ultimately show ?thesis using tree_child [OF t x(2,1), of k] by (simp add: next_char_def)
qed

lemma child_path:
  assumes t: "tree_ok K T Q" and x: "T x = Some (p, rb, re)" "Q x = Some oi"
    and j: "T (oi XOR uchar c) = Some (p', r)" "oi XOR uchar c \<noteq> 0" "last p' = c"
  shows "p' = p @ [c]"
proof -
  obtain p1 r1 where r: "r = (p1, r1)" by (cases r)
  obtain m oi' q c' r' where m: "T m = Some (q, r')" "Q m = Some oi'" "p' = q @ [c']" "oi XOR uchar c = oi' XOR uchar c'"
    using tree_owner [OF t j(1) [unfolded r] j(2)] by blast
  have c: "c' = c" using m(3) j(3) by simp
  have "oi' = oi"
  proof -
    have "oi XOR uchar c = oi' XOR uchar c" using m(4) c by simp
    then have "uchar c XOR oi' = uchar c XOR oi" by (simp only: xor.commute)
    then show ?thesis by (simp add: xor_inject)
  qed
  then have "m = x" using m(2) x(2) inj_onD [OF tree_dom(2) [OF t], of m x] by auto
  then show ?thesis using m(1,3) x(1) c by simp
qed

text \<open>A slot whose label fits belongs to the child.\<close>

lemma label_child:
  assumes inv: "trie_inv K V [] b {} T Q" and x: "T x = Some (p, rb, re)" "Q x = Some oi"
    and j: "oi XOR uchar c < num_of_units b" "\<not> is_leaf (bunits b ! (oi XOR uchar c))" "label (bunits b ! (oi XOR uchar c)) = uchar c"
  shows "\<exists>r. T (oi XOR uchar c) = Some (p @ [c], r) \<and> oi XOR uchar c \<noteq> 0"
proof -
  let ?j = "oi XOR uchar c"
  have s: "slots_ok b {} T Q" and t: "tree_ok K T Q" and un: "units_ok b T Q" using inv by (simp_all add: trie_inv_def)
  have oi: "oi \<noteq> 0" "oi \<in> ran Q" using x(2) tree_dom(3) [OF t] by (auto intro: ranI)
  have undo: "oi = ?j XOR uchar c" by (simp add: xor.assoc)
  have "?j \<noteq> 0"
  proof
    assume z: "?j = 0"
    then have "uchar c = 0" using j(3) units_01(1) [OF un] by simp
    then show False using z oi(1) by simp
  qed
  moreover have "?j \<noteq> 1"
  proof
    assume z: "?j = 1"
    then have "uchar c = 1" using j(3) units_01(3) [OF un] by simp
    then show False using undo oi(1) unfolding z by simp
  qed
  moreover have "\<not> dead b {} Q ?j"
  proof
    assume "dead b {} Q ?j"
    then obtain y where y: "y div 256 = ?j div 256" "y \<notin> ran Q" "uchar c = (?j XOR y) mod 256"
      using j(3) by (auto simp: dead_def)
    have d: "n div 256 = drop_bit 8 n" for n :: nat by (simp add: drop_bit_eq_div)
    have "(?j XOR y) div 256 = 0" using y(1) unfolding d drop_bit_xor by simp
    then have "uchar c = ?j XOR y" using y(3) by simp
    then have "y = oi" using undo by (metis xor_cancel)
    then show False using y(2) oi(2) by simp
  qed
  ultimately have "?j \<in> dom T" using slots_fixed [OF s j(1)] by simp
  then obtain p' r where p': "T ?j = Some (p', r)" by auto
  then have "last p' = c" using units_label [OF un p' \<open>?j \<noteq> 0\<close> j(2)] j(3) by (simp add: uchar_eq_iff)
  then show ?thesis using child_path [OF t x p' \<open>?j \<noteq> 0\<close>] p' \<open>?j \<noteq> 0\<close> by simp
qed

definition leaf_hit :: "bytes list \<Rightarrow> da_builder \<Rightarrow> da_unit list \<Rightarrow> bytes \<Rightarrow> (da_unit \<times> bytes) option option \<Rightarrow> bool" where
  "leaf_hit K b us q res \<longleftrightarrow>
     (\<exists>i w. i < length K \<and> res = Some (Some (us ! leaf_of b i, w @ [NUL])) \<and> nul_free w \<and> (q \<in> set K \<longrightarrow> q = K ! i) \<and>
        (w = drop (kpos (bkeys b ! i)) (K ! i) \<longleftrightarrow> q = K ! i)) \<or>
     res = Some None \<and> q \<notin> set K"

lemma at_leaf:
  assumes K: "keys_ok K" and inv: "trie_inv K V [] b {} T Q" and x: "T x = Some (p, rb, re)" "Q x = Some oi"
    and q: "nul_free q" "p @ c # s = q @ [NUL]" and j: "oi XOR uchar c < num_of_units b" "is_leaf (bunits b ! (oi XOR uchar c))"
  shows "leaf_hit K b us q (Some (Some (us ! (oi XOR uchar c), c # s)))"
proof -
  let ?j = "oi XOR uchar c"
  have t: "tree_ok K T Q" and un: "units_ok b T Q" using inv by (simp_all add: trie_inv_def)
  obtain p' i where i: "T ?j = Some (p', i, Suc i)" "kindex (bkeys b ! i) = ?j" "Suc (kpos (bkeys b ! i)) = length p'"
    using units_leaf [OF un j] by blast
  have nd: "node_ok K p' i (Suc i)" by (rule tree_node [OF t i(1)])
  then have iK: "i < length K" "prefix p' (tx K i)" by (simp_all add: node_ok_def)
  define w where "w = butlast (c # s)"
  have w: "c # s = w @ [NUL]" "q = p @ w"
  proof -
    have "last (c # s) = NUL" using q(2) by (metis last_appendR last_snoc list.distinct(1))
    then show "c # s = w @ [NUL]" unfolding w_def by (metis append_butlast_last_id list.distinct(1))
    then show "q = p @ w" using q(2) by simp
  qed
  have nw: "nul_free w" using q(1) w(2) by (simp add: nul_free_def)
  obtain p0 c' where p': "p' = p0 @ [c']" using i(3) by (cases p' rule: rev_cases) auto
  then have pos: "kpos (bkeys b ! i) = length p0" using i(3) by simp
  obtain r where r: "tx K i = p0 @ c' # r" using iK(2) p' by (auto simp: prefix_def)
  have len0: "length p0 \<le> length (K ! i)" using arg_cong [OF r, of length] by simp
  have split: "K ! i = p0 @ drop (length p0) (K ! i)"
  proof -
    have "take (length p0) (tx K i) = p0" using r by simp
    then show ?thesis using len0 by (metis append_take_drop_id take_append diff_is_0_eq take_0 append_Nil2)
  qed
  have tail: "drop (length p0) (K ! i) @ [NUL] = c' # r" using r split len0 by (metis append_assoc same_append_eq)
  have hit: "(w = drop (length p0) (K ! i) \<longleftrightarrow> q = K ! i) \<and> (q \<in> set K \<longrightarrow> q = K ! i)"
  proof (cases "p' = p @ [c]")
    case True
    then have e: "p0 = p" "c' = c" using p' by simp_all
    have "q = K ! i" if qK: "q \<in> set K"
    proof -
      obtain k where k: "k < length K" "q = K ! k" using qK by (metis in_set_conv_nth)
      then have "tx K k = p' @ s" using q(2) True by simp
      then have "prefix p' (tx K k)" by simp
      then have "k = i" using nd k(1) by (simp add: node_ok_def)
      then show ?thesis using k(2) by simp
    qed
    moreover have "w = drop (length p0) (K ! i) \<longleftrightarrow> q = K ! i"
      using split w(2) unfolding e by (metis same_append_eq)
    ultimately show ?thesis by blast
  next
    case False
    have nin: "q \<notin> set K"
    proof
      assume "q \<in> set K"
      then obtain k where k: "k < length K" "q = K ! k" by (metis in_set_conv_nth)
      then have "tx K k = p @ c # s" using q(2) by simp
      then show False using key_child [OF t x k(1)] i(1) False by auto
    qed
    have "w \<noteq> drop (length p0) (K ! i)"
    proof
      assume "w = drop (length p0) (K ! i)"
      then have "c = c'" using tail w(1) by simp
      moreover have "?j \<noteq> 0"
      proof
        assume "?j = 0"
        then have "p' = []" using i(1) tree_root [OF t] by simp
        then show False using p' by simp
      qed
      ultimately show False using child_path [OF t x i(1)] p' False by simp
    qed
    then show ?thesis using nin iK(1) by auto
  qed
  have "us ! ?j = us ! leaf_of b i" using i(2) by (simp add: leaf_of_def)
  then have "Some (Some (us ! ?j, c # s)) = Some (Some (us ! leaf_of b i, w @ [NUL]))" using w(1) by simp
  then show ?thesis unfolding leaf_hit_def
    by (intro disjI1 exI [of _ i] exI [of _ w] conjI) (use iK(1) nw hit pos in simp_all)
qed

lemma search_leaf_ok:
  assumes K: "keys_ok K" and inv: "trie_inv K V [] b {} T Q" and us: "trie_in b us" and q: "nul_free q"
  shows "T x = Some (p, rb, re) \<Longrightarrow> Q x = Some oi \<Longrightarrow> p @ s = q @ [NUL] \<Longrightarrow> leaf_hit K b us q (search_leaf us x s)"
proof (induction s arbitrary: x p rb re oi)
  case Nil
  have t: "tree_ok K T Q" using inv by (simp add: trie_inv_def)
  have "nul_free p" by (rule inner_nul_free [OF K t Nil(1,2)])
  then show ?case using Nil(3) by (simp add: nul_free_def)
next
  case (Cons c s)
  let ?j = "oi XOR uchar c"
  have s: "slots_ok b {} T Q" and t: "tree_ok K T Q" and un: "units_ok b T Q" and st: "stack_ok K b [] T Q"
    using inv by (simp_all add: trie_inv_def)
  have sh: "num_of_units b = 256 * num_of_blocks b" using slots_free [OF s] by (simp add: free_ok_def shape_ok_def)
  have xn: "x < num_of_units b" using slots_dom(1) [OF s] Cons.prems(1) by blast
  have oin: "oi < num_of_units b" by (rule units_off(1) [OF un Cons.prems(2)])
  have jn: "?j < num_of_units b"
    using oin block_xor [OF uchar_less, of oi c] sh by (metis div_less_iff_less_mult mult.commute zero_less_numeral)
  have ux: "us ! x = bunits b ! x" using us units_off(2) [OF un Cons.prems(2)] xn by (simp add: trie_in_def)
  have "x XOR (da_offset (us ! x) XOR uchar c) = ?j"
    unfolding ux units_off(3) [OF un Cons.prems(2)] by (simp add: xor.assoc [symmetric])
  moreover have lu: "num_of_units b \<le> length us" "is_leaf (us ! ?j) = is_leaf (bunits b ! ?j)" using us jn by (simp_all add: trie_in_def)
  ultimately have step: "search_leaf us x (c # s) = (if is_leaf (bunits b ! ?j) then Some (Some (us ! ?j, c # s))
      else if label (us ! ?j) \<noteq> uchar c then Some None else search_leaf us ?j s)"
    using xn jn by (simp add: Let_def)
  show ?case
  proof (cases "is_leaf (bunits b ! ?j)")
    case True
    then show ?thesis using at_leaf [OF K inv Cons.prems(1,2) q Cons.prems(3) jn True] step by simp
  next
    case False
    then have uj: "us ! ?j = bunits b ! ?j" using us jn by (simp add: trie_in_def)
    show ?thesis
    proof (cases "label (bunits b ! ?j) = uchar c")
      case True
      obtain r where r: "T ?j = Some (p @ [c], r)" "?j \<noteq> 0" using label_child [OF inv Cons.prems(1,2) jn False True] by blast
      obtain rb' re' where r': "r = (rb', re')" by (cases r)
      obtain oi' where oi': "Q ?j = Some oi'" using stack_node [OF st r(1) [unfolded r']] False by auto
      have "leaf_hit K b us q (search_leaf us ?j s)"
        using Cons.prems(3) by (intro Cons.IH [OF r(1) [unfolded r'] oi']) simp
      then show ?thesis using step False True uj by simp
    next
      case ne: False
      have "q \<notin> set K"
      proof
        assume "q \<in> set K"
        then obtain k where k: "k < length K" "q = K ! k" by (metis in_set_conv_nth)
        then have "tx K k = p @ c # s" using Cons.prems(3) by simp
        then obtain r where r: "T ?j = Some (p @ [c], r)" using key_child [OF t Cons.prems(1,2) k(1)] by blast
        then have "?j \<noteq> 0" using tree_root [OF t] by (intro notI) simp
        then show False using units_label [OF un r _ False] ne by simp
      qed
      then show ?thesis using step False ne uj by (simp add: leaf_hit_def)
    qed
  qed
qed

end
