(* ===== verification/DartsTail.thy ===== *)
theory DartsTail
  imports DartsSearch
begin

text \<open>
  The tail of the array of \<open>darts-clone.h\<close>: \<open>arrange_suffixes\<close> writes the rest of each key behind the
  trie, shares it with keys that end in the same way, and puts the values behind it. Together with
  the trie it answers \<open>exactMatchSearch\<close>.
\<close>

unbundle bit_operations_syntax

section \<open>The array as bytes\<close>

lemma unit_bytes_Cons: "unit_bytes (u # us) = le_bytes 4 (unat u) @ unit_bytes us"
  by (simp add: unit_bytes_def)

lemma word_bytes: "length bs = 4 \<Longrightarrow> le_bytes 4 (unat (word_of_nat (le_val bs) :: 32 word)) = bs"
proof -
  assume l: "length bs = 4"
  have "le_val bs = le_val (le_bytes 4 (le_val bs))" using le_bytes_le_val [OF l] by simp
  then have "le_val bs = le_val bs mod 256 ^ 4" by (simp only: le_val_le_bytes)
  then have "unat (word_of_nat (le_val bs) :: 32 word) = le_val bs" by (simp add: unat_of_nat)
  then show ?thesis using le_bytes_le_val [OF l] by simp
qed

lemma unit_bytes_poke: "i < 4 * length us \<Longrightarrow> unit_bytes (poke_byte i c us) = (unit_bytes us)[i := c]"
proof (induction us arbitrary: i)
  case (Cons u us)
  show ?case
  proof (cases "i < 4")
    case True
    then have "poke_byte i c (u # us) = word_of_nat (le_val ((le_bytes 4 (unat u))[i := c])) # us"
      by (simp add: poke_byte_def)
    then have "unit_bytes (poke_byte i c (u # us)) = (le_bytes 4 (unat u))[i := c] @ unit_bytes us"
      by (simp only: unit_bytes_Cons word_bytes length_list_update length_le_bytes)
    then show ?thesis using True by (simp add: unit_bytes_Cons list_update_append)
  next
    case False
    then have "poke_byte i c (u # us) = u # poke_byte (i - 4) c us"
      by (simp add: poke_byte_def le_div_geq le_mod_geq)
    then show ?thesis using Cons False by (simp add: unit_bytes_Cons list_update_append)
  qed
qed simp

lemma unit_bytes_drop: "drop (4 * n) (unit_bytes us) = unit_bytes (drop n us)"
proof (induction us arbitrary: n)
  case (Cons u us)
  show ?case
  proof (cases n)
    case (Suc m)
    then show ?thesis using Cons [of m] by (simp add: unit_bytes_Cons)
  qed simp
qed (simp add: unit_bytes_def)

section \<open>Appending to the tail\<close>

definition tail_inv :: "nat \<Rightarrow> bytes \<Rightarrow> da_builder \<Rightarrow> bool" where
  "tail_inv n tb b \<longleftrightarrow> n \<le> num_of_units b \<and> tail_index b = 4 * n + length tb \<and> tail_index b \<le> 4 * num_of_units b \<and>
     4 * num_of_units b < 4 * n + length tb + 4 \<and> take (length tb) (drop (4 * n) (unit_bytes (bunits b))) = tb"

definition same_trie :: "nat \<Rightarrow> da_builder \<Rightarrow> da_builder \<Rightarrow> bool" where
  "same_trie n b b' \<longleftrightarrow> bkeys b' = bkeys b \<and> (\<forall>x < n. bunits b' ! x = bunits b ! x)"

lemma append_byte_ok:
  assumes t: "tail_inv n tb b"
  shows "tail_inv n (tb @ [c]) (append_byte c b) \<and> same_trie n b (append_byte c b)"
proof -
  let ?us = "if tail_index b \<ge> 4 * num_of_units b then bunits b @ [0] else bunits b" and ?i = "tail_index b"
  have i: "?i = 4 * n + length tb" "?i \<le> 4 * num_of_units b" "n \<le> num_of_units b"
      "take (length tb) (drop (4 * n) (unit_bytes (bunits b))) = tb" "4 * num_of_units b < 4 * n + length tb + 4"
    using t by (simp_all add: tail_inv_def)
  have lt: "?i < 4 * length ?us" using i(2) by (simp add: num_of_units_def)
  have app: "append_byte c b = b\<lparr>bunits := poke_byte ?i c ?us, tail_index := Suc ?i\<rparr>" by (simp add: append_byte_def Let_def)
  have keep: "take (length tb) (drop (4 * n) (unit_bytes ?us)) = tb"
  proof -
    have "4 * n + length tb \<le> length (unit_bytes (bunits b))" using i by (simp add: num_of_units_def)
    then have "take (length tb) (drop (4 * n) (unit_bytes (bunits b @ [0]))) = take (length tb) (drop (4 * n) (unit_bytes (bunits b)))"
      by (simp add: unit_bytes_append)
    then show ?thesis using i(4) by simp
  qed
  have "drop (4 * n) ((unit_bytes ?us)[?i := c]) = (drop (4 * n) (unit_bytes ?us))[length tb := c]"
    using i(1) by (simp add: drop_update_swap)
  moreover have "length tb < length (drop (4 * n) (unit_bytes ?us))" using lt i(1) by simp
  ultimately have "take (Suc (length tb)) (drop (4 * n) (unit_bytes (poke_byte ?i c ?us))) = tb @ [c]"
    unfolding unit_bytes_poke [OF lt] using keep by (simp add: take_Suc_conv_app_nth)
  moreover have "length (poke_byte ?i c ?us) = length ?us" by (simp add: poke_byte_def)
  moreover have "poke_byte ?i c ?us ! x = bunits b ! x" if "x < n" for x
    using that i(1,3) by (auto simp: poke_byte_def nth_append num_of_units_def)
  moreover have "n \<le> length ?us" "4 * length ?us < 4 * n + length (tb @ [c]) + 4" using i by (auto simp: num_of_units_def)
  ultimately show ?thesis using i(1) lt unfolding app
    by (simp only: tail_inv_def same_trie_def num_of_units_def da_builder.simps) simp
qed

lemma append_bytes_ok:
  "tail_inv n tb b \<Longrightarrow> tail_inv n (tb @ cs) (fold append_byte cs b) \<and> same_trie n b (fold append_byte cs b)"
proof (induction cs arbitrary: tb b)
  case (Cons c cs)
  have "tail_inv n (tb @ [c]) (append_byte c b)" "same_trie n b (append_byte c b)" using append_byte_ok [OF Cons.prems] by simp_all
  then show ?case using Cons.IH [of "tb @ [c]" "append_byte c b"] by (simp add: same_trie_def)
qed (simp add: same_trie_def)

text \<open>Changing a unit of the trie.\<close>

lemma upd_unit_tail:
  assumes t: "tail_inv n tb b" and x: "x < n" and f: "f (bunits b ! x) = Some u"
  shows "\<exists>b'. upd_unit x f b = Some b' \<and> tail_inv n tb b' \<and> bkeys b' = bkeys b \<and> bunits b' = (bunits b)[x := u]"
proof -
  have "x < num_of_units b" using t x by (simp add: tail_inv_def)
  then obtain b' where b': "upd_unit x f b = Some b'" "bunits b' = (bunits b)[x := u]" "bkeys b' = bkeys b" "tail_index b' = tail_index b"
    using upd_unit_ok [of x b f u] f by blast
  have "tail_inv n tb b'"
    using t b'(2,4) x by (simp add: tail_inv_def num_of_units_def unit_bytes_drop)
  then show ?thesis using b' by blast
qed

section \<open>A key and its values in the tail\<close>

definition entry_in :: "bytes \<Rightarrow> bytes \<Rightarrow> 32 word \<Rightarrow> da_unit \<Rightarrow> bool" where
  "entry_in tb s v u \<longleftrightarrow> (\<exists>rest. drop (link u) tb = s @ NUL # rest \<and> 4 * value_id u + 4 \<le> length rest \<and>
     take 4 (drop (4 * value_id u) rest) = le_bytes 4 (unat v))"

lemma entry_in_append: "entry_in tb s v u \<Longrightarrow> entry_in (tb @ ys) s v u"
proof -
  assume "entry_in tb s v u"
  then obtain rest where r: "drop (link u) tb = s @ NUL # rest" "4 * value_id u + 4 \<le> length rest"
      "take 4 (drop (4 * value_id u) rest) = le_bytes 4 (unat v)" by (auto simp: entry_in_def)
  have "link u \<le> length tb" using r(1) by (cases "link u \<le> length tb") auto
  then show ?thesis using r unfolding entry_in_def by (intro exI [of _ "rest @ ys"]) simp
qed

abbreviation value_bytes :: "32 word list \<Rightarrow> bytes" where
  "value_bytes vals \<equiv> concat (map (\<lambda>v. le_bytes 4 (unat v)) vals)"

lemma length_value_bytes [simp]: "length (value_bytes vals) = 4 * length vals"
  by (induction vals) auto

lemma value_bytes_nth:
  "i < length vals \<Longrightarrow> take 4 (drop (4 * i) (value_bytes vals)) = le_bytes 4 (unat (vals ! i))"
proof (induction vals arbitrary: i)
  case (Cons v vals)
  show ?case
  proof (cases i)
    case (Suc j)
    then show ?thesis using Cons by simp
  qed simp
qed simp

lemma find_value_le: "find_value v vals \<le> length vals"
  by (induction vals) auto

lemma find_value_nth: "find_value v vals < length vals \<Longrightarrow> vals ! find_value v vals = v"
  by (induction vals) (auto split: if_splits)

lemma rev_suffix_prefix: "nul_free a \<Longrightarrow> rev_suffix (a @ [NUL]) (b @ [NUL]) \<Longrightarrow> prefix a b"
proof (induction a arbitrary: b)
  case (Cons x a)
  then show ?case by (cases b) (auto simp: nul_free_def split: if_splits)
qed simp

lemma is_suffix_suffix: "nul_free (ksuffix k) \<Longrightarrow> is_suffix_of k p \<Longrightarrow> suffix (ksuffix k) (ksuffix p)"
  using rev_suffix_prefix [of "rev (ksuffix k)" "rev (ksuffix p)"]
  by (simp add: is_suffix_of_def rkeys_def suffix_to_prefix nul_free_def)

text \<open>The suffix that was written last ends at \<open>base\<close>, its values follow.\<close>

definition group_inv :: "bytes \<Rightarrow> da_key option \<Rightarrow> nat \<Rightarrow> 32 word list \<Rightarrow> bool" where
  "group_inv tb prev base vals \<longleftrightarrow> base \<le> length tb \<and> drop base tb = value_bytes vals \<and>
     (case prev of None \<Rightarrow> True | Some p \<Rightarrow> suffix (ksuffix p @ [NUL]) (take base tb))"

lemma group_link:
  assumes "suffix (s @ [NUL]) (take base tb)" and "base \<le> length tb"
  shows "drop (base - length s - 1) tb = s @ NUL # drop base tb"
proof -
  obtain r where r: "take base tb = r @ s @ [NUL]" using assms(1) by (auto simp: suffix_def)
  moreover have "length (take base tb) = base" using assms(2) by simp
  ultimately have base: "base - length s - 1 = length r" by simp
  have "tb = (r @ s @ [NUL]) @ drop base tb" unfolding r [symmetric] by simp
  then have "drop (length r) tb = drop (length r) ((r @ s @ [NUL]) @ drop base tb)" by (rule arg_cong)
  then show ?thesis unfolding base by simp
qed

text \<open>One key of the loop: its suffix, its unit and its value.\<close>

definition key_placed :: "bytes \<Rightarrow> da_unit list \<Rightarrow> da_key \<Rightarrow> bool" where
  "key_placed tb us k \<longleftrightarrow> entry_in tb (ksuffix k) (kvalue k) (us ! kindex k)"

lemma arrange_step:
  assumes t: "tail_inv n tb b" and g: "group_inv tb prev base vals" and k: "kindex k < n" "nul_free (ksuffix k)"
    and small: "length tb + length (ksuffix k) + 1 < 2 ^ 28"
  shows "\<exists>b' tb' base' vals'. (\<forall>ks. arrange_loop prev (k # ks) base vals b = arrange_loop (Some k) ks base' vals' b') \<and>
    tail_inv n tb' b' \<and> group_inv tb' (Some k) base' vals' \<and> bkeys b' = bkeys b \<and> (\<exists>ys. tb' = tb @ ys) \<and>
    length tb' \<le> length tb + length (ksuffix k) + 5 \<and> key_placed tb' (bunits b') k \<and>
    (\<forall>x < n. x \<noteq> kindex k \<longrightarrow> bunits b' ! x = bunits b ! x) \<and>
    is_leaf (bunits b' ! kindex k) = is_leaf (bunits b ! kindex k)"
proof -
  let ?s = "ksuffix k"
  define sfx where "sfx = (case prev of None \<Rightarrow> False | Some p \<Rightarrow> is_suffix_of k p)"
  define vid where "vid = (if sfx then find_value (kvalue k) vals else 0)"
  define fresh where "fresh = (\<not> sfx \<or> vid \<ge> 2 ^ VALUE_ID_BITS)"
  define base' where "base' = (if fresh then base + 4 * length vals + length ?s + 1 else base)"
  define vals' where "vals' = (if fresh then [] else vals)"
  define vid' where "vid' = (if fresh then 0 else vid)"
  define b1 where "b1 = (if fresh then append_suffix k b else b)"
  define tb1 where "tb1 = (if fresh then tb @ ?s @ [NUL] else tb)"
  have gl: "base \<le> length tb" "drop base tb = value_bytes vals" using g by (simp_all add: group_inv_def)
  then have lt: "length tb = base + 4 * length vals" by (metis le_add_diff_inverse length_drop length_value_bytes)
  have t1: "tail_inv n tb1 b1 \<and> same_trie n b b1"
    using append_bytes_ok [OF t, of "?s @ [NUL]"] t by (simp add: b1_def tb1_def append_suffix_def same_trie_def)
  have base1: "base' \<le> length tb1" "drop base' tb1 = value_bytes vals'" using gl lt by (simp_all add: base'_def tb1_def vals'_def)
  have suf: "suffix (?s @ [NUL]) (take base' tb1)"
  proof (cases fresh)
    case True
    then show ?thesis using lt by (simp add: base'_def tb1_def suffix_def)
  next
    case False
    then obtain p where p: "prev = Some p" "is_suffix_of k p" by (auto simp: fresh_def sfx_def split: option.splits)
    then have "suffix (?s @ [NUL]) (ksuffix p @ [NUL])" using is_suffix_suffix [OF k(2) p(2)] by (auto simp: suffix_def)
    moreover have "suffix (ksuffix p @ [NUL]) (take base tb)" using g p(1) by (simp add: group_inv_def)
    ultimately have "suffix (?s @ [NUL]) (take base tb)" by (rule suffix_order.trans)
    then show ?thesis using False by (simp only: base'_def tb1_def if_False)
  qed
  have vid8: "vid' < 8" by (auto simp: vid'_def fresh_def VALUE_ID_BITS_def)
  have vidn: "vid' \<le> length vals'" using find_value_le [of "kvalue k" vals] by (simp add: vid'_def vals'_def vid_def)
  have vidv: "vals' ! vid' = kvalue k" if "vid' \<noteq> length vals'"
    using that find_value_le [of "kvalue k" vals] find_value_nth [of "kvalue k" vals]
    by (auto simp: vid'_def vals'_def vid_def fresh_def split: if_splits)
  let ?l = "base' - length ?s - 1"
  have l1: "drop ?l tb1 = ?s @ NUL # drop base' tb1" by (rule group_link [OF suf base1(1)])
  have llt: "?l < 2 ^ 28"
  proof -
    have "base' \<le> length tb + length ?s + 1" using lt by (simp add: base'_def)
    then show ?thesis using small by linarith
  qed
  obtain b2 where b2: "upd_unit (kindex k) (\<lambda>u. Some (set_value_id vid' u)) b1 = Some b2" "tail_inv n tb1 b2" "bkeys b2 = bkeys b1"
      "bunits b2 = (bunits b1)[kindex k := set_value_id vid' (bunits b1 ! kindex k)]"
    using upd_unit_tail [of n tb1 b1 "kindex k" "\<lambda>u. Some (set_value_id vid' u)"] t1 k(1) by auto
  obtain w where w: "set_link ?l (bunits b2 ! kindex k) = Some w" using llt by (simp add: set_link_def)
  obtain b3 where b3: "upd_unit (kindex k) (set_link ?l) b2 = Some b3" "tail_inv n tb1 b3" "bkeys b3 = bkeys b2"
      "bunits b3 = (bunits b2)[kindex k := w]"
    using upd_unit_tail [of n tb1 b2 "kindex k" "set_link ?l" w] b2(2) k(1) w by blast
  have kn: "kindex k < length (bunits b1)" using t1 k(1) by (simp add: tail_inv_def num_of_units_def)
  have u3: "bunits b3 ! kindex k = w" "link w = ?l" "value_id w = vid'" "is_leaf w = is_leaf (bunits b ! kindex k)"
    using b3(4) b2(4) kn w vid8 t1 k(1) by (simp_all add: unit_simps same_trie_def)
  have o3: "bunits b3 ! x = bunits b ! x" if "x < n" "x \<noteq> kindex k" for x
    using that b3(4) b2(4) t1 by (simp add: same_trie_def)
  define b4 where "b4 = (if vid' = length vals' then append_value (kvalue k) b3 else b3)"
  define tb' where "tb' = (if vid' = length vals' then tb1 @ le_bytes 4 (unat (kvalue k)) else tb1)"
  define vals2 where "vals2 = (if vid' = length vals' then vals' @ [kvalue k] else vals')"
  have t4: "tail_inv n tb' b4 \<and> same_trie n b3 b4"
    using append_bytes_ok [OF b3(2), of "le_bytes 4 (unat (kvalue k))"] b3(2) by (simp add: b4_def tb'_def append_value_def same_trie_def)
  have base2: "base' \<le> length tb'" "drop base' tb' = value_bytes vals2" "take base' tb' = take base' tb1"
    using base1 by (simp_all add: tb'_def vals2_def)
  have v2: "vid' < length vals2" "vals2 ! vid' = kvalue k" using vidn vidv by (auto simp: vals2_def)
  have "drop ?l tb' = ?s @ NUL # drop base' tb'" using group_link [of ?s base' tb'] suf base2 by simp
  then have "entry_in tb' ?s (kvalue k) w"
    unfolding entry_in_def u3(2,3) base2(2) using v2 value_bytes_nth [OF v2(1)] by (intro exI [of _ "value_bytes vals2"]) simp
  then have placed: "key_placed tb' (bunits b4) k" using t4 u3(1) k(1) by (simp add: key_placed_def same_trie_def)
  have step: "arrange_loop prev (k # ks) base vals b = arrange_loop (Some k) ks base' vals2 b4" for ks
  proof -
    have "arrange_loop prev (k # ks) base vals b =
        do { b2 \<leftarrow> upd_unit (kindex k) (\<lambda>u. Some (set_value_id vid' u)) b1; b3 \<leftarrow> upd_unit (kindex k) (set_link ?l) b2;
          if vid' = length vals' then arrange_loop (Some k) ks base' (vals' @ [kvalue k]) (append_value (kvalue k) b3)
          else arrange_loop (Some k) ks base' vals' b3 }"
      unfolding arrange_loop.simps Let_def b1_def vals'_def base'_def vid'_def fresh_def vid_def sfx_def ..
    then show ?thesis using b2(1) b3(1) by (simp add: b4_def vals2_def)
  qed
  have "group_inv tb' (Some k) base' vals2" using base2 suf by (simp add: group_inv_def)
  moreover have "bkeys b4 = bkeys b" using t4 b3(3) b2(3) t1 by (simp add: same_trie_def)
  moreover have "\<exists>ys. tb' = tb @ ys" by (simp add: tb'_def tb1_def)
  moreover have "length tb' \<le> length tb + length ?s + 5" by (simp add: tb'_def tb1_def)
  moreover have "bunits b4 ! x = bunits b ! x" if "x < n" "x \<noteq> kindex k" for x using o3 [OF that] t4 that(1) by (simp add: same_trie_def)
  moreover have "is_leaf (bunits b4 ! kindex k) = is_leaf (bunits b ! kindex k)" using t4 u3(1,4) k(1) by (simp add: same_trie_def)
  ultimately show ?thesis using t4 placed step
    by (intro exI [of _ b4] exI [of _ tb'] exI [of _ base'] exI [of _ vals2]) simp
qed

lemma arrange_loop_ok:
  assumes "tail_inv n tb b" and "group_inv tb prev base vals" and "\<forall>k \<in> set ks. kindex k < n \<and> nul_free (ksuffix k)"
    and "distinct (map kindex ks)" and "length tb + (\<Sum>k\<leftarrow>ks. length (ksuffix k) + 5) < 2 ^ 28"
  shows "\<exists>b' ys. arrange_loop prev ks base vals b = Some b' \<and> tail_inv n (tb @ ys) b' \<and> bkeys b' = bkeys b \<and>
    (\<forall>k \<in> set ks. key_placed (tb @ ys) (bunits b') k) \<and>
    (\<forall>x < n. x \<notin> kindex ` set ks \<longrightarrow> bunits b' ! x = bunits b ! x) \<and>
    (\<forall>x < n. is_leaf (bunits b' ! x) = is_leaf (bunits b ! x)) \<and>
    length (tb @ ys) \<le> length tb + (\<Sum>k\<leftarrow>ks. length (ksuffix k) + 5)"
  using assms
proof (induction ks arbitrary: tb b prev base vals)
  case Nil
  then show ?case by (intro exI [of _ b] exI [of _ "[]"]) simp
next
  case (Cons k ks)
  have k: "kindex k < n" "nul_free (ksuffix k)" using Cons.prems(3) by simp_all
  have "length tb + length (ksuffix k) + 1 < 2 ^ 28" using Cons.prems(5) by simp
  from arrange_step [OF Cons.prems(1,2) k this]
  obtain b1 tb1 base1 vals1 ys where b1: "\<forall>ks. arrange_loop prev (k # ks) base vals b = arrange_loop (Some k) ks base1 vals1 b1"
      "tail_inv n tb1 b1" "group_inv tb1 (Some k) base1 vals1" "bkeys b1 = bkeys b" "tb1 = tb @ ys"
      "length tb1 \<le> length tb + length (ksuffix k) + 5" "key_placed tb1 (bunits b1) k"
      "\<forall>x < n. x \<noteq> kindex k \<longrightarrow> bunits b1 ! x = bunits b ! x" "is_leaf (bunits b1 ! kindex k) = is_leaf (bunits b ! kindex k)"
    by blast
  have "length tb1 + (\<Sum>k\<leftarrow>ks. length (ksuffix k) + 5) < 2 ^ 28" using b1(6) Cons.prems(5) by simp
  from Cons.IH [OF b1(2,3) _ _ this] Cons.prems(3,4)
  obtain b' zs where b': "arrange_loop (Some k) ks base1 vals1 b1 = Some b'" "tail_inv n (tb1 @ zs) b'" "bkeys b' = bkeys b1"
      "\<forall>k \<in> set ks. key_placed (tb1 @ zs) (bunits b') k" "\<forall>x < n. x \<notin> kindex ` set ks \<longrightarrow> bunits b' ! x = bunits b1 ! x"
      "\<forall>x < n. is_leaf (bunits b' ! x) = is_leaf (bunits b1 ! x)"
      "length (tb1 @ zs) \<le> length tb1 + (\<Sum>k\<leftarrow>ks. length (ksuffix k) + 5)" by auto
  have "kindex k \<notin> kindex ` set ks" using Cons.prems(4) by simp
  then have "bunits b' ! kindex k = bunits b1 ! kindex k" using b'(5) k(1) by blast
  then have "key_placed (tb1 @ zs) (bunits b') k" using b1(7) entry_in_append by (simp add: key_placed_def)
  moreover have "is_leaf (bunits b' ! x) = is_leaf (bunits b ! x)" if "x < n" for x
    using b'(6) b1(8,9) that by (cases "x = kindex k") auto
  moreover have "bunits b' ! x = bunits b ! x" if "x < n" "x \<notin> kindex ` set (k # ks)" for x using b'(5) b1(8) that by simp
  moreover have "length (tb @ ys @ zs) \<le> length tb + (\<Sum>k\<leftarrow>k # ks. length (ksuffix k) + 5)" using b1(5,6) b'(7) by simp
  ultimately show ?case using b1(1,4,5) b'(1-4) by (intro exI [of _ b'] exI [of _ "ys @ zs"]) simp
qed

lemma set_stable_insert: "mset (stable_insert lt x xs) = add_mset x (mset xs)"
  by (induction xs) auto

lemma mset_stable_sort: "mset (stable_sort lt xs) = mset xs"
  by (induction xs) (simp_all add: stable_sort_def set_stable_insert)

section \<open>From the trie to the array\<close>

lemma leaf_node:
  assumes inv: "trie_inv K V [] b {} T Q" and i: "i < length K"
  shows "leaf_of b i < num_of_units b \<and> is_leaf (bunits b ! leaf_of b i) \<and> leaf_of b i \<noteq> 1 \<and> (\<exists>p. T (leaf_of b i) = Some (p, i, Suc i))"
proof -
  have s: "slots_ok b {} T Q" and un: "units_ok b T Q" and st: "stack_ok K b [] T Q" using inv by (simp_all add: trie_inv_def)
  obtain x p where x: "T x = Some (p, i, Suc i)" "is_leaf (bunits b ! x)" using stack_cover [OF st i] by auto
  then have xn: "x < num_of_units b" "x \<noteq> 1" using slots_dom(1,5) [OF s] by auto
  from units_leaf [OF un xn(1) x(2)] have "kindex (bkeys b ! i) = x" using x(1) by auto
  then show ?thesis using x xn by (auto simp: leaf_of_def)
qed

definition tail_keys :: "bytes list \<Rightarrow> 32 word list \<Rightarrow> da_builder \<Rightarrow> da_unit list \<Rightarrow> bytes \<Rightarrow> bool" where
  "tail_keys K V b us tb \<longleftrightarrow>
     (\<forall>i < length K. entry_in tb (drop (kpos (bkeys b ! i)) (K ! i)) (V ! i) (us ! leaf_of b i))"

lemma arrange_suffixes_ok:
  assumes K: "keys_ok K" "K \<noteq> []" and d: "trie_done K V b T Q" and small: "3 * total_work K < 2 ^ 28"
  shows "\<exists>b' tb pad. arrange_suffixes b = Some b' \<and> trie_in b (bunits b') \<and> tail_bytes (bunits b') = tb @ pad \<and>
    tail_keys K V b (bunits b') tb \<and> 4 * length (bunits b') < 4 * num_of_units b + 2 ^ 28 + 4"
proof -
  have inv: "trie_inv K V [] b {} T Q" and off: "da_offset (bunits b ! 1) = num_of_units b" using d by (simp_all add: trie_done_def)
  have kv: "keys_inv K V (bkeys b)" using inv by (simp add: trie_inv_def)
  then have len: "length (bkeys b) = length K" by (simp add: keys_inv_def)
  let ?n = "num_of_units b" and ?keys = "stable_sort ReversedComparison (bkeys b)"
  let ?b = "b\<lparr>tail_index := 4 * num_of_units b, bkeys := ?keys\<rparr>"
  have ms: "mset ?keys = mset (bkeys b)" by (rule mset_stable_sort)
  have t: "tail_inv ?n [] ?b" by (simp add: tail_inv_def num_of_units_def)
  have g: "group_inv [] None 0 []" by (simp add: group_inv_def)
  have key: "kindex k < ?n \<and> nul_free (ksuffix k) \<and> length (ksuffix k) \<le> length (ktext k)" if kin: "k \<in> set (bkeys b)" for k
  proof -
    obtain i where i: "i < length K" "k = bkeys b ! i" using kin len by (metis in_set_conv_nth)
    then have "nul_free (ktext k)" using K(1) kv by (simp add: keys_ok_def keys_inv_def)
    then show ?thesis using leaf_node [OF inv i(1)] i(2) by (auto simp: leaf_of_def ksuffix_def nul_free_def dest: in_set_dropD)
  qed
  have "distinct (map kindex (bkeys b))"
  proof (unfold distinct_conv_nth, intro allI impI)
    fix i j assume ij: "i < length (map kindex (bkeys b))" "j < length (map kindex (bkeys b))" "i \<noteq> j"
    then obtain p q where "T (leaf_of b i) = Some (p, i, Suc i)" "T (leaf_of b j) = Some (q, j, Suc j)"
      using leaf_node [OF inv, of i] leaf_node [OF inv, of j] len by auto
    then show "map kindex (bkeys b) ! i \<noteq> map kindex (bkeys b) ! j" using ij by (auto simp: leaf_of_def)
  qed
  moreover have mk: "mset (map g ?keys) = mset (map g (bkeys b))" for g :: "da_key \<Rightarrow> nat" using ms by simp
  ultimately have dist: "distinct (map kindex ?keys)" using mset_eq_imp_distinct_iff [OF mk] by blast
  have sum: "(\<Sum>k\<leftarrow>?keys. length (ksuffix k) + 5) = (\<Sum>k\<leftarrow>bkeys b. length (ksuffix k) + 5)"
    unfolding sum_mset_sum_list [symmetric] mk ..
  have "(\<Sum>k\<leftarrow>bkeys b. length (ksuffix k) + 5) \<le> (\<Sum>k\<leftarrow>bkeys b. 3 * (length (ktext k) + 2))"
    using key by (intro sum_list_mono) fastforce
  also have "\<dots> = 3 * total_work K"
  proof -
    have "map ktext (bkeys b) = K" using kv len by (intro nth_equalityI) (simp_all add: keys_inv_def)
    then have "total_work K = (\<Sum>t\<leftarrow>map ktext (bkeys b). length t + 2)" unfolding total_work_def by (simp only:)
    then show ?thesis by (simp only: sum_list_const_mult map_map comp_def)
  qed
  finally have total: "length [] + (\<Sum>k\<leftarrow>?keys. length (ksuffix k) + 5) < 2 ^ 28" using small sum by simp
  from arrange_loop_ok [OF t g _ dist total] key
  obtain b' ys where b': "arrange_loop None ?keys 0 [] ?b = Some b'" "tail_inv ?n ys b'"
      "\<forall>k \<in> set ?keys. key_placed ys (bunits b') k" "\<forall>x < ?n. x \<notin> kindex ` set ?keys \<longrightarrow> bunits b' ! x = bunits ?b ! x"
      "\<forall>x < ?n. is_leaf (bunits b' ! x) = is_leaf (bunits ?b ! x)"
      "length ys \<le> (\<Sum>k\<leftarrow>?keys. length (ksuffix k) + 5)"
    using mset_eq_setD [OF ms] by auto
  have sk: "set ?keys = set (bkeys b)" by (rule mset_eq_setD [OF ms])
  have ki: "kindex ` set ?keys = leaf_of b ` {..<length K}"
    unfolding sk unfolding set_conv_nth by (auto simp: leaf_of_def len)
  have "trie_in b (bunits b')"
  proof -
    have "?n \<le> length (bunits b')" using b'(2) by (simp add: tail_inv_def num_of_units_def)
    moreover have "bunits b' ! x = bunits b ! x" if "x < ?n" "\<not> is_leaf (bunits b ! x)" for x
      using b'(4) that leaf_node [OF inv] ki by auto
    ultimately show ?thesis using b'(5) by (simp add: trie_in_def)
  qed
  moreover have "tail_bytes (bunits b') = ys @ drop (length ys) (drop (4 * ?n) (unit_bytes (bunits b')))"
  proof -
    have "1 < ?n" using inv slots_dom(6) by (auto simp: trie_inv_def)
    moreover have "1 \<notin> kindex ` set ?keys"
    proof
      assume "1 \<in> kindex ` set ?keys"
      then obtain i where "i < length K" "leaf_of b i = 1" unfolding ki by auto
      then show False using leaf_node [OF inv, of i] by blast
    qed
    ultimately have "bunits b' ! 1 = bunits b ! 1" using b'(4) by simp
    then show ?thesis using off b'(2) unfolding tail_bytes_def by (metis append_take_drop_id tail_inv_def)
  qed
  moreover have "tail_keys K V b (bunits b') ys"
    unfolding tail_keys_def
  proof (intro allI impI)
    fix i assume i: "i < length K"
    then have "bkeys b ! i \<in> set ?keys" using mset_eq_setD [OF ms] len by simp
    then have "key_placed ys (bunits b') (bkeys b ! i)" using b'(3) by blast
    then show "entry_in ys (drop (kpos (bkeys b ! i)) (K ! i)) (V ! i) (bunits b' ! leaf_of b i)"
      using kv i by (simp add: key_placed_def keys_inv_def ksuffix_def leaf_of_def)
  qed
  moreover have "4 * length (bunits b') < 4 * ?n + 2 ^ 28 + 4"
    using b'(2,6) total by (simp add: tail_inv_def num_of_units_def)
  moreover have "arrange_suffixes b = Some b'"
  proof -
    have "bkeys b \<noteq> []" using K(2) len by auto
    then show ?thesis using b'(1) by (simp add: arrange_suffixes_def Let_def num_of_units_def)
  qed
  ultimately show ?thesis by blast
qed

section \<open>Searching\<close>

lemma match_tail_ok:
  "nul_free s \<Longrightarrow> nul_free w \<Longrightarrow> match_tail (s @ NUL # r) (w @ [NUL]) = Some (if w = s then Some r else None)"
proof (induction s arbitrary: w)
  case Nil
  then show ?case by (cases w) (auto simp: nul_free_def)
next
  case (Cons c s)
  then show ?case by (cases w) (auto simp: nul_free_def)
qed

lemma set_result_ok:
  fixes v :: "32 word"
  assumes "4 * k + 4 \<le> length rest" and "take 4 (drop (4 * k) rest) = le_bytes 4 (unat v)"
  shows "set_result (rest @ pad) k = Some (sint v)"
proof -
  have "unat v mod 256 ^ 4 = unat v" using unsigned_less [where ?'a = nat, of v] by simp
  then have "(word_of_nat (le_val (le_bytes 4 (unat v))) :: 32 word) = v" by (simp add: le_val_le_bytes)
  moreover have "take 4 (drop (4 * k) (rest @ pad)) = le_bytes 4 (unat v)" using assms by simp
  ultimately show ?thesis using assms(1) by (simp add: set_result_def)
qed

lemma search_array:
  assumes K: "keys_ok K" "K \<noteq> []" and inv: "trie_inv K V [] b {} T Q" and us: "trie_in b us"
    and tail: "tail_bytes us = tb @ pad" "tail_keys K V b us tb" and q: "nul_free q"
  shows "exactMatchSearch us q = Some (if q \<in> set K then sint (V ! (THE i. i < length K \<and> K ! i = q)) else - 1)"
proof -
  have t: "tree_ok K T Q" and st: "stack_ok K b [] T Q" and un: "units_ok b T Q" using inv by (simp_all add: trie_inv_def)
  have root: "T 0 = Some ([], 0, length K)" by (rule tree_root [OF t])
  obtain oi where oi: "Q 0 = Some oi" using stack_node [OF st root] units_01(2) [OF un] by auto
  have "leaf_hit K b us q (search_leaf us 0 (q @ [NUL]))"
    by (rule search_leaf_ok [OF K(1) inv us q root oi]) simp
  then show ?thesis
    unfolding leaf_hit_def
  proof
    assume "search_leaf us 0 (q @ [NUL]) = Some None \<and> q \<notin> set K"
    then show ?thesis by (simp add: exactMatchSearch_def)
  next
    assume "\<exists>i w. i < length K \<and> search_leaf us 0 (q @ [NUL]) = Some (Some (us ! leaf_of b i, w @ [NUL])) \<and> nul_free w \<and>
      (q \<in> set K \<longrightarrow> q = K ! i) \<and> (w = drop (kpos (bkeys b ! i)) (K ! i) \<longleftrightarrow> q = K ! i)"
    then obtain i w where i: "i < length K" "search_leaf us 0 (q @ [NUL]) = Some (Some (us ! leaf_of b i, w @ [NUL]))" "nul_free w"
        "q \<in> set K \<longrightarrow> q = K ! i" "w = drop (kpos (bkeys b ! i)) (K ! i) \<longleftrightarrow> q = K ! i" by blast
    let ?s = "drop (kpos (bkeys b ! i)) (K ! i)" and ?u = "us ! leaf_of b i"
    obtain rest where r: "drop (link ?u) tb = ?s @ NUL # rest" "4 * value_id ?u + 4 \<le> length rest"
        "take 4 (drop (4 * value_id ?u) rest) = le_bytes 4 (unat (V ! i))"
      using tail(2) i(1) by (auto simp: tail_keys_def entry_in_def)
    have "link ?u \<le> length tb" using r(1) by (cases "link ?u \<le> length tb") auto
    then have d: "drop (link ?u) (tail_bytes us) = ?s @ NUL # (rest @ pad)" using r(1) tail(1) by simp
    have "nul_free (K ! i)" using K(1) i(1) by (simp add: keys_ok_def)
    then have ns: "nul_free ?s" by (auto simp: nul_free_def dest: in_set_dropD)
    have ex: "exactMatchSearch us q = (if w = ?s then Some (sint (V ! i)) else Some (- 1))"
      unfolding exactMatchSearch_def i(2) by (simp add: d match_tail_ok [OF ns i(3)] set_result_ok [OF r(2,3)])
    show ?thesis
    proof (cases "q \<in> set K")
      case True
      then have "q = K ! i" using i(4) by blast
      moreover have "(THE i. i < length K \<and> K ! i = q) = i"
        using i(1) \<open>q = K ! i\<close> keys_ok_distinct [OF K(1)] by (intro the_equality) auto
      ultimately show ?thesis using ex i(1,5) by simp
    next
      case False
      then have "q \<noteq> K ! i" using i(1) by auto
      then show ?thesis using ex i(5) False by simp
    qed
  qed
qed

section \<open>From keys to answers\<close>

lemma internal_keys_ok:
  assumes "sorted_wrt (<) (map fst kvs)" and "\<forall>t \<in> set (map fst kvs). nul_free t"
    and "ks \<noteq> [] \<longrightarrow> (\<forall>t \<in> set (map fst kvs). ktext (last ks) < t)"
  shows "internal_keys kvs ks = Some (ks @ map (\<lambda>(t, v). \<lparr>ktext = t, kpos = 0, kindex = 0, kvalue = v\<rparr>) kvs)"
  using assms
proof (induction kvs arbitrary: ks)
  case (Cons kv kvs)
  obtain t v where kv: "kv = (t, v)" by (cases kv)
  let ?k = "\<lparr>ktext = t, kpos = 0, kindex = 0, kvalue = v\<rparr> :: da_key"
  have t: "cstr t = t" using Cons.prems(2) by (simp add: kv cstr_nul_free)
  have "internal_keys kvs (ks @ [?k]) = Some ((ks @ [?k]) @ map (\<lambda>(t, v). \<lparr>ktext = t, kpos = 0, kindex = 0, kvalue = v\<rparr>) kvs)"
    using Cons.prems by (intro Cons.IH) (auto simp: kv)
  moreover have "ks \<noteq> [] \<longrightarrow> ktext (last ks) < t" using Cons.prems(3) by (simp add: kv)
  ultimately show ?case using t by (auto simp: kv Let_def strcmp_def)
qed simp

text \<open>The dictionary that was asked for.\<close>

definition da_lookup :: "(bytes \<times> 32 word) list \<Rightarrow> bytes \<Rightarrow> int" where
  "da_lookup kvs q = (case map_of kvs q of None \<Rightarrow> - 1 | Some v \<Rightarrow> sint v)"

definition da_input :: "(bytes \<times> 32 word) list \<Rightarrow> bool" where
  "da_input kvs \<longleftrightarrow> kvs \<noteq> [] \<and> keys_ok (map fst kvs) \<and> 256 + 256 * total_work (map fst kvs) < 2 ^ 29"

lemma build_da_ok:
  assumes "da_input kvs"
  shows "\<exists>us. build_da kvs = Some us \<and> 2 \<le> length us \<and> length us < 2 ^ 30 \<and> (\<forall>q. nul_free q \<longrightarrow> exactMatchSearch us q = Some (da_lookup kvs q))"
proof -
  let ?K = "map fst kvs" and ?V = "map snd kvs"
  have K: "keys_ok ?K" "?K \<noteq> []" and small: "256 + 256 * total_work ?K < 2 ^ 29" using assms by (simp_all add: da_input_def)
  define ks where "ks = map2 (\<lambda>t v. \<lparr>ktext = t, kpos = 0, kindex = 0, kvalue = v\<rparr>) ?K ?V"
  have "ks = map (\<lambda>(t, v). \<lparr>ktext = t, kpos = 0, kindex = 0, kvalue = v\<rparr>) kvs"
    unfolding ks_def by (induction kvs) auto
  then have ik: "internal_keys kvs [] = Some ks" using K internal_keys_ok [of kvs "[]"] by (simp add: keys_ok_def)
  obtain b T Q where b: "build_trie (new_builder ks) = Some b" "trie_done ?K ?V b T Q" "num_of_units b < 2 ^ 29"
    using build_trie_ok [OF K _ small ks_def] by auto
  then have inv: "trie_inv ?K ?V [] b {} T Q" by (simp add: trie_done_def)
  have "3 * total_work ?K < 2 ^ 28" using small by simp
  then obtain b' tb pad where b': "arrange_suffixes b = Some b'" "trie_in b (bunits b')" "tail_bytes (bunits b') = tb @ pad"
      "tail_keys ?K ?V b (bunits b') tb" "4 * length (bunits b') < 4 * num_of_units b + 2 ^ 28 + 4"
    using arrange_suffixes_ok [OF K b(2)] by blast
  have "1 < num_of_units b" using inv slots_dom(6) by (auto simp: trie_inv_def)
  then have "2 \<le> length (bunits b')" using b'(2) by (simp add: trie_in_def)
  moreover have "exactMatchSearch (bunits b') q = Some (da_lookup kvs q)" if q: "nul_free q" for q
  proof -
    note s = search_array [OF K inv b'(2-4) q]
    show ?thesis
    proof (cases "q \<in> set ?K")
      case True
      then obtain i where i: "i < length kvs" "q = fst (kvs ! i)" by (auto simp: in_set_conv_nth)
      have "distinct ?K" using K(1) by (simp add: keys_ok_def strict_sorted_iff)
      then have "map_of kvs q = Some (snd (kvs ! i))" using i by simp
      moreover have "(THE i. i < length ?K \<and> ?K ! i = q) = i"
        using i keys_ok_distinct [OF K(1)] by (intro the_equality) auto
      ultimately show ?thesis using s True i(1) by (simp add: da_lookup_def)
    next
      case False
      then have "map_of kvs q = None" by (simp add: map_of_eq_None_iff)
      then show ?thesis using s False by (simp add: da_lookup_def)
    qed
  qed
  moreover have "length (bunits b') < 2 ^ 30" using b'(5) b(3) by simp
  moreover have "build_da kvs = Some (bunits b')" using ik b(1) b'(1) by (simp add: build_da_def)
  ultimately show ?thesis by blast
qed

section \<open>Properties\<close>

text \<open>
  C7. The array is a dictionary: for keys in strictly ascending order without NUL bytes, whose size keeps
  the array below its limit, building ends without an exception, the bytes that are saved open again as
  the same array, and the exact search stays inside the array for every C string: it returns the value
  of the string when it is a key and -1 when it is not.
\<close>

theorem da_dictionary:
  assumes "da_input kvs"
  shows "\<exists>us. build_da kvs = Some us \<and> open_da (Some (pre @ save us @ post)) (length pre) (4 * length us) = Some (Some us) \<and>
    (\<forall>q. nul_free q \<longrightarrow> exactMatchSearch us q = Some (case map_of kvs q of None \<Rightarrow> - 1 | Some v \<Rightarrow> sint v))"
  using build_da_ok [OF assms] open_save by (fastforce simp: da_lookup_def)

lemma da_dictionary_witness:
  "\<exists>us. build_da [(''a'', 7), (''abc'', 3), (''abd'', 3)] = Some us \<and>
    open_da (Some ([] @ save us @ [])) (length ([] :: bytes)) (4 * length us) = Some (Some us) \<and>
    exactMatchSearch us ''abd'' = Some 3 \<and> exactMatchSearch us ''ab'' = Some (- 1)"
proof -
  let ?kvs = "[(''a'', 7), (''abc'', 3), (''abd'', 3)] :: (bytes \<times> 32 word) list"
  have i: "da_input ?kvs" by (simp add: da_input_def keys_ok_def nul_free_def total_work_def)
  obtain us where us: "build_da ?kvs = Some us"
      "open_da (Some ([] @ save us @ [])) (length ([] :: bytes)) (4 * length us) = Some (Some us)"
      "\<forall>q. nul_free q \<longrightarrow> exactMatchSearch us q = Some (case map_of ?kvs q of None \<Rightarrow> - 1 | Some v \<Rightarrow> sint v)"
    using da_dictionary [OF i, of "[]" "[]"] by blast
  have "nul_free ''abd''" "nul_free ''ab''" by (simp_all add: nul_free_def)
  then show ?thesis using us by (intro exI [of _ us]) simp
qed

end
