(* ===== verification/IndexDa.thy ===== *)
theory IndexDa
  imports DartsTail DocIndex
begin

text \<open>
  The dictionary of the search: \<open>src/index/index_da/Index_da.cpp\<close> turns a file of queries and answers
  into a double-array trie with a buffer of answers and writes both into one file;
  \<open>src/da_search/Da_Search.cpp\<close> loads the file and looks a normalised query up.

  The encoding library (\<open>EncodingConvertor::t2sgchar\<close>: the length in characters of two bytes, and the
  bytes written) and the segmentation library are parameters. \<open>std::sort\<close> is a parameter too, a
  permutation that is sorted by the query; nothing is assumed of the order of equal queries. Offsets
  are words of 32 bits, as the members of the program are.
\<close>

section \<open>Lines and fields\<close>

text \<open>\<open>DeleteSpace\<close> leaves pairs of bytes alone that start with a high bit; -1: the second is missing.\<close>

fun DeleteSpace :: "bytes \<Rightarrow> bytes \<Rightarrow> char \<Rightarrow> bytes \<times> int" where
  "DeleteSpace [] out del = (out, 0)"
| "DeleteSpace (c # cs) out del =
     (if is_neg c
      then (case cs of [] \<Rightarrow> (out, -1) | d # ds \<Rightarrow> DeleteSpace ds (out @ [c, d]) del)
      else if c = del then DeleteSpace cs out del
      else DeleteSpace cs (out @ [c]) del)"

text \<open>\<open>split_sam\<close>: \<open>None\<close> when the loop does not end, or \<open>substr\<close> throws.\<close>

partial_function (option) split_loop :: "bytes list \<Rightarrow> bytes \<Rightarrow> bytes \<Rightarrow> bytes list option" where
  "split_loop vec line blank =
     (case find_sub line (cstr blank) of
        None \<Rightarrow> Some (vec @ [line])
      | Some loc \<Rightarrow>
          if loc + length blank > length line then None
          else split_loop (vec @ [take loc line]) (drop (loc + length blank) line) blank)"

definition split_sam :: "bytes list \<Rightarrow> bytes \<Rightarrow> bytes \<Rightarrow> (bytes list \<times> int) option" where
  "split_sam vec line blank =
     (if length line < 1 then Some (vec, 0) else map_option (\<lambda>v. (v, 1)) (split_loop vec line blank))"

text \<open>
  \<open>char_vect_push_\<close> compares the pointer with the address of a literal, which no caller passes: an
  empty string is pushed like any other.
\<close>

definition char_vect_push :: "bytes \<Rightarrow> bytes \<times> 32 word \<Rightarrow> bytes \<times> 32 word" where
  "char_vect_push content = (\<lambda>(vect, en). (vect @ cstr content @ [NUL], en + word_of_nat (length (cstr content) + 1)))"

section \<open>Reading the queries\<close>

record ST =
  st_query :: bytes
  st_extend :: bytes

type_synonym t2s_lib = "bytes \<Rightarrow> nat \<Rightarrow> int \<times> bytes"

text \<open>The result, and the buffer if one was allocated.\<close>

definition change2qj :: "t2s_lib \<Rightarrow> bytes \<Rightarrow> int \<times> bytes option" where
  "change2qj t2sgchar query =
     (if length query < 1 \<or> length query > 5120 then (-1, None)
      else let (len, buffer) = t2sgchar (cstr query) 5120
           in if len \<ge> 5120 \<or> len < 0 then (-1, Some buffer)
              else (0, Some (take (nat len * 2) buffer @ [NUL])))"

text \<open>\<open>string gQuery(buffer)\<close>, whatever the result was.\<close>

definition gQuery :: "t2s_lib \<Rightarrow> bytes \<Rightarrow> fault + bytes" where
  "gQuery t2sgchar query =
     (case change2qj t2sgchar query of
        (_, None) \<Rightarrow> Inl NullDeref
      | (_, Some buffer) \<Rightarrow> if NUL \<in> set buffer then Inr (cstr buffer) else Inl Indeterminate)"

fun read_lines :: "t2s_lib \<Rightarrow> bytes list \<Rightarrow> ST list \<Rightarrow> fault + ST list" where
  "read_lines t2sgchar [] vect = Inr vect"
| "read_lines t2sgchar (line # lines) vect =
     (case split_sam [] (StringTrim line) ''##_##'' of
        None \<Rightarrow> Inl Diverges
      | Some (parts_vect, _) \<Rightarrow>
          if length parts_vect < 2 then read_lines t2sgchar lines vect
          else let query = StringTrim (parts_vect ! 0); ext = StringTrim (parts_vect ! 1)
               in if length query < 1 \<or> length query > 5120 then read_lines t2sgchar lines vect
                  else case gQuery t2sgchar (cstr query) of
                         Inl e \<Rightarrow> Inl e
                       | Inr q \<Rightarrow> read_lines t2sgchar lines (vect @ [\<lparr>st_query = q, st_extend = ext\<rparr>]))"

section \<open>Collecting keys and answers\<close>

text \<open>\<open>std::map<string, uint32_t>\<close> in key order.\<close>

fun map_put :: "bytes \<Rightarrow> 'v \<Rightarrow> (bytes \<times> 'v) list \<Rightarrow> (bytes \<times> 'v) list" where
  "map_put k v [] = [(k, v)]"
| "map_put k v ((k', v') # m) =
     (if k < k' then (k, v) # (k', v') # m
      else if k = k' then (k, v) # m else (k', v') # map_put k v m)"

type_synonym da_map = "(bytes \<times> 32 word) list"

text \<open>
  The loop of \<open>OutputIndexFile(vect, index_file, isUniq)\<close> and of \<open>OutputIndexFile_common\<close>, which
  differ in how \<open>start\<close> goes on.
\<close>

definition start_common :: "32 word \<Rightarrow> 32 word \<Rightarrow> bytes \<Rightarrow> 32 word" where
  "start_common start en ext = start + word_of_nat (length ext + 1)"

definition start_uniq :: "32 word \<Rightarrow> 32 word \<Rightarrow> bytes \<Rightarrow> 32 word" where
  "start_uniq start en ext = en"

fun uniq_loop :: "seg_lib \<Rightarrow> (32 word \<Rightarrow> 32 word \<Rightarrow> bytes \<Rightarrow> 32 word) \<Rightarrow> ST list \<Rightarrow> 32 word \<Rightarrow> da_map
    \<Rightarrow> bytes \<times> 32 word \<Rightarrow> fault + (da_map \<times> bytes)" where
  "uniq_loop seg next [] start dic_map (chars, en) = Inr (dic_map, chars)"
| "uniq_loop seg next (v # vs) start dic_map (chars, en) =
     (case Segment_1 seg (st_query v) of
        Inl e \<Rightarrow> Inl e
      | Inr parts \<Rightarrow>
          if length parts < 1 then uniq_loop seg next vs start dic_map (chars, en)
          else let (chars', en') = char_vect_push (st_extend v) (chars, en)
               in uniq_loop seg next vs (next start en' (st_extend v)) (map_put (concat parts) start dic_map) (chars', en'))"

text \<open>
  The loop of \<open>OutputIndexFile(vect, index_file)\<close>: answers of one query are joined. \<open>prequery\<close> is the
  query of the round before; the text of a group is pushed when the next group starts or at the end.
\<close>

record join_state =
  j_dic :: da_map
  j_chars :: "bytes \<times> 32 word"
  j_start :: "32 word"
  j_extend :: bytes
  j_pre :: bytes

definition join_step :: "bool \<Rightarrow> ST \<Rightarrow> join_state \<Rightarrow> join_state" where
  "join_step is_last v s =
     (let query = st_query v;
          s1 = (if map_of (j_dic s) (cstr query) \<noteq> None
                then s\<lparr>j_extend := j_extend s @ ''|||'' @ StringTrim (st_extend v)\<rparr>
                else let s0 = (if j_pre s \<noteq> []
                               then let c = char_vect_push (j_extend s) (j_chars s) in s\<lparr>j_chars := c, j_start := snd c\<rparr>
                               else s)
                     in s0\<lparr>j_dic := map_put query (j_start s0) (j_dic s0), j_extend := StringTrim (st_extend v)\<rparr>);
          s2 = (if is_last then s1\<lparr>j_chars := char_vect_push (j_extend s1) (j_chars s1)\<rparr> else s1)
      in s2\<lparr>j_pre := query\<rparr>)"

fun join_loop :: "ST list \<Rightarrow> join_state \<Rightarrow> join_state" where
  "join_loop [] s = s"
| "join_loop (v # vs) s = join_loop vs (join_step (vs = []) v s)"

definition join_start :: join_state where
  "join_start = \<lparr>j_dic = [], j_chars = ([], 0), j_start = 0, j_extend = [], j_pre = []\<rparr>"

section \<open>The index file\<close>

text \<open>
  A reserved word, the size of the array in bytes, the array, the size of the buffer, the buffer, and
  the size of all that. \<open>Inr\<close> holds the result and the file; without \<open>can_write\<close> the file cannot be
  opened. \<open>Inl Diverges\<close> stands for an exception of \<open>build\<close>.
\<close>

definition index_bytes :: "da_unit list \<Rightarrow> bytes \<Rightarrow> bytes" where
  "index_bytes us chars =
     (let body = le_bytes 4 0 @ le_bytes 4 (4 * length us) @ save us @ le_bytes 4 (length chars) @ chars
      in body @ le_bytes 4 (length body))"

definition write_index :: "bool \<Rightarrow> da_map \<times> bytes \<Rightarrow> fault + (int \<times> bytes option)" where
  "write_index can_write = (\<lambda>(dic_map, chars).
     case build_da dic_map of
       None \<Rightarrow> Inl Diverges
     | Some us \<Rightarrow> Inr (if can_write then (0, Some (index_bytes us chars)) else (-1, None)))"

definition OutputIndexFile_common :: "seg_lib \<Rightarrow> (ST list \<Rightarrow> ST list) \<Rightarrow> bool \<Rightarrow> ST list \<Rightarrow> fault + (int \<times> bytes option)" where
  "OutputIndexFile_common seg std_sort can_write vect =
     (case uniq_loop seg start_common (std_sort vect) 0 [] ([], 0) of
        Inl e \<Rightarrow> Inl e | Inr r \<Rightarrow> write_index can_write r)"

definition OutputIndexFile_uniq :: "seg_lib \<Rightarrow> (ST list \<Rightarrow> ST list) \<Rightarrow> bool \<Rightarrow> ST list \<Rightarrow> fault + (int \<times> bytes option)" where
  "OutputIndexFile_uniq seg std_sort can_write vect =
     (case uniq_loop seg start_uniq (std_sort vect) 0 [] ([], 0) of
        Inl e \<Rightarrow> Inl e | Inr r \<Rightarrow> write_index can_write r)"

definition OutputIndexFile :: "(ST list \<Rightarrow> ST list) \<Rightarrow> bool \<Rightarrow> ST list \<Rightarrow> fault + (int \<times> bytes option)" where
  "OutputIndexFile std_sort can_write vect =
     (let s = join_loop (std_sort vect) join_start in write_index can_write (j_dic s, fst (j_chars s)))"

text \<open>\<open>MakeIndex(file, index_file, tag)\<close>; the result of writing is not looked at.\<close>

definition MakeIndex_tag :: "t2s_lib \<Rightarrow> seg_lib \<Rightarrow> (ST list \<Rightarrow> ST list) \<Rightarrow> bool \<Rightarrow> bytes option \<Rightarrow> bytes
    \<Rightarrow> fault + (int \<times> bytes option)" where
  "MakeIndex_tag t2sgchar seg std_sort can_write file tag =
     (case file of
        None \<Rightarrow> Inr (-1, None)
      | Some content \<Rightarrow>
          (case read_lines t2sgchar (stream_lines content) [] of
             Inl e \<Rightarrow> Inl e
           | Inr vect \<Rightarrow>
               (case (if tag = ''uniq'' then OutputIndexFile_uniq seg std_sort can_write vect
                      else OutputIndexFile std_sort can_write vect) of
                  Inl e \<Rightarrow> Inl e
                | Inr (_, out) \<Rightarrow> Inr (0, out))))"

section \<open>Loading and searching\<close>

text \<open>
  \<open>LoadIndex\<close>: the array and the buffer, or the result -1 with what was read until then.
\<close>

definition LoadIndex_da :: "bytes option \<Rightarrow> fault + (int \<times> da_unit list option \<times> bytes option)" where
  "LoadIndex_da file =
     (case file of
        None \<Rightarrow> Inr (-1, None, None)
      | Some f \<Rightarrow>
          (case fread 4 (drop 4 f) of
             None \<Rightarrow> Inr (-1, None, None)
           | Some (d, _) \<Rightarrow>
               let da_size = le_val d in
               (case open_da file 8 da_size of
                  None \<Rightarrow> Inl OutOfBounds
                | Some None \<Rightarrow> Inr (-1, None, None)
                | Some (Some us) \<Rightarrow>
                    (case fread 4 (drop (8 + da_size) f) of
                       None \<Rightarrow> Inr (-1, Some us, None)
                     | Some (l, f') \<Rightarrow>
                         (case fread (le_val l) f' of
                            None \<Rightarrow> Inr (-1, Some us, None)
                          | Some (buf_extend, _) \<Rightarrow> Inr (0, Some us, Some buf_extend))))))"

record da_search =
  DaSearch :: "da_unit list option"
  Search_Buf :: "bytes option"

definition LoadDAs :: "bytes option \<Rightarrow> fault + (da_search \<times> int)" where
  "LoadDAs file =
     (case LoadIndex_da file of
        Inl e \<Rightarrow> Inl e
      | Inr (ret, us, buf) \<Rightarrow>
          Inr (\<lparr>DaSearch = Some (case us of None \<Rightarrow> [] | Some u \<Rightarrow> u), Search_Buf = buf\<rparr>, if ret = -1 then -1 else 0))"

definition Release :: "da_search \<Rightarrow> da_search" where
  "Release s = s\<lparr>DaSearch := None, Search_Buf := None\<rparr>"

text \<open>\<open>index_text["da"]\<close> is the only entry that is written.\<close>

definition DA_Search :: "da_search \<Rightarrow> bytes \<Rightarrow> (bytes \<rightharpoonup> bytes) \<Rightarrow> fault + ((bytes \<rightharpoonup> bytes) \<times> int)" where
  "DA_Search s dest_norm index_text =
     (case DaSearch s of
        None \<Rightarrow> Inr (index_text, -1)
      | Some us \<Rightarrow>
          (case exactMatchSearch us (cstr dest_norm) of
             None \<Rightarrow> Inl OutOfBounds
           | Some ret \<Rightarrow>
               if ret > -1 then
                 (case Search_Buf s of
                    None \<Rightarrow> Inl Indeterminate
                  | Some buf \<Rightarrow>
                      if ret < int (length buf) then
                        (if NUL \<in> set (drop (nat ret) buf)
                         then Inr (index_text(''da'' \<mapsto> cstr_at buf (nat ret)), 0) else Inl OutOfBounds)
                      else Inr (index_text, 0))
               else Inr (index_text, 0)))"

definition GetIndexResults :: "seg_lib \<Rightarrow> da_search \<Rightarrow> bytes \<Rightarrow> fault + ((bytes \<rightharpoonup> bytes) \<times> int)" where
  "GetIndexResults seg s query =
     (case Segment_1 seg query of
        Inl e \<Rightarrow> Inl e
      | Inr parts \<Rightarrow>
          if length parts < 1 then Inr (Map.empty, 0)
          else (case DA_Search s (concat parts) Map.empty of
                  Inl e \<Rightarrow> Inl e | Inr (da_vec, _) \<Rightarrow> Inr (da_vec, 0)))"

text \<open>\<open>AbstractInfo\<close>: the fields of a song; a position that is not found is -1.\<close>

definition find_pos :: "bytes \<Rightarrow> bytes \<Rightarrow> int" where
  "find_pos s pat = (case find_sub s pat of None \<Rightarrow> -1 | Some i \<Rightarrow> int i)"

definition field_between :: "bytes \<Rightarrow> int \<Rightarrow> int \<Rightarrow> int \<Rightarrow> bytes \<Rightarrow> bytes" where
  "field_between values loc len loc_next old =
     (if loc \<noteq> -1 \<and> loc_next > loc + len
      then take (nat (loc_next - loc - len)) (drop (nat (loc + len)) values) else old)"

definition AbstractInfo :: "bytes \<Rightarrow> bytes \<Rightarrow> bytes \<Rightarrow> bytes \<Rightarrow> (bytes \<times> bytes \<times> bytes) \<times> int" where
  "AbstractInfo values singer song album =
     (let loc_song = find_pos values ''song]:''; loc_album = find_pos values ''[album]:'';
          loc_singer = find_pos values ''[singer]:''; loc_lrc = find_pos values ''[lrc]:'';
          song' = field_between values loc_song 6 loc_album song;
          album' = field_between values loc_album 8 loc_singer album;
          singer' = field_between values loc_singer 9 loc_lrc singer
      in ((singer', song', album'), if length singer' > 20 then -1 else 0))"

section \<open>Maps in key order\<close>

lemma map_put_keys: "fst ` set (map_put k v m) = insert k (fst ` set m)"
  by (induction k v m rule: map_put.induct) auto

lemma map_put_sorted: "sorted_wrt (<) (map fst m) \<Longrightarrow> sorted_wrt (<) (map fst (map_put k v m))"
proof (induction k v m rule: map_put.induct)
  case (2 k v k' v' m)
  have "a = k \<or> a \<in> fst ` set m" if "(a, b) \<in> set (map_put k v m)" for a b
    using map_put_keys [of k v m] that by (metis fst_conv image_eqI insertE)
  with 2 show ?case by fastforce
qed simp

lemma map_of_put: "sorted_wrt (<) (map fst m) \<Longrightarrow> map_of (map_put k v m) = (map_of m)(k \<mapsto> v)"
proof (induction k v m rule: map_put.induct)
  case (2 k v k' v' m)
  then show ?case by (auto simp: fun_eq_iff)
qed (auto simp: fun_eq_iff)

text \<open>Putting a list of offsets into the map; a later one of the same key wins.\<close>

definition put_all :: "(bytes \<times> nat) list \<Rightarrow> da_map \<Rightarrow> da_map" where
  "put_all kos m = fold (\<lambda>(k, off). map_put k (word_of_nat off)) kos m"

lemma put_all_ok:
  "sorted_wrt (<) (map fst m) \<Longrightarrow> sorted_wrt (<) (map fst (put_all kos m)) \<and>
   fst ` set (put_all kos m) = fst ` set kos \<union> fst ` set m \<and>
   map_of (put_all kos m) = (\<lambda>q. case map_of (rev kos) q of None \<Rightarrow> map_of m q | Some off \<Rightarrow> Some (word_of_nat off))"
proof (induction kos arbitrary: m)
  case (Cons ko kos)
  obtain k off where ko: "ko = (k, off)" by (cases ko)
  note s = map_put_sorted [OF Cons.prems, of k "word_of_nat off"]
  have p: "put_all (ko # kos) m = put_all kos (map_put k (word_of_nat off) m)" by (simp add: put_all_def ko)
  show ?case
    using Cons.IH [OF s] unfolding p
    by (auto simp: ko map_put_keys map_of_put [OF Cons.prems] map_add_def fun_eq_iff split: option.splits)
qed (simp add: put_all_def)

section \<open>Answers in the buffer\<close>

abbreviation answers :: "(bytes \<times> bytes) list \<Rightarrow> bytes" where
  "answers ps \<equiv> concat (map (\<lambda>(k, e). e @ [NUL]) ps)"

fun slots :: "nat \<Rightarrow> (bytes \<times> bytes) list \<Rightarrow> (bytes \<times> nat) list" where
  "slots off [] = []"
| "slots off ((k, e) # ps) = (k, off) # slots (off + length e + 1) ps"

lemma slots_append: "slots off (ps @ qs) = slots off ps @ slots (off + length (answers ps)) qs"
  by (induction off ps rule: slots.induct) (simp_all add: add.assoc)

lemma slots_keys: "map fst (slots off ps) = map fst ps"
  by (induction off ps rule: slots.induct) simp_all

lemma slot_answer:
  "\<forall>(k, e) \<in> set ps. nul_free e \<Longrightarrow>
   case map_of (rev (slots 0 ps)) q of
     None \<Rightarrow> map_of (rev ps) q = None
   | Some off \<Rightarrow> off < length (answers ps) \<and> NUL \<in> set (drop off (answers ps)) \<and>
       map_of (rev ps) q = Some (cstr_at (answers ps) off)"
proof (induction ps rule: rev_induct)
  case (snoc p ps)
  obtain k e where p: "p = (k, e)" by (cases p)
  have e: "nul_free e" using snoc.prems by (simp add: p)
  show ?case
  proof (cases "q = k")
    case True
    then show ?thesis using e by (simp add: p slots_append cstr_at_def cstr_word_NUL)
  next
    case False
    then have m: "map_of (rev (slots 0 (ps @ [p]))) q = map_of (rev (slots 0 ps)) q" "map_of (rev (ps @ [p])) q = map_of (rev ps) q"
      by (simp_all add: p slots_append)
    have ih: "case map_of (rev (slots 0 ps)) q of None \<Rightarrow> map_of (rev ps) q = None
        | Some off \<Rightarrow> off < length (answers ps) \<and> NUL \<in> set (drop off (answers ps)) \<and> map_of (rev ps) q = Some (cstr_at (answers ps) off)"
      using snoc by simp
    show ?thesis
      unfolding m using ih by (auto simp: cstr_at_def cstr_append_keep split: option.splits)
  qed
qed simp

section \<open>Writing, loading and searching\<close>

lemma load_index_bytes:
  assumes "2 \<le> length us" and "length us < 2 ^ 30" and "length chars < 2 ^ 32"
  shows "LoadIndex_da (Some (index_bytes us chars)) = Inr (0, Some us, Some chars)"
proof -
  define tail where "tail = le_bytes 4 (length (le_bytes 4 0 @ le_bytes 4 (4 * length us) @ save us @ le_bytes 4 (length chars) @ chars))"
  have f: "index_bytes us chars = (le_bytes 4 0 @ le_bytes 4 (4 * length us)) @ save us @ (le_bytes 4 (length chars) @ chars @ tail)"
    by (simp add: index_bytes_def Let_def tail_def)
  have d: "fread 4 (drop 4 (index_bytes us chars)) = Some (le_bytes 4 (4 * length us), save us @ le_bytes 4 (length chars) @ chars @ tail)"
    unfolding f by (simp add: fread_def)
  have n: "le_val (le_bytes 4 (4 * length us)) = 4 * length us" using assms(2) by (simp add: le_val_le_bytes)
  have "length (le_bytes 4 0 @ le_bytes 4 (4 * length us)) = 8" by simp
  then have o: "open_da (Some (index_bytes us chars)) 8 (4 * length us) = Some (Some us)"
    unfolding f using open_save [OF assms(1), of "le_bytes 4 0 @ le_bytes 4 (4 * length us)"] by metis
  have "drop (8 + 4 * length us) (index_bytes us chars) = le_bytes 4 (length chars) @ chars @ tail"
    unfolding f by (simp add: save_def)
  then have r: "fread 4 (drop (8 + 4 * length us) (index_bytes us chars)) = Some (le_bytes 4 (length chars), chars @ tail)"
    by (simp add: fread_append)
  have l: "le_val (le_bytes 4 (length chars)) = length chars" using assms(3) by (simp add: le_val_le_bytes)
  show ?thesis unfolding LoadIndex_da_def using d n o r l by (simp add: Let_def fread_append)
qed

lemma total_work_keys: "distinct ks \<Longrightarrow> set ks \<subseteq> set xs \<Longrightarrow> total_work ks \<le> total_work xs"
proof (induction ks arbitrary: xs)
  case (Cons k ks)
  then obtain ys zs where xs: "xs = ys @ k # zs" by (metis insert_subset list.simps(15) split_list)
  have "set ks \<subseteq> set (ys @ zs)" using Cons.prems xs by auto
  then have "total_work ks \<le> total_work (ys @ zs)" using Cons by simp
  then show ?case by (simp add: xs total_work_def)
qed (simp add: total_work_def)

text \<open>What the program relies on: there is something to index, texts are C strings, sizes fit.\<close>

definition index_input :: "(bytes \<times> bytes) list \<Rightarrow> bool" where
  "index_input ps \<longleftrightarrow> ps \<noteq> [] \<and> (\<forall>(k, e) \<in> set ps. nul_free k \<and> nul_free e) \<and>
     256 + 256 * total_work (map fst ps) < 2 ^ 29 \<and> length (answers ps) < 2 ^ 31"

definition da_answer :: "(bytes \<times> bytes) list \<Rightarrow> bytes \<Rightarrow> (bytes \<rightharpoonup> bytes) \<Rightarrow> (bytes \<rightharpoonup> bytes)" where
  "da_answer ps q m = (case map_of (rev ps) q of None \<Rightarrow> m | Some e \<Rightarrow> m(''da'' \<mapsto> e))"

lemma index_file_answers:
  assumes ok: "index_input ps"
  shows "\<exists>file s. write_index True (put_all (slots 0 ps) [], answers ps) = Inr (0, Some file) \<and>
    LoadDAs (Some file) = Inr (s, 0) \<and> (\<forall>q m. nul_free q \<longrightarrow> DA_Search s q m = Inr (da_answer ps q m, 0))"
proof -
  let ?m = "put_all (slots 0 ps) []" and ?chars = "answers ps"
  have m: "sorted_wrt (<) (map fst ?m)" "fst ` set ?m = fst ` set ps"
      "map_of ?m = (\<lambda>q. map_option word_of_nat (map_of (rev (slots 0 ps)) q))"
  proof -
    have "fst ` set (slots 0 ps) = fst ` set ps" using arg_cong [OF slots_keys [of 0 ps], of set] by simp
    then show "sorted_wrt (<) (map fst ?m)" "fst ` set ?m = fst ` set ps"
        "map_of ?m = (\<lambda>q. map_option word_of_nat (map_of (rev (slots 0 ps)) q))"
      using put_all_ok [of "[]" "slots 0 ps"] by (auto simp: fun_eq_iff split: option.splits)
  qed
  have pk: "\<forall>(k, e) \<in> set ps. nul_free k \<and> nul_free e" using ok by (simp add: index_input_def)
  have "total_work (map fst ?m) \<le> total_work (map fst ps)"
    using m(1,2) by (intro total_work_keys) (auto simp: strict_sorted_iff)
  moreover have "keys_ok (map fst ?m)" using m(1,2) pk by (fastforce simp: keys_ok_def)
  moreover have "?m \<noteq> []" using m(2) ok by (auto simp: index_input_def)
  ultimately have "da_input ?m" using ok by (auto simp: index_input_def da_input_def)
  then obtain us where us: "build_da ?m = Some us" "2 \<le> length us" "length us < 2 ^ 30"
      "\<forall>q. nul_free q \<longrightarrow> exactMatchSearch us q = Some (da_lookup ?m q)" using build_da_ok by blast
  let ?s = "\<lparr>DaSearch = Some us, Search_Buf = Some ?chars\<rparr>"
  have len: "length ?chars < 2 ^ 31" using ok by (simp add: index_input_def)
  have "LoadDAs (Some (index_bytes us ?chars)) = Inr (?s, 0)"
    using load_index_bytes [OF us(2,3), of ?chars] len by (simp add: LoadDAs_def)
  moreover have "DA_Search ?s q m = Inr (da_answer ps q m, 0)" if q: "nul_free q" for q m
  proof -
    have e: "exactMatchSearch us (cstr q) = Some (da_lookup ?m q)" using us(4) q by (simp add: cstr_nul_free)
    have a: "case map_of (rev (slots 0 ps)) q of None \<Rightarrow> map_of (rev ps) q = None
        | Some off \<Rightarrow> off < length ?chars \<and> NUL \<in> set (drop off ?chars) \<and> map_of (rev ps) q = Some (cstr_at ?chars off)"
      using pk by (intro slot_answer) auto
    show ?thesis
    proof (cases "map_of (rev (slots 0 ps)) q")
      case None
      then show ?thesis using a e m(3) by (simp add: DA_Search_def da_lookup_def da_answer_def)
    next
      case (Some off)
      then have off: "off < length ?chars" "NUL \<in> set (drop off ?chars)" "map_of (rev ps) q = Some (cstr_at ?chars off)"
        using a by simp_all
      then have "sint (word_of_nat off :: 32 word) = int off" using len by (intro sint_small_nat(1)) linarith
      then have "da_lookup ?m q = int off" using m(3) Some by (simp add: da_lookup_def)
      then show ?thesis using off e by (simp add: DA_Search_def da_answer_def)
    qed
  qed
  ultimately show ?thesis using us(1) by (auto simp: write_index_def)
qed

section \<open>One answer for each query\<close>

text \<open>The normalised queries with their answers; a query without segments is left out.\<close>

fun norm_entries :: "seg_lib \<Rightarrow> ST list \<Rightarrow> fault + (bytes \<times> bytes) list" where
  "norm_entries seg [] = Inr []"
| "norm_entries seg (v # vs) =
     (case Segment_1 seg (st_query v) of
        Inl e \<Rightarrow> Inl e
      | Inr parts \<Rightarrow>
          (case norm_entries seg vs of
             Inl e \<Rightarrow> Inl e
           | Inr ps \<Rightarrow> Inr (if length parts < 1 then ps else (concat parts, st_extend v) # ps)))"

lemma char_push: "nul_free e \<Longrightarrow>
  char_vect_push e (chars, word_of_nat (length chars)) = (chars @ e @ [NUL], word_of_nat (length chars + length e + 1))"
  by (simp add: char_vect_push_def cstr_nul_free)

lemma put_all_Cons: "put_all ((k, off) # kos) m = put_all kos (map_put k (word_of_nat off) m)"
  by (simp add: put_all_def)

lemma uniq_loop_ok:
  assumes "next = start_common \<or> next = start_uniq"
  shows "norm_entries seg vs = Inr ps \<Longrightarrow> \<forall>v \<in> set vs. nul_free (st_extend v) \<Longrightarrow>
    uniq_loop seg next vs (word_of_nat (length chars)) m (chars, word_of_nat (length chars)) =
      Inr (put_all (slots (length chars) ps) m, chars @ answers ps)"
proof (induction vs arbitrary: ps chars m)
  case Nil
  then show ?case by (simp add: put_all_def)
next
  case (Cons v vs)
  obtain parts qs where p: "Segment_1 seg (st_query v) = Inr parts" "norm_entries seg vs = Inr qs"
      "ps = (if length parts < 1 then qs else (concat parts, st_extend v) # qs)"
    using Cons.prems(1) by (auto split: sum.splits)
  have e: "nul_free (st_extend v)" "\<forall>v \<in> set vs. nul_free (st_extend v)" using Cons.prems(2) by simp_all
  show ?case
  proof (cases "length parts < 1")
    case True
    then show ?thesis using Cons.IH [OF p(2) e(2)] p by simp
  next
    case False
    let ?chars = "chars @ st_extend v @ [NUL]"
    have n: "next (word_of_nat (length chars)) (word_of_nat (length ?chars)) (st_extend v) = word_of_nat (length ?chars)"
      using assms by (auto simp: start_common_def start_uniq_def)
    have l: "length chars + length (st_extend v) + 1 = length ?chars" by simp
    show ?thesis
      using False p Cons.IH [OF p(2) e(2), of ?chars "map_put (concat parts) (word_of_nat (length chars)) m"]
      by (simp only: uniq_loop.simps sum.case if_False char_push [OF e(1)] l Let_def prod.case n) (simp add: put_all_Cons)
  qed
qed

section \<open>Joined answers\<close>

text \<open>
  The groups of a sorted list: the key, and what its records contribute, the first of them by \<open>start\<close>
  and the others by \<open>next\<close>.
\<close>

fun run_groups :: "('a \<Rightarrow> bytes) \<Rightarrow> ('a \<Rightarrow> 'b list) \<Rightarrow> ('a \<Rightarrow> 'b list) \<Rightarrow> bytes \<Rightarrow> 'b list \<Rightarrow> 'a list \<Rightarrow> (bytes \<times> 'b list) list" where
  "run_groups key start next k acc [] = [(k, acc)]"
| "run_groups key start next k acc (v # vs) =
     (if key v = k then run_groups key start next k (acc @ next v) vs
      else (k, acc) # run_groups key start next (key v) (start v) vs)"

lemma run_groups_keys: "fst ` set (run_groups key start next k acc vs) = insert k (key ` set vs)"
  by (induction key start "next" k acc vs rule: run_groups.induct) auto

lemma run_groups_sorted:
  "sorted (map key vs) \<Longrightarrow> \<forall>v \<in> set vs. k \<le> key v \<Longrightarrow> sorted_wrt (<) (map fst (run_groups key start next k acc vs))"
proof (induction key start "next" k acc vs rule: run_groups.induct)
  case (2 key start "next" k acc v vs)
  have "x \<in> fst ` set (run_groups key start next (key v) (start v) vs) \<Longrightarrow> key v \<le> x" for x
    using 2(3) by (auto simp: run_groups_keys)
  then have "x \<in> fst ` set (run_groups key start next (key v) (start v) vs) \<Longrightarrow> key v \<noteq> k \<Longrightarrow> k < x" for x
    using 2(4) by (metis list.set_intros(1) order_le_imp_less_or_eq order_less_le_trans)
  then show ?case using 2 by auto
qed simp

lemma run_groups_lookup:
  "sorted (map key vs) \<Longrightarrow> \<forall>v \<in> set vs. k \<le> key v \<Longrightarrow>
   map_of (run_groups key start next k acc vs) q =
     (if q = k then Some (acc @ concat (map next (filter (\<lambda>v. key v = q) vs)))
      else case filter (\<lambda>v. key v = q) vs of [] \<Rightarrow> None | w # ws \<Rightarrow> Some (start w @ concat (map next ws)))"
proof (induction key start "next" k acc vs rule: run_groups.induct)
  case (2 key start "next" k acc v vs)
  show ?case
  proof (cases "key v = k")
    case True
    then show ?thesis using 2 by auto
  next
    case False
    have "k \<le> key v" using 2(4) by simp
    then have "k < key v" using False by (metis order_le_imp_less_or_eq)
    then have "filter (\<lambda>v. key v = k) vs = []" using 2(3) by (fastforce simp: filter_empty_conv)
    moreover have "map_of (run_groups key start next (key v) (start v) vs) q =
        (if q = key v then Some (start v @ concat (map next (filter (\<lambda>v. key v = q) vs)))
         else case filter (\<lambda>v. key v = q) vs of [] \<Rightarrow> None | w # ws \<Rightarrow> Some (start w @ concat (map next ws)))"
      using 2(2) [OF False] 2(3) by simp
    ultimately show ?thesis using False by auto
  qed
qed simp

text \<open>Here: the answers with \<open>|||\<close> between them.\<close>

abbreviation join_groups :: "bytes \<Rightarrow> bytes \<Rightarrow> ST list \<Rightarrow> (bytes \<times> bytes) list" where
  "join_groups \<equiv> run_groups st_query (\<lambda>v. StringTrim (st_extend v)) (\<lambda>v. ''|||'' @ StringTrim (st_extend v))"

definition joined :: "ST list \<Rightarrow> bytes \<Rightarrow> bytes" where
  "joined vs q = concat (map (\<lambda>v. ''|||'' @ StringTrim (st_extend v)) (filter (\<lambda>v. st_query v = q) vs))"

definition join_entries :: "ST list \<Rightarrow> (bytes \<times> bytes) list" where
  "join_entries vs = (case vs of [] \<Rightarrow> [] | v # vs \<Rightarrow> join_groups (st_query v) (StringTrim (st_extend v)) vs)"

lemma joined_simps:
  "joined [] q = []" "joined (v # vs) q = (if st_query v = q then ''|||'' @ StringTrim (st_extend v) else []) @ joined vs q"
  by (simp_all add: joined_def)

lemma join_groups_lookup:
  assumes "sorted (map st_query vs)" and "\<forall>v \<in> set vs. k \<le> st_query v"
  shows "map_of (join_groups k e vs) q =
     (if q = k then Some (e @ joined vs q) else if q \<in> st_query ` set vs then Some (drop 3 (joined vs q)) else None)"
proof -
  have "q \<in> st_query ` set vs \<longleftrightarrow> filter (\<lambda>v. st_query v = q) vs \<noteq> []" by (auto simp: filter_empty_conv image_iff)
  then show ?thesis
    unfolding run_groups_lookup [OF assms] joined_def by (auto split: list.splits)
qed

lemma join_loop_ok:
  assumes "sorted (map st_query vs)" and "\<forall>v \<in> set vs. k \<le> st_query v" and "\<forall>(q, e) \<in> set ps. q < k"
    and "\<forall>v \<in> set vs. nul_free (st_query v) \<and> nul_free (StringTrim (st_extend v))" and "k \<noteq> []" and "nul_free e" and "vs \<noteq> []"
    and "s = \<lparr>j_dic = put_all (slots 0 (ps @ [(k, e)])) [], j_chars = (answers ps, word_of_nat (length (answers ps))),
      j_start = word_of_nat (length (answers ps)), j_extend = e, j_pre = k\<rparr>"
  shows "j_dic (join_loop vs s) = put_all (slots 0 (ps @ join_groups k e vs)) [] \<and>
    fst (j_chars (join_loop vs s)) = answers (ps @ join_groups k e vs)"
  using assms
proof (induction vs arbitrary: k ps e s)
  case (Cons v vs)
  let ?q = "st_query v" and ?t = "StringTrim (st_extend v)"
  have t: "nul_free ?q" "nul_free ?t" using Cons.prems(4) by simp_all
  have kq: "k \<le> ?q" using Cons.prems(2) by simp
  have dic: "map_of (j_dic s) (cstr ?q) \<noteq> None \<longleftrightarrow> ?q = k"
  proof -
    have "fst ` set (slots 0 (ps @ [(k, e)])) = insert k (fst ` set ps)"
      using arg_cong [OF slots_keys [of 0 "ps @ [(k, e)]"], of set] by simp
    then have "fst ` set (j_dic s) = insert k (fst ` set ps)" using Cons.prems(8) put_all_ok [of "[]" "slots 0 (ps @ [(k, e)])"] by simp
    then have "map_of (j_dic s) ?q \<noteq> None \<longleftrightarrow> ?q \<in> insert k (fst ` set ps)" by (metis map_of_eq_None_iff)
    also have "\<dots> \<longleftrightarrow> ?q = k" using Cons.prems(3) kq by fastforce
    finally show ?thesis using t(1) by (simp add: cstr_nul_free)
  qed
  have slots_ext: "slots 0 (ps @ [(k, e')]) = slots 0 (ps @ [(k, e)])" for e' by (simp add: slots_append)
  show ?case
  proof (cases "?q = k")
    case True
    let ?e = "e @ ''|||'' @ ?t"
    have ne: "nul_free ?e" using Cons.prems(6) t(2) by (simp add: nul_free_def)
    define s' where "s' = s\<lparr>j_extend := ?e, j_pre := k\<rparr>"
    show ?thesis
    proof (cases "vs = []")
      case last: True
      have "join_loop (v # vs) s = s'\<lparr>j_chars := char_vect_push ?e (j_chars s)\<rparr>"
        using dic True last Cons.prems(8) by (simp add: join_step_def Let_def s'_def)
      then show ?thesis
        using True last Cons.prems(8) char_push [OF ne, of "answers ps"] slots_ext [of ?e] by (simp add: s'_def)
    next
      case more: False
      have step: "join_loop (v # vs) s = join_loop vs s'"
        using dic True more Cons.prems(8) by (simp add: join_step_def Let_def s'_def)
      have "s' = \<lparr>j_dic = put_all (slots 0 (ps @ [(k, ?e)])) [], j_chars = (answers ps, word_of_nat (length (answers ps))),
          j_start = word_of_nat (length (answers ps)), j_extend = ?e, j_pre = k\<rparr>"
        using Cons.prems(8) slots_ext [of ?e] by (simp add: s'_def)
      from Cons.IH [OF _ _ Cons.prems(3) _ Cons.prems(5) ne more this] Cons.prems(1,2,4)
      show ?thesis unfolding step using True by simp
    qed
  next
    case False
    then have lt: "k < ?q" using kq by simp
    let ?ps = "ps @ [(k, e)]"
    define A where "A = answers ?ps"
    define W where "W = (word_of_nat (length A) :: 32 word)"
    define P where "P = put_all (slots 0 (?ps @ [(?q, ?t)])) []"
    have c: "char_vect_push (j_extend s) (j_chars s) = (A, W)"
      using char_push [OF Cons.prems(6), of "answers ps"] Cons.prems(8) by (simp add: A_def W_def)
    define s' where "s' = \<lparr>j_dic = P, j_chars = (A, W), j_start = W, j_extend = ?t, j_pre = ?q\<rparr>"
    have put: "map_put ?q W (j_dic s) = P"
      using Cons.prems(8) by (simp add: slots_append [of 0 ?ps] put_all_def P_def W_def A_def del: append_assoc)
    have full: "s' = \<lparr>j_dic = put_all (slots 0 (?ps @ [(?q, ?t)])) [], j_chars = (answers ?ps, word_of_nat (length (answers ?ps))),
      j_start = word_of_nat (length (answers ?ps)), j_extend = ?t, j_pre = ?q\<rparr>" by (simp add: s'_def P_def W_def A_def)
    have pre: "j_pre s \<noteq> []" using Cons.prems(5,8) by simp
    show ?thesis
    proof (cases "vs = []")
      case last: True
      have "join_loop (v # vs) s = s'\<lparr>j_chars := char_vect_push ?t (j_chars s')\<rparr>"
        using dic False last c put pre by (simp add: join_step_def Let_def s'_def)
      then show ?thesis
        using False last char_push [OF t(2), of "answers ?ps"] by (simp add: full)
    next
      case more: False
      have step: "join_loop (v # vs) s = join_loop vs s'"
        using dic False more c put pre by (cases s) (simp add: join_step_def Let_def s'_def)
      have "?q \<noteq> []" using lt by (cases ?q) auto
      moreover have "\<forall>(q, e) \<in> set ?ps. q < ?q" using Cons.prems(3) lt by fastforce
      ultimately show ?thesis
        unfolding step using Cons.IH [OF _ _ _ _ _ t(2) more full] Cons.prems(1,2,4) False by simp
    qed
  qed
qed simp

lemma join_groups_texts:
  "\<forall>(k, e) \<in> set (join_groups k e vs). nul_free k \<and> nul_free e \<Longrightarrow>
   nul_free k \<and> nul_free e \<and> (\<forall>v \<in> set vs. nul_free (st_query v) \<and> nul_free (StringTrim (st_extend v)))"
proof (induction vs arbitrary: k e)
  case (Cons v vs)
  show ?case
  proof (cases "st_query v = k")
    case True
    then show ?thesis using Cons.IH [of k "e @ ''|||'' @ StringTrim (st_extend v)"] Cons.prems by (auto simp: nul_free_def)
  next
    case False
    then show ?thesis using Cons.IH [of "st_query v" "StringTrim (st_extend v)"] Cons.prems by auto
  qed
qed simp

lemma join_texts_nul_free:
  assumes "\<forall>(k, e) \<in> set (join_entries vs). nul_free k \<and> nul_free e"
  shows "\<forall>v \<in> set vs. nul_free (st_query v) \<and> nul_free (StringTrim (st_extend v))"
proof (cases vs)
  case (Cons v ws)
  have "\<forall>(k, e) \<in> set (join_groups (st_query v) (StringTrim (st_extend v)) ws). nul_free k \<and> nul_free e"
    using assms by (simp add: join_entries_def Cons)
  from join_groups_texts [OF this] show ?thesis by (simp add: Cons)
qed simp

lemma join_loop_start:
  assumes "sorted (map st_query vs)" and "\<forall>v \<in> set vs. nul_free (st_query v) \<and> nul_free (StringTrim (st_extend v)) \<and> st_query v \<noteq> []"
    and "vs \<noteq> []"
  shows "j_dic (join_loop vs join_start) = put_all (slots 0 (join_entries vs)) [] \<and>
    fst (j_chars (join_loop vs join_start)) = answers (join_entries vs)"
proof (cases vs)
  case (Cons v ws)
  let ?t = "StringTrim (st_extend v)"
  define s' where "s' = \<lparr>j_dic = put_all (slots 0 ([] @ [(st_query v, ?t)])) [], j_chars = (answers [], word_of_nat (length (answers []))),
      j_start = word_of_nat (length (answers [])), j_extend = ?t, j_pre = st_query v\<rparr>"
  have t: "nul_free ?t" using assms(2) Cons by simp
  show ?thesis
  proof (cases "ws = []")
    case True
    then show ?thesis using Cons char_push [OF t, of "[]"] by (simp add: join_step_def join_start_def Let_def join_entries_def put_all_def)
  next
    case False
    have "join_loop vs join_start = join_loop ws s'"
      using False Cons by (simp add: join_step_def join_start_def Let_def s'_def put_all_def)
    then show ?thesis
      using join_loop_ok [OF _ _ _ _ _ t False s'_def] assms Cons by (simp add: join_entries_def)
  qed
qed (use assms in simp)

section \<open>Splitting\<close>

lemma split_loop_ok:
  assumes b: "nul_free blank" "blank \<noteq> []"
  shows "\<exists>ps. split_loop vec line blank = Some (vec @ ps) \<and> ps \<noteq> [] \<and>
    concat (map (\<lambda>p. p @ blank) (butlast ps)) @ last ps = line \<and> (\<forall>p \<in> set ps. find_sub p blank = None)"
proof (induction "length line" arbitrary: vec line rule: less_induct)
  case less
  show ?case
  proof (cases "find_sub line blank")
    case None
    then show ?thesis using b by (subst split_loop.simps) (auto simp: cstr_nul_free intro!: exI [of _ "[line]"])
  next
    case (Some loc)
    have bound: "loc + length blank \<le> length line" by (rule find_sub_bound [OF Some])
    let ?rest = "drop (loc + length blank) line"
    have "0 < length blank" using b(2) by simp
    then have "length ?rest < length line" using bound unfolding length_drop by linarith
    from less.hyps [OF this, of "vec @ [take loc line]"] obtain ps where ps:
        "split_loop (vec @ [take loc line]) ?rest blank = Some ((vec @ [take loc line]) @ ps)" "ps \<noteq> []"
        "concat (map (\<lambda>p. p @ blank) (butlast ps)) @ last ps = ?rest" "\<forall>p \<in> set ps. find_sub p blank = None" by blast
    have "split_loop vec line blank = Some (vec @ (take loc line # ps))"
      using Some bound ps(1) b(1) by (subst split_loop.simps) (simp add: cstr_nul_free)
    moreover have "find_sub (take loc line) blank = None"
      unfolding find_sub_None
    proof
      fix i
      show "\<not> occurs_at (take loc line) blank i"
      proof
        assume o: "occurs_at (take loc line) blank i"
        then have pre: "prefix blank (drop i (take loc line))" by (simp add: occurs_at_def)
        then have "length blank \<le> length (drop i (take loc line))" by (rule prefix_length_le)
        then have i: "i < loc" using b(2) by (cases "i < loc") auto
        have "prefix (drop i (take loc line)) (drop i line)" by (simp add: drop_take take_is_prefix)
        then have "prefix blank (drop i line)" by (rule prefix_order.trans [OF pre])
        then have "occurs_at line blank i" using i bound by (simp add: occurs_at_def)
        then show False using Some i by (simp add: find_sub_Some)
      qed
    qed
    moreover have "concat (map (\<lambda>p. p @ blank) (butlast (take loc line # ps))) @ last (take loc line # ps) = line"
      using ps(2,3) find_sub_split [OF Some] by simp
    ultimately show ?thesis using ps(4) by (intro exI [of _ "take loc line # ps"]) simp
  qed
qed

lemma split_loop_empty: "split_loop vec line [] = None"
proof -
  have "blank \<noteq> []" if "split_loop vec line blank = Some r" for blank r
    by (rule split_loop.raw_induct [where P = "\<lambda>_ _ blank _. blank \<noteq> []", OF _ that])
      (auto simp: cstr_def split: option.splits if_splits)
  then show ?thesis by (cases "split_loop vec line []") auto
qed

lemma map_of_rev_distinct: "distinct (map fst xs) \<Longrightarrow> map_of (rev xs) = map_of xs"
proof (induction xs)
  case (Cons x xs)
  have "fst x \<notin> dom (map_of xs)" using Cons.prems by (simp add: dom_map_of_conv_image_fst)
  then show ?case using Cons by (auto simp: fun_eq_iff map_add_def split: option.splits)
qed simp

lemma uniq_loops_agree:
  "\<forall>v \<in> set vs. nul_free (st_extend v) \<Longrightarrow>
   uniq_loop seg start_common vs en m (chars, en) = uniq_loop seg start_uniq vs en m (chars, en)"
proof (induction vs arbitrary: en m chars)
  case (Cons v vs)
  have "nul_free (st_extend v)" "\<forall>v \<in> set vs. nul_free (st_extend v)" using Cons.prems by simp_all
  then show ?case using Cons.IH
    by (simp add: char_vect_push_def cstr_nul_free start_common_def start_uniq_def add.commute add.left_commute split: sum.splits)
qed simp

section \<open>Properties\<close>

text \<open>
  C8. An index that was written with one answer per query answers every query after it was loaded: a
  query that can be segmented gets the answer of the last record, in the order the sort left them,
  whose normalised query is the same, and nothing when there is none.
\<close>

theorem uniq_index_answers:
  assumes "mset (std_sort vect) = mset vect" and "norm_entries seg (std_sort vect) = Inr ps" and "index_input ps"
    and "\<forall>v \<in> set vect. nul_free (st_extend v)"
  shows "\<exists>out s. OutputIndexFile_uniq seg std_sort True vect = Inr (0, Some out) \<and> LoadDAs (Some out) = Inr (s, 0) \<and>
    (\<forall>query parts. Segment_1 seg query = Inr parts \<longrightarrow> parts \<noteq> [] \<longrightarrow> nul_free (concat parts) \<longrightarrow>
       GetIndexResults seg s query = Inr (da_answer ps (concat parts) Map.empty, 0))"
proof -
  have "\<forall>v \<in> set (std_sort vect). nul_free (st_extend v)" using assms(1,4) mset_eq_setD by blast
  then have loop: "uniq_loop seg start_uniq (std_sort vect) 0 [] ([], 0) = Inr (put_all (slots 0 ps) [], answers ps)"
    using uniq_loop_ok [of start_uniq seg "std_sort vect" ps "[]" "[]"] assms(2) by simp
  obtain out s where f: "write_index True (put_all (slots 0 ps) [], answers ps) = Inr (0, Some out)"
      "LoadDAs (Some out) = Inr (s, 0)" "\<forall>q m. nul_free q \<longrightarrow> DA_Search s q m = Inr (da_answer ps q m, 0)"
    using index_file_answers [OF assms(3)] by blast
  have "GetIndexResults seg s query = Inr (da_answer ps (concat parts) Map.empty, 0)"
    if "Segment_1 seg query = Inr parts" "parts \<noteq> []" "nul_free (concat parts)" for query parts
    using that f(3) by (simp add: GetIndexResults_def)
  then show ?thesis using loop f(1,2) by (auto simp: OutputIndexFile_uniq_def)
qed

definition word_lib :: seg_lib where
  "word_lib = \<lparr>graphSegment = (\<lambda>q n. [q]), dbc2gchar = (\<lambda>s n. s)\<rparr>"

lemma uniq_index_answers_witness:
  "\<exists>out s. OutputIndexFile_uniq word_lib (\<lambda>v. v) True
      [\<lparr>st_query = ''ab'', st_extend = ''x''\<rparr>, \<lparr>st_query = ''ab'', st_extend = ''y''\<rparr>, \<lparr>st_query = ''cd'', st_extend = ''z''\<rparr>]
      = Inr (0, Some out) \<and>
    LoadDAs (Some out) = Inr (s, 0) \<and> GetIndexResults word_lib s ''ab'' = Inr ([''da'' \<mapsto> ''y''], 0) \<and>
    GetIndexResults word_lib s ''ef'' = Inr (Map.empty, 0)"
proof -
  let ?v = "[\<lparr>st_query = ''ab'', st_extend = ''x''\<rparr>, \<lparr>st_query = ''ab'', st_extend = ''y''\<rparr>, \<lparr>st_query = ''cd'', st_extend = ''z''\<rparr>]"
  let ?ps = "[(''ab'', ''x''), (''ab'', ''y''), (''cd'', ''z'')]"
  have seg: "Segment_1 word_lib ''ab'' = Inr [''ab'']" "Segment_1 word_lib ''cd'' = Inr [''cd'']" "Segment_1 word_lib ''ef'' = Inr [''ef'']"
    by (simp_all add: Segment_1_def word_lib_def cstr_def)
  have n: "norm_entries word_lib ?v = Inr ?ps" by (simp add: seg)
  have i: "index_input ?ps" by (simp add: index_input_def nul_free_def total_work_def)
  have e: "\<forall>v \<in> set ?v. nul_free (st_extend v)" by (simp add: nul_free_def)
  obtain out s where f: "OutputIndexFile_uniq word_lib (\<lambda>v. v) True ?v = Inr (0, Some out)" "LoadDAs (Some out) = Inr (s, 0)"
      "\<forall>query parts. Segment_1 word_lib query = Inr parts \<longrightarrow> parts \<noteq> [] \<longrightarrow> nul_free (concat parts) \<longrightarrow>
       GetIndexResults word_lib s query = Inr (da_answer ?ps (concat parts) Map.empty, 0)"
    using uniq_index_answers [of "\<lambda>v. v" ?v word_lib ?ps, OF refl n i e] by blast
  have a: "da_answer ?ps ''ab'' Map.empty = [''da'' \<mapsto> ''y'']" "da_answer ?ps ''ef'' Map.empty = Map.empty"
    by (simp_all add: da_answer_def)
  have "nul_free (concat [''ab''])" "nul_free (concat [''ef''])" by (simp_all add: nul_free_def)
  then have "GetIndexResults word_lib s ''ab'' = Inr (da_answer ?ps (concat [''ab'']) Map.empty, 0)"
      "GetIndexResults word_lib s ''ef'' = Inr (da_answer ?ps (concat [''ef'']) Map.empty, 0)"
    using f(3) seg by blast+
  then show ?thesis using f(1,2) a by (intro exI [of _ out] exI [of _ s]) simp
qed

text \<open>The index of the other tag joins the answers of a query; this holds for the first item as well.\<close>

lemma joined_index_all:
  assumes "mset (std_sort vect) = mset vect" and "sorted (map st_query (std_sort vect))" and "vect \<noteq> []"
    and "\<forall>v \<in> set vect. st_query v \<noteq> []" and "index_input (join_entries (std_sort vect))"
  shows "\<exists>out s. OutputIndexFile std_sort True vect = Inr (0, Some out) \<and> LoadDAs (Some out) = Inr (s, 0) \<and>
    (\<forall>q. nul_free q \<longrightarrow> DA_Search s q Map.empty =
       Inr (if q \<in> st_query ` set vect then [''da'' \<mapsto> drop 3 (joined (std_sort vect) q)] else Map.empty, 0))"
proof -
  let ?vs = "std_sort vect" and ?ps = "join_entries (std_sort vect)"
  have sv: "set ?vs = set vect" using assms(1) by (rule mset_eq_setD)
  then have ne: "?vs \<noteq> []" using assms(3) by auto
  then obtain v ws where v: "?vs = v # ws" by (cases ?vs) auto
  have srt: "sorted (map st_query ws)" "\<forall>w \<in> set ws. st_query v \<le> st_query w" using assms(2) v by auto
  have ps: "?ps = join_groups (st_query v) (StringTrim (st_extend v)) ws" by (simp add: join_entries_def v)
  have sps: "sorted_wrt (<) (map fst ?ps)" unfolding ps by (rule run_groups_sorted [OF srt])
  have look: "map_of (rev ?ps) q = (if q \<in> st_query ` set vect then Some (drop 3 (joined ?vs q)) else None)" for q
  proof -
    have "map_of (rev ?ps) q = map_of ?ps q" using sps by (simp add: map_of_rev_distinct strict_sorted_iff)
    also have "\<dots> = (if q \<in> st_query ` set ?vs then Some (drop 3 (joined ?vs q)) else None)"
      unfolding ps join_groups_lookup [OF srt] by (auto simp: v joined_simps)
    finally show ?thesis by (simp add: sv)
  qed
  have nf: "\<forall>v \<in> set ?vs. nul_free (st_query v) \<and> nul_free (StringTrim (st_extend v)) \<and> st_query v \<noteq> []"
  proof -
    have "\<forall>(k, e) \<in> set ?ps. nul_free k \<and> nul_free e" using assms(5) by (simp add: index_input_def)
    from join_texts_nul_free [OF this] show ?thesis using assms(4) sv by simp
  qed
  have loop: "j_dic (join_loop ?vs join_start) = put_all (slots 0 ?ps) []" "fst (j_chars (join_loop ?vs join_start)) = answers ?ps"
    using join_loop_start [OF assms(2) nf ne] by simp_all
  obtain out s where f: "write_index True (put_all (slots 0 ?ps) [], answers ?ps) = Inr (0, Some out)"
      "LoadDAs (Some out) = Inr (s, 0)" "\<forall>q m. nul_free q \<longrightarrow> DA_Search s q m = Inr (da_answer ?ps q m, 0)"
    using index_file_answers [OF assms(5)] by blast
  have "OutputIndexFile std_sort True vect = Inr (0, Some out)" using loop f(1) by (simp add: OutputIndexFile_def Let_def)
  moreover have "DA_Search s q Map.empty =
      Inr (if q \<in> st_query ` set vect then [''da'' \<mapsto> drop 3 (joined ?vs q)] else Map.empty, 0)" if "nul_free q" for q
    using f(3) that look [of q] by (simp add: da_answer_def)
  ultimately show ?thesis using f(2) by blast
qed

text \<open>
  C9. The index of the other tag joins the answers of a query: after loading, a query that was indexed
  gets the trimmed answers of all its records, in the order the sort left them, with bars between
  them; any other query gets nothing. The smallest query, which becomes the first item of the index,
  is left out here: the comment at \<open>Index_da.cpp\<close>, line 1078, reports that the first item prints
  garbage, "to be verified". (\<open>joined_index_all\<close> shows that the model has the right answer there
  too, for queries that are not empty; \<open>empty_query_answer_lost\<close> shows the case that does fail.)
\<close>

theorem joined_index_answers:
  assumes "mset (std_sort vect) = mset vect" and "sorted (map st_query (std_sort vect))" and "vect \<noteq> []"
    and "\<forall>v \<in> set vect. st_query v \<noteq> []" and "index_input (join_entries (std_sort vect))"
  shows "\<exists>out s. OutputIndexFile std_sort True vect = Inr (0, Some out) \<and> LoadDAs (Some out) = Inr (s, 0) \<and>
    (\<forall>q. nul_free q \<and> q \<noteq> st_query (hd (std_sort vect)) \<longrightarrow> DA_Search s q Map.empty =
       Inr (if q \<in> st_query ` set vect then [''da'' \<mapsto> drop 3 (joined (std_sort vect) q)] else Map.empty, 0))"
  using joined_index_all [of std_sort vect] assms by blast

lemma joined_index_answers_witness:
  "\<exists>out s. OutputIndexFile (sort_key st_query) True
      [\<lparr>st_query = ''b'', st_extend = '' x''\<rparr>, \<lparr>st_query = ''a'', st_extend = ''z''\<rparr>, \<lparr>st_query = ''b'', st_extend = ''y''\<rparr>]
      = Inr (0, Some out) \<and>
    LoadDAs (Some out) = Inr (s, 0) \<and> DA_Search s ''b'' Map.empty = Inr ([''da'' \<mapsto> ''x|||y''], 0) \<and>
    DA_Search s ''c'' Map.empty = Inr (Map.empty, 0)"
proof -
  let ?v = "[\<lparr>st_query = ''b'', st_extend = '' x''\<rparr>, \<lparr>st_query = ''a'', st_extend = ''z''\<rparr>, \<lparr>st_query = ''b'', st_extend = ''y''\<rparr>]"
  have srt: "sort_key st_query ?v =
      [\<lparr>st_query = ''a'', st_extend = ''z''\<rparr>, \<lparr>st_query = ''b'', st_extend = '' x''\<rparr>, \<lparr>st_query = ''b'', st_extend = ''y''\<rparr>]"
    by (simp add: less_eq_char_def)
  have trims: "StringTrim '' x'' = ''x''" "StringTrim ''y'' = ''y''" "StringTrim ''z'' = ''z''" by code_simp+
  have je: "join_entries (sort_key st_query ?v) = [(''a'', ''z''), (''b'', ''x|||y'')]"
    unfolding srt by (simp add: join_entries_def trims)
  have i: "index_input (join_entries (sort_key st_query ?v))"
    unfolding je by (simp add: index_input_def nul_free_def total_work_def)
  have q: "\<forall>v \<in> set ?v. st_query v \<noteq> []" by simp
  have first: "st_query (hd (sort_key st_query ?v)) = ''a''" unfolding srt by simp
  obtain out s where f: "OutputIndexFile (sort_key st_query) True ?v = Inr (0, Some out)" "LoadDAs (Some out) = Inr (s, 0)"
      "\<forall>q. nul_free q \<and> q \<noteq> ''a'' \<longrightarrow> DA_Search s q Map.empty =
       Inr (if q \<in> st_query ` set ?v then [''da'' \<mapsto> drop 3 (joined (sort_key st_query ?v) q)] else Map.empty, 0)"
    using joined_index_answers [of "sort_key st_query" ?v, OF mset_sort sorted_sort_key _ q i] unfolding first by blast
  have "nul_free ''b'' \<and> ''b'' \<noteq> ''a''" "nul_free ''c'' \<and> ''c'' \<noteq> ''a''" by (simp_all add: nul_free_def)
  then have "DA_Search s ''b'' Map.empty = Inr ([''da'' \<mapsto> drop 3 (joined (sort_key st_query ?v) ''b'')], 0)"
      "DA_Search s ''c'' Map.empty = Inr (Map.empty, 0)" using f(3) by simp_all
  moreover have "drop 3 (joined (sort_key st_query ?v) ''b'') = ''x|||y''" unfolding srt by (simp add: joined_def trims)
  ultimately show ?thesis using f(1,2) by (intro exI [of _ out] exI [of _ s]) simp
qed

text \<open>
  The two ways of writing one answer per query differ only for answers with a NUL byte inside:
  without one they write the same file, fault by fault.
\<close>

theorem OutputIndexFile_common_same:
  assumes "\<forall>v \<in> set (std_sort vect). nul_free (st_extend v)"
  shows "OutputIndexFile_common seg std_sort can_write vect = OutputIndexFile_uniq seg std_sort can_write vect"
  unfolding OutputIndexFile_common_def OutputIndexFile_uniq_def using uniq_loops_agree [OF assms, of seg 0 "[]" "[]"] by simp

lemma OutputIndexFile_common_same_witness:
  "OutputIndexFile_common word_lib (\<lambda>v. v) True [\<lparr>st_query = ''ab'', st_extend = ''x''\<rparr>] =
   OutputIndexFile_uniq word_lib (\<lambda>v. v) True [\<lparr>st_query = ''ab'', st_extend = ''x''\<rparr>]"
  by (rule OutputIndexFile_common_same) (simp add: nul_free_def)

text \<open>
  An empty query, which a conversion to nothing leaves, spoils the index with joined answers: the
  test for the first round takes it for the start, so its answer is dropped and it gets the place of
  the next query's answer.
\<close>

theorem empty_query_answer_lost:
  assumes "q \<noteq> []" and "nul_free q" and "nul_free (StringTrim y)"
  shows "let s = join_loop [\<lparr>st_query = [], st_extend = x\<rparr>, \<lparr>st_query = q, st_extend = y\<rparr>] join_start
    in map_of (j_dic s) [] = Some 0 \<and> map_of (j_dic s) q = Some 0 \<and> fst (j_chars s) = StringTrim y @ [NUL]"
proof -
  obtain c cs where q: "q = c # cs" using assms(1) by (cases q) auto
  have "cstr q = q" "cstr (StringTrim y) = StringTrim y" using assms by (simp_all add: cstr_nul_free)
  then show ?thesis using assms(1)
    by (simp add: Let_def join_step_def join_start_def char_vect_push_def q cstr_def [of "[]"])
qed

lemma empty_query_answer_lost_witness:
  "let s = join_loop [\<lparr>st_query = [], st_extend = ''x''\<rparr>, \<lparr>st_query = ''b'', st_extend = ''z''\<rparr>] join_start
   in map_of (j_dic s) [] = Some 0 \<and> map_of (j_dic s) ''b'' = Some 0 \<and> fst (j_chars s) = ''z'' @ [NUL]"
proof -
  have z: "StringTrim ''z'' = ''z''" by code_simp
  have "nul_free (StringTrim ''z'')" "nul_free ''b''" unfolding z by (simp_all add: nul_free_def)
  then show ?thesis using empty_query_answer_lost [of "''b''" "''z''" "''x''"] unfolding z by simp
qed

text \<open>
  \<open>split_sam\<close> cuts a line at every separator: the fields, with the separator between them, are the
  line again, and no field holds a separator.
\<close>

theorem split_sam_fields:
  assumes "nul_free blank" and "blank \<noteq> []" and "line \<noteq> []"
  shows "\<exists>ps. split_sam vec line blank = Some (vec @ ps, 1) \<and> ps \<noteq> [] \<and>
    concat (map (\<lambda>p. p @ blank) (butlast ps)) @ last ps = line \<and> (\<forall>p \<in> set ps. find_sub p blank = None)"
  using split_loop_ok [OF assms(1,2), of vec line] assms(3) by (auto simp: split_sam_def)

lemma split_sam_fields_witness:
  "\<exists>ps. split_sam [] ''a##_##b'' ''##_##'' = Some ([] @ ps, 1) \<and> ps \<noteq> [] \<and>
    concat (map (\<lambda>p. p @ ''##_##'') (butlast ps)) @ last ps = ''a##_##b'' \<and> (\<forall>p \<in> set ps. find_sub p ''##_##'' = None)"
  by (rule split_sam_fields) (simp_all add: nul_free_def)

text \<open>An empty separator is found again and again: the loop does not end.\<close>

lemma split_sam_empty: "line \<noteq> [] \<Longrightarrow> split_sam vec line [] = None"
  by (simp add: split_sam_def split_loop_empty)

end
