(* ===== verification/WhiteBlackList.thy ===== *)
theory WhiteBlackList
  imports IndexDa
begin

text \<open>
  The index with seven columns of \<open>src/index/index_da/Index_da.cpp\<close>: the records of one query are one
  group; the trie maps the query to the number of its group, and every column has a buffer of strings
  and, for each group, the range of its bytes in the buffer. \<open>FormatDlgCor.cpp\<close>, which prepares the
  input of the other index, is here too.
\<close>

section \<open>Records\<close>

record Pos_Reform =
  pr_vr :: bytes
  pr_label :: bytes
  pr_type :: bytes
  pr_reform :: bytes
  pr_item_query :: bytes
  pr_data :: bytes
  pr_iswappc :: bytes
  pr_query_len :: int

record WhiteBlackList_TMP =
  wb_query :: bytes
  wb_reforms :: "Pos_Reform list"

text \<open>The columns, in the order of the file.\<close>

definition columns :: "(Pos_Reform \<Rightarrow> bytes) list" where
  "columns = [pr_vr, pr_label, pr_type, pr_reform, pr_item_query, pr_data, pr_iswappc]"

section \<open>Reading the records\<close>

text \<open>
  A line with seven fields passes the test, but the eighth is read. The constructor of
  \<open>Pos_Reform\<close> takes C strings. Nothing is trimmed: the last field keeps the end of the line.
\<close>

fun read_records :: "t2s_lib \<Rightarrow> bytes list \<Rightarrow> WhiteBlackList_TMP list \<Rightarrow> fault + WhiteBlackList_TMP list" where
  "read_records t2sgchar [] vect = Inr vect"
| "read_records t2sgchar (line # lines) vect =
     (case split_sam [] (cstr line) ''_$##$_'' of
        None \<Rightarrow> Inl Diverges
      | Some (parts_vect, _) \<Rightarrow>
          if length parts_vect < 7 then read_records t2sgchar lines vect
          else if length parts_vect < 8 then Inl OutOfBounds
          else let query = parts_vect ! 0
               in if length query < 1 \<or> length query > 5120 then read_records t2sgchar lines vect
                  else case gQuery t2sgchar query of
                         Inl e \<Rightarrow> Inl e
                       | Inr q \<Rightarrow>
                           read_records t2sgchar lines (vect @ [\<lparr>wb_query = q, wb_reforms =
                             [\<lparr>pr_vr = cstr (parts_vect ! 1), pr_label = cstr (parts_vect ! 2), pr_type = cstr (parts_vect ! 3),
                               pr_reform = cstr (parts_vect ! 4), pr_item_query = cstr (parts_vect ! 5),
                               pr_data = cstr (parts_vect ! 6), pr_iswappc = cstr (parts_vect ! 7),
                               pr_query_len = int (length query)\<rparr>]\<rparr>]))"

section \<open>Collecting the groups\<close>

text \<open>One column: where the group began, the buffer with its end, the ranges of the groups before.\<close>

record column =
  c_begin :: "32 word"
  c_chars :: "bytes \<times> 32 word"
  c_ranges :: "(32 word \<times> 32 word) list"

record wb_state =
  w_cols :: "column list"
  w_keys :: da_map
  w_num :: "32 word"
  w_querylen :: "nat list"
  w_pre :: bytes

definition close_column :: "column \<Rightarrow> column" where
  "close_column c = c\<lparr>c_ranges := c_ranges c @ [(c_begin c, snd (c_chars c) - 1)], c_begin := snd (c_chars c)\<rparr>"

text \<open>\<open>close_group\<close>: the ranges of a query are complete.\<close>

definition close_group :: "bytes \<Rightarrow> wb_state \<Rightarrow> wb_state" where
  "close_group q s = s\<lparr>w_cols := map close_column (w_cols s), w_keys := map_put q (w_num s) (w_keys s),
     w_num := w_num s + 1, w_querylen := w_querylen s @ [length q]\<rparr>"

definition push_field :: "(Pos_Reform \<Rightarrow> bytes) \<Rightarrow> Pos_Reform \<Rightarrow> column \<Rightarrow> column" where
  "push_field f r c = c\<lparr>c_chars := char_vect_push (f r) (c_chars c)\<rparr>"

definition push_record :: "Pos_Reform \<Rightarrow> wb_state \<Rightarrow> wb_state" where
  "push_record r s = s\<lparr>w_cols := map2 (\<lambda>f c. push_field f r c) columns (w_cols s)\<rparr>"

definition record_step :: "WhiteBlackList_TMP \<Rightarrow> wb_state \<Rightarrow> wb_state" where
  "record_step itr s =
     (let query = wb_query itr; s0 = (if w_pre s = [] then s\<lparr>w_pre := query\<rparr> else s)
      in if query = [] then s0
         else let s1 = (if w_pre s0 \<noteq> query then close_group (w_pre s0) s0 else s0)
              in (fold push_record (wb_reforms itr) s1)\<lparr>w_pre := query\<rparr>)"

definition wb_start :: wb_state where
  "wb_start = \<lparr>w_cols = replicate 7 \<lparr>c_begin = 0, c_chars = ([], 0), c_ranges = []\<rparr>, w_keys = [], w_num = 0,
     w_querylen = [], w_pre = []\<rparr>"

text \<open>The last group belongs to the query of the last record.\<close>

definition collect :: "WhiteBlackList_TMP list \<Rightarrow> wb_state" where
  "collect vect = close_group (if vect = [] then [] else wb_query (last vect)) (fold record_step vect wb_start)"

section \<open>The file\<close>

definition w32_bytes :: "32 word \<Rightarrow> bytes" where
  "w32_bytes w = le_bytes 4 (unat w)"

definition ranges_bytes :: "(32 word \<times> 32 word) list \<Rightarrow> bytes" where
  "ranges_bytes rs = le_bytes 4 (length rs) @ concat (map (\<lambda>(b, e). w32_bytes b @ w32_bytes e) rs)"

definition chars_bytes :: "bytes \<Rightarrow> bytes" where
  "chars_bytes cs = le_bytes 4 (length cs) @ cs"

definition lens_bytes :: "nat list \<Rightarrow> bytes" where
  "lens_bytes ls = le_bytes 4 (length ls) @ concat (map (le_bytes 4) ls)"

definition wb_bytes :: "da_unit list \<Rightarrow> wb_state \<Rightarrow> bytes" where
  "wb_bytes us s =
     (let body = le_bytes 4 0 @ le_bytes 4 (4 * length us) @ save us @
            concat (map (\<lambda>c. ranges_bytes (c_ranges c)) (w_cols s)) @
            concat (map (\<lambda>c. chars_bytes (fst (c_chars c))) (w_cols s)) @ lens_bytes (w_querylen s)
      in body @ le_bytes 4 (length body))"

definition OutputIndexFile_wb :: "(WhiteBlackList_TMP list \<Rightarrow> WhiteBlackList_TMP list) \<Rightarrow> bool
    \<Rightarrow> WhiteBlackList_TMP list \<Rightarrow> fault + (int \<times> bytes option)" where
  "OutputIndexFile_wb std_sort can_write vect =
     (let s = collect (std_sort vect)
      in case build_da (w_keys s) of
           None \<Rightarrow> Inl Diverges
         | Some us \<Rightarrow> Inr (if can_write then (0, Some (wb_bytes us s)) else (-1, None)))"

definition MakeIndex_wb :: "t2s_lib \<Rightarrow> (WhiteBlackList_TMP list \<Rightarrow> WhiteBlackList_TMP list) \<Rightarrow> bool
    \<Rightarrow> bytes option \<Rightarrow> fault + (int \<times> bytes option)" where
  "MakeIndex_wb t2sgchar std_sort can_write file =
     (case file of
        None \<Rightarrow> Inr (-1, None)
      | Some content \<Rightarrow>
          (case read_records t2sgchar (fgets_lines 10240 content) [] of
             Inl e \<Rightarrow> Inl e
           | Inr vect \<Rightarrow>
               (case OutputIndexFile_wb std_sort can_write vect of Inl e \<Rightarrow> Inl e | Inr (_, out) \<Rightarrow> Inr (0, out))))"

section \<open>Loading\<close>

record wb_index =
  i_da :: "da_unit list"
  i_ranges :: "(32 word \<times> 32 word) list list"
  i_bufs :: "bytes list"
  i_querylen :: "32 word list"

fun read_ranges :: "nat \<Rightarrow> bytes \<Rightarrow> (32 word \<times> 32 word) list" where
  "read_ranges 0 f = []"
| "read_ranges (Suc n) f =
     (word_of_nat (le_val (take 4 f)), word_of_nat (le_val (take 4 (drop 4 f)))) # read_ranges n (drop 8 f)"

text \<open>A length, and that many items of a size; \<open>None\<close> is the result -1.\<close>

definition read_block :: "nat \<Rightarrow> bytes \<Rightarrow> (nat \<times> bytes \<times> bytes) option" where
  "read_block sz f =
     (case fread 4 f of
        None \<Rightarrow> None
      | Some (l, f1) \<Rightarrow> (case fread (sz * le_val l) f1 of None \<Rightarrow> None | Some (b, f2) \<Rightarrow> Some (le_val l, b, f2)))"

fun read_all :: "nat \<Rightarrow> (nat \<Rightarrow> bytes \<Rightarrow> 'a) \<Rightarrow> nat \<Rightarrow> bytes \<Rightarrow> ('a list \<times> bytes) option" where
  "read_all sz dec 0 f = Some ([], f)"
| "read_all sz dec (Suc k) f =
     (case read_block sz f of
        None \<Rightarrow> None
      | Some (n, b, f') \<Rightarrow>
          (case read_all sz dec k f' of None \<Rightarrow> None | Some (xs, f'') \<Rightarrow> Some (dec n b # xs, f'')))"

text \<open>The ranges of the seven columns, their buffers, and the lengths of the queries.\<close>

definition load_ranges :: "bytes \<Rightarrow> ((32 word \<times> 32 word) list list \<times> bytes) option" where
  "load_ranges f = read_all 8 read_ranges 7 f"

definition load_bufs :: "bytes \<Rightarrow> (bytes list \<times> bytes) option" where
  "load_bufs f = read_all 1 (\<lambda>n b. b) 7 f"

definition load_querylen :: "bytes \<Rightarrow> (32 word list \<times> bytes) option" where
  "load_querylen f = (case read_block 4 f of None \<Rightarrow> None | Some (n, b, f') \<Rightarrow> Some (read_units n b, f'))"

text \<open>The file that cannot be opened is read all the same.\<close>

definition LoadIndex_wb :: "bytes option \<Rightarrow> fault + (int \<times> wb_index option)" where
  "LoadIndex_wb file =
     (case file of
        None \<Rightarrow> Inl NullDeref
      | Some f \<Rightarrow>
          (case fread 4 (drop 4 f) of
             None \<Rightarrow> Inr (-1, None)
           | Some (d, _) \<Rightarrow>
               let da_size = le_val d in
               (case open_da file 8 da_size of
                  None \<Rightarrow> Inl OutOfBounds
                | Some None \<Rightarrow> Inr (-1, None)
                | Some (Some us) \<Rightarrow>
                    (case load_ranges (drop (8 + da_size) f) of
                       None \<Rightarrow> Inr (-1, None)
                     | Some (ranges, f1) \<Rightarrow>
                         (case load_bufs f1 of
                            None \<Rightarrow> Inr (-1, None)
                          | Some (bufs, f2) \<Rightarrow>
                              (case load_querylen f2 of
                                 None \<Rightarrow> Inr (-1, None)
                               | Some (querylen, _) \<Rightarrow>
                                   Inr (0, Some \<lparr>i_da = us, i_ranges = ranges, i_bufs = bufs, i_querylen = querylen\<rparr>)))))))"

section \<open>Preparing the input\<close>

text \<open>
  \<open>PreProcess_dlg_cor\<close>: answers of one normalised query are joined; the table is printed in key order.
\<close>

definition add_text :: "bytes \<Rightarrow> bytes \<Rightarrow> (bytes \<times> bytes) list \<Rightarrow> (bytes \<times> bytes) list" where
  "add_text k t hash_uniq =
     (case map_of hash_uniq k of
        None \<Rightarrow> map_put k t hash_uniq
      | Some old \<Rightarrow> map_put k (old @ ''##-##'' @ t) hash_uniq)"

fun preprocess_lines :: "seg_lib \<Rightarrow> bytes list \<Rightarrow> (bytes \<times> bytes) list \<Rightarrow> fault + (bytes \<times> bytes) list" where
  "preprocess_lines seg [] hash_uniq = Inr hash_uniq"
| "preprocess_lines seg (line # lines) hash_uniq =
     (case StringSplit (StringTrim line) ''##_##'' of
        None \<Rightarrow> Inl Diverges
      | Some vec \<Rightarrow>
          if vec = [] then Inl OutOfBounds
          else (case Segment_1 seg (vec ! 0) of
                  Inl e \<Rightarrow> Inl e
                | Inr parts \<Rightarrow>
                    if length vec < 2 then Inl OutOfBounds
                    else preprocess_lines seg lines
                           (add_text (if length parts < 1 then vec ! 0 else concat parts) (vec ! 1) hash_uniq)))"

definition PreProcess_dlg_cor :: "seg_lib \<Rightarrow> bytes option \<Rightarrow> fault + (int \<times> bytes)" where
  "PreProcess_dlg_cor seg file =
     (case file of
        None \<Rightarrow> Inr (-1, [])
      | Some content \<Rightarrow>
          (case preprocess_lines seg (stream_lines content) [] of
             Inl e \<Rightarrow> Inl e
           | Inr hash_uniq \<Rightarrow> Inr (0, concat (map (\<lambda>(k, t). k @ ''##_##'' @ t @ [CHR 0x0A]) hash_uniq))))"

section \<open>The groups of a sorted list\<close>

type_synonym wb_group = "bytes \<times> Pos_Reform list"

abbreviation wb_groups :: "bytes \<Rightarrow> Pos_Reform list \<Rightarrow> WhiteBlackList_TMP list \<Rightarrow> wb_group list" where
  "wb_groups \<equiv> run_groups wb_query wb_reforms wb_reforms"

definition groups_of :: "WhiteBlackList_TMP list \<Rightarrow> wb_group list" where
  "groups_of vs = (case vs of [] \<Rightarrow> [] | v # vs \<Rightarrow> wb_groups (wb_query v) (wb_reforms v) vs)"

text \<open>The bytes of a column for some records, and for the groups before.\<close>

definition text_of :: "(Pos_Reform \<Rightarrow> bytes) \<Rightarrow> Pos_Reform list \<Rightarrow> bytes" where
  "text_of f rs = concat (map (\<lambda>r. cstr (f r) @ [NUL]) rs)"

definition texts :: "(Pos_Reform \<Rightarrow> bytes) \<Rightarrow> wb_group list \<Rightarrow> bytes" where
  "texts f gs = concat (map (\<lambda>(k, rs). text_of f rs) gs)"

fun ranges_of :: "(Pos_Reform \<Rightarrow> bytes) \<Rightarrow> nat \<Rightarrow> wb_group list \<Rightarrow> (32 word \<times> 32 word) list" where
  "ranges_of f off [] = []"
| "ranges_of f off ((k, rs) # gs) =
     (word_of_nat off, word_of_nat (off + length (text_of f rs)) - 1) # ranges_of f (off + length (text_of f rs)) gs"

lemma texts_simps: "texts f [] = []" "texts f ((k, rs) # gs) = text_of f rs @ texts f gs"
    "texts f (gs @ hs) = texts f gs @ texts f hs"
  by (simp_all add: texts_def)

lemma ranges_append: "ranges_of f off (gs @ hs) = ranges_of f off gs @ ranges_of f (off + length (texts f gs)) hs"
  by (induction f off gs rule: ranges_of.induct) (simp_all add: texts_simps add.assoc)

lemma length_ranges [simp]: "length (ranges_of f off gs) = length gs"
  by (induction f off gs rule: ranges_of.induct) simp_all

definition col_of :: "wb_group list \<Rightarrow> Pos_Reform list \<Rightarrow> (Pos_Reform \<Rightarrow> bytes) \<Rightarrow> column" where
  "col_of gs rs f = \<lparr>c_begin = word_of_nat (length (texts f gs)),
     c_chars = (texts f gs @ text_of f rs, word_of_nat (length (texts f gs @ text_of f rs))), c_ranges = ranges_of f 0 gs\<rparr>"

definition keys_of :: "wb_group list \<Rightarrow> (bytes \<times> nat) list" where
  "keys_of gs = zip (map fst gs) [0..<length gs]"

definition state_of :: "wb_group list \<Rightarrow> bytes \<Rightarrow> Pos_Reform list \<Rightarrow> wb_state" where
  "state_of gs k rs = \<lparr>w_cols = map (col_of gs rs) columns, w_keys = put_all (keys_of gs) [],
     w_num = word_of_nat (length gs), w_querylen = map (\<lambda>g. length (fst g)) gs, w_pre = k\<rparr>"

lemma push_field_col: "push_field f r (col_of gs rs f) = col_of gs (rs @ [r]) f"
  by (simp add: push_field_def col_of_def char_vect_push_def text_of_def)

lemma push_record_state: "push_record r (state_of gs k rs) = state_of gs k (rs @ [r])"
proof -
  have "map2 (\<lambda>f c. push_field f r c) fs (map (col_of gs rs) fs) = map (col_of gs (rs @ [r])) fs" for fs
    by (induction fs) (simp_all add: push_field_col)
  then show ?thesis by (simp add: push_record_def state_of_def)
qed

lemma push_records_state: "fold push_record rs' (state_of gs k rs) = state_of gs k (rs @ rs')"
  by (induction rs' arbitrary: rs) (simp_all add: push_record_state)

lemma close_group_state: "close_group k (state_of gs k' rs) = state_of (gs @ [(k, rs)]) k' []"
proof -
  have "close_column (col_of gs rs f) = col_of (gs @ [(k, rs)]) [] f" for f
    by (simp add: close_column_def col_of_def ranges_append texts_simps text_of_def)
  then have "map close_column (map (col_of gs rs) columns) = map (col_of (gs @ [(k, rs)]) []) columns" by simp
  moreover have "map_put k (word_of_nat (length gs)) (put_all (keys_of gs) []) = put_all (keys_of (gs @ [(k, rs)])) []"
    by (simp add: keys_of_def put_all_def)
  ultimately show ?thesis by (simp add: close_group_def state_of_def add.commute)
qed

lemma record_step_state:
  assumes "k \<noteq> []" and "wb_query v \<noteq> []"
  shows "record_step v (state_of gs k rs) =
    (if wb_query v = k then state_of gs k (rs @ wb_reforms v) else state_of (gs @ [(k, rs)]) (wb_query v) (wb_reforms v))"
proof -
  have pre: "w_pre (state_of gs' k' rs') = k'" for gs' k' rs' by (simp add: state_of_def)
  have upd: "(state_of gs' k' rs')\<lparr>w_pre := q\<rparr> = state_of gs' q rs'" for gs' k' rs' q by (simp add: state_of_def)
  show ?thesis using assms
    by (auto simp: record_step_def Let_def pre close_group_state push_records_state upd)
qed

lemma fold_groups:
  "k \<noteq> [] \<Longrightarrow> \<forall>v \<in> set vs. wb_query v \<noteq> [] \<Longrightarrow>
   \<exists>k'. close_group (if vs = [] then k else wb_query (last vs)) (fold record_step vs (state_of gs k rs)) =
     state_of (gs @ wb_groups k rs vs) k' []"
proof (induction vs arbitrary: gs k rs)
  case Nil
  then show ?case by (auto simp: close_group_state)
next
  case (Cons v vs)
  have v: "wb_query v \<noteq> []" "\<forall>v \<in> set vs. wb_query v \<noteq> []" using Cons.prems(2) by simp_all
  have l: "(if vs = [] then wb_query v else wb_query (last vs)) = wb_query (last (v # vs))" by simp
  define gs' rs' where "gs' = (if wb_query v = k then gs else gs @ [(k, rs)])" and "rs' = (if wb_query v = k then rs @ wb_reforms v else wb_reforms v)"
  have step: "record_step v (state_of gs k rs) = state_of gs' (wb_query v) rs'"
    using record_step_state [OF Cons.prems(1) v(1), of gs rs] by (auto simp: gs'_def rs'_def)
  have g: "gs @ wb_groups k rs (v # vs) = gs' @ wb_groups (wb_query v) rs' vs" by (simp add: gs'_def rs'_def)
  show ?case
    using Cons.IH [OF v, of gs' rs'] unfolding l g by (simp only: fold_simps step list.distinct if_False)
qed

lemma collect_groups:
  assumes "vs \<noteq> []" and "\<forall>v \<in> set vs. wb_query v \<noteq> []"
  shows "\<exists>k. collect vs = state_of (groups_of vs) k []"
proof (cases vs)
  case (Cons v ws)
  have "wb_start\<lparr>w_pre := q\<rparr> = state_of [] q []" for q
    by (simp add: wb_start_def state_of_def columns_def col_of_def texts_simps text_of_def keys_of_def put_all_def numeral_eq_Suc)
  moreover have "(state_of [] (wb_query v) (wb_reforms v))\<lparr>w_pre := wb_query v\<rparr> = state_of [] (wb_query v) (wb_reforms v)"
    by (simp add: state_of_def)
  moreover have "w_pre wb_start = []" "w_pre (state_of [] q []) = q" for q by (simp_all add: wb_start_def state_of_def)
  ultimately have "record_step v wb_start = state_of [] (wb_query v) (wb_reforms v)"
    using assms(2) Cons push_records_state [of "wb_reforms v" "[]" "wb_query v" "[]"] by (simp add: record_step_def Let_def)
  moreover have "wb_query v \<noteq> []" "\<forall>v \<in> set ws. wb_query v \<noteq> []" using assms(2) Cons by simp_all
  ultimately show ?thesis
    using fold_groups [of "wb_query v" ws "[]" "wb_reforms v"] by (simp add: collect_def Cons groups_of_def split: if_splits)
qed (use assms in simp)

section \<open>Reading the file back\<close>

lemma read_all_ok:
  assumes "\<forall>x \<in> set xs. enc x = le_bytes 4 (cnt x) @ raw x \<and> length (raw x) = sz * cnt x \<and> cnt x < 2 ^ 32 \<and> dec (cnt x) (raw x) = x"
  shows "read_all sz dec (length xs) (concat (map enc xs) @ rest) = Some (xs, rest)"
  using assms
proof (induction xs)
  case (Cons x xs)
  have x: "enc x = le_bytes 4 (cnt x) @ raw x" "length (raw x) = sz * cnt x" "cnt x < 2 ^ 32" "dec (cnt x) (raw x) = x"
    using Cons.prems by simp_all
  have "read_block sz (enc x @ f) = Some (cnt x, raw x, f)" for f
    using x(1-3) by (simp add: read_block_def fread_append le_val_le_bytes)
  then show ?case using Cons x(4) by simp
qed simp

lemma le_val_word [simp]: "word_of_nat (le_val (le_bytes 4 (unat w))) = (w :: 32 word)"
proof -
  have "unat w mod 256 ^ 4 = unat w" using unsigned_less [where ?'a = nat, of w] by simp
  then show ?thesis by (simp add: le_val_le_bytes)
qed

lemma read_ranges_ok: "read_ranges (length rs) (concat (map (\<lambda>(b, e). w32_bytes b @ w32_bytes e) rs)) = rs"
  by (induction rs) (auto simp: w32_bytes_def)

lemma length_ranges_raw: "length (concat (map (\<lambda>(b, e). w32_bytes b @ w32_bytes e) rs)) = 8 * length rs"
  by (induction rs) (auto simp: w32_bytes_def)

lemma read_lens_ok: "read_units (length ls) (concat (map (le_bytes 4) ls)) = map word_of_nat ls"
proof (induction ls)
  case (Cons n ls)
  have "(word_of_nat (n mod 256 ^ 4) :: 32 word) = word_of_nat n" by (rule word_of_nat_eq_iff [THEN iffD2]) (simp add: take_bit_eq_mod)
  then show ?case using Cons by (simp add: le_val_le_bytes)
qed simp

lemma length_lens_raw: "length (concat (map (le_bytes 4) ls)) = 4 * length ls"
  by (induction ls) auto

lemma load_wb_bytes:
  assumes us: "2 \<le> length us" "length us < 2 ^ 30" and cols: "length (w_cols s) = 7"
    and small: "\<forall>c \<in> set (w_cols s). length (c_ranges c) < 2 ^ 32 \<and> length (fst (c_chars c)) < 2 ^ 32" "length (w_querylen s) < 2 ^ 32"
  shows "LoadIndex_wb (Some (wb_bytes us s)) = Inr (0, Some \<lparr>i_da = us, i_ranges = map c_ranges (w_cols s),
    i_bufs = map (\<lambda>c. fst (c_chars c)) (w_cols s), i_querylen = map word_of_nat (w_querylen s)\<rparr>)"
proof -
  let ?R = "concat (map ranges_bytes (map c_ranges (w_cols s)))" and ?C = "concat (map chars_bytes (map (\<lambda>c. fst (c_chars c)) (w_cols s)))"
  obtain tail where f: "wb_bytes us s = (le_bytes 4 0 @ le_bytes 4 (4 * length us)) @ save us @ (?R @ ?C @ lens_bytes (w_querylen s) @ tail)"
    by (simp add: wb_bytes_def Let_def comp_def)
  let ?rest = "?R @ ?C @ lens_bytes (w_querylen s) @ tail"
  have d: "fread 4 (drop 4 (wb_bytes us s)) = Some (le_bytes 4 (4 * length us), save us @ ?rest)"
    unfolding f by (simp add: fread_def)
  have n: "le_val (le_bytes 4 (4 * length us)) = 4 * length us" using us(2) by (simp add: le_val_le_bytes)
  have "length (le_bytes 4 0 @ le_bytes 4 (4 * length us)) = 8" by simp
  then have o: "open_da (Some (wb_bytes us s)) 8 (4 * length us) = Some (Some us)"
    unfolding f using open_save [OF us(1), of "le_bytes 4 0 @ le_bytes 4 (4 * length us)"] by metis
  have dr: "drop (8 + 4 * length us) (wb_bytes us s) = ?rest" unfolding f by (simp add: save_def)
  have r: "load_ranges ?rest = Some (map c_ranges (w_cols s), ?C @ lens_bytes (w_querylen s) @ tail)"
    using read_all_ok [of "map c_ranges (w_cols s)" ranges_bytes length "\<lambda>rs. concat (map (\<lambda>(b, e). w32_bytes b @ w32_bytes e) rs)" 8
        read_ranges "?C @ lens_bytes (w_querylen s) @ tail"] small(1) cols
    by (simp add: load_ranges_def ranges_bytes_def length_ranges_raw read_ranges_ok)
  have c: "load_bufs (?C @ lens_bytes (w_querylen s) @ tail) =
      Some (map (\<lambda>c. fst (c_chars c)) (w_cols s), lens_bytes (w_querylen s) @ tail)"
    using read_all_ok [of "map (\<lambda>c. fst (c_chars c)) (w_cols s)" chars_bytes length "\<lambda>cs. cs" 1 "\<lambda>n b. b" "lens_bytes (w_querylen s) @ tail"]
      small(1) cols by (simp add: load_bufs_def chars_bytes_def)
  have "read_block 4 (lens_bytes (w_querylen s) @ tail) = Some (length (w_querylen s), concat (map (le_bytes 4) (w_querylen s)), tail)"
    using small(2) by (simp add: read_block_def lens_bytes_def fread_append length_lens_raw le_val_le_bytes)
  then have l: "load_querylen (lens_bytes (w_querylen s) @ tail) = Some (map word_of_nat (w_querylen s), tail)"
    by (simp add: load_querylen_def read_lens_ok)
  show ?thesis unfolding LoadIndex_wb_def using d n o dr r c l by (simp add: Let_def)
qed

section \<open>Looking up\<close>

definition records_of :: "WhiteBlackList_TMP list \<Rightarrow> bytes \<Rightarrow> Pos_Reform list" where
  "records_of vs q = concat (map wb_reforms (filter (\<lambda>v. wb_query v = q) vs))"

lemma groups_of_lookup:
  assumes "sorted (map wb_query vs)" and "vs \<noteq> []"
  shows "sorted_wrt (<) (map fst (groups_of vs))"
    and "map_of (groups_of vs) q = (if q \<in> wb_query ` set vs then Some (records_of vs q) else None)"
proof -
  obtain v ws where v: "vs = v # ws" using assms(2) by (cases vs) auto
  have srt: "sorted (map wb_query ws)" "\<forall>w \<in> set ws. wb_query v \<le> wb_query w" using assms(1) v by auto
  show "sorted_wrt (<) (map fst (groups_of vs))"
    unfolding groups_of_def v list.case by (rule run_groups_sorted [OF srt])
  have "q \<in> wb_query ` set ws \<longleftrightarrow> filter (\<lambda>v. wb_query v = q) ws \<noteq> []" by (auto simp: filter_empty_conv image_iff)
  then show "map_of (groups_of vs) q = (if q \<in> wb_query ` set vs then Some (records_of vs q) else None)"
    unfolding groups_of_def v list.case run_groups_lookup [OF srt] records_of_def by (auto split: list.splits)
qed

lemma unat_word_small: "n < 2 ^ 32 \<Longrightarrow> unat (word_of_nat n :: 32 word) = n"
  by (simp add: unat_of_nat)

lemma ranges_begin:
  "m < length gs \<Longrightarrow> ranges_of f off gs ! m = (b, e) \<Longrightarrow> off + length (texts f gs) < 2 ^ 32 \<Longrightarrow> off \<le> unat b"
proof (induction gs arbitrary: off m)
  case (Cons g gs)
  obtain k' rs' where g: "g = (k', rs')" by (cases g)
  have lt: "off + length (text_of f rs') + length (texts f gs) < 2 ^ 32" using Cons.prems(3) by (simp add: g texts_simps)
  show ?case
  proof (cases m)
    case 0
    have "unat (word_of_nat off :: 32 word) = off" using lt by (intro unat_word_small) simp
    then show ?thesis using Cons.prems(2) 0 by (simp add: g)
  next
    case (Suc m')
    then have "off + length (text_of f rs') \<le> unat b"
      using Cons.prems(1,2) g by (intro Cons.IH [OF _ _ lt, of m']) simp_all
    then show ?thesis by simp
  qed
qed simp

lemma range_bytes:
  assumes "n < length gs" and "gs ! n = (k, rs)" and "rs \<noteq> []" and "off + length (texts f gs) < 2 ^ 32"
  shows "let (b, e) = ranges_of f off gs ! n
    in take (unat e + 1 - unat b) (drop (unat b - off) (texts f gs)) = text_of f rs"
  using assms
proof (induction gs arbitrary: off n)
  case (Cons g gs)
  obtain k' rs' where g: "g = (k', rs')" by (cases g)
  let ?l = "length (text_of f rs')"
  have lt: "off + ?l + length (texts f gs) < 2 ^ 32" using Cons.prems(4) by (simp add: g texts_simps)
  show ?case
  proof (cases n)
    case 0
    then have rs: "rs' = rs" using Cons.prems(2) by (simp add: g)
    have pos: "0 < ?l" using Cons.prems(3) unfolding rs by (cases rs) (simp_all add: text_of_def)
    have "unat (word_of_nat off :: 32 word) = off" using lt by (intro unat_word_small) simp
    moreover have "unat (word_of_nat (off + ?l) - 1 :: 32 word) = off + ?l - 1"
    proof -
      obtain l where l: "off + ?l = Suc l" using pos by (cases "off + ?l") simp_all
      have "(word_of_nat (off + ?l) - 1 :: 32 word) = word_of_nat (off + ?l - 1)" unfolding l by simp
      also have "unat \<dots> = off + ?l - 1" using lt by (intro unat_word_small) simp
      finally show ?thesis .
    qed
    ultimately show ?thesis using pos rs 0 by (simp add: g texts_simps)
  next
    case (Suc m)
    obtain b e where be: "ranges_of f (off + ?l) gs ! m = (b, e)" by (cases "ranges_of f (off + ?l) gs ! m")
    have m: "m < length gs" "gs ! m = (k, rs)" using Cons.prems(1,2) Suc by simp_all
    have ih: "take (unat e + 1 - unat b) (drop (unat b - (off + ?l)) (texts f gs)) = text_of f rs"
      using Cons.IH [OF m Cons.prems(3) lt] be by simp
    have "off + ?l \<le> unat b" using ranges_begin [OF m(1) be lt] .
    then have "drop (unat b - off) (text_of f rs' @ texts f gs) = drop (unat b - (off + ?l)) (texts f gs)" by simp
    then show ?thesis using ih be Suc by (simp add: g texts_simps)
  qed
qed simp

lemma keys_of_groups:
  assumes "sorted_wrt (<) (map fst gs)"
  shows "sorted_wrt (<) (map fst (put_all (keys_of gs) []))" and "fst ` set (put_all (keys_of gs) []) = fst ` set gs"
    and "n < length gs \<Longrightarrow> map_of (put_all (keys_of gs) []) (fst (gs ! n)) = Some (word_of_nat n)"
proof -
  have keys: "map fst (keys_of gs) = map fst gs" by (simp add: keys_of_def)
  have p: "sorted_wrt (<) (map fst (put_all (keys_of gs) []))" "fst ` set (put_all (keys_of gs) []) = fst ` set (keys_of gs)"
      "map_of (put_all (keys_of gs) []) = (\<lambda>q. case map_of (rev (keys_of gs)) q of None \<Rightarrow> None | Some off \<Rightarrow> Some (word_of_nat off))"
    using put_all_ok [of "[]" "keys_of gs"] by (auto simp: fun_eq_iff split: option.splits)
  have "fst ` set (keys_of gs) = fst ` set gs" using arg_cong [OF keys, of set] by simp
  then show "sorted_wrt (<) (map fst (put_all (keys_of gs) []))" "fst ` set (put_all (keys_of gs) []) = fst ` set gs"
    using p(1,2) by simp_all
  have d: "distinct (map fst gs)" using assms by (simp add: strict_sorted_iff)
  have "map_of (keys_of gs) (fst (gs ! n)) = Some n" if "n < length gs"
    using map_of_zip_nth [of "map fst gs" "[0..<length gs]" n] d that by (simp add: keys_of_def)
  then show "n < length gs \<Longrightarrow> map_of (put_all (keys_of gs) []) (fst (gs ! n)) = Some (word_of_nat n)"
    unfolding p(3) using d keys by (simp add: map_of_rev_distinct)
qed

lemma groups_bound:
  assumes "sorted (map wb_query vs)" and "vs \<noteq> []"
  shows "fst ` set (groups_of vs) = wb_query ` set vs" and "length (groups_of vs) \<le> length vs"
proof -
  show k: "fst ` set (groups_of vs) = wb_query ` set vs"
    using assms(2) by (cases vs) (simp_all add: groups_of_def run_groups_keys)
  have "distinct (map fst (groups_of vs))" using groups_of_lookup(1) [OF assms] by (simp add: strict_sorted_iff)
  then have "length (groups_of vs) = card (fst ` set (groups_of vs))" using distinct_card by fastforce
  also have "\<dots> \<le> card (set vs)" unfolding k by (simp add: card_image_le)
  also have "\<dots> \<le> length vs" by (rule card_length)
  finally show "length (groups_of vs) \<le> length vs" .
qed

lemma wb_trie_input:
  assumes "sorted_wrt (<) (map fst gs)" and "fst ` set gs = set xs" and "xs \<noteq> []"
    and "\<forall>x \<in> set xs. nul_free x" and "256 + 256 * total_work xs < 2 ^ 29"
  shows "da_input (put_all (keys_of gs) [])"
proof -
  let ?m = "put_all (keys_of gs) []"
  have m: "sorted_wrt (<) (map fst ?m)" "fst ` set ?m = set xs" using keys_of_groups(1,2) [OF assms(1)] assms(2) by simp_all
  then have "total_work (map fst ?m) \<le> total_work xs" by (intro total_work_keys) (auto simp: strict_sorted_iff)
  moreover have "keys_ok (map fst ?m)" using m assms(4) by (fastforce simp: keys_ok_def)
  moreover have "?m \<noteq> []" using m(2) assms(3) by auto
  ultimately show ?thesis using assms(5) by (simp add: da_input_def)
qed

section \<open>Properties\<close>

text \<open>
  C10. The index with seven columns gives every query its records: after the file was written and read
  again, a query that was indexed is found under a number, and the range of that number cuts out of
  each column's buffer exactly the strings of that column, NUL after each, of all the records of the
  query in the order the sort left them; a query that was not indexed is not found.
\<close>

theorem wb_index_groups:
  assumes perm: "mset (std_sort vect) = mset vect" and srt: "sorted (map wb_query (std_sort vect))" and ne: "vect \<noteq> []"
    and recs: "\<forall>v \<in> set vect. wb_query v \<noteq> [] \<and> nul_free (wb_query v) \<and> wb_reforms v \<noteq> []"
    and work: "256 + 256 * total_work (map wb_query vect) < 2 ^ 29" and groups: "length vect < 2 ^ 31"
    and small: "\<forall>f \<in> set columns. length (texts f (groups_of (std_sort vect))) < 2 ^ 32"
  shows "\<exists>out ix. OutputIndexFile_wb std_sort True vect = Inr (0, Some out) \<and> LoadIndex_wb (Some out) = Inr (0, Some ix) \<and>
    (\<forall>q. nul_free q \<longrightarrow>
      (if q \<in> wb_query ` set vect
       then \<exists>n. exactMatchSearch (i_da ix) q = Some (int n) \<and> n < length (i_querylen ix) \<and>
         (\<forall>c < 7. let (b, e) = i_ranges ix ! c ! n
            in take (unat e + 1 - unat b) (drop (unat b) (i_bufs ix ! c)) = text_of (columns ! c) (records_of (std_sort vect) q))
       else exactMatchSearch (i_da ix) q = Some (-1)))"
proof -
  let ?vs = "std_sort vect" and ?s = "collect (std_sort vect)"
  let ?gs = "groups_of ?vs"
  let ?m = "put_all (keys_of ?gs) []"
  have sv: "set ?vs = set vect" "length ?vs = length vect" using perm by (auto dest: mset_eq_setD mset_eq_length)
  then have nev: "?vs \<noteq> []" using ne by auto
  have gs: "sorted_wrt (<) (map fst ?gs)" "fst ` set ?gs = wb_query ` set vect" "length ?gs < 2 ^ 31"
    using groups_of_lookup(1) [OF srt nev] groups_bound [OF srt nev] sv groups by simp_all
  obtain k where k: "?s = state_of ?gs k []" using collect_groups [OF nev] recs sv by auto
  have "da_input ?m" using wb_trie_input [OF gs(1), of "map wb_query vect"] gs(2) ne recs work by auto
  then obtain us where us: "build_da ?m = Some us" "2 \<le> length us" "length us < 2 ^ 30"
      "\<forall>q. nul_free q \<longrightarrow> exactMatchSearch us q = Some (da_lookup ?m q)" using build_da_ok by blast
  define ix where "ix = \<lparr>i_da = us, i_ranges = map c_ranges (w_cols ?s), i_bufs = map (\<lambda>c. fst (c_chars c)) (w_cols ?s),
    i_querylen = map word_of_nat (w_querylen ?s)\<rparr>"
  have cols: "w_cols ?s = map (col_of ?gs []) columns" by (simp add: k state_of_def)
  have load: "LoadIndex_wb (Some (wb_bytes us ?s)) = Inr (0, Some ix)"
    unfolding ix_def using small gs(3)
    by (intro load_wb_bytes us(2,3)) (auto simp: cols col_of_def text_of_def k state_of_def columns_def)
  have out: "OutputIndexFile_wb std_sort True vect = Inr (0, Some (wb_bytes us ?s))"
    using us(1) by (simp add: OutputIndexFile_wb_def Let_def k state_of_def)
  have lens: "length (i_querylen ix) = length ?gs" by (simp add: ix_def k state_of_def)
  have found: "\<exists>n. exactMatchSearch (i_da ix) q = Some (int n) \<and> n < length (i_querylen ix) \<and>
      (\<forall>c < 7. let (b, e) = i_ranges ix ! c ! n
         in take (unat e + 1 - unat b) (drop (unat b) (i_bufs ix ! c)) = text_of (columns ! c) (records_of ?vs q))"
    if q: "nul_free q" "q \<in> wb_query ` set vect" for q
  proof -
    have "map_of ?gs q = Some (records_of ?vs q)" using groups_of_lookup(2) [OF srt nev, of q] q(2) sv(1) by simp
    then have "(q, records_of ?vs q) \<in> set ?gs" by (rule map_of_SomeD)
    then obtain n where n: "n < length ?gs" "?gs ! n = (q, records_of ?vs q)" by (auto simp: in_set_conv_nth)
    have "map_of ?m q = Some (word_of_nat n)" using keys_of_groups(3) [OF gs(1) n(1)] n(2) by simp
    then have e: "exactMatchSearch us q = Some (int n)"
      using us(4) q(1) n(1) gs(3) by (simp add: da_lookup_def sint_small_nat(1))
    have rne: "records_of ?vs q \<noteq> []" using q(2) recs sv(1) by (auto simp: records_of_def filter_empty_conv)
    have "let (b, e) = i_ranges ix ! c ! n
         in take (unat e + 1 - unat b) (drop (unat b) (i_bufs ix ! c)) = text_of (columns ! c) (records_of ?vs q)" if c: "c < 7" for c
    proof -
      have l: "c < length columns" using c by (simp add: columns_def)
      have "i_ranges ix ! c = ranges_of (columns ! c) 0 ?gs" "i_bufs ix ! c = texts (columns ! c) ?gs"
        using l by (simp_all add: ix_def cols col_of_def text_of_def)
      moreover have "0 + length (texts (columns ! c) ?gs) < 2 ^ 32" using small l by simp
      ultimately show ?thesis using range_bytes [OF n rne, of 0 "columns ! c"] by simp
    qed
    then show ?thesis using e n(1) lens by (intro exI [of _ n]) (simp add: ix_def)
  qed
  have missing: "exactMatchSearch (i_da ix) q = Some (-1)" if q: "nul_free q" "q \<notin> wb_query ` set vect" for q
  proof -
    have "map_of ?m q = None" using keys_of_groups(2) [OF gs(1)] gs(2) q(2) by (simp add: map_of_eq_None_iff)
    then show ?thesis using us(4) q(1) by (simp add: ix_def da_lookup_def)
  qed
  show ?thesis using out load found missing by auto
qed

text \<open>Two records of one query and one of another, sorted by query.\<close>

definition sample_reform :: "bytes \<Rightarrow> Pos_Reform" where
  "sample_reform t = \<lparr>pr_vr = t, pr_label = [], pr_type = ''whole'', pr_reform = t, pr_item_query = [], pr_data = [],
     pr_iswappc = ''wap'', pr_query_len = 1\<rparr>"

definition sample_records :: "WhiteBlackList_TMP list" where
  "sample_records = [\<lparr>wb_query = ''a'', wb_reforms = [sample_reform ''x'']\<rparr>, \<lparr>wb_query = ''a'', wb_reforms = [sample_reform ''yy'']\<rparr>,
     \<lparr>wb_query = ''b'', wb_reforms = [sample_reform ''z'']\<rparr>]"

lemma wb_index_groups_witness:
  "\<exists>out ix n. OutputIndexFile_wb (\<lambda>v. v) True sample_records = Inr (0, Some out) \<and> LoadIndex_wb (Some out) = Inr (0, Some ix) \<and>
    exactMatchSearch (i_da ix) ''c'' = Some (-1) \<and> exactMatchSearch (i_da ix) ''a'' = Some (int n) \<and>
    (let (b, e) = i_ranges ix ! 0 ! n
     in take (unat e + 1 - unat b) (drop (unat b) (i_bufs ix ! 0)) = [CHR ''x'', NUL, CHR ''y'', CHR ''y'', NUL])"
proof -
  have g: "groups_of sample_records = [(''a'', [sample_reform ''x'', sample_reform ''yy'']), (''b'', [sample_reform ''z''])]"
    by (simp add: groups_of_def sample_records_def)
  have srt: "sorted (map wb_query sample_records)" by (simp add: sample_records_def less_eq_char_def)
  have recs: "\<forall>v \<in> set sample_records. wb_query v \<noteq> [] \<and> nul_free (wb_query v) \<and> wb_reforms v \<noteq> []"
    by (simp add: sample_records_def nul_free_def)
  have work: "256 + 256 * total_work (map wb_query sample_records) < 2 ^ 29" by (simp add: sample_records_def total_work_def)
  have num: "length sample_records < 2 ^ 31" "sample_records \<noteq> []" by (simp_all add: sample_records_def)
  have small: "\<forall>f \<in> set columns. length (texts f (groups_of sample_records)) < 2 ^ 32"
    by (simp add: g texts_def text_of_def columns_def sample_reform_def cstr_def)
  obtain out ix where ix: "OutputIndexFile_wb (\<lambda>v. v) True sample_records = Inr (0, Some out)" "LoadIndex_wb (Some out) = Inr (0, Some ix)"
      "\<forall>q. nul_free q \<longrightarrow>
      (if q \<in> wb_query ` set sample_records
       then \<exists>n. exactMatchSearch (i_da ix) q = Some (int n) \<and> n < length (i_querylen ix) \<and>
         (\<forall>c < 7. let (b, e) = i_ranges ix ! c ! n
            in take (unat e + 1 - unat b) (drop (unat b) (i_bufs ix ! c)) = text_of (columns ! c) (records_of sample_records q))
       else exactMatchSearch (i_da ix) q = Some (-1))"
    using wb_index_groups [of "\<lambda>v. v" sample_records, OF refl srt num(2) recs work num(1) small] by blast
  have q: "nul_free ''a''" "nul_free ''c''" "''a'' \<in> wb_query ` set sample_records" "''c'' \<notin> wb_query ` set sample_records"
    by (simp_all add: nul_free_def sample_records_def)
  have "exactMatchSearch (i_da ix) ''c'' = Some (-1)" using ix(3) q(2,4) by simp
  moreover obtain n where n: "exactMatchSearch (i_da ix) ''a'' = Some (int n)"
      "\<forall>c < 7. let (b, e) = i_ranges ix ! c ! n
            in take (unat e + 1 - unat b) (drop (unat b) (i_bufs ix ! c)) = text_of (columns ! c) (records_of sample_records ''a'')"
    using spec [OF ix(3), of "''a''"] q(1) unfolding if_P [OF q(3)] by blast
  moreover have t: "text_of (columns ! 0) (records_of sample_records ''a'') = [CHR ''x'', NUL, CHR ''y'', CHR ''y'', NUL]"
    by (simp add: text_of_def columns_def records_of_def sample_records_def sample_reform_def cstr_def)
  moreover have "let (b, e) = i_ranges ix ! 0 ! n
     in take (unat e + 1 - unat b) (drop (unat b) (i_bufs ix ! 0)) = [CHR ''x'', NUL, CHR ''y'', CHR ''y'', NUL]"
    using n(2) unfolding t [symmetric] by (rule allE [of _ 0]) simp
  ultimately show ?thesis using ix(1,2) by (intro exI [of _ out] exI [of _ ix] exI [of _ n] conjI)
qed

end
